(* ===== verification/Prelude.thy ===== *)
theory Prelude
  imports Main "HOL-Library.Word"
begin

text \<open>
  Shared vocabulary of the development: the machine types of the C code (types.h), the way a
  kernel routine can stop without returning (a panic, a switch to the scheduler, a spin on a lock held by
  another CPU), sequencing of fallible routines, byte-addressed memory with 32-bit little-endian
  loads and stores, and the generic lemmas on words and lists the components share.
\<close>

unbundle bit_operations_syntax

named_theorems run_simps \<open>equations that execute one step of a fallible routine\<close>
named_theorems ok_iff \<open>inversion of a successful run\<close>

section \<open>Machine types\<close>

type_synonym u8 = "8 word"
type_synonym u16 = "16 word"
type_synonym u32 = "32 word"
type_synonym mem = "u32 \<Rightarrow> u8"

section \<open>Fallible routines\<close>

text \<open>
  The \<open>void *chan\<close> arguments of sleep and wakeup are addresses of kernel objects; each object the
  sources sleep on is one constructor, so that two channels are equal exactly when the addresses are.
\<close>

datatype chan =
    Ch_proc nat        \<comment> \<open>\<open>curproc\<close> in wait\<close>
  | Ch_ticks           \<comment> \<open>\<open>&ticks\<close> in sys_sleep\<close>
  | Ch_log             \<comment> \<open>\<open>&log\<close> in begin_op\<close>
  | Ch_buf nat         \<comment> \<open>\<open>b\<close> in iderw\<close>
  | Ch_buflock nat     \<comment> \<open>\<open>&b->lock\<close> in acquiresleep\<close>
  | Ch_inodelock nat   \<comment> \<open>\<open>&ip->lock\<close> in acquiresleep\<close>
  | Ch_nread u32       \<comment> \<open>\<open>&p->nread\<close> in piperead\<close>
  | Ch_nwrite u32      \<comment> \<open>\<open>&p->nwrite\<close> in pipewrite\<close>
  | Ch_input           \<comment> \<open>\<open>&input.r\<close> in consoleread\<close>

text \<open>
  A kernel routine returns, panics with a message, gives up the CPU (sched switches to the scheduler
  in the given state and the routine goes on when the process runs again), spins on a lock that
  another CPU holds, or faults: it reads through a null pointer or past the end of an array.
\<close>

datatype 's stop = Panic string | Switch 's | Spin | Fault

definition seq :: "'e + 'a \<Rightarrow> ('a \<Rightarrow> 'e + 'b) \<Rightarrow> 'e + 'b" where
  "seq m f = (case m of Inl e \<Rightarrow> Inl e | Inr a \<Rightarrow> f a)"

lemma seq_Inr [simp, run_simps]: "seq (Inr a) f = f a"
  by (simp add: seq_def)

lemma seq_Inl [simp, run_simps]: "seq (Inl e) f = Inl e"
  by (simp add: seq_def)

lemma seq_eq_Inr [ok_iff]: "seq m f = Inr b \<longleftrightarrow> (\<exists>a. m = Inr a \<and> f a = Inr b)"
  by (cases m) auto

lemma seq_eq_Inl: "seq m f = Inl e \<longleftrightarrow> m = Inl e \<or> (\<exists>a. m = Inr a \<and> f a = Inl e)"
  by (cases m) auto

lemma seq_assoc: "seq (seq m f) g = seq m (\<lambda>a. seq (f a) g)"
  by (cases m) auto

lemma seq_cong [fundef_cong]:
  "m = m' \<Longrightarrow> (\<And>a. m' = Inr a \<Longrightarrow> f a = g a) \<Longrightarrow> seq m f = seq m' g"
  by (cases m') auto

lemma seq_ok: "m = Inr a \<Longrightarrow> seq m f = f a"
  by simp

definition deref :: "'a option \<Rightarrow> 's stop + 'a" where
  "deref p = (case p of None \<Rightarrow> Inl Fault | Some a \<Rightarrow> Inr a)"

lemma deref_simps [simp, run_simps]: "deref None = Inl Fault" "deref (Some a) = Inr a"
  by (simp_all add: deref_def)

text \<open>A loop over a list of indices whose body changes the state and may stop.\<close>

primrec fold_st :: "('i \<Rightarrow> 's \<Rightarrow> 'e + 's) \<Rightarrow> 'i list \<Rightarrow> 's \<Rightarrow> 'e + 's" where
  "fold_st f [] s = Inr s"
| "fold_st f (i # is) s = seq (f i s) (fold_st f is)"

lemma fold_st_append: "fold_st f (xs @ ys) s = seq (fold_st f xs s) (fold_st f ys)"
  by (induction xs arbitrary: s) (simp_all add: seq_assoc cong: seq_cong)

lemma fold_st_cong [fundef_cong]:
  "xs = ys \<Longrightarrow> s = t \<Longrightarrow> (\<And>i u. i \<in> set ys \<Longrightarrow> f i u = g i u) \<Longrightarrow> fold_st f xs s = fold_st g ys t"
proof (induction xs arbitrary: ys s t)
  case Nil
  then show ?case by auto
next
  case (Cons x xs)
  then obtain zs where ys: "ys = x # zs" by auto
  have "f x s = g x t" using Cons.prems by (simp add: ys)
  moreover have "fold_st f xs u = fold_st g zs u" for u
    using Cons.prems by (intro Cons.IH) (auto simp: ys)
  ultimately show ?case by (simp add: ys) (rule seq_cong, simp_all)
qed

text \<open>The values of \<open>i\<close> in a loop \<open>for(i = 0; i < n; i += k)\<close>.\<close>

definition steps :: "nat \<Rightarrow> nat \<Rightarrow> nat list" where
  "steps n k = map (\<lambda>i. i * k) [0..<(n + k - 1) div k]"

section \<open>Words\<close>

lemma unat_less32: "unat (w :: u32) < 4294967296"
  using unsigned_less [where 'a = nat and 'b = 32, of w] by simp

lemma unat_of_nat32: "n < 2 ^ 32 \<Longrightarrow> unat (of_nat n :: u32) = n"
  by (simp add: unat_of_nat)

lemma unat_minus_1 [simp]: "unat (-1 :: u32) = 4294967295"
  by (simp add: unsigned_minus_1_eq_mask mask_eq_exp_minus_1)

lemma u32_eq_of_nat: "n < 2 ^ 32 \<Longrightarrow> w = of_nat n \<longleftrightarrow> unat w = n" for w :: u32
  by (auto simp: unat_of_nat32)

lemma u32_eq_add_iff: "(x::u32) = a + b \<longleftrightarrow> x - a = b"
  by (auto simp: diff_eq_eq add.commute)

section \<open>Byte memory\<close>

text \<open>
  \<open>rd32\<close> and \<open>wr32\<close> are the 32-bit load and store of the i386: four bytes, least significant first.
\<close>

definition rd32 :: "mem \<Rightarrow> u32 \<Rightarrow> u32" where
  "rd32 m a = ucast (m a) OR push_bit 8 (ucast (m (a + 1)))
     OR push_bit 16 (ucast (m (a + 2))) OR push_bit 24 (ucast (m (a + 3)))"

definition wr32 :: "mem \<Rightarrow> u32 \<Rightarrow> u32 \<Rightarrow> mem" where
  "wr32 m a v = m(a := ucast v, a + 1 := ucast (drop_bit 8 v),
     a + 2 := ucast (drop_bit 16 v), a + 3 := ucast (drop_bit 24 v))"

lemma word_offset_neq [simp]:
  "(a::u32) + 1 \<noteq> a" "a + 2 \<noteq> a" "a + 3 \<noteq> a"
  "a \<noteq> a + 1" "a \<noteq> a + 2" "a \<noteq> a + 3"
  "a + 1 \<noteq> a + 2" "a + 1 \<noteq> a + 3" "a + 2 \<noteq> a + 3"
  "a + 2 \<noteq> a + 1" "a + 3 \<noteq> a + 1" "a + 3 \<noteq> a + 2"
  by simp_all

lemma rd32_wr32_same [simp]: "rd32 (wr32 m a v) a = v"
proof (rule bit_word_eqI)
  fix n assume "n < LENGTH(32)"
  then have n: "n < 32" by simp
  consider "n < 8" | "8 \<le> n \<and> n < 16" | "16 \<le> n \<and> n < 24" | "24 \<le> n \<and> n < 32"
    using n by linarith
  then show "bit (rd32 (wr32 m a v) a) n = bit v n"
    using n by cases (auto simp: rd32_def wr32_def bit_simps)
qed

lemma wr32_other:
  "x \<notin> {a, a + 1, a + 2, a + 3} \<Longrightarrow> wr32 m a v x = m x"
  by (simp add: wr32_def)

text \<open>
  The same on a block or a structure held as a list of bytes: 16-bit and 32-bit fields at a byte offset.
\<close>

definition ld16 :: "u8 list \<Rightarrow> nat \<Rightarrow> u16" where
  "ld16 xs k = ucast (xs ! k) OR push_bit 8 (ucast (xs ! (k + 1)))"

definition st16 :: "u8 list \<Rightarrow> nat \<Rightarrow> u16 \<Rightarrow> u8 list" where
  "st16 xs k v = xs[k := ucast v, k + 1 := ucast (drop_bit 8 v)]"

definition ld32 :: "u8 list \<Rightarrow> nat \<Rightarrow> u32" where
  "ld32 xs k = ucast (xs ! k) OR push_bit 8 (ucast (xs ! (k + 1)))
     OR push_bit 16 (ucast (xs ! (k + 2))) OR push_bit 24 (ucast (xs ! (k + 3)))"

definition st32 :: "u8 list \<Rightarrow> nat \<Rightarrow> u32 \<Rightarrow> u8 list" where
  "st32 xs k v = xs[k := ucast v, k + 1 := ucast (drop_bit 8 v),
     k + 2 := ucast (drop_bit 16 v), k + 3 := ucast (drop_bit 24 v)]"

lemma length_st [simp]: "length (st16 xs k w) = length xs" "length (st32 xs k v) = length xs"
  by (simp_all add: st16_def st32_def)

lemma ld16_st16 [simp]: "k + 1 < length xs \<Longrightarrow> ld16 (st16 xs k v) k = v"
proof (rule bit_word_eqI)
  fix n assume k: "k + 1 < length xs" and "n < LENGTH(16)"
  then have "n < 16" by simp
  then consider "n < 8" | "8 \<le> n \<and> n < 16" by linarith
  then show "bit (ld16 (st16 xs k v) k) n = bit v n"
    using k by cases (auto simp: ld16_def st16_def bit_simps nth_list_update)
qed

lemma ld32_st32 [simp]: "k + 3 < length xs \<Longrightarrow> ld32 (st32 xs k v) k = v"
proof (rule bit_word_eqI)
  fix n assume k: "k + 3 < length xs" and "n < LENGTH(32)"
  then have "n < 32" by simp
  then consider "n < 8" | "8 \<le> n \<and> n < 16" | "16 \<le> n \<and> n < 24" | "24 \<le> n \<and> n < 32"
    by linarith
  then show "bit (ld32 (st32 xs k v) k) n = bit v n"
    using k by cases (auto simp: ld32_def st32_def bit_simps nth_list_update)
qed

lemma ld32_st32_other: "p + 4 \<le> k \<or> k + 4 \<le> p \<Longrightarrow> ld32 (st32 xs k v) p = ld32 xs p"
  by (auto simp: ld32_def st32_def nth_list_update)

lemma ld16_st16_other: "p + 2 \<le> k \<or> k + 2 \<le> p \<Longrightarrow> ld16 (st16 xs k v) p = ld16 xs p"
  by (auto simp: ld16_def st16_def nth_list_update)

lemma ld16_st32_other: "p + 2 \<le> k \<or> k + 4 \<le> p \<Longrightarrow> ld16 (st32 xs k v) p = ld16 xs p"
  by (auto simp: ld16_def st32_def nth_list_update)

lemma ld32_st16_other: "p + 4 \<le> k \<or> k + 2 \<le> p \<Longrightarrow> ld32 (st16 xs k v) p = ld32 xs p"
  by (auto simp: ld32_def st16_def nth_list_update)

lemma rd32_cong:
  "m a = m' a \<Longrightarrow> m (a + 1) = m' (a + 1) \<Longrightarrow> m (a + 2) = m' (a + 2) \<Longrightarrow>
   m (a + 3) = m' (a + 3) \<Longrightarrow> rd32 m a = rd32 m' a"
  by (simp add: rd32_def)

end
