(* ===== verification/Kstring.thy ===== *)
theory Kstring
  imports Prelude
begin

text \<open>
  The kernel's string routines (string.c) on byte memory. Every routine takes the memory it reads
  and returns the memory it leaves; the pointer a C routine returns is its first argument and is
  left out. Loops over a count run on \<open>nat\<close>; loops that stop at a NUL byte take fuel, because on
  memory without a NUL they never end.
\<close>

section \<open>memset\<close>

text \<open>\<open>stosb\<close> and \<open>stosl\<close> of x86.h: store \<open>n\<close> bytes, or \<open>n\<close> 32-bit words, going up.\<close>

fun stosb :: "mem \<Rightarrow> u32 \<Rightarrow> u32 \<Rightarrow> nat \<Rightarrow> mem" where
  "stosb m addr data 0 = m"
| "stosb m addr data (Suc cnt) = stosb (m(addr := ucast data)) (addr + 1) data cnt"

fun stosl :: "mem \<Rightarrow> u32 \<Rightarrow> u32 \<Rightarrow> nat \<Rightarrow> mem" where
  "stosl m addr data 0 = m"
| "stosl m addr data (Suc cnt) = stosl (wr32 m addr data) (addr + 4) data cnt"

definition memset :: "mem \<Rightarrow> u32 \<Rightarrow> u32 \<Rightarrow> u32 \<Rightarrow> mem" where
  "memset m dst c n =
     (if dst mod 4 = 0 \<and> n mod 4 = 0 then
        (let c = c AND 0xFF
         in stosl m dst (push_bit 24 c OR push_bit 16 c OR push_bit 8 c OR c) (unat (n div 4)))
      else stosb m dst c (unat n))"

section \<open>memcmp\<close>

fun memcmp :: "mem \<Rightarrow> u32 \<Rightarrow> u32 \<Rightarrow> nat \<Rightarrow> int" where
  "memcmp m s1 s2 0 = 0"
| "memcmp m s1 s2 (Suc n) =
     (if m s1 \<noteq> m s2 then uint (m s1) - uint (m s2) else memcmp m (s1 + 1) (s2 + 1) n)"

section \<open>memmove\<close>

text \<open>
  The backward loop starts with both pointers past the end (\<open>s += n; d += n\<close>) and decrements
  before each copy; the forward loop copies and increments.
\<close>

fun move_down :: "mem \<Rightarrow> u32 \<Rightarrow> u32 \<Rightarrow> nat \<Rightarrow> mem" where
  "move_down m d s 0 = m"
| "move_down m d s (Suc n) = move_down (m(d - 1 := m (s - 1))) (d - 1) (s - 1) n"

fun move_up :: "mem \<Rightarrow> u32 \<Rightarrow> u32 \<Rightarrow> nat \<Rightarrow> mem" where
  "move_up m d s 0 = m"
| "move_up m d s (Suc n) = move_up (m(d := m s)) (d + 1) (s + 1) n"

definition memmove :: "mem \<Rightarrow> u32 \<Rightarrow> u32 \<Rightarrow> u32 \<Rightarrow> mem" where
  "memmove m dst src n =
     (if src < dst \<and> src + n > dst then move_down m (dst + n) (src + n) (unat n)
      else move_up m dst src (unat n))"

section \<open>Bounded string routines\<close>

fun strncmp :: "mem \<Rightarrow> u32 \<Rightarrow> u32 \<Rightarrow> nat \<Rightarrow> int" where
  "strncmp m p q 0 = 0"
| "strncmp m p q (Suc n) =
     (if m p \<noteq> 0 \<and> m p = m q then strncmp m (p + 1) (q + 1) n
      else uint (m p) - uint (m q))"

text \<open>
  strncpy: \<open>while(n-- > 0 && (*s++ = *t++) != 0);\<close> copies up to and including the first NUL, then
  \<open>while(n-- > 0) *s++ = 0;\<close> pads. A NUL copied on the last iteration leaves \<open>n\<close> at 0, and the
  padding loop does nothing; a count used up with no NUL leaves \<open>n\<close> at \<open>-1\<close>, and neither does it.
\<close>

fun pad_nul :: "mem \<Rightarrow> u32 \<Rightarrow> nat \<Rightarrow> mem" where
  "pad_nul m s 0 = m"
| "pad_nul m s (Suc n) = pad_nul (m(s := 0)) (s + 1) n"

fun strncpy_loop :: "mem \<Rightarrow> u32 \<Rightarrow> u32 \<Rightarrow> nat \<Rightarrow> mem" where
  "strncpy_loop m s t 0 = m"
| "strncpy_loop m s t (Suc n) =
     (let m' = m(s := m t)
      in if m' s \<noteq> 0 then strncpy_loop m' (s + 1) (t + 1) n else pad_nul m' (s + 1) n)"

definition strncpy :: "mem \<Rightarrow> u32 \<Rightarrow> u32 \<Rightarrow> int \<Rightarrow> mem" where
  "strncpy m s t n = strncpy_loop m s t (nat n)"

text \<open>
  safestrcpy: \<open>while(--n > 0 && (*s++ = *t++) != 0); *s = 0;\<close>. The store after the loop writes a NUL
  at the byte after the last one copied.
\<close>

fun safestrcpy_loop :: "mem \<Rightarrow> u32 \<Rightarrow> u32 \<Rightarrow> nat \<Rightarrow> mem" where
  "safestrcpy_loop m s t 0 = m(s := 0)"
| "safestrcpy_loop m s t (Suc n) =
     (let m' = m(s := m t)
      in if m' s \<noteq> 0 then safestrcpy_loop m' (s + 1) (t + 1) n else m'(s + 1 := 0))"

definition safestrcpy :: "mem \<Rightarrow> u32 \<Rightarrow> u32 \<Rightarrow> int \<Rightarrow> mem" where
  "safestrcpy m s t n = (if n \<le> 0 then m else safestrcpy_loop m s t (nat n - 1))"

fun strlen :: "nat \<Rightarrow> mem \<Rightarrow> u32 \<Rightarrow> nat option" where
  "strlen 0 m s = None"
| "strlen (Suc fuel) m s =
     (if m s = 0 then Some 0 else map_option Suc (strlen fuel m (s + 1)))"

section \<open>Address arithmetic\<close>

lemma unat_pred_offset: "x \<noteq> a \<Longrightarrow> unat (x - (a + 1)) = unat (x - a) - 1" for x a :: u32
  using unat_minus_one [of "x - a"] by (simp add: diff_diff_eq [symmetric])

lemma unat_offset_pos: "x \<noteq> a \<Longrightarrow> 0 < unat (x - a)" for x a :: u32
  by (simp add: unat_gt_0)

lemma unat_offset_4: "4 \<le> unat (x - a) \<Longrightarrow> unat (x - (a + 4)) = unat (x - a) - 4" for x a :: u32
proof -
  assume "4 \<le> unat (x - a)"
  then have "(4::u32) \<le> x - a"
    by (simp add: word_le_nat_alt)
  then have "unat ((x - a) - 4) = unat (x - a) - unat (4::u32)"
    by (rule unat_sub)
  then show ?thesis
    by (simp add: diff_diff_eq)
qed

lemma unat_offset_small: "unat (x - a) < 4 \<Longrightarrow> x \<in> {a, a + 1, a + 2, a + 3}" for x a :: u32
proof -
  assume "unat (x - a) < 4"
  then consider "unat (x - a) = 0" | "unat (x - a) = 1" | "unat (x - a) = 2" | "unat (x - a) = 3"
    by linarith
  moreover have "x - a = word_of_nat (unat (x - a))"
    by simp
  ultimately have "x - a \<in> {0, 1, 2, 3}"
    by cases simp_all
  then show ?thesis
    by (auto simp: algebra_simps)
qed

section \<open>Correctness of memset\<close>

lemma stosb_apply: "stosb m a d n x = (if unat (x - a) < n then ucast d else m x)"
proof (induction n arbitrary: m a)
  case 0
  then show ?case by simp
next
  case (Suc n)
  have "stosb m a d (Suc n) x = (if unat (x - (a + 1)) < n then ucast d else (m(a := ucast d)) x)"
    by (simp add: Suc.IH)
  also have "\<dots> = (if unat (x - a) < Suc n then ucast d else m x)"
    using unat_offset_pos [of x a] by (cases "x = a") (auto simp: unat_pred_offset)
  finally show ?case .
qed

text \<open>The value stored four bytes at a time: the low byte of \<open>c\<close> in each of the four positions.\<close>

definition quad :: "u32 \<Rightarrow> u32" where
  "quad c = push_bit 24 (c AND 0xFF) OR push_bit 16 (c AND 0xFF) OR push_bit 8 (c AND 0xFF) OR (c AND 0xFF)"

lemma mask_255: "(0xFF :: u32) = mask 8"
  by (simp add: mask_eq_exp_minus_1)

lemma quad_bytes:
  "ucast (quad c) = (ucast c :: u8)" "ucast (drop_bit 8 (quad c)) = (ucast c :: u8)"
  "ucast (drop_bit 16 (quad c)) = (ucast c :: u8)" "ucast (drop_bit 24 (quad c)) = (ucast c :: u8)"
  by (rule bit_word_eqI; auto simp: quad_def mask_255 bit_simps)+

lemma wr32_quad:
  "wr32 m a (quad c) x = (if x \<in> {a, a + 1, a + 2, a + 3} then ucast c else m x)"
  by (auto simp: wr32_def quad_bytes)

lemma unat_offset_of_small: "x \<in> {a, a + 1, a + 2, a + 3} \<Longrightarrow> unat (x - a) < 4" for x a :: u32
  by auto

lemma stosl_apply:
  "stosl m a (quad c) n x = (if unat (x - a) < 4 * n then ucast c else m x)"
proof (induction n arbitrary: m a)
  case 0
  then show ?case by simp
next
  case (Suc n)
  show ?case
  proof (cases "unat (x - a) < 4")
    case True
    then show ?thesis
      using unat_offset_small [OF True] by (auto simp: Suc.IH wr32_quad)
  next
    case False
    then have "x \<notin> {a, a + 1, a + 2, a + 3}"
      using unat_offset_of_small by blast
    with False show ?thesis
      by (simp add: Suc.IH wr32_quad unat_offset_4 not_less) linarith
  qed
qed

lemma memset_apply: "memset m dst c n x = (if x - dst < n then ucast c else m x)"
proof (cases "dst mod 4 = 0 \<and> n mod 4 = 0")
  case True
  then have "4 * unat (n div 4) = unat n"
    by (auto simp: unat_div_distrib unat_eq_zero [symmetric] unat_mod_distrib simp del: unat_eq_zero)
  with True show ?thesis
    unfolding memset_def Let_def quad_def [symmetric] by (simp add: stosl_apply word_less_nat_alt)
next
  case False
  then show ?thesis
    by (auto simp: memset_def stosb_apply word_less_nat_alt)
qed

section \<open>Correctness of memmove\<close>

lemma move_up_apply:
  assumes "n < 2 ^ 32"
    and "\<And>i j. i < j \<Longrightarrow> j < n \<Longrightarrow> d + of_nat i \<noteq> s + of_nat j"
  shows "move_up m d s n x = (if unat (x - d) < n then m (s + (x - d)) else m x)"
  using assms
proof (induction n arbitrary: m d s)
  case 0
  then show ?case by simp
next
  case (Suc n)
  have later: "d + 1 + of_nat i \<noteq> s + 1 + of_nat j" if "i < j" "j < n" for i j
    using Suc.prems(2) [of "Suc i" "Suc j"] that by (simp add: algebra_simps)
  have IH: "move_up m d s (Suc n) x =
    (if unat (x - (d + 1)) < n then (m(d := m s)) (s + 1 + (x - (d + 1))) else (m(d := m s)) x)"
    unfolding move_up.simps using Suc.prems(1) later by (intro Suc.IH) simp_all
  show ?case
  proof (cases "x = d")
    case True
    with Suc.prems(1) show ?thesis
      unfolding IH by simp
  next
    case False
    have hit: "d \<noteq> s + (x - d)" if "unat (x - d) < Suc n"
      using Suc.prems(2) [of 0 "unat (x - d)"] that unat_offset_pos [OF False] by simp
    have eq: "s + 1 + (x - (d + 1)) = s + (x - d)"
      by simp
    from False hit show ?thesis
      unfolding IH unat_pred_offset [OF False] eq
      using unat_offset_pos [OF False] by (auto simp: fun_upd_def)
  qed
qed

lemma move_down_apply:
  assumes "n \<le> 2 ^ 32"
    and "\<And>i j. i < j \<Longrightarrow> j < n \<Longrightarrow> s + of_nat i \<noteq> d + of_nat j"
  shows "move_down m (d + of_nat n) (s + of_nat n) n x =
    (if unat (x - d) < n then m (s + (x - d)) else m x)"
  using assms
proof (induction n arbitrary: m)
  case 0
  then show ?case by simp
next
  case (Suc n)
  let ?m = "m(d + of_nat n := m (s + of_nat n))"
  have "move_down m (d + of_nat (Suc n)) (s + of_nat (Suc n)) (Suc n) x =
      move_down ?m (d + of_nat n) (s + of_nat n) n x"
    by simp
  also have "\<dots> = (if unat (x - d) < n then ?m (s + (x - d)) else ?m x)"
    using Suc.prems by (intro Suc.IH) auto
  also have "\<dots> = (if unat (x - d) < Suc n then m (s + (x - d)) else m x)"
  proof -
    have "x = d + of_nat n \<longleftrightarrow> unat (x - d) = n"
      using Suc.prems(1) u32_eq_of_nat [of n "x - d"] by (simp add: u32_eq_add_iff)
    moreover have "s + (x - d) \<noteq> d + of_nat n" if "unat (x - d) < n"
      using Suc.prems(2) [of "unat (x - d)" n] that by simp
    ultimately show ?thesis
      by (auto simp: less_Suc_eq)
  qed
  finally show ?case .
qed

lemma memmove_apply:
  assumes "unat src + unat n < 2 ^ 32" and "unat dst + unat n \<le> 2 ^ 32"
  shows "memmove m dst src n x = (if x - dst < n then m (src + (x - dst)) else m x)"
proof -
  have n: "unat n < 2 ^ 32"
    using assms(1) by simp
  have at: "unat (a + of_nat i) = unat a + i" if "unat a + unat n \<le> 2 ^ 32" "i < unat n" for a :: u32 and i
    using that by (simp add: unat_word_ariths unat_of_nat)
  have apart: "dst + of_nat i \<noteq> src + of_nat j"
    if "i < unat n" "j < unat n" "unat dst + i \<noteq> unat src + j" for i j
    using at [of dst i] at [of src j] assms that by (metis less_imp_le)
  have top: "src + n > dst \<longleftrightarrow> unat src + unat n > unat dst"
    using assms(1) by (simp add: word_less_nat_alt unat_word_ariths)
  show ?thesis
  proof (cases "src < dst \<and> src + n > dst")
    case True
    then have "move_down m (dst + of_nat (unat n)) (src + of_nat (unat n)) (unat n) x =
        (if unat (x - dst) < unat n then m (src + (x - dst)) else m x)"
      using n by (intro move_down_apply apart [THEN not_sym]) (auto simp: word_less_nat_alt)
    with True show ?thesis
      by (simp add: memmove_def word_less_nat_alt)
  next
    case False
    have "move_up m dst src (unat n) x = (if unat (x - dst) < unat n then m (src + (x - dst)) else m x)"
      using n False top by (intro move_up_apply apart) (auto simp: word_less_nat_alt)
    with False show ?thesis
      by (auto simp: memmove_def word_less_nat_alt)
  qed
qed

section \<open>Correctness of the string routines\<close>

text \<open>The string of at most \<open>k\<close> bytes at an address: the bytes before the first NUL.\<close>

fun cstr :: "nat \<Rightarrow> mem \<Rightarrow> u32 \<Rightarrow> u8 list" where
  "cstr 0 m a = []"
| "cstr (Suc k) m a = (if m a = 0 then [] else m a # cstr k m (a + 1))"

lemma cstr_length: "length (cstr k m a) \<le> k"
  by (induction k arbitrary: a) auto

lemma cstr_no_nul: "0 \<notin> set (cstr k m a)"
  by (induction k arbitrary: a) auto

lemma cstr_cong: "(\<And>i. i < k \<Longrightarrow> m (a + of_nat i) = m' (a + of_nat i)) \<Longrightarrow> cstr k m a = cstr k m' a"
proof (induction k arbitrary: a)
  case 0
  then show ?case by simp
next
  case (Suc k)
  have "m (a + 1 + of_nat i) = m' (a + 1 + of_nat i)" if "i < k" for i
    using Suc.prems [of "Suc i"] that by (simp add: add.assoc)
  then have "cstr k m (a + 1) = cstr k m' (a + 1)"
    by (rule Suc.IH)
  with Suc.prems [of 0] show ?case by simp
qed

lemma strncmp_zero_iff: "strncmp m p q n = 0 \<longleftrightarrow> cstr n m p = cstr n m q"
proof (induction n arbitrary: p q)
  case 0
  then show ?case by simp
next
  case (Suc n)
  have "uint (m p) - uint (m q) = 0 \<longleftrightarrow> m p = m q"
    unfolding word_uint_eq_iff by simp
  then show ?case
    using Suc.IH [of "p + 1" "q + 1"] by (cases "m p = m q"; cases "m p = 0") auto
qed

lemma pad_nul_apply: "pad_nul m s n x = (if unat (x - s) < n then 0 else m x)"
proof (induction n arbitrary: m s)
  case 0
  then show ?case by simp
next
  case (Suc n)
  have "pad_nul m s (Suc n) x = (if unat (x - (s + 1)) < n then 0 else (m(s := 0)) x)"
    by (simp add: Suc.IH)
  also have "\<dots> = (if unat (x - s) < Suc n then 0 else m x)"
    using unat_offset_pos [of x s] by (cases "x = s") (auto simp: unat_pred_offset)
  finally show ?case .
qed

text \<open>Two regions of \<open>n\<close> bytes that do not meet.\<close>

definition apart :: "u32 \<Rightarrow> u32 \<Rightarrow> nat \<Rightarrow> bool" where
  "apart s t n \<longleftrightarrow> (\<forall>i < n. \<forall>j < n. s + of_nat i \<noteq> t + of_nat j)"

lemma apart_Suc: "apart s t (Suc n) \<Longrightarrow> apart (s + 1) (t + 1) n"
  unfolding apart_def
proof (intro allI impI)
  fix i j
  assume *: "\<forall>i<Suc n. \<forall>j<Suc n. s + word_of_nat i \<noteq> t + word_of_nat j" and "i < n" "j < n"
  then have "s + of_nat (Suc i) \<noteq> t + of_nat (Suc j)"
    by (simp del: of_nat_Suc)
  then show "s + 1 + of_nat i \<noteq> t + 1 + of_nat j"
    by (simp add: add.assoc)
qed

lemma apart_first: "apart s t (Suc n) \<Longrightarrow> i \<le> n \<Longrightarrow> t + of_nat i \<noteq> s"
  unfolding apart_def by (drule spec [of _ 0]) (auto dest: spec [of _ i])

lemma cstr_other: "apart s t (Suc n) \<Longrightarrow> cstr n (m(s := v)) (t + 1) = cstr n m (t + 1)"
proof (rule cstr_cong)
  fix i assume "apart s t (Suc n)" "i < n"
  then have "t + of_nat (Suc i) \<noteq> s"
    by (intro apart_first) auto
  then show "(m(s := v)) (t + 1 + of_nat i) = m (t + 1 + of_nat i)"
    by (simp add: add.assoc)
qed

text \<open>The bytes a padded copy of a string leaves in a field of fixed width.\<close>

definition padded :: "u8 list \<Rightarrow> nat \<Rightarrow> u8" where
  "padded str i = (if i < length str then str ! i else 0)"

lemma padded_Nil [simp]: "padded [] i = 0"
  by (simp add: padded_def)

lemma padded_Cons: "padded (c # str) i = (if i = 0 then c else padded str (i - 1))"
  by (cases i) (auto simp: padded_def)

lemma strncpy_loop_apply:
  "apart s t n \<Longrightarrow> n < 2 ^ 32 \<Longrightarrow>
   strncpy_loop m s t n x = (if unat (x - s) < n then padded (cstr n m t) (unat (x - s)) else m x)"
proof (induction n arbitrary: m s t)
  case 0
  then show ?case by simp
next
  case (Suc n)
  let ?m = "m(s := m t)"
  show ?case
  proof (cases "m t = 0")
    case True
    have "strncpy_loop m s t (Suc n) x = pad_nul ?m (s + 1) n x"
      using True by simp
    also have "\<dots> = (if unat (x - s) < Suc n then 0 else m x)"
      using unat_offset_pos [of x s] True
      by (cases "x = s") (auto simp: pad_nul_apply unat_pred_offset)
    finally show ?thesis using True by simp
  next
    case False
    have "strncpy_loop m s t (Suc n) x = strncpy_loop ?m (s + 1) (t + 1) n x"
      using False by simp
    also have "\<dots> = (if unat (x - (s + 1)) < n then padded (cstr n m (t + 1)) (unat (x - (s + 1))) else ?m x)"
      using Suc.IH [OF apart_Suc [OF Suc.prems(1)], of ?m] Suc.prems
      by (simp only: cstr_other [OF Suc.prems(1)])
    also have "\<dots> = (if unat (x - s) < Suc n then padded (cstr (Suc n) m t) (unat (x - s)) else m x)"
    proof (cases "x = s")
      case True
      with False Suc.prems(2) show ?thesis by (simp add: padded_Cons)
    next
      case neq: False
      with False show ?thesis
        using unat_offset_pos [OF neq] by (auto simp: unat_pred_offset padded_Cons)
    qed
    finally show ?thesis .
  qed
qed

lemma safestrcpy_loop_frame:
  "n < unat (x - s) \<Longrightarrow> safestrcpy_loop m s t n x = m x"
proof (induction n arbitrary: m s t)
  case 0
  then show ?case by auto
next
  case (Suc n)
  then have neq: "x \<noteq> s"
    by auto
  with Suc.prems have "n < unat (x - (s + 1))"
    by (simp add: unat_pred_offset)
  moreover from this have "x \<noteq> s + 1"
    by auto
  ultimately show ?case
    using neq by (simp add: Suc.IH Let_def)
qed

lemma safestrcpy_loop_cstr:
  "apart s t (Suc n) \<Longrightarrow> Suc n < 2 ^ 32 \<Longrightarrow> cstr (Suc n) (safestrcpy_loop m s t n) s = cstr n m t"
proof (induction n arbitrary: m s t)
  case 0
  then show ?case by simp
next
  case (Suc n)
  let ?m = "m(s := m t)"
  show ?case
  proof (cases "m t = 0")
    case True
    then show ?thesis by simp
  next
    case False
    have ap: "apart (s + 1) (t + 1) (Suc n)"
      by (rule apart_Suc [OF Suc.prems(1)])
    have "apart s t (Suc n)"
      using Suc.prems(1) by (auto simp: apart_def)
    then have src: "cstr n ?m (t + 1) = cstr n m (t + 1)"
      by (rule cstr_other)
    let ?r = "safestrcpy_loop ?m (s + 1) (t + 1) n"
    have "?r s = m t"
      using Suc.prems(2) by (subst safestrcpy_loop_frame) auto
    moreover have "cstr (Suc n) ?r (s + 1) = cstr n m (t + 1)"
      unfolding src [symmetric] using Suc.prems(2) by (intro Suc.IH [OF ap]) simp
    moreover have "safestrcpy_loop m s t (Suc n) = ?r"
      using False by simp
    ultimately show ?thesis
      using False by (simp only: cstr.simps if_False)
  qed
qed

section \<open>Properties\<close>

text \<open>
  C18. memmove copies its source region as it was before the call, whether or not the regions
  overlap, and leaves every other byte alone: the backward loop is chosen exactly when the forward
  one would read bytes it has already overwritten.
\<close>

theorem memmove_copies:
  assumes "unat src + unat n < 2 ^ 32" and "unat dst + unat n \<le> 2 ^ 32"
  shows "memmove m dst src n x = (if x - dst < n then m (src + (x - dst)) else m x)"
  using assms by (rule memmove_apply)

theorem memmove_copies_witness:
  "memmove (\<lambda>a. ucast a) 102 100 8 105 = 103 \<and> memmove (\<lambda>a. ucast a) 102 100 8 101 = 101"
  using memmove_copies [of 100 8 102 "\<lambda>a. ucast a" 105] memmove_copies [of 100 8 102 "\<lambda>a. ucast a" 101]
  by simp

text \<open>
  C19. memset's word-at-a-time branch (taken when the address and the count are multiples of four)
  and its byte branch compute the same thing: the \<open>n\<close> bytes from \<open>dst\<close> get the low byte of \<open>c\<close> and
  no other byte changes.
\<close>

theorem memset_fills: "memset m dst c n x = (if x - dst < n then ucast c else m x)"
  by (rule memset_apply)

text \<open>
  C20. safestrcpy leaves at the destination the NUL-terminated source string, cut to \<open>n - 1\<close> bytes,
  and writes no byte outside the \<open>n\<close> bytes of the destination.
\<close>

theorem safestrcpy_terminates_string:
  assumes "0 < n" and "n < 2 ^ 31" and "apart s t (nat n)"
  shows "cstr (nat n) (safestrcpy m s t n) s = cstr (nat n - 1) m t \<and>
    length (cstr (nat n) (safestrcpy m s t n) s) < nat n \<and>
    (\<forall>x. nat n \<le> unat (x - s) \<longrightarrow> safestrcpy m s t n x = m x)"
proof -
  obtain k where k: "nat n = Suc k"
    using assms(1) by (cases "nat n") auto
  have loop: "safestrcpy m s t n = safestrcpy_loop m s t k"
    using assms(1) k by (simp add: safestrcpy_def)
  have "Suc k < 2 ^ 32"
    using assms(2) k by simp
  with assms(3) have "cstr (Suc k) (safestrcpy_loop m s t k) s = cstr k m t"
    by (intro safestrcpy_loop_cstr) (simp_all add: k)
  moreover have "length (cstr k m t) < Suc k"
    using cstr_length [of k m t] by simp
  ultimately show ?thesis
    unfolding loop k using safestrcpy_loop_frame by auto
qed

theorem safestrcpy_terminates_string_witness:
  "cstr 3 (safestrcpy (\<lambda>a. if 200 \<le> a then 65 else 0) 100 200 3) 100 = [65, 65]"
proof -
  let ?m = "\<lambda>a :: u32. if 200 \<le> a then 65 else (0 :: u8)"
  have "apart 100 200 3"
    unfolding apart_def by (auto simp: numeral_3_eq_3 less_Suc_eq)
  then have "cstr (nat 3) (safestrcpy ?m 100 200 3) 100 = cstr (nat 3 - 1) ?m 200"
    using safestrcpy_terminates_string [of 3 100 200 ?m] by simp
  moreover have "cstr (nat 3 - 1) ?m 200 = [65, 65]"
    by code_simp
  ultimately show ?thesis
    by simp
qed

end
