(* ===== verification/Spinlock.thy ===== *)
theory Spinlock
  imports Prelude
begin

text \<open>
  Mutual exclusion spin locks (spinlock.c, spinlock.h) and the per-CPU state they use (struct cpu of
  proc.h, mycpu of proc.c). The kernel state of the development is one extensible record; this
  theory holds its root, the state of the CPU that executes. A routine here is what one CPU does; a
  lock that another CPU holds makes it spin. The interleaving of several CPUs on one lock is the step
  relation at the end.
\<close>

section \<open>Data\<close>

text \<open>
  struct cpu: the APIC id, the pushcli nesting, the saved interrupt flag and the running process.
  The scheduler context, the task segment and the descriptor table are hardware state.
\<close>

record cpu =
  apicid :: u8
  cpu_ncli :: int
  cpu_intena :: bool
  cpu_proc :: "nat option"

text \<open>
  The root of the kernel state: \<open>cpus[0..ncpu-1]\<close>, the id the local APIC reports on this CPU and the
  interrupt flag \<open>FL_IF\<close> of its eflags.
\<close>

record kcpu =
  cpus :: "cpu list"
  lapic_id :: u8
  eflags_if :: bool

text \<open>struct spinlock, without the \<open>pcs\<close> call stack that only debugging output reads.\<close>

record spinlock =
  locked :: u32
  lk_name :: string
  lk_cpu :: "nat option"

section \<open>mycpu, pushcli and popcli\<close>

fun find_cpu :: "cpu list \<Rightarrow> u8 \<Rightarrow> nat option" where
  "find_cpu [] i = None"
| "find_cpu (c # cs) i = (if apicid c = i then Some 0 else map_option Suc (find_cpu cs i))"

definition mycpu :: "'a kcpu_scheme \<Rightarrow> 'a kcpu_scheme stop + nat" where
  "mycpu s =
     (if eflags_if s then Inl (Panic (''mycpu called with interrupts enabled'' @ [CHR 0x0A]))
      else case find_cpu (cpus s) (lapic_id s) of
             Some i \<Rightarrow> Inr i
           | None \<Rightarrow> Inl (Panic (''unknown apicid'' @ [CHR 0x0A])))"

definition pushcli :: "'a kcpu_scheme \<Rightarrow> 'a kcpu_scheme stop + 'a kcpu_scheme" where
  "pushcli s =
     (let eflags = eflags_if s; s = s\<lparr>eflags_if := False\<rparr>
      in seq (mycpu s) (\<lambda>i.
         let c = cpus s ! i;
             c = (if cpu_ncli c = 0 then c\<lparr>cpu_intena := eflags\<rparr> else c);
             c = c\<lparr>cpu_ncli := cpu_ncli c + 1\<rparr>
         in Inr (s\<lparr>cpus := (cpus s)[i := c]\<rparr>)))"

definition popcli :: "'a kcpu_scheme \<Rightarrow> 'a kcpu_scheme stop + 'a kcpu_scheme" where
  "popcli s =
     (if eflags_if s then Inl (Panic ''popcli - interruptible'')
      else seq (mycpu s) (\<lambda>i.
         let c = cpus s ! i; c = c\<lparr>cpu_ncli := cpu_ncli c - 1\<rparr>
         in if cpu_ncli c < 0 then Inl (Panic ''popcli'')
            else let s = s\<lparr>cpus := (cpus s)[i := c]\<rparr>
                 in if cpu_ncli c = 0 \<and> cpu_intena c then Inr (s\<lparr>eflags_if := True\<rparr>) else Inr s))"

section \<open>The lock operations\<close>

definition initlock :: "string \<Rightarrow> spinlock" where
  "initlock name = \<lparr>locked = 0, lk_name = name, lk_cpu = None\<rparr>"

definition holding :: "spinlock \<Rightarrow> 'a kcpu_scheme \<Rightarrow> 'a kcpu_scheme stop + bool \<times> 'a kcpu_scheme" where
  "holding lk s =
     seq (pushcli s) (\<lambda>s.
     seq (mycpu s) (\<lambda>i.
     let r = (locked lk \<noteq> 0 \<and> lk_cpu lk = Some i)
     in seq (popcli s) (\<lambda>s. Inr (r, s))))"

definition acquire :: "spinlock \<Rightarrow> 'a kcpu_scheme \<Rightarrow> 'a kcpu_scheme stop + spinlock \<times> 'a kcpu_scheme" where
  "acquire lk s =
     seq (pushcli s) (\<lambda>s.
     seq (holding lk s) (\<lambda>(h, s).
     if h then Inl (Panic ''acquire'')
     else if locked lk \<noteq> 0 then Inl Spin
     else seq (mycpu s) (\<lambda>i. Inr (lk\<lparr>locked := 1, lk_cpu := Some i\<rparr>, s))))"

definition release :: "spinlock \<Rightarrow> 'a kcpu_scheme \<Rightarrow> 'a kcpu_scheme stop + spinlock \<times> 'a kcpu_scheme" where
  "release lk s =
     seq (holding lk s) (\<lambda>(h, s).
     if \<not> h then Inl (Panic ''release'')
     else seq (popcli s) (\<lambda>s. Inr (lk\<lparr>lk_cpu := None, locked := 0\<rparr>, s)))"

section \<open>Several CPUs on one lock\<close>

text \<open>
  Each CPU is outside, in the xchg loop of acquire, past the xchg that read 0, in its critical section
  (the owner is recorded), or between the two stores of release. One step is one atomic instruction.
\<close>

datatype lock_pc = Outside | Spinning | Taken | Critical | Leaving

record lock_sys =
  sys_word :: u32
  sys_owner :: "nat option"
  sys_pc :: "nat \<Rightarrow> lock_pc"

definition lock_init :: lock_sys where
  "lock_init = \<lparr>sys_word = 0, sys_owner = None, sys_pc = (\<lambda>_. Outside)\<rparr>"

inductive lock_step :: "lock_sys \<Rightarrow> lock_sys \<Rightarrow> bool" where
  enter: "sys_pc s i = Outside \<Longrightarrow> lock_step s (s\<lparr>sys_pc := (sys_pc s)(i := Spinning)\<rparr>)"
| xchg_busy: "sys_pc s i = Spinning \<Longrightarrow> sys_word s \<noteq> 0 \<Longrightarrow> lock_step s (s\<lparr>sys_word := 1\<rparr>)"
| xchg_free: "sys_pc s i = Spinning \<Longrightarrow> sys_word s = 0 \<Longrightarrow>
     lock_step s (s\<lparr>sys_word := 1, sys_pc := (sys_pc s)(i := Taken)\<rparr>)"
| set_owner: "sys_pc s i = Taken \<Longrightarrow> lock_step s (s\<lparr>sys_owner := Some i, sys_pc := (sys_pc s)(i := Critical)\<rparr>)"
| clear_owner: "sys_pc s i = Critical \<Longrightarrow> lock_step s (s\<lparr>sys_owner := None, sys_pc := (sys_pc s)(i := Leaving)\<rparr>)"
| store_zero: "sys_pc s i = Leaving \<Longrightarrow> lock_step s (s\<lparr>sys_word := 0, sys_pc := (sys_pc s)(i := Outside)\<rparr>)"

inductive lock_reachable :: "lock_sys \<Rightarrow> bool" where
  init: "lock_reachable lock_init"
| step: "lock_reachable s \<Longrightarrow> lock_step s t \<Longrightarrow> lock_reachable t"

section \<open>Interrupt state\<close>

text \<open>
  What every kernel routine finds and leaves on its CPU: the CPU is in the table, and while no
  pushcli is pending the saved flag is the current one; while one is pending interrupts are off.
\<close>

definition cpu_ok :: "'a kcpu_scheme \<Rightarrow> bool" where
  "cpu_ok s \<longleftrightarrow> (case find_cpu (cpus s) (lapic_id s) of None \<Rightarrow> False
     | Some i \<Rightarrow> 0 \<le> cpu_ncli (cpus s ! i) \<and>
         (if cpu_ncli (cpus s ! i) = 0 then cpu_intena (cpus s ! i) = eflags_if s else \<not> eflags_if s))"

definition this_cpu :: "'a kcpu_scheme \<Rightarrow> nat" where
  "this_cpu s = (case find_cpu (cpus s) (lapic_id s) of None \<Rightarrow> 0 | Some i \<Rightarrow> i)"

text \<open>The state with one more pushcli pending.\<close>

definition pushed :: "'a kcpu_scheme \<Rightarrow> 'a kcpu_scheme" where
  "pushed s = s\<lparr>eflags_if := False,
     cpus := (cpus s)[this_cpu s := (cpus s ! this_cpu s)\<lparr>cpu_ncli := cpu_ncli (cpus s ! this_cpu s) + 1\<rparr>]\<rparr>"

definition lock_free :: "spinlock \<Rightarrow> bool" where
  "lock_free lk \<longleftrightarrow> locked lk = 0 \<and> lk_cpu lk = None"

definition held_here :: "spinlock \<Rightarrow> 'a kcpu_scheme \<Rightarrow> spinlock" where
  "held_here lk s = lk\<lparr>locked := 1, lk_cpu := Some (this_cpu s)\<rparr>"

lemma find_cpu_Some: "find_cpu cs i = Some k \<Longrightarrow> k < length cs \<and> apicid (cs ! k) = i"
proof (induction cs arbitrary: k)
  case Nil
  then show ?case by simp
next
  case (Cons c cs)
  then show ?case by (auto split: if_splits)
qed

lemma find_cpu_update:
  "apicid c = apicid (cs ! k) \<Longrightarrow> find_cpu (cs[k := c]) i = find_cpu cs i"
proof (induction cs arbitrary: k)
  case Nil
  then show ?case by simp
next
  case (Cons d cs)
  then show ?case by (cases k) auto
qed

lemma cpu_okE:
  assumes "cpu_ok s"
  obtains i c where "find_cpu (cpus s) (lapic_id s) = Some i" "this_cpu s = i" "i < length (cpus s)"
    "c = cpus s ! i" "0 \<le> cpu_ncli c" "cpu_ncli c = 0 \<longrightarrow> cpu_intena c = eflags_if s"
    "cpu_ncli c \<noteq> 0 \<longrightarrow> \<not> eflags_if s"
  using assms by (auto simp: cpu_ok_def this_cpu_def split: option.splits if_splits dest: find_cpu_Some)

lemma pushcli_ok: "cpu_ok s \<Longrightarrow> pushcli s = Inr (pushed s)"
proof (erule cpu_okE)
  fix i c
  assume *: "find_cpu (cpus s) (lapic_id s) = Some i" "this_cpu s = i"
    "c = cpus s ! i" "cpu_ncli c = 0 \<longrightarrow> cpu_intena c = eflags_if s"
  then have "(if cpu_ncli c = 0 then c\<lparr>cpu_intena := eflags_if s\<rparr> else c) = c"
    by (cases c) simp
  then have keep: "(if cpu_ncli (cpus s ! i) = 0 then (cpus s ! i)\<lparr>cpu_intena := eflags_if s\<rparr>
      else cpus s ! i) = cpus s ! i"
    unfolding \<open>c = cpus s ! i\<close> .
  have "mycpu (s\<lparr>eflags_if := False\<rparr>) = Inr i"
    using * by (simp add: mycpu_def)
  then show "pushcli s = Inr (pushed s)"
    by (simp add: pushcli_def pushed_def Let_def \<open>this_cpu s = i\<close> keep cong: if_cong)
qed

lemma this_cpu_pushed [simp]: "this_cpu (pushed s) = this_cpu s"
  by (simp add: this_cpu_def pushed_def find_cpu_update)

lemma eflags_if_pushed [simp]: "\<not> eflags_if (pushed s)"
  by (simp add: pushed_def)

lemma cpu_ok_pushed: "cpu_ok s \<Longrightarrow> cpu_ok (pushed s)"
  by (erule cpu_okE) (simp add: cpu_ok_def pushed_def find_cpu_update)

lemma mycpu_pushed: "cpu_ok s \<Longrightarrow> mycpu (pushed s) = Inr (this_cpu s)"
  by (erule cpu_okE) (simp add: mycpu_def pushed_def find_cpu_update)

text \<open>Two states whose CPU part agrees, as before and after a critical section.\<close>

definition same_cpu :: "'a kcpu_scheme \<Rightarrow> 'b kcpu_scheme \<Rightarrow> bool" where
  "same_cpu t u \<longleftrightarrow> cpus t = cpus u \<and> lapic_id t = lapic_id u \<and> eflags_if t = eflags_if u"

lemma same_cpu_refl [simp]: "same_cpu s s"
  by (simp add: same_cpu_def)

lemma same_cpu_cpu_ok: "same_cpu t u \<Longrightarrow> cpu_ok t = cpu_ok u"
  by (auto simp: same_cpu_def cpu_ok_def split: option.splits)

lemma popcli_pushed:
  assumes "cpu_ok s" and "same_cpu t (pushed s)"
  shows "popcli t = Inr (t\<lparr>eflags_if := eflags_if s, cpus := cpus s\<rparr>)"
  using assms(1)
proof (rule cpu_okE)
  fix i c
  assume *: "find_cpu (cpus s) (lapic_id s) = Some i" "this_cpu s = i" "i < length (cpus s)"
    "c = cpus s ! i" "0 \<le> cpu_ncli c" "cpu_ncli c = 0 \<longrightarrow> cpu_intena c = eflags_if s"
    "cpu_ncli c \<noteq> 0 \<longrightarrow> \<not> eflags_if s"
  have t: "\<not> eflags_if t" "lapic_id t = lapic_id s"
    "cpus t = (cpus s)[i := c\<lparr>cpu_ncli := cpu_ncli c + 1\<rparr>]"
    using assms(2) * by (auto simp: same_cpu_def pushed_def)
  have "mycpu t = Inr i"
    using * t by (simp add: mycpu_def find_cpu_update)
  moreover have "(cpus t)[i := (cpus t ! i)\<lparr>cpu_ncli := cpu_ncli (cpus t ! i) - 1\<rparr>] = cpus s"
    using * t by (cases c) simp
  ultimately have "popcli t = Inr (if cpu_ncli c = 0 \<and> cpu_intena c
      then t\<lparr>cpus := cpus s, eflags_if := True\<rparr> else t\<lparr>cpus := cpus s\<rparr>)"
    using * t by (simp add: popcli_def Let_def)
  also have "\<dots> = Inr (t\<lparr>eflags_if := eflags_if s, cpus := cpus s\<rparr>)"
    using * t(1) by (cases t) auto
  finally show ?thesis .
qed

lemma holding_ok:
  assumes "cpu_ok s"
  shows "holding lk s = Inr (locked lk \<noteq> 0 \<and> lk_cpu lk = Some (this_cpu s), s)"
proof -
  have "(pushed s)\<lparr>eflags_if := eflags_if s, cpus := cpus s\<rparr> = s"
    by (simp add: pushed_def)
  then show ?thesis
    using popcli_pushed [OF assms same_cpu_refl]
    by (simp add: holding_def pushcli_ok [OF assms] mycpu_pushed [OF assms])
qed

lemma acquire_ok:
  "cpu_ok s \<Longrightarrow> lock_free lk \<Longrightarrow> acquire lk s = Inr (held_here lk s, pushed s)"
  by (simp add: acquire_def pushcli_ok holding_ok cpu_ok_pushed mycpu_pushed lock_free_def held_here_def)

lemma acquire_twice:
  "cpu_ok s \<Longrightarrow> acquire (held_here lk s) s = Inl (Panic ''acquire'')"
  by (simp add: acquire_def pushcli_ok holding_ok cpu_ok_pushed held_here_def)

lemma release_ok:
  assumes "cpu_ok s" and "same_cpu t (pushed s)" and "lock_free lk"
  shows "release (held_here lk s) t = Inr (lk, t\<lparr>eflags_if := eflags_if s, cpus := cpus s\<rparr>)"
proof -
  have "cpu_ok t"
    using assms(1,2) cpu_ok_pushed same_cpu_cpu_ok by blast
  moreover have "this_cpu t = this_cpu s"
    using assms(2) this_cpu_pushed [of s] by (simp add: same_cpu_def this_cpu_def)
  moreover have "(held_here lk s)\<lparr>lk_cpu := None, locked := 0\<rparr> = lk"
    using assms(3) by (cases lk) (simp add: lock_free_def held_here_def)
  ultimately show ?thesis
    by (simp add: release_def holding_ok popcli_pushed [OF assms(1,2)]) (simp add: held_here_def)
qed

lemma release_free: "cpu_ok s \<Longrightarrow> lock_free lk \<Longrightarrow> release lk s = Inl (Panic ''release'')"
  by (simp add: release_def holding_ok lock_free_def)

section \<open>Mutual exclusion\<close>

definition inside :: "lock_pc \<Rightarrow> bool" where
  "inside p \<longleftrightarrow> p \<in> {Taken, Critical, Leaving}"

definition lock_inv :: "lock_sys \<Rightarrow> bool" where
  "lock_inv s \<longleftrightarrow>
     (\<forall>i j. inside (sys_pc s i) \<longrightarrow> inside (sys_pc s j) \<longrightarrow> i = j) \<and>
     (sys_word s \<noteq> 0 \<longleftrightarrow> (\<exists>i. inside (sys_pc s i))) \<and>
     (\<forall>i. sys_owner s = Some i \<longleftrightarrow> sys_pc s i = Critical)"

lemma inside_simps [simp]:
  "inside Taken" "inside Critical" "inside Leaving" "\<not> inside Outside" "\<not> inside Spinning"
  by (auto simp: inside_def)

lemma lock_inv_init: "lock_inv lock_init"
  by (simp add: lock_inv_def lock_init_def)

lemma lock_invD:
  "lock_inv s \<Longrightarrow> inside (sys_pc s i) \<Longrightarrow> inside (sys_pc s j) \<Longrightarrow> i = j"
  "lock_inv s \<Longrightarrow> sys_word s \<noteq> 0 \<longleftrightarrow> (\<exists>i. inside (sys_pc s i))"
  "lock_inv s \<Longrightarrow> sys_owner s = Some i \<longleftrightarrow> sys_pc s i = Critical"
  by (auto simp: lock_inv_def)

lemma lock_invI:
  "(\<And>i j. inside (sys_pc s i) \<Longrightarrow> inside (sys_pc s j) \<Longrightarrow> i = j) \<Longrightarrow>
   (sys_word s \<noteq> 0 \<longleftrightarrow> (\<exists>i. inside (sys_pc s i))) \<Longrightarrow>
   (\<And>i. sys_owner s = Some i \<longleftrightarrow> sys_pc s i = Critical) \<Longrightarrow> lock_inv s"
  by (auto simp: lock_inv_def)

lemma lock_inv_only:
  assumes "lock_inv s" "inside (sys_pc s i)"
  shows "sys_word s \<noteq> 0" "inside (sys_pc s j) \<Longrightarrow> j = i" "sys_pc s j = Critical \<Longrightarrow> j = i"
    "sys_owner s = Some j \<Longrightarrow> j = i"
proof -
  show "sys_word s \<noteq> 0"
    unfolding lock_invD(2) [OF assms(1)] using assms(2) by blast
  show only: "inside (sys_pc s j) \<Longrightarrow> j = i" for j
    using lock_invD(1) [OF assms(1) _ assms(2)] by blast
  show crit: "sys_pc s j = Critical \<Longrightarrow> j = i" for j
    by (rule only) simp
  show "sys_owner s = Some j \<Longrightarrow> j = i"
    unfolding lock_invD(3) [OF assms(1)] by (rule crit)
qed

lemma lock_inv_step: "lock_step s t \<Longrightarrow> lock_inv s \<Longrightarrow> lock_inv t"
proof (induction rule: lock_step.induct)
  case (enter s i)
  then have "inside (((sys_pc s)(i := Spinning)) j) = inside (sys_pc s j)" for j
    by simp
  with enter show ?case
    by (simp add: lock_inv_def)
next
  case (xchg_busy s i)
  then show ?case
    by (simp add: lock_inv_def)
next
  case (xchg_free s i)
  then have "\<not> inside (sys_pc s j)" and "sys_pc s j \<noteq> Critical" and "sys_owner s \<noteq> Some j" for j
    using lock_inv_only [of s j] by (auto simp: lock_invD(3))
  then show ?case
    by (intro lock_invI) (auto split: if_splits)
next
  case (set_owner s i)
  then have "inside (sys_pc s i)" by simp
  note only = lock_inv_only [OF set_owner.prems this]
  show ?case
    using only(1) by (intro lock_invI) (auto split: if_splits dest: only(2-4))
next
  case (clear_owner s i)
  then have "inside (sys_pc s i)" by simp
  note only = lock_inv_only [OF clear_owner.prems this]
  show ?case
    using only(1) by (intro lock_invI) (auto split: if_splits dest: only(2-4))
next
  case (store_zero s i)
  then have "inside (sys_pc s i)" by simp
  note only = lock_inv_only [OF store_zero.prems this]
  have "sys_owner s \<noteq> Some i"
    using store_zero by (simp add: lock_invD(3))
  then show ?case
    by (intro lock_invI) (auto split: if_splits dest: only(2-4))
qed

lemma lock_reachable_inv: "lock_reachable s \<Longrightarrow> lock_inv s"
  by (induction rule: lock_reachable.induct) (auto intro: lock_inv_init lock_inv_step)

section \<open>Properties\<close>

text \<open>
  C16. On a lock shared by any number of CPUs, at most one CPU is between the xchg that took the lock
  and the store that frees it, and the test that holding makes (\<open>lk->locked && lk->cpu == mycpu()\<close>) is
  true for a CPU exactly while it is in its critical section.
\<close>

theorem spinlock_mutual_exclusion:
  assumes "lock_reachable s"
  shows "(inside (sys_pc s i) \<longrightarrow> inside (sys_pc s j) \<longrightarrow> i = j) \<and>
    (sys_word s \<noteq> 0 \<and> sys_owner s = Some i \<longleftrightarrow> sys_pc s i = Critical)"
proof -
  have inv: "lock_inv s"
    using assms by (rule lock_reachable_inv)
  have "sys_pc s i = Critical \<Longrightarrow> sys_word s \<noteq> 0"
    unfolding lock_invD(2) [OF inv] by (intro exI [of _ i]) simp
  with lock_invD [OF inv] show ?thesis
    by blast
qed

theorem spinlock_mutual_exclusion_witness:
  "\<exists>s. lock_reachable s \<and> sys_pc s 0 = Critical \<and> \<not> inside (sys_pc s 1)"
proof -
  let ?a = "lock_init\<lparr>sys_pc := (sys_pc lock_init)(0 := Spinning)\<rparr>"
  let ?b = "?a\<lparr>sys_word := 1, sys_pc := (sys_pc ?a)(0 := Taken)\<rparr>"
  let ?c = "?b\<lparr>sys_owner := Some 0, sys_pc := (sys_pc ?b)(0 := Critical)\<rparr>"
  have "lock_reachable ?a"
    by (rule lock_reachable.step [OF lock_reachable.init], rule lock_step.enter) (simp add: lock_init_def)
  then have "lock_reachable ?b"
    by (rule lock_reachable.step, intro lock_step.xchg_free) (simp_all add: lock_init_def)
  then have c: "lock_reachable ?c"
    by (rule lock_reachable.step, intro lock_step.set_owner) simp
  have "sys_pc ?c 0 = Critical"
    by simp
  moreover have "\<not> inside (sys_pc ?c 1)"
    using spinlock_mutual_exclusion [OF c, of 0 1] by auto
  ultimately show ?thesis
    using c by blast
qed

section \<open>The saved interrupt flag\<close>

text \<open>
  A CPU outside or inside critical sections, whatever its saved flag was when no pushcli is pending; and the same CPU with the
  flag that pushcli saves.
\<close>

definition cpu_here :: "'a kcpu_scheme \<Rightarrow> bool" where
  "cpu_here s \<longleftrightarrow> (case find_cpu (cpus s) (lapic_id s) of None \<Rightarrow> False
     | Some i \<Rightarrow> 0 \<le> cpu_ncli (cpus s ! i) \<and> (cpu_ncli (cpus s ! i) \<noteq> 0 \<longrightarrow> \<not> eflags_if s))"

definition saved :: "'a kcpu_scheme \<Rightarrow> 'a kcpu_scheme" where
  "saved s = (let i = this_cpu s; c = cpus s ! i
     in if cpu_ncli c = 0 then s\<lparr>cpus := (cpus s)[i := c\<lparr>cpu_intena := eflags_if s\<rparr>]\<rparr> else s)"

lemma saved_ok:
  assumes "cpu_here s"
  shows "cpu_ok (saved s)" "pushcli s = pushcli (saved s)" "this_cpu (saved s) = this_cpu s"
proof -
  obtain i where i: "find_cpu (cpus s) (lapic_id s) = Some i" "0 \<le> cpu_ncli (cpus s ! i)" "cpu_ncli (cpus s ! i) \<noteq> 0 \<longrightarrow> \<not> eflags_if s"
    using assms by (auto simp: cpu_here_def split: option.splits)
  have l: "i < length (cpus s)" "this_cpu s = i" using find_cpu_Some [OF i(1)] i(1) by (simp_all add: this_cpu_def)
  show "cpu_ok (saved s)" using i l by (simp add: saved_def Let_def cpu_ok_def find_cpu_update)
  show "pushcli s = pushcli (saved s)"
    using i(1) l by (simp add: saved_def Let_def pushcli_def mycpu_def find_cpu_update)
  show "this_cpu (saved s) = this_cpu s" using i(1) l by (simp add: saved_def Let_def this_cpu_def find_cpu_update)
qed

lemma acquire_saved: "cpu_here s \<Longrightarrow> acquire lk s = acquire lk (saved s)"
  by (simp add: acquire_def saved_ok(2))

lemma saved_same:
  "eflags_if (saved s) = eflags_if s" "lapic_id (saved s) = lapic_id s" "(saved s)\<lparr>cpus := cpus s\<rparr> = s"
  "map (\<lambda>c. c\<lparr>cpu_intena := False\<rparr>) (cpus (saved s)) = map (\<lambda>c. c\<lparr>cpu_intena := False\<rparr>) (cpus s)"
proof -
  show "map (\<lambda>c. c\<lparr>cpu_intena := False\<rparr>) (cpus (saved s)) = map (\<lambda>c. c\<lparr>cpu_intena := False\<rparr>) (cpus s)"
    by (cases "this_cpu s < length (cpus s)") (auto simp: saved_def Let_def nth_list_update list_update_beyond intro!: nth_equalityI)
qed (simp_all add: saved_def Let_def)

lemma release_pushed:
  assumes "cpu_ok s" "lock_free lk"
  shows "release (held_here lk s) (pushed s) = Inr (lk, s)"
proof -
  have "(pushed s)\<lparr>eflags_if := eflags_if s, cpus := cpus s\<rparr> = s" by (simp add: pushed_def)
  then show ?thesis using release_ok [OF assms(1) same_cpu_refl assms(2)] by simp
qed

text \<open>
  C17. acquire and release keep the interrupt flag. On a CPU at any nesting depth, with any stale saved flag: acquire of a free lock
  turns interrupts off, holding is then true and a second acquire panics instead of deadlocking; release gives back the
  lock and the CPU as it was but for the saved flag, so interrupts are on again exactly if they were on before. When a second lock is
  taken in between, releasing the first one leaves interrupts off, and releasing the second one then
  restores the flag.
\<close>

theorem acquire_release_restores:
  assumes "cpu_here s" and "lock_free lk" and "lock_free lk2"
  shows "\<exists>lk' s1 lk2' s2 t. acquire lk s = Inr (lk', s1) \<and> \<not> eflags_if s1 \<and> holding lk' s1 = Inr (True, s1) \<and>
    acquire lk' s1 = Inl (Panic ''acquire'') \<and> release lk' s1 = Inr (lk, t) \<and>
    acquire lk2 s1 = Inr (lk2', s2) \<and> release lk' s2 = Inr (lk, s1) \<and> release lk2' s1 = Inr (lk2, t) \<and>
    eflags_if t = eflags_if s \<and> t\<lparr>cpus := cpus s\<rparr> = s \<and>
    map (\<lambda>c. c\<lparr>cpu_intena := False\<rparr>) (cpus t) = map (\<lambda>c. c\<lparr>cpu_intena := False\<rparr>) (cpus s)"
proof -
  let ?t = "saved s" and ?s1 = "pushed (saved s)"
  have ok: "cpu_ok ?t" "cpu_ok ?s1" using saved_ok(1) [OF assms(1)] cpu_ok_pushed by blast+
  have here: "held_here l ?s1 = held_here l ?t" for l by (simp add: held_here_def)
  have "acquire lk s = Inr (held_here lk ?t, ?s1)"
    using acquire_saved [OF assms(1)] acquire_ok [OF ok(1) assms(2)] by simp
  moreover have "holding (held_here lk ?t) ?s1 = Inr (True, ?s1)"
    using holding_ok [OF ok(2)] by (simp add: held_here_def)
  moreover have "acquire (held_here lk ?t) ?s1 = Inl (Panic ''acquire'')"
    using acquire_twice [OF ok(2), of lk] unfolding here .
  moreover note release_pushed [OF ok(1) assms(2)] acquire_ok [OF ok(2) assms(3)]
    release_pushed [OF ok(2) assms(2), unfolded here] release_pushed [OF ok(1) assms(3)] saved_same(1,3,4) [of s] eflags_if_pushed [of ?t]
  ultimately show ?thesis unfolding here by blast
qed

theorem acquire_release_restores_witness:
  "\<exists>lk' s1 t. acquire (initlock ''klog'')
      \<lparr>cpus = [\<lparr>apicid = 0, cpu_ncli = 0, cpu_intena = False, cpu_proc = None\<rparr>],
       lapic_id = 0, eflags_if = True\<rparr> = Inr (lk', s1) \<and> \<not> eflags_if (s1 :: kcpu) \<and>
     release lk' s1 = Inr (initlock ''klog'', t) \<and> eflags_if t"
proof -
  let ?s = "\<lparr>cpus = [\<lparr>apicid = 0, cpu_ncli = 0, cpu_intena = False, cpu_proc = None\<rparr>],
       lapic_id = 0, eflags_if = True\<rparr> :: kcpu"
  have "cpu_here ?s" "lock_free (initlock ''klog'')"
    by (simp_all add: cpu_here_def lock_free_def initlock_def)
  from acquire_release_restores [OF this this(2)] show ?thesis
    by auto
qed

end
