(* ===== verification/Klog.thy ===== *)
theory Klog
  imports Spinlock
begin

text \<open>
  The kernel flight recorder (klog.c, klog.h): a ring of \<open>KLOG_SIZE\<close> entries under a spin lock. The
  abstract view is the list of entries the ring holds, oldest first; logging appends to it and, when
  the ring is full, drops the oldest. klog_getlogs, which copies to user memory, is in theory Klog_Export.
\<close>

section \<open>Data\<close>

abbreviation KLOG_SIZE :: int where
  "KLOG_SIZE \<equiv> 128"

text \<open>struct logentry: the four fields klog.c and klogs.c use.\<close>

record logentry =
  timestamp :: u32
  event_type :: int
  le_pid :: int
  extra :: int

record klog =
  kl_lock :: spinlock
  kl_entries :: "logentry list"
  kl_head :: int
  kl_count :: int
  kl_ticks :: u32

record klog_st = kcpu +
  klog :: klog

section \<open>Operations\<close>

definition klog_init :: "'a klog_st_scheme \<Rightarrow> 'a klog_st_scheme" where
  "klog_init s = s\<lparr>klog := (klog s)\<lparr>kl_lock := initlock ''klog'', kl_head := 0, kl_count := 0, kl_ticks := 0\<rparr>\<rparr>"

definition klog_add :: "int \<Rightarrow> int \<Rightarrow> int \<Rightarrow> 'a klog_st_scheme \<Rightarrow> 'a klog_st_scheme stop + 'a klog_st_scheme" where
  "klog_add ty pid ex s =
     seq (acquire (kl_lock (klog s)) s) (\<lambda>(lk, s).
     let k = (klog s)\<lparr>kl_lock := lk\<rparr>;
         e = \<lparr>timestamp = kl_ticks k, event_type = ty, le_pid = pid, extra = ex\<rparr>;
         k = k\<lparr>kl_entries := (kl_entries k)[nat (kl_head k) := e], kl_ticks := kl_ticks k + 1\<rparr>;
         k = k\<lparr>kl_head := (kl_head k + 1) mod KLOG_SIZE\<rparr>;
         k = (if kl_count k < KLOG_SIZE then k\<lparr>kl_count := kl_count k + 1\<rparr> else k)
     in seq (release (kl_lock k) s) (\<lambda>(lk, s). Inr (s\<lparr>klog := k\<lparr>kl_lock := lk\<rparr>\<rparr>)))"

text \<open>
  The entries that both readers walk: \<open>n\<close> entries from \<open>start\<close>, wrapping at the end of the array
  (\<open>idx = (start + i) % KLOG_SIZE\<close>).
\<close>

definition klog_walk :: "klog \<Rightarrow> int \<Rightarrow> int \<Rightarrow> logentry list" where
  "klog_walk k start n = map (\<lambda>i. kl_entries k ! nat ((start + int i) mod KLOG_SIZE)) [0..<nat n]"

section \<open>The abstract recorder\<close>

text \<open>The last \<open>n\<close> elements of a list.\<close>

definition lastn :: "nat \<Rightarrow> 'a list \<Rightarrow> 'a list" where
  "lastn n xs = drop (length xs - n) xs"

definition klog_window :: "klog \<Rightarrow> logentry list" where
  "klog_window k = klog_walk k (kl_head k - kl_count k + KLOG_SIZE) (kl_count k)"

definition klog_wf :: "klog \<Rightarrow> bool" where
  "klog_wf k \<longleftrightarrow> length (kl_entries k) = nat KLOG_SIZE \<and> 0 \<le> kl_head k \<and> kl_head k < KLOG_SIZE \<and>
     0 \<le> kl_count k \<and> kl_count k \<le> KLOG_SIZE"

text \<open>A run of log calls, as the kernel's hooks would make them one after the other.\<close>

fun klog_add_all :: "(int \<times> int \<times> int) list \<Rightarrow> 'a klog_st_scheme \<Rightarrow> 'a klog_st_scheme stop + 'a klog_st_scheme" where
  "klog_add_all [] s = Inr s"
| "klog_add_all ((ty, pid, ex) # es) s = seq (klog_add ty pid ex s) (klog_add_all es)"

text \<open>
  The contract of a bounded recorder: recording keeps the invariant and leaves the last \<open>cap\<close> entries
  of the old view with the new one at the end.
\<close>

locale recorder =
  fixes inv :: "'s \<Rightarrow> bool" and view :: "'s \<Rightarrow> 'e list" and put :: "'i \<Rightarrow> 's \<Rightarrow> 's"
    and entry :: "'i \<Rightarrow> 's \<Rightarrow> 'e" and cap :: nat
  assumes inv_put: "inv s \<Longrightarrow> inv (put i s)"
    and view_put: "inv s \<Longrightarrow> view (put i s) = lastn cap (view s @ [entry i s])"
    and view_bounded: "inv s \<Longrightarrow> length (view s) \<le> cap"
begin

fun puts :: "'i list \<Rightarrow> 's \<Rightarrow> 's" where
  "puts [] s = s"
| "puts (i # is) s = puts is (put i s)"

fun entries :: "'i list \<Rightarrow> 's \<Rightarrow> 'e list" where
  "entries [] s = []"
| "entries (i # is) s = entry i s # entries is (put i s)"

lemma lastn_append_lastn: "lastn n (lastn n xs @ ys) = lastn n (xs @ ys)"
  by (cases "length xs \<le> n") (auto simp: lastn_def add.commute)

lemma inv_puts: "inv s \<Longrightarrow> inv (puts is s)"
  by (induction "is" arbitrary: s) (auto intro: inv_put)

lemma view_puts: "inv s \<Longrightarrow> view (puts is s) = lastn cap (view s @ entries is s)"
proof (induction "is" arbitrary: s)
  case Nil
  then show ?case
    using view_bounded [of s] by (simp add: lastn_def)
next
  case (Cons i "is")
  then have "view (puts (i # is) s) = lastn cap (lastn cap (view s @ [entry i s]) @ entries is (put i s))"
    by (simp add: inv_put view_put)
  then show ?case
    by (simp add: lastn_append_lastn)
qed

end

section \<open>The ring implements the abstract recorder\<close>

definition klog_entry :: "int \<times> int \<times> int \<Rightarrow> klog \<Rightarrow> logentry" where
  "klog_entry i k = (case i of (ty, pid, ex) \<Rightarrow>
     \<lparr>timestamp = kl_ticks k, event_type = ty, le_pid = pid, extra = ex\<rparr>)"

definition klog_put :: "int \<times> int \<times> int \<Rightarrow> klog \<Rightarrow> klog" where
  "klog_put i k = k\<lparr>kl_entries := (kl_entries k)[nat (kl_head k) := klog_entry i k],
     kl_head := (kl_head k + 1) mod KLOG_SIZE,
     kl_count := (if kl_count k < KLOG_SIZE then kl_count k + 1 else kl_count k),
     kl_ticks := kl_ticks k + 1\<rparr>"

definition klog_ok :: "'a klog_st_scheme \<Rightarrow> bool" where
  "klog_ok s \<longleftrightarrow> cpu_ok s \<and> lock_free (kl_lock (klog s)) \<and> klog_wf (klog s)"

lemma cpu_ok_klog [simp]: "cpu_ok (s\<lparr>klog := k\<rparr>) = cpu_ok s"
  by (rule same_cpu_cpu_ok) (simp add: same_cpu_def)

lemma klog_add_put:
  assumes "cpu_ok s" and "lock_free (kl_lock (klog s))"
  shows "klog_add ty pid ex s = Inr (s\<lparr>klog := klog_put (ty, pid, ex) (klog s)\<rparr>)"
proof -
  have ring: "klog (pushed s) = klog s"
    by (simp add: pushed_def)
  have restored: "(pushed s)\<lparr>eflags_if := eflags_if s, cpus := cpus s, klog := x\<rparr> = s\<lparr>klog := x\<rparr>" for x
    by (simp add: pushed_def)
  show ?thesis
    using release_ok [OF assms(1) same_cpu_refl assms(2)]
    unfolding klog_add_def acquire_ok [OF assms]
    by (cases "klog s") (simp add: ring Let_def restored klog_put_def klog_entry_def)
qed

lemma length_klog_window [simp]: "length (klog_window k) = nat (kl_count k)"
  by (simp add: klog_window_def klog_walk_def)

lemma klog_window_nth:
  "i < nat (kl_count k) \<Longrightarrow>
   klog_window k ! i = kl_entries k ! nat ((kl_head k - kl_count k + int i) mod KLOG_SIZE)"
  by (simp add: klog_window_def klog_walk_def add.commute [of _ 128] add.assoc)

lemma klog_put_wf: "klog_wf k \<Longrightarrow> klog_wf (klog_put i k)"
  by (auto simp: klog_wf_def klog_put_def)

lemma lastn_nth: "i < length (lastn n xs) \<Longrightarrow> lastn n xs ! i = xs ! (length xs - n + i)"
  by (simp add: lastn_def)

lemma same_slot:
  assumes "0 \<le> h" "h < 128" "- 128 < x" "x \<le> 0"
  shows "(h + x) mod 128 = h \<longleftrightarrow> x = (0::int)"
proof (cases "0 \<le> h + x")
  case True
  with assms show ?thesis by simp
next
  case False
  then have "(h + x + 128) mod 128 = h + x + 128"
    using assms by (intro mod_pos_pos_trivial) auto
  with assms False show ?thesis by simp
qed

lemma klog_put_window:
  assumes wf: "klog_wf k"
  shows "klog_window (klog_put i k) = lastn 128 (klog_window k @ [klog_entry i k])"
proof (rule nth_equalityI)
  let ?k = "klog_put i k"
  show len: "length (klog_window ?k) = length (lastn 128 (klog_window k @ [klog_entry i k]))"
    using wf by (auto simp: klog_put_def lastn_def klog_wf_def)
  fix j assume "j < length (klog_window ?k)"
  then have j: "j < nat (kl_count ?k)" "j < length (lastn 128 (klog_window k @ [klog_entry i k]))"
    using len by auto
  let ?d = "nat (kl_count k) + 1 - 128"
  have right: "lastn 128 (klog_window k @ [klog_entry i k]) ! j =
      (if ?d + j < nat (kl_count k) then klog_window k ! (?d + j) else klog_entry i k)"
    using j(2) by (auto simp: lastn_nth nth_append lastn_def)
  have left: "klog_window ?k ! j =
      (if (kl_head k - kl_count k + int (?d + j)) mod 128 = kl_head k then klog_entry i k
       else kl_entries k ! nat ((kl_head k - kl_count k + int (?d + j)) mod 128))"
  proof -
    let ?at = "(kl_head k - kl_count k + int (?d + j)) mod 128"
    have pos: "(kl_head ?k - kl_count ?k + int j) mod 128 = ?at"
    proof -
      have count: "kl_count ?k - int j = kl_count k + 1 - int (?d + j)"
        using wf by (auto simp: klog_put_def klog_wf_def)
      have "(kl_head ?k - kl_count ?k + int j) mod 128 = ((kl_head k + 1) mod 128 - (kl_count ?k - int j)) mod 128"
        by (simp add: klog_put_def diff_diff_eq2 diff_add_eq)
      also have "\<dots> = (kl_head k + 1 - (kl_count ?k - int j)) mod 128"
        by (rule mod_diff_left_eq)
      finally show ?thesis
        unfolding count by (simp add: algebra_simps)
    qed
    have "kl_entries ?k ! nat ?at = (kl_entries k)[nat (kl_head k) := klog_entry i k] ! nat ?at"
      by (simp add: klog_put_def)
    also have "\<dots> = (if ?at = kl_head k then klog_entry i k else kl_entries k ! nat ?at)"
    proof -
      have "0 \<le> ?at" by simp
      then show ?thesis
        using wf by (auto simp: klog_wf_def nth_list_update eq_nat_nat_iff)
    qed
    finally show ?thesis
      unfolding klog_window_nth [OF j(1)] pos .
  qed
  have "(kl_head k - kl_count k + int (?d + j)) mod 128 = kl_head k \<longleftrightarrow> \<not> ?d + j < nat (kl_count k)"
  proof -
    have "?d + j \<le> nat (kl_count k)" and "nat (kl_count k) < ?d + j + 128"
      using j(1) wf by (auto simp: klog_put_def klog_wf_def split: if_splits)
    moreover have c: "kl_count k = int (nat (kl_count k))" and "0 \<le> kl_head k" "kl_head k < 128"
      using wf by (auto simp: klog_wf_def)
    ultimately have "(kl_head k + (int (?d + j) - kl_count k)) mod 128 = kl_head k \<longleftrightarrow> int (?d + j) - kl_count k = 0"
      by (intro same_slot) linarith+
    moreover have "int (?d + j) - kl_count k = 0 \<longleftrightarrow> \<not> ?d + j < nat (kl_count k)"
      using \<open>?d + j \<le> nat (kl_count k)\<close> c by linarith
    moreover have "kl_head k + (int (?d + j) - kl_count k) = kl_head k - kl_count k + int (?d + j)"
      by simp
    ultimately show ?thesis
      by (simp only:)
  qed
  with left right show "klog_window ?k ! j = lastn 128 (klog_window k @ [klog_entry i k]) ! j"
    by (simp add: klog_window_nth)
qed

interpretation kl: recorder klog_wf klog_window klog_put klog_entry 128
  proof unfold_locales
  show "length (klog_window k) \<le> 128" if "klog_wf k" for k
    using that by (simp add: klog_wf_def nat_le_iff)
qed (auto simp: klog_put_wf klog_put_window)

lemma klog_add_all_puts:
  "cpu_ok s \<Longrightarrow> lock_free (kl_lock (klog s)) \<Longrightarrow>
   klog_add_all es s = Inr (s\<lparr>klog := kl.puts es (klog s)\<rparr>)"
proof (induction es arbitrary: s)
  case Nil
  then show ?case by simp
next
  case (Cons e es)
  obtain ty pid ex where e: "e = (ty, pid, ex)"
    by (cases e) auto
  let ?s = "s\<lparr>klog := klog_put e (klog s)\<rparr>"
  have "cpu_ok ?s"
    using Cons.prems(1) by simp
  moreover have "lock_free (kl_lock (klog ?s))"
    using Cons.prems(2) by (simp add: klog_put_def)
  ultimately have "klog_add_all es ?s = Inr (?s\<lparr>klog := kl.puts es (klog ?s)\<rparr>)"
    by (rule Cons.IH)
  then show ?case
    using klog_add_put [OF Cons.prems] by (simp add: e)
qed

text \<open>The entry of the \<open>i\<close>th event logged since klog_init.\<close>

definition stamped :: "nat \<Rightarrow> int \<times> int \<times> int \<Rightarrow> logentry" where
  "stamped i e = (case e of (ty, pid, ex) \<Rightarrow>
     \<lparr>timestamp = of_nat i, event_type = ty, le_pid = pid, extra = ex\<rparr>)"

lemma klog_entries_stamped:
  "kl_ticks k = of_nat n \<Longrightarrow> kl.entries es k = map2 stamped [n..<n + length es] es"
proof (induction es arbitrary: k n)
  case Nil
  then show ?case by simp
next
  case (Cons e es)
  have "kl_ticks (klog_put e k) = of_nat (Suc n)"
    using Cons.prems by (simp add: klog_put_def)
  then have "kl.entries es (klog_put e k) = map2 stamped [Suc n..<Suc n + length es] es"
    by (rule Cons.IH)
  moreover have "[n..<n + length (e # es)] = n # [Suc n..<Suc n + length es]"
    by (simp add: upt_rec)
  moreover have "klog_entry e k = stamped n e"
    using Cons.prems by (simp add: klog_entry_def stamped_def split: prod.split)
  ultimately show ?case
    by simp
qed

section \<open>Properties\<close>

text \<open>
  C1. The flight recorder refines a list: after klog_init, however many events are logged, every klog_add
  returns with the lock free again, and the ring read from its oldest entry holds exactly the last
  \<open>KLOG_SIZE\<close> events in the order they were logged, each stamped with the number of events logged before
  it (modulo \<open>2\<^sup>3\<^sup>2\<close>).
\<close>

theorem klog_holds_last_events:
  assumes "cpu_ok s" and "length (kl_entries (klog s)) = 128"
  shows "\<exists>s'. klog_add_all es (klog_init s) = Inr s' \<and> klog_ok s' \<and>
    klog_window (klog s') = lastn 128 (map2 stamped [0..<length es] es)"
proof -
  let ?s = "klog_init s"
  have ok: "cpu_ok ?s" "lock_free (kl_lock (klog ?s))" and wf: "klog_wf (klog ?s)"
    using assms by (simp_all add: klog_init_def lock_free_def initlock_def klog_wf_def)
  have empty: "klog_window (klog ?s) = []" and "kl_ticks (klog ?s) = of_nat 0"
    by (simp_all add: klog_init_def klog_window_def klog_walk_def)
  then have "kl.entries es (klog ?s) = map2 stamped [0..<length es] es"
    using klog_entries_stamped [of "klog ?s" 0 es] by simp
  moreover have "kl_lock (kl.puts es k) = kl_lock k" for k
    by (induction es arbitrary: k) (auto simp: klog_put_def)
  ultimately show ?thesis
    using klog_add_all_puts [OF ok, of es] kl.view_puts [OF wf, of es] kl.inv_puts [OF wf, of es] ok empty
    by (simp add: klog_ok_def)
qed

theorem klog_holds_last_events_witness:
  "\<exists>s'. klog_add_all [(0, 1, 5), (2, 1, 7)]
      (klog_init \<lparr>cpus = [\<lparr>apicid = 0, cpu_ncli = 0, cpu_intena = True, cpu_proc = None\<rparr>],
        lapic_id = 0, eflags_if = True,
        klog = \<lparr>kl_lock = initlock ''klog'', kl_entries = replicate 128 (stamped 0 (0, 0, 0)),
          kl_head = 0, kl_count = 0, kl_ticks = 0\<rparr>\<rparr>) = Inr (s' :: klog_st) \<and>
    klog_window (klog s') = [stamped 0 (0, 1, 5), stamped 1 (2, 1, 7)]"
proof -
  let ?s = "\<lparr>cpus = [\<lparr>apicid = 0, cpu_ncli = 0, cpu_intena = True, cpu_proc = None\<rparr>],
        lapic_id = 0, eflags_if = True,
        klog = \<lparr>kl_lock = initlock ''klog'', kl_entries = replicate 128 (stamped 0 (0, 0, 0)),
          kl_head = 0, kl_count = 0, kl_ticks = 0\<rparr>\<rparr> :: klog_st"
  have "cpu_ok ?s" "length (kl_entries (klog ?s)) = 128"
    by (simp_all add: cpu_ok_def)
  moreover have "lastn 128 (map2 stamped [0..<length [(0, 1, 5), (2, 1, 7)]] [(0, 1, 5), (2, 1, 7)]) =
      [stamped 0 (0, 1, 5), stamped 1 (2, 1, 7)]"
    by (simp add: lastn_def upt_conv_Cons)
  ultimately show ?thesis
    using klog_holds_last_events [of ?s "[(0, 1, 5), (2, 1, 7)]"] by auto
qed

end
