(* ===== verification/Sched.thy ===== *)
theory Sched
  imports Klog
begin

text \<open>
  The process table and the primitives that switch processes (the first and last part of proc.c):
  myproc, sched, yield, sleep, wakeup1, wakeup and kill. A process is named by its slot in
  \<open>ptable.proc\<close>. A routine that calls sched stops in the state the scheduler sees; what the routine does
  when the process runs again is a definition of its own (\<open>sleep_resume\<close>, \<open>yield_resume\<close>). The end of
  the theory is the interleaving of sleepers and wakers on one condition.
\<close>

section \<open>Locks that are fields of the kernel state\<close>

definition acquire_at :: "('a kcpu_scheme \<Rightarrow> spinlock) \<Rightarrow> (spinlock \<Rightarrow> 'a kcpu_scheme \<Rightarrow> 'a kcpu_scheme) \<Rightarrow>
    'a kcpu_scheme \<Rightarrow> 'a kcpu_scheme stop + 'a kcpu_scheme" where
  "acquire_at get put s = seq (acquire (get s) s) (\<lambda>(lk, s). Inr (put lk s))"

definition release_at :: "('a kcpu_scheme \<Rightarrow> spinlock) \<Rightarrow> (spinlock \<Rightarrow> 'a kcpu_scheme \<Rightarrow> 'a kcpu_scheme) \<Rightarrow>
    'a kcpu_scheme \<Rightarrow> 'a kcpu_scheme stop + 'a kcpu_scheme" where
  "release_at get put s = seq (release (get s) s) (\<lambda>(lk, s). Inr (put lk s))"

text \<open>
  The contract of a lock field: reading and writing it behaves like a variable, and it is independent
  of the CPU part of the state. A critical section whose body neither reads nor writes the lock and
  the CPU part is then the body.
\<close>

locale lock_field =
  fixes get :: "'a kcpu_scheme \<Rightarrow> spinlock" and put :: "spinlock \<Rightarrow> 'a kcpu_scheme \<Rightarrow> 'a kcpu_scheme"
  assumes get_put: "get (put l s) = l"
    and put_put: "put l (put l' s) = put l s"
    and put_get: "put (get s) s = s"
    and put_cpu: "(put l s)\<lparr>eflags_if := e, cpus := c\<rparr> = put l (s\<lparr>eflags_if := e, cpus := c\<rparr>)"
    and get_cpu: "get (s\<lparr>eflags_if := e, cpus := c\<rparr>) = get s"
    and same_put: "same_cpu (put l s) s"
begin

definition opened :: "'a kcpu_scheme \<Rightarrow> 'a kcpu_scheme" where
  "opened s = put (held_here (get s) s) (pushed s)"

definition framed :: "('a kcpu_scheme \<Rightarrow> 'a kcpu_scheme) \<Rightarrow> bool" where
  "framed f \<longleftrightarrow> (\<forall>l e c t. f (put l (t\<lparr>eflags_if := e, cpus := c\<rparr>)) = put l ((f t)\<lparr>eflags_if := e, cpus := c\<rparr>))
     \<and> (\<forall>t. lapic_id (f t) = lapic_id t)"

lemma framedD: "framed f \<Longrightarrow> f (put l (t\<lparr>eflags_if := e, cpus := c\<rparr>)) = put l ((f t)\<lparr>eflags_if := e, cpus := c\<rparr>)"
  by (simp add: framed_def)

lemma framed_self: "framed f \<Longrightarrow> put (get s) ((f s)\<lparr>eflags_if := eflags_if s, cpus := cpus s\<rparr>) = f s"
  using framedD [where f = f and l = "get s" and t = s and e = "eflags_if s" and c = "cpus s"] by (simp add: put_get)

lemma acquire_at_ok: "cpu_ok s \<Longrightarrow> lock_free (get s) \<Longrightarrow> acquire_at get put s = Inr (opened s)"
  by (simp add: acquire_at_def acquire_ok opened_def)

lemma pushed_eq: "pushed s = s\<lparr>eflags_if := False, cpus := cpus (pushed s)\<rparr>"
  by (simp add: pushed_def)

lemma body_opened:
  "framed f \<Longrightarrow> f (opened s) = put (held_here (get s) s) ((f s)\<lparr>eflags_if := False, cpus := cpus (pushed s)\<rparr>)"
  unfolding opened_def by (subst pushed_eq) (rule framedD)

lemma release_at_ok:
  assumes "cpu_ok s" "lock_free (get s)" "framed f"
  shows "release_at get put (f (opened s)) = Inr (f s)"
proof -
  let ?t = "f (opened s)"
  have t: "?t = put (held_here (get s) s) ((f s)\<lparr>eflags_if := False, cpus := cpus (pushed s)\<rparr>)"
    using assms(3) by (rule body_opened)
  have "lapic_id (f s) = lapic_id s"
    using assms(3) by (simp add: framed_def)
  then have "same_cpu ?t (pushed s)"
    unfolding t using same_put by (simp add: same_cpu_def pushed_def)
  then have "release (get ?t) ?t = Inr (get s, ?t\<lparr>eflags_if := eflags_if s, cpus := cpus s\<rparr>)"
    using release_ok [OF assms(1) _ assms(2), of ?t] by (simp add: t get_put)
  moreover have "put (get s) (?t\<lparr>eflags_if := eflags_if s, cpus := cpus s\<rparr>) = f s"
    using framed_self [OF assms(3), of s] by (simp add: t put_cpu put_put)
  ultimately show ?thesis
    by (simp add: release_at_def)
qed

lemma critical:
  "cpu_ok s \<Longrightarrow> lock_free (get s) \<Longrightarrow> framed f \<Longrightarrow>
   seq (acquire_at get put s) (\<lambda>t. release_at get put (f t)) = Inr (f s)"
  by (simp add: acquire_at_ok release_at_ok)

end

section \<open>The process table\<close>

datatype procstate = UNUSED | EMBRYO | SLEEPING | RUNNABLE | RUNNING | ZOMBIE

text \<open>struct trapframe: the registers a trap saves at the top of the process's kernel stack.\<close>

record trapframe =
  tf_edi :: u32
  tf_esi :: u32
  tf_ebp :: u32
  tf_oesp :: u32
  tf_ebx :: u32
  tf_edx :: u32
  tf_ecx :: u32
  tf_eax :: u32
  tf_gs :: u16
  tf_fs :: u16
  tf_es :: u16
  tf_ds :: u16
  tf_trapno :: u32
  tf_err :: u32
  tf_eip :: u32
  tf_cs :: u16
  tf_eflags :: u32
  tf_esp :: u32
  tf_ss :: u16

text \<open>
  struct proc. Pointers to other kernel objects are their index in the table that holds them; the
  trap frame is its contents; the name is the bytes before the terminator. \<open>context\<close> is the machine
  state of a suspended kernel routine and has no counterpart here.
\<close>

record proc =
  p_sz :: u32
  p_pgdir :: u32
  p_kstack :: u32
  p_state :: procstate
  p_pid :: int
  p_parent :: "nat option"
  p_tf :: trapframe
  p_chan :: "chan option"
  p_killed :: int
  p_ofile :: "nat option list"
  p_cwd :: "nat option"
  p_name :: "u8 list"

abbreviation NPROC :: nat where
  "NPROC \<equiv> 64"

record ptable =
  pt_lock :: spinlock
  pt_proc :: "proc list"
  nextpid :: int
  initproc :: "nat option"

record ptab_st = klog_st +
  ptable :: ptable

definition put_ptlock :: "spinlock \<Rightarrow> 'a ptab_st_scheme \<Rightarrow> 'a ptab_st_scheme" where
  "put_ptlock l s = s\<lparr>ptable := (ptable s)\<lparr>pt_lock := l\<rparr>\<rparr>"

abbreviation acquire_ptable :: "'a ptab_st_scheme \<Rightarrow> 'a ptab_st_scheme stop + 'a ptab_st_scheme" where
  "acquire_ptable \<equiv> acquire_at (\<lambda>s. pt_lock (ptable s)) put_ptlock"

abbreviation release_ptable :: "'a ptab_st_scheme \<Rightarrow> 'a ptab_st_scheme stop + 'a ptab_st_scheme" where
  "release_ptable \<equiv> release_at (\<lambda>s. pt_lock (ptable s)) put_ptlock"

definition upd_procs :: "(proc list \<Rightarrow> proc list) \<Rightarrow> 'a ptab_st_scheme \<Rightarrow> 'a ptab_st_scheme" where
  "upd_procs f s = s\<lparr>ptable := (ptable s)\<lparr>pt_proc := f (pt_proc (ptable s))\<rparr>\<rparr>"

definition upd_proc :: "nat \<Rightarrow> (proc \<Rightarrow> proc) \<Rightarrow> 'a ptab_st_scheme \<Rightarrow> 'a ptab_st_scheme" where
  "upd_proc p f = upd_procs (\<lambda>ps. ps[p := f (ps ! p)])"

abbreviation procs :: "'a ptab_st_scheme \<Rightarrow> proc list" where
  "procs s \<equiv> pt_proc (ptable s)"

section \<open>Operations\<close>

definition pinit :: "'a ptab_st_scheme \<Rightarrow> 'a ptab_st_scheme" where
  "pinit s = put_ptlock (initlock ''ptable'') s"

definition myproc :: "'a kcpu_scheme \<Rightarrow> 'a kcpu_scheme stop + nat option \<times> 'a kcpu_scheme" where
  "myproc s =
     seq (pushcli s) (\<lambda>s.
     seq (mycpu s) (\<lambda>c.
     let p = cpu_proc (cpus s ! c)
     in seq (popcli s) (\<lambda>s. Inr (p, s))))"

text \<open>
  sched checks that the caller is ready to give up the CPU and switches to the scheduler's stack. The
  saved \<open>intena\<close> belongs to the kernel thread: \<open>sched_resume\<close> puts it back once the thread runs again.
\<close>

definition sched :: "'a ptab_st_scheme \<Rightarrow> 'a ptab_st_scheme stop + 'b" where
  "sched s =
     seq (myproc s) (\<lambda>(p, s).
     seq (holding (pt_lock (ptable s)) s) (\<lambda>(h, s).
     if \<not> h then Inl (Panic ''sched ptable.lock'')
     else seq (mycpu s) (\<lambda>c.
     if cpu_ncli (cpus s ! c) \<noteq> 1 then Inl (Panic ''sched locks'')
     else seq (deref p) (\<lambda>p.
     if p_state (procs s ! p) = RUNNING then Inl (Panic ''sched running'')
     else if eflags_if s then Inl (Panic ''sched interruptible'')
     else Inl (Switch s)))))"

definition sched_resume :: "bool \<Rightarrow> 'a kcpu_scheme \<Rightarrow> 'a kcpu_scheme stop + 'a kcpu_scheme" where
  "sched_resume intena s =
     seq (mycpu s) (\<lambda>c. Inr (s\<lparr>cpus := (cpus s)[c := (cpus s ! c)\<lparr>cpu_intena := intena\<rparr>]\<rparr>))"

definition yield :: "'a ptab_st_scheme \<Rightarrow> 'a ptab_st_scheme stop + 'b" where
  "yield s =
     seq (acquire_ptable s) (\<lambda>s.
     seq (myproc s) (\<lambda>(p, s).
     seq (deref p) (\<lambda>p.
     sched (upd_proc p (\<lambda>q. q\<lparr>p_state := RUNNABLE\<rparr>) s))))"

definition yield_resume :: "bool \<Rightarrow> 'a ptab_st_scheme \<Rightarrow> 'a ptab_st_scheme stop + 'a ptab_st_scheme" where
  "yield_resume intena s = seq (sched_resume intena s) release_ptable"

text \<open>
  sleep takes the lock the caller holds: None is \<open>&ptable.lock\<close> itself, otherwise the field of the state
  that holds it. \<open>sleep_resume\<close> is the part of sleep after sched.
\<close>

type_synonym 's lockref = "(('s \<Rightarrow> spinlock) \<times> (spinlock \<Rightarrow> 's \<Rightarrow> 's)) option"

definition sleep :: "chan \<Rightarrow> 'a ptab_st_scheme lockref \<Rightarrow> 'a ptab_st_scheme \<Rightarrow> 'a ptab_st_scheme stop + 'b" where
  "sleep ch lk s =
     seq (myproc s) (\<lambda>(p, s). case p of None \<Rightarrow> Inl (Panic ''sleep'') | Some p \<Rightarrow>
     seq (case lk of None \<Rightarrow> Inr s
          | Some (get, put) \<Rightarrow> seq (acquire_ptable s) (release_at get put)) (\<lambda>s.
     sched (upd_proc p (\<lambda>q. q\<lparr>p_chan := Some ch, p_state := SLEEPING\<rparr>) s)))"

definition sleep_resume :: "bool \<Rightarrow> nat \<Rightarrow> 'a ptab_st_scheme lockref \<Rightarrow> 'a ptab_st_scheme \<Rightarrow>
    'a ptab_st_scheme stop + 'a ptab_st_scheme" where
  "sleep_resume intena p lk s =
     seq (sched_resume intena s) (\<lambda>s.
     let s = upd_proc p (\<lambda>q. q\<lparr>p_chan := None\<rparr>) s
     in case lk of None \<Rightarrow> Inr s
        | Some (get, put) \<Rightarrow> seq (release_ptable s) (acquire_at get put))"

definition wakeup1 :: "chan \<Rightarrow> 'a ptab_st_scheme \<Rightarrow> 'a ptab_st_scheme" where
  "wakeup1 ch = upd_procs (map (\<lambda>p.
     if p_state p = SLEEPING \<and> p_chan p = Some ch then p\<lparr>p_state := RUNNABLE\<rparr> else p))"

definition wakeup :: "chan \<Rightarrow> 'a ptab_st_scheme \<Rightarrow> 'a ptab_st_scheme stop + 'a ptab_st_scheme" where
  "wakeup ch s = seq (acquire_ptable s) (\<lambda>s. release_ptable (wakeup1 ch s))"

text \<open>The search loop of kill: the first slot with the pid, whatever its state.\<close>

fun kill_loop :: "int \<Rightarrow> proc list \<Rightarrow> (proc list) option" where
  "kill_loop pid [] = None"
| "kill_loop pid (p # ps) =
     (if p_pid p = pid
      then let p = p\<lparr>p_killed := 1\<rparr>;
               p = (if p_state p = SLEEPING then p\<lparr>p_state := RUNNABLE\<rparr> else p)
           in Some (p # ps)
      else map_option (Cons p) (kill_loop pid ps))"

definition kill :: "int \<Rightarrow> 'a ptab_st_scheme \<Rightarrow> 'a ptab_st_scheme stop + int \<times> 'a ptab_st_scheme" where
  "kill pid s =
     seq (acquire_ptable s) (\<lambda>s.
     case kill_loop pid (procs s) of
       Some ps \<Rightarrow> seq (release_ptable (upd_procs (\<lambda>_. ps) s)) (\<lambda>s. Inr (0, s))
     | None \<Rightarrow> seq (release_ptable s) (\<lambda>s. Inr (-1, s)))"

section \<open>Characterisations\<close>

lemma ptable_same_cpu [simp]: "cpu_ok (s\<lparr>ptable := x\<rparr>) = cpu_ok s" "this_cpu (s\<lparr>ptable := x\<rparr>) = this_cpu s"
  by (rule same_cpu_cpu_ok, simp add: same_cpu_def) (simp add: this_cpu_def)

interpretation pt: lock_field "\<lambda>s :: 'a ptab_st_scheme. pt_lock (ptable s)" put_ptlock
  by unfold_locales (auto simp: put_ptlock_def same_cpu_def)

definition pt_ok :: "'a ptab_st_scheme \<Rightarrow> bool" where
  "pt_ok s \<longleftrightarrow> cpu_ok s \<and> lock_free (pt_lock (ptable s))"

lemma framed_upd_procs [intro, simp]: "pt.framed (upd_procs f)"
  by (simp add: pt.framed_def upd_procs_def put_ptlock_def)

lemma pt_lock_upd_procs [simp]: "pt_lock (ptable (upd_procs f s)) = pt_lock (ptable s)"
  "procs (upd_procs f s) = f (procs s)" "cpu_ok (upd_procs f s) = cpu_ok s" "pt_ok (upd_procs f s) = pt_ok s"
  "cpus (upd_procs f s) = cpus s" "this_cpu (upd_procs f s) = this_cpu s" "eflags_if (upd_procs f s) = eflags_if s"
  by (simp_all add: upd_procs_def pt_ok_def)

lemma wakeup_ok: "pt_ok s \<Longrightarrow> wakeup ch s = Inr (wakeup1 ch s)"
  unfolding wakeup_def wakeup1_def pt_ok_def by (rule pt.critical) auto

lemma procs_opened: "procs (pt.opened s) = procs s"
  by (simp add: pt.opened_def put_ptlock_def pushed_def)

lemma kill_ok:
  assumes "pt_ok s"
  shows "kill pid s = Inr (case kill_loop pid (procs s) of None \<Rightarrow> (-1, s) | Some ps \<Rightarrow> (0, upd_procs (\<lambda>_. ps) s))"
proof -
  have ok: "cpu_ok s" "lock_free (pt_lock (ptable s))"
    using assms by (auto simp: pt_ok_def)
  have "pt.framed (\<lambda>s. s)"
    by (simp add: pt.framed_def)
  from pt.release_at_ok [OF ok this] have "release_ptable (pt.opened s) = Inr s" .
  moreover have "release_ptable (upd_procs f (pt.opened s)) = Inr (upd_procs f s)" for f
    using ok by (rule pt.release_at_ok) simp
  ultimately show ?thesis
    by (simp add: kill_def pt.acquire_at_ok [OF ok] procs_opened split: option.split)
qed

lemma myproc_ok: "cpu_ok s \<Longrightarrow> myproc s = Inr (cpu_proc (cpus s ! this_cpu s), s)"
proof -
  assume ok: "cpu_ok s"
  have "cpu_proc (cpus (pushed s) ! this_cpu s) = cpu_proc (cpus s ! this_cpu s)"
    using ok by (auto simp: pushed_def elim: cpu_okE)
  moreover have "(pushed s)\<lparr>eflags_if := eflags_if s, cpus := cpus s\<rparr> = s"
    by (simp add: pushed_def)
  ultimately show ?thesis
    using popcli_pushed [OF ok same_cpu_refl]
    by (simp add: myproc_def pushcli_ok [OF ok] mycpu_pushed [OF ok])
qed

lemma mycpu_ok: "cpu_ok s \<Longrightarrow> \<not> eflags_if s \<Longrightarrow> mycpu s = Inr (this_cpu s)"
  by (erule cpu_okE) (simp add: mycpu_def)

text \<open>The process that runs here holds the lock \<open>ptable.lock\<close> and nothing else, as sched demands.\<close>

definition sched_ready :: "nat \<Rightarrow> 'a ptab_st_scheme \<Rightarrow> bool" where
  "sched_ready p s \<longleftrightarrow> cpu_ok s \<and> cpu_ncli (cpus s ! this_cpu s) = 1 \<and> cpu_proc (cpus s ! this_cpu s) = Some p \<and>
     locked (pt_lock (ptable s)) \<noteq> 0 \<and> lk_cpu (pt_lock (ptable s)) = Some (this_cpu s)"

lemma cpu_ok_ncli_eflags: "cpu_ok s \<Longrightarrow> cpu_ncli (cpus s ! this_cpu s) \<noteq> 0 \<Longrightarrow> \<not> eflags_if s"
  by (erule cpu_okE) simp

lemma sched_ok:
  assumes "sched_ready p s" and "p_state (procs s ! p) \<noteq> RUNNING"
  shows "sched s = Inl (Switch s)"
proof -
  have ok: "cpu_ok s" and "\<not> eflags_if s"
    using assms(1) cpu_ok_ncli_eflags by (fastforce simp: sched_ready_def)+
  then show ?thesis
    using assms by (simp add: sched_def myproc_ok holding_ok mycpu_ok sched_ready_def)
qed

lemma upd_proc_simps [simp]:
  "p < length (procs s) \<Longrightarrow> procs (upd_proc p f s) ! p = f (procs s ! p)"
  "q \<noteq> p \<Longrightarrow> procs (upd_proc p f s) ! q = procs s ! q"
  "length (procs (upd_proc p f s)) = length (procs s)"
  "sched_ready q (upd_proc p f s) = sched_ready q s"
  by (simp_all add: upd_proc_def sched_ready_def)

lemma this_cpu_put_ptlock [simp]: "this_cpu (put_ptlock l s) = this_cpu s"
  "cpus (put_ptlock l s) = cpus s" "procs (put_ptlock l s) = procs s" "eflags_if (put_ptlock l s) = eflags_if s"
  by (simp_all add: put_ptlock_def)

text \<open>
  What sleep does with the lock the caller holds, when it is not \<open>ptable.lock\<close>: the two locks change
  hands and the CPU state is what it was.
\<close>

definition running :: "nat \<Rightarrow> 'a ptab_st_scheme \<Rightarrow> bool" where
  "running p s \<longleftrightarrow> cpu_ok s \<and> cpu_proc (cpus s ! this_cpu s) = Some p \<and> p < length (procs s)"

lemma sleep_swaps_locks:
  assumes "lock_field get put" and ok: "cpu_ok s" and ptf: "lock_free (pt_lock (ptable s))"
    and lk: "get s = held_here lk s" "lock_free lk"
    and indep: "\<And>l t. get (put_ptlock l t) = get t"
  shows "seq (acquire_ptable s) (release_at get put) = Inr (put lk (put_ptlock (held_here (pt_lock (ptable s)) s) s))"
proof -
  let ?t = "pt.opened s"
  have get_t: "get ?t = held_here lk s"
    using lk(1) lock_field.get_cpu [OF assms(1)] by (simp add: pt.opened_def indep pushed_def)
  have "same_cpu ?t (pushed s)"
    by (simp add: pt.opened_def put_ptlock_def same_cpu_def)
  then have "release (get ?t) ?t = Inr (lk, ?t\<lparr>eflags_if := eflags_if s, cpus := cpus s\<rparr>)"
    unfolding get_t by (rule release_ok [OF ok _ lk(2)])
  moreover have "?t\<lparr>eflags_if := eflags_if s, cpus := cpus s\<rparr> = put_ptlock (held_here (pt_lock (ptable s)) s) s"
    by (simp add: pt.opened_def put_ptlock_def pushed_def)
  ultimately show ?thesis
    by (simp add: pt.acquire_at_ok [OF ok ptf] release_at_def)
qed

lemma sleep_ok:
  assumes lf: "lock_field get put" and run: "running p s" and ncli: "cpu_ncli (cpus s ! this_cpu s) = 1"
    and free: "lock_free (pt_lock (ptable s))" and lk: "get s = held_here lk s" "lock_free lk"
    and indep: "\<And>l t. get (put_ptlock l t) = get t" "\<And>l t. ptable (put l t) = ptable t"
  shows "sleep ch (Some (get, put)) s = Inl (Switch (upd_proc p (\<lambda>q. q\<lparr>p_chan := Some ch, p_state := SLEEPING\<rparr>)
    (put lk (put_ptlock (held_here (pt_lock (ptable s)) s) s))))"
proof -
  let ?t = "put lk (put_ptlock (held_here (pt_lock (ptable s)) s) s)"
  have ok: "cpu_ok s" and p: "p < length (procs s)" "cpu_proc (cpus s ! this_cpu s) = Some p"
    using run by (auto simp: running_def)
  have same: "same_cpu ?t s"
    using lock_field.same_put [OF lf, of lk "put_ptlock (held_here (pt_lock (ptable s)) s) s"]
    by (simp add: same_cpu_def put_ptlock_def)
  then have "cpu_ok ?t" "this_cpu ?t = this_cpu s" "cpus ?t = cpus s"
    using ok same_cpu_cpu_ok by (auto simp: same_cpu_def this_cpu_def)
  then have "sched_ready p ?t"
    using p ncli by (simp add: sched_ready_def indep(2) put_ptlock_def held_here_def)
  then have "sched (upd_proc p (\<lambda>q. q\<lparr>p_chan := Some ch, p_state := SLEEPING\<rparr>) ?t) =
      Inl (Switch (upd_proc p (\<lambda>q. q\<lparr>p_chan := Some ch, p_state := SLEEPING\<rparr>) ?t))"
    using p by (intro sched_ok [of p]) (simp_all add: indep(2))
  then show ?thesis
    using sleep_swaps_locks [OF lf ok free lk indep(1)] by (simp add: sleep_def myproc_ok [OF ok] p)
qed

section \<open>Sleepers and wakers on one condition\<close>

text \<open>
  Any number of threads share a condition under a lock \<open>lk\<close>. One use of it is
  \<open>acquire(lk); while(!cond) sleep(chan, lk); ...; release(lk)\<close>, the other is
  \<open>acquire(lk); cond = 1; wakeup(chan); release(lk)\<close>. A step is one lock operation or one store of sleep,
  sched and wakeup; \<open>sw_sleeping\<close> is the state SLEEPING in the process table. The scheduler releases
  \<open>ptable.lock\<close> after the switch and takes it before it runs the thread again.
\<close>

datatype sw_pc = Idle | Check | Call | Both | Pt | Marked | Switched | Resumed | Reacquire
  | W_has | W_set | W_in | W_woken | W_out

record sw_sys =
  sw_cond :: bool
  sw_lk :: "nat option"
  sw_pt :: "nat option"
  sw_sleeping :: "nat \<Rightarrow> bool"
  sw_pcs :: "nat \<Rightarrow> sw_pc"

definition sw_init :: sw_sys where
  "sw_init = \<lparr>sw_cond = False, sw_lk = None, sw_pt = None, sw_sleeping = (\<lambda>_. False), sw_pcs = (\<lambda>_. Idle)\<rparr>"

definition goto :: "nat \<Rightarrow> sw_pc \<Rightarrow> sw_sys \<Rightarrow> sw_sys" where
  "goto i pc s = s\<lparr>sw_pcs := (sw_pcs s)(i := pc)\<rparr>"

inductive sw_step :: "sw_sys \<Rightarrow> sw_sys \<Rightarrow> bool" where
  acquire_lk: "sw_pcs s i = Idle \<Longrightarrow> sw_lk s = None \<Longrightarrow> sw_step s (goto i Check (s\<lparr>sw_lk := Some i\<rparr>))"
| pass: "sw_pcs s i = Check \<Longrightarrow> sw_cond s \<Longrightarrow> sw_step s (goto i Idle (s\<lparr>sw_cond := b, sw_lk := None\<rparr>))"
| call_sleep: "sw_pcs s i = Check \<Longrightarrow> \<not> sw_cond s \<Longrightarrow> sw_step s (goto i Call s)"
| sleeplock1: "sw_pcs s i = Call \<Longrightarrow> sw_pt s = None \<Longrightarrow> sw_step s (goto i Both (s\<lparr>sw_pt := Some i\<rparr>))"
| release_lk: "sw_pcs s i = Both \<Longrightarrow> sw_step s (goto i Pt (s\<lparr>sw_lk := None\<rparr>))"
| mark: "sw_pcs s i = Pt \<Longrightarrow> sw_step s (goto i Marked (s\<lparr>sw_sleeping := (sw_sleeping s)(i := True)\<rparr>))"
| swtch_away: "sw_pcs s i = Marked \<Longrightarrow> sw_step s (goto i Switched (s\<lparr>sw_pt := None\<rparr>))"
| run_again: "sw_pcs s i = Switched \<Longrightarrow> \<not> sw_sleeping s i \<Longrightarrow> sw_pt s = None \<Longrightarrow>
     sw_step s (goto i Resumed (s\<lparr>sw_pt := Some i\<rparr>))"
| sleeplock2: "sw_pcs s i = Resumed \<Longrightarrow> sw_step s (goto i Reacquire (s\<lparr>sw_pt := None\<rparr>))"
| reacquire: "sw_pcs s i = Reacquire \<Longrightarrow> sw_lk s = None \<Longrightarrow> sw_step s (goto i Check (s\<lparr>sw_lk := Some i\<rparr>))"
| w_acquire: "sw_pcs s i = Idle \<Longrightarrow> sw_lk s = None \<Longrightarrow> sw_step s (goto i W_has (s\<lparr>sw_lk := Some i\<rparr>))"
| w_set: "sw_pcs s i = W_has \<Longrightarrow> sw_step s (goto i W_set (s\<lparr>sw_cond := True\<rparr>))"
| w_enter: "sw_pcs s i = W_set \<Longrightarrow> sw_pt s = None \<Longrightarrow> sw_step s (goto i W_in (s\<lparr>sw_pt := Some i\<rparr>))"
| w_wakeup1: "sw_pcs s i = W_in \<Longrightarrow> sw_step s (goto i W_woken (s\<lparr>sw_sleeping := (\<lambda>_. False)\<rparr>))"
| w_leave: "sw_pcs s i = W_woken \<Longrightarrow> sw_step s (goto i W_out (s\<lparr>sw_pt := None\<rparr>))"
| w_release: "sw_pcs s i = W_out \<Longrightarrow> sw_step s (goto i Idle (s\<lparr>sw_lk := None\<rparr>))"

inductive sw_reachable :: "sw_sys \<Rightarrow> bool" where
  init: "sw_reachable sw_init"
| step: "sw_reachable s \<Longrightarrow> sw_step s t \<Longrightarrow> sw_reachable t"

definition has_lk :: "sw_pc \<Rightarrow> bool" where
  "has_lk pc \<longleftrightarrow> pc \<in> {Check, Call, Both, W_has, W_set, W_in, W_woken, W_out}"

definition has_pt :: "sw_pc \<Rightarrow> bool" where
  "has_pt pc \<longleftrightarrow> pc \<in> {Both, Pt, Marked, Resumed, W_in, W_woken}"

text \<open>
  A waker has made the condition true and has not yet taken \<open>ptable.lock\<close> (\<open>announced\<close>), or has not yet
  marked the sleepers (\<open>pending\<close>).
\<close>

definition announced :: "sw_sys \<Rightarrow> bool" where
  "announced s \<longleftrightarrow> (\<exists>j. sw_pcs s j = W_set)"

definition pending :: "sw_sys \<Rightarrow> bool" where
  "pending s \<longleftrightarrow> (\<exists>j. sw_pcs s j = W_set \<or> sw_pcs s j = W_in)"

definition sw_wake :: "sw_sys \<Rightarrow> bool" where
  "sw_wake s \<longleftrightarrow> (\<forall>i. sw_sleeping s i \<longrightarrow> sw_pcs s i = Marked \<or> sw_pcs s i = Switched) \<and>
     (\<forall>i. sw_pcs s i = Call \<or> sw_pcs s i = Both \<longrightarrow> \<not> sw_cond s) \<and>
     (\<forall>i. sw_pcs s i = Pt \<longrightarrow> sw_cond s \<longrightarrow> announced s) \<and>
     (\<forall>i. sw_sleeping s i \<longrightarrow> sw_cond s \<longrightarrow> pending s)"

lemma has_simps [simp]:
  "has_lk Check" "has_lk Call" "has_lk Both" "has_lk W_has" "has_lk W_set" "has_lk W_in" "has_lk W_woken" "has_lk W_out"
  "\<not> has_lk Idle" "\<not> has_lk Pt" "\<not> has_lk Marked" "\<not> has_lk Switched" "\<not> has_lk Resumed" "\<not> has_lk Reacquire"
  "has_pt Both" "has_pt Pt" "has_pt Marked" "has_pt Resumed" "has_pt W_in" "has_pt W_woken"
  "\<not> has_pt Idle" "\<not> has_pt Check" "\<not> has_pt Call" "\<not> has_pt Switched" "\<not> has_pt Reacquire"
  "\<not> has_pt W_has" "\<not> has_pt W_set" "\<not> has_pt W_out"
  by (simp_all add: has_lk_def has_pt_def)

definition sw_locks :: "sw_sys \<Rightarrow> bool" where
  "sw_locks s \<longleftrightarrow> (\<forall>i. has_lk (sw_pcs s i) \<longleftrightarrow> sw_lk s = Some i) \<and> (\<forall>i. has_pt (sw_pcs s i) \<longleftrightarrow> sw_pt s = Some i)"

lemma sw_locksD:
  "sw_locks s \<Longrightarrow> has_lk (sw_pcs s i) \<longleftrightarrow> sw_lk s = Some i"
  "sw_locks s \<Longrightarrow> has_pt (sw_pcs s i) \<longleftrightarrow> sw_pt s = Some i"
  by (simp_all add: sw_locks_def)

lemma sw_locksI:
  "(\<And>i. has_lk (sw_pcs s i) \<longleftrightarrow> sw_lk s = Some i) \<Longrightarrow> (\<And>i. has_pt (sw_pcs s i) \<longleftrightarrow> sw_pt s = Some i) \<Longrightarrow> sw_locks s"
  by (simp add: sw_locks_def)

lemma sw_locks_goto:
  assumes "sw_locks s" "sw_pcs s' = sw_pcs s"
    and "has_lk pc \<longleftrightarrow> sw_lk s' = Some i" "\<And>j. j \<noteq> i \<Longrightarrow> sw_lk s = Some j \<longleftrightarrow> sw_lk s' = Some j"
    and "has_pt pc \<longleftrightarrow> sw_pt s' = Some i" "\<And>j. j \<noteq> i \<Longrightarrow> sw_pt s = Some j \<longleftrightarrow> sw_pt s' = Some j"
  shows "sw_locks (goto i pc s')"
  using assms by (intro sw_locksI) (simp_all add: goto_def sw_locksD)

lemma sw_locks_at:
  "sw_locks s \<Longrightarrow> sw_pcs s i = pc \<Longrightarrow> (has_lk pc \<longleftrightarrow> sw_lk s = Some i) \<and> (has_pt pc \<longleftrightarrow> sw_pt s = Some i)"
  by (auto simp: sw_locks_def)

lemma sw_locks_step: "sw_step s t \<Longrightarrow> sw_locks s \<Longrightarrow> sw_locks t"
  by (induction rule: sw_step.induct; frule (1) sw_locks_at; erule sw_locks_goto; simp)

lemma announced_goto:
  "announced (goto i pc s) \<longleftrightarrow> pc = W_set \<or> (\<exists>j. j \<noteq> i \<and> sw_pcs s j = W_set)"
  by (auto simp: announced_def goto_def)

lemma pending_goto:
  "pending (goto i pc s) \<longleftrightarrow> pc = W_set \<or> pc = W_in \<or> (\<exists>j. j \<noteq> i \<and> (sw_pcs s j = W_set \<or> sw_pcs s j = W_in))"
  by (auto simp: pending_def goto_def)

lemma goto_simps [simp]:
  "sw_pcs (goto i pc s) j = (if j = i then pc else sw_pcs s j)" "sw_cond (goto i pc s) = sw_cond s"
  "sw_sleeping (goto i pc s) = sw_sleeping s"
  by (simp_all add: goto_def)

lemma sw_wakeI:
  "(\<And>i. sw_sleeping s i \<Longrightarrow> sw_pcs s i = Marked \<or> sw_pcs s i = Switched) \<Longrightarrow>
   (\<And>i. sw_pcs s i = Call \<or> sw_pcs s i = Both \<Longrightarrow> sw_cond s \<Longrightarrow> False) \<Longrightarrow>
   (\<And>i. sw_pcs s i = Pt \<Longrightarrow> sw_cond s \<Longrightarrow> announced s) \<Longrightarrow>
   (\<And>i. sw_sleeping s i \<Longrightarrow> sw_cond s \<Longrightarrow> pending s) \<Longrightarrow> sw_wake s"
  by (auto simp: sw_wake_def)

lemma sw_wakeD:
  assumes "sw_wake s"
  shows "sw_sleeping s i \<Longrightarrow> sw_pcs s i = Marked \<or> sw_pcs s i = Switched"
    "sw_cond s \<Longrightarrow> sw_pcs s i \<noteq> Call" "sw_cond s \<Longrightarrow> sw_pcs s i \<noteq> Both"
    "sw_pcs s i = Pt \<Longrightarrow> sw_cond s \<Longrightarrow> \<exists>j. sw_pcs s j = W_set"
    "sw_sleeping s i \<Longrightarrow> sw_cond s \<Longrightarrow> \<exists>j. sw_pcs s j = W_set \<or> sw_pcs s j = W_in"
  using assms by (auto simp: sw_wake_def announced_def pending_def)

lemma sw_locks_only:
  assumes "sw_locks s" "has_lk (sw_pcs s i)" "j \<noteq> i"
  shows "\<not> has_lk (sw_pcs s j)"
  using assms by (simp add: sw_locksD)

text \<open>A step of a thread that is neither about to sleep nor announcing leaves the wake-up obligations alone.\<close>

lemma sw_wake_neutral:
  assumes w: "sw_wake s" and at: "sw_pcs s i = pc" "pc \<notin> {W_set, W_in}"
    and s': "sw_pcs s' = sw_pcs s" "sw_sleeping s' = sw_sleeping s" "sw_cond s' \<longrightarrow> sw_cond s"
    and to: "pc' \<in> {Call, Both} \<longrightarrow> \<not> sw_cond s" "pc' = Pt \<longrightarrow> \<not> sw_cond s"
      "pc \<in> {Marked, Switched} \<longrightarrow> pc' \<in> {Marked, Switched} \<or> \<not> sw_sleeping s i"
  shows "sw_wake (goto i pc' s')"
proof (rule sw_wakeI)
  show "sw_pcs (goto i pc' s') j = Marked \<or> sw_pcs (goto i pc' s') j = Switched"
    if "sw_sleeping (goto i pc' s') j" for j
    using that sw_wakeD(1) [OF w, of j] at s' to(3) by auto
  show False if "sw_pcs (goto i pc' s') j = Call \<or> sw_pcs (goto i pc' s') j = Both" "sw_cond (goto i pc' s')" for j
    using that sw_wakeD(2,3) [OF w, of j] s' to(1) by (auto split: if_splits)
  show "announced (goto i pc' s')" if "sw_pcs (goto i pc' s') j = Pt" "sw_cond (goto i pc' s')" for j
  proof -
    have "\<exists>k. sw_pcs s k = W_set"
      using that sw_wakeD(4) [OF w, of j] s' to(2) by (auto split: if_splits)
    then show ?thesis
      using at s' by (auto simp: announced_goto)
  qed
  show "pending (goto i pc' s')" if "sw_sleeping (goto i pc' s') j" "sw_cond (goto i pc' s')" for j
  proof -
    have "\<exists>k. sw_pcs s k = W_set \<or> sw_pcs s k = W_in"
      using that sw_wakeD(5) [OF w, of j] s' by auto
    then show ?thesis
      using at s' by (auto simp: pending_goto)
  qed
qed

lemma sw_wake_step: "sw_step s t \<Longrightarrow> sw_locks s \<Longrightarrow> sw_wake s \<Longrightarrow> sw_wake t"
proof (induction rule: sw_step.induct)
  case (mark s i)
  note D = sw_wakeD [OF mark.prems(2)]
  have "\<exists>j. j \<noteq> i \<and> sw_pcs s j = W_set" if cond: "sw_cond s"
  proof -
    obtain j where "sw_pcs s j = W_set"
      using D(4) [OF mark.hyps cond] by blast
    with mark.hyps show ?thesis
      by (intro exI [of _ j]) auto
  qed
  then show ?case
    using mark.hyps D(2,3) by (intro sw_wakeI) (auto simp: announced_goto pending_goto dest: D(1) split: if_splits)
next
  case (w_set s i)
  note D = sw_wakeD [OF w_set.prems(2)]
  have "sw_pcs s j \<noteq> Call \<and> sw_pcs s j \<noteq> Both" if "j \<noteq> i" for j
    using sw_locks_only [OF w_set.prems(1) _ that] w_set.hyps by auto
  then show ?case
    using w_set.hyps by (intro sw_wakeI) (auto simp: announced_goto pending_goto dest: D(1) split: if_splits)
next
  case (w_enter s i)
  note D = sw_wakeD [OF w_enter.prems(2)]
  have "sw_pcs s j \<noteq> Pt" for j
    using sw_locksD(2) [OF w_enter.prems(1), of j] w_enter.hyps by auto
  then show ?case
    using w_enter.hyps D(2,3) by (intro sw_wakeI) (auto simp: pending_goto dest: D(1) split: if_splits)
next
  case (w_wakeup1 s i)
  note D = sw_wakeD [OF w_wakeup1.prems(2)]
  have "sw_pcs s j \<noteq> Pt" for j
    using sw_locksD(2) [OF w_wakeup1.prems(1), of j] sw_locksD(2) [OF w_wakeup1.prems(1), of i] w_wakeup1.hyps by auto
  then show ?case
    using D(2,3) by (intro sw_wakeI) (auto split: if_splits)
next
  case (release_lk s i)
  then show ?case
    using sw_wakeD(3) [OF release_lk.prems(2)] by (intro sw_wake_neutral [OF release_lk.prems(2)]) auto
next
  case (sleeplock1 s i)
  then show ?case
    using sw_wakeD(2) [OF sleeplock1.prems(2)] by (intro sw_wake_neutral [OF sleeplock1.prems(2)]) auto
qed ((erule sw_wake_neutral, assumption; simp)+)

lemma sw_reachable_inv: "sw_reachable s \<Longrightarrow> sw_locks s \<and> sw_wake s"
proof (induction rule: sw_reachable.induct)
  case init
  show ?case
    by (simp add: sw_locks_def sw_wake_def sw_init_def)
next
  case (step s t)
  then show ?case
    by (blast intro: sw_locks_step sw_wake_step)
qed

section \<open>kill\<close>

definition killed_proc :: "proc \<Rightarrow> proc" where
  "killed_proc p = p\<lparr>p_killed := 1, p_state := (if p_state p = SLEEPING then RUNNABLE else p_state p)\<rparr>"

lemma kill_loop_None: "kill_loop pid ps = None \<longleftrightarrow> (\<forall>p \<in> set ps. p_pid p \<noteq> pid)"
  by (induction ps) (auto simp: Let_def)

lemma kill_loop_Some:
  "kill_loop pid ps = Some qs \<Longrightarrow>
   \<exists>i < length ps. p_pid (ps ! i) = pid \<and> (\<forall>j < i. p_pid (ps ! j) \<noteq> pid) \<and> qs = ps[i := killed_proc (ps ! i)]"
proof (induction ps arbitrary: qs)
  case Nil
  then show ?case by simp
next
  case (Cons p ps)
  show ?case
  proof (cases "p_pid p = pid")
    case True
    then have "qs = killed_proc p # ps"
      using Cons.prems by (cases p) (auto simp: Let_def killed_proc_def)
    with True show ?thesis
      by (intro exI [of _ 0]) simp
  next
    case False
    then obtain rs where rs: "kill_loop pid ps = Some rs" "qs = p # rs"
      using Cons.prems by auto
    obtain i where "i < length ps" "p_pid (ps ! i) = pid" "\<forall>j < i. p_pid (ps ! j) \<noteq> pid"
        "rs = ps[i := killed_proc (ps ! i)]"
      using Cons.IH [OF rs(1)] by blast
    with False rs(2) show ?thesis
      by (intro exI [of _ "Suc i"]) (auto simp: less_Suc_eq_0_disj)
  qed
qed

lemma kill_loop_distinct:
  assumes "i < length ps" "p_pid (ps ! i) = pid" "\<And>j. j < length ps \<Longrightarrow> p_pid (ps ! j) = pid \<Longrightarrow> j = i"
  shows "kill_loop pid ps = Some (ps[i := killed_proc (ps ! i)])"
proof (cases "kill_loop pid ps")
  case None
  then show ?thesis
    using assms(1,2) by (auto simp: kill_loop_None)
next
  case (Some qs)
  then show ?thesis
    using kill_loop_Some [OF Some] assms(3) by auto
qed

section \<open>Properties\<close>

text \<open>
  C13. No wake-up is lost: if a process is marked SLEEPING while the condition it waits for is true, then
  some waker that made it true is still on its way to wakeup1, which will mark the process RUNNABLE.
  When no waker is between its store and its wakeup1, every process asleep has a false condition.
\<close>

theorem no_lost_wakeup:
  assumes "sw_reachable s" and "sw_sleeping s i" and "sw_cond s"
  shows "\<exists>j. j \<noteq> i \<and> (sw_pcs s j = W_set \<or> sw_pcs s j = W_in)"
proof -
  have wake: "sw_wake s"
    using assms(1) sw_reachable_inv by blast
  have "sw_pcs s i = Marked \<or> sw_pcs s i = Switched"
    using wake assms(2) by (rule sw_wakeD(1))
  moreover obtain j where "sw_pcs s j = W_set \<or> sw_pcs s j = W_in"
    using sw_wakeD(5) [OF wake assms(2,3)] by blast
  ultimately show ?thesis
    by (intro exI [of _ j]) auto
qed

theorem no_lost_wakeup_witness:
  "\<exists>s. sw_reachable s \<and> sw_sleeping s 0 \<and> sw_cond s \<and> (\<exists>j. j \<noteq> 0 \<and> (sw_pcs s j = W_set \<or> sw_pcs s j = W_in))"
proof -
  let ?a = "goto 0 Check (sw_init\<lparr>sw_lk := Some 0\<rparr>)"
  let ?b = "goto 0 Call ?a"
  let ?c = "goto 0 Both (?b\<lparr>sw_pt := Some 0\<rparr>)"
  let ?d = "goto 0 Pt (?c\<lparr>sw_lk := None\<rparr>)"
  let ?e = "goto 0 Marked (?d\<lparr>sw_sleeping := (sw_sleeping ?d)(0 := True)\<rparr>)"
  let ?f = "goto 0 Switched (?e\<lparr>sw_pt := None\<rparr>)"
  let ?g = "goto 1 W_has (?f\<lparr>sw_lk := Some 1\<rparr>)"
  let ?h = "goto 1 W_set (?g\<lparr>sw_cond := True\<rparr>)"
  note go = sw_reachable.step
  have "sw_reachable ?a"
    by (rule go [OF sw_reachable.init], rule acquire_lk) (simp_all add: sw_init_def)
  then have "sw_reachable ?b"
    by (rule go, intro call_sleep) (simp_all add: sw_init_def)
  then have "sw_reachable ?c"
    by (rule go, intro sleeplock1) (simp_all add: sw_init_def goto_def)
  then have "sw_reachable ?d"
    by (rule go, intro release_lk) simp
  then have "sw_reachable ?e"
    by (rule go, intro mark) simp
  then have "sw_reachable ?f"
    by (rule go, intro swtch_away) simp
  then have "sw_reachable ?g"
    by (rule go, intro w_acquire) (simp_all add: sw_init_def goto_def)
  then have h: "sw_reachable ?h"
    by (rule go, intro w_set) simp
  have "sw_sleeping ?h 0" "sw_cond ?h"
    by (simp_all add: goto_def)
  with no_lost_wakeup [OF h] h show ?thesis
    by blast
qed

text \<open>
  C14. wakeup marks RUNNABLE exactly the processes asleep on the channel, kill exactly the first process with
  the pid (also when it sleeps on any channel), and returns -1 without a change when no slot has the pid;
  both give the lock back.
\<close>

theorem wakeup_kill_exact:
  assumes "pt_ok s"
  shows "(\<exists>s'. wakeup ch s = Inr s' \<and> pt_ok s' \<and> length (procs s') = length (procs s) \<and>
       (\<forall>i < length (procs s). procs s' ! i =
          (if p_state (procs s ! i) = SLEEPING \<and> p_chan (procs s ! i) = Some ch
           then (procs s ! i)\<lparr>p_state := RUNNABLE\<rparr> else procs s ! i))) \<and>
    (\<exists>r s'. kill pid s = Inr (r, s') \<and> pt_ok s' \<and>
       (r = -1 \<and> s' = s \<and> (\<forall>p \<in> set (procs s). p_pid p \<noteq> pid) \<or>
        r = 0 \<and> (\<exists>i < length (procs s). p_pid (procs s ! i) = pid \<and> (\<forall>j < i. p_pid (procs s ! j) \<noteq> pid) \<and>
          procs s' = (procs s)[i := killed_proc (procs s ! i)])))"
proof (intro conjI)
  show "\<exists>s'. wakeup ch s = Inr s' \<and> pt_ok s' \<and> length (procs s') = length (procs s) \<and>
       (\<forall>i < length (procs s). procs s' ! i =
          (if p_state (procs s ! i) = SLEEPING \<and> p_chan (procs s ! i) = Some ch
           then (procs s ! i)\<lparr>p_state := RUNNABLE\<rparr> else procs s ! i))"
    using assms by (simp add: wakeup_ok wakeup1_def)
  show "\<exists>r s'. kill pid s = Inr (r, s') \<and> pt_ok s' \<and>
       (r = -1 \<and> s' = s \<and> (\<forall>p \<in> set (procs s). p_pid p \<noteq> pid) \<or>
        r = 0 \<and> (\<exists>i < length (procs s). p_pid (procs s ! i) = pid \<and> (\<forall>j < i. p_pid (procs s ! j) \<noteq> pid) \<and>
          procs s' = (procs s)[i := killed_proc (procs s ! i)]))"
    using assms kill_loop_Some [of pid "procs s"] kill_loop_None [of pid "procs s"]
    by (cases "kill_loop pid (procs s)") (simp_all add: kill_ok)
qed

definition quiet_proc :: proc where
  "quiet_proc = \<lparr>p_sz = 0, p_pgdir = 0, p_kstack = 0, p_state = UNUSED, p_pid = 0, p_parent = None,
     p_tf = \<lparr>tf_edi = 0, tf_esi = 0, tf_ebp = 0, tf_oesp = 0, tf_ebx = 0, tf_edx = 0, tf_ecx = 0, tf_eax = 0,
       tf_gs = 0, tf_fs = 0, tf_es = 0, tf_ds = 0, tf_trapno = 0, tf_err = 0, tf_eip = 0, tf_cs = 0,
       tf_eflags = 0, tf_esp = 0, tf_ss = 0\<rparr>,
     p_chan = None, p_killed = 0, p_ofile = replicate 16 None, p_cwd = None, p_name = []\<rparr>"

theorem wakeup_kill_exact_witness:
  "\<exists>s :: ptab_st. pt_ok s \<and> (\<exists>s'. wakeup Ch_ticks s = Inr s' \<and> p_state (procs s' ! 1) = RUNNABLE) \<and>
     (\<exists>s'. kill 7 s = Inr (0, s') \<and> p_killed (procs s' ! 1) = 1)"
proof -
  let ?p = "quiet_proc\<lparr>p_pid := 7, p_state := SLEEPING, p_chan := Some Ch_ticks\<rparr>"
  let ?s = "\<lparr>cpus = [\<lparr>apicid = 0, cpu_ncli = 0, cpu_intena = True, cpu_proc = None\<rparr>],
        lapic_id = 0, eflags_if = True,
        klog = \<lparr>kl_lock = initlock ''klog'', kl_entries = [], kl_head = 0, kl_count = 0, kl_ticks = 0\<rparr>,
        ptable = \<lparr>pt_lock = initlock ''ptable'', pt_proc = [quiet_proc, ?p], nextpid = 8, initproc = None\<rparr>\<rparr> :: ptab_st"
  have "pt_ok ?s"
    by (simp add: pt_ok_def cpu_ok_def lock_free_def initlock_def)
  then show ?thesis
    using wakeup_kill_exact [of ?s Ch_ticks 7]
    by (intro exI [of _ ?s]) (auto simp: less_Suc_eq quiet_proc_def killed_proc_def)
qed

end
