(* ===== verification/Mmu.thy ===== *)
theory Mmu
  imports Prelude
begin

text \<open>
  The address arithmetic of mmu.h and memlayout.h: page directory and page table indices, rounding to
  pages, the parts of a page table entry, and the kernel's virtual-to-physical offset, each with its
  meaning on natural numbers.
\<close>

section \<open>Definitions\<close>

abbreviation (input) PGSIZE :: u32 where "PGSIZE \<equiv> 4096"
abbreviation (input) KERNBASE :: u32 where "KERNBASE \<equiv> 0x80000000"
abbreviation (input) PHYSTOP :: u32 where "PHYSTOP \<equiv> 0xE000000"
abbreviation (input) EXTMEM :: u32 where "EXTMEM \<equiv> 0x100000"
abbreviation (input) KERNLINK :: u32 where "KERNLINK \<equiv> 0x80100000"
abbreviation (input) DEVSPACE :: u32 where "DEVSPACE \<equiv> 0xFE000000"
abbreviation (input) PTE_P :: u32 where "PTE_P \<equiv> 1"
abbreviation (input) PTE_W :: u32 where "PTE_W \<equiv> 2"
abbreviation (input) PTE_U :: u32 where "PTE_U \<equiv> 4"

definition PDX :: "u32 \<Rightarrow> u32" where
  "PDX va = drop_bit 22 va AND 0x3FF"

definition PTX :: "u32 \<Rightarrow> u32" where
  "PTX va = drop_bit 12 va AND 0x3FF"

definition PGADDR :: "u32 \<Rightarrow> u32 \<Rightarrow> u32 \<Rightarrow> u32" where
  "PGADDR d t off = push_bit 22 d OR push_bit 12 t OR off"

definition PGROUNDUP :: "u32 \<Rightarrow> u32" where
  "PGROUNDUP sz = (sz + PGSIZE - 1) AND NOT (PGSIZE - 1)"

definition PGROUNDDOWN :: "u32 \<Rightarrow> u32" where
  "PGROUNDDOWN a = a AND NOT (PGSIZE - 1)"

definition PTE_ADDR :: "u32 \<Rightarrow> u32" where
  "PTE_ADDR pte = pte AND NOT 0xFFF"

definition PTE_FLAGS :: "u32 \<Rightarrow> u32" where
  "PTE_FLAGS pte = pte AND 0xFFF"

definition V2P :: "u32 \<Rightarrow> u32" where
  "V2P a = a - KERNBASE"

definition P2V :: "u32 \<Rightarrow> u32" where
  "P2V a = a + KERNBASE"

section \<open>Meaning\<close>

lemma page_mask: "(0xFFF :: u32) = mask 12" "(0x3FF :: u32) = mask 10"
  by (simp_all add: mask_eq_exp_minus_1)

lemma unat_and_mask: "unat (w AND mask n :: u32) = unat w mod 2 ^ n"
  by (simp add: take_bit_eq_mask [symmetric] unsigned_take_bit_eq flip: take_bit_eq_mod)

lemma and_not_mask: "w AND NOT (mask n) = w - take_bit n w" for w :: u32
proof -
  have "w AND NOT (mask n) = push_bit n (drop_bit n w)"
    by (rule bit_word_eqI) (auto simp: bit_simps)
  then show ?thesis
    using bits_ident [of n w] by (simp add: eq_diff_eq)
qed

lemma take_bit_le: "take_bit n w \<le> w" for w :: u32
  by (simp add: word_le_nat_alt unsigned_take_bit_eq)

lemma unat_and_not_mask: "unat (w AND NOT (mask n) :: u32) = unat w - unat w mod 2 ^ n"
  using take_bit_le [of n w]
  by (simp add: and_not_mask unat_sub unsigned_take_bit_eq flip: take_bit_eq_mod)

lemma unat_PGROUNDDOWN: "unat (PGROUNDDOWN a) = unat a - unat a mod 4096"
  unfolding PGROUNDDOWN_def using unat_and_not_mask [of a 12] by (simp add: page_mask)

lemma unat_PGROUNDUP:
  "unat sz + 4095 < 2 ^ 32 \<Longrightarrow> unat (PGROUNDUP sz) = unat sz + 4095 - (unat sz + 4095) mod 4096"
proof -
  assume "unat sz + 4095 < 2 ^ 32"
  then have "unat (sz + 4095) = unat sz + 4095"
    by (simp add: unat_word_ariths)
  then show ?thesis
    unfolding PGROUNDUP_def using unat_and_not_mask [of "sz + 4095" 12]
    by (simp add: add.commute flip: page_mask)
qed

lemma unat_PDX: "unat (PDX va) = unat va div 2 ^ 22"
proof -
  have "unat va div 2 ^ 22 < 2 ^ 10"
    using unat_less32 [of va] by simp
  then show ?thesis
    by (simp add: PDX_def page_mask unat_and_mask drop_bit_eq_div unat_div_distrib)
qed

lemma unat_PTX: "unat (PTX va) = unat va div 4096 mod 1024"
  by (simp add: PTX_def page_mask unat_and_mask drop_bit_eq_div unat_div_distrib)

lemma unat_PTE_FLAGS: "unat (PTE_FLAGS pte) = unat pte mod 4096"
  by (simp add: PTE_FLAGS_def page_mask unat_and_mask)

lemma unat_PTE_ADDR: "unat (PTE_ADDR pte) = unat pte - unat pte mod 4096"
  using unat_and_not_mask [of pte 12] by (simp add: PTE_ADDR_def page_mask)

lemma V2P_P2V [simp]: "V2P (P2V a) = a" "P2V (V2P a) = a"
  by (simp_all add: V2P_def P2V_def)

section \<open>Pages\<close>

text \<open>Page-aligned addresses and the bytes of the page at one.\<close>

definition aligned :: "u32 \<Rightarrow> bool" where
  "aligned v \<longleftrightarrow> v mod PGSIZE = 0"

definition in_page :: "u32 \<Rightarrow> u32 \<Rightarrow> bool" where
  "in_page p x \<longleftrightarrow> x - p < PGSIZE"

lemma aligned_iff: "aligned v \<longleftrightarrow> unat v mod 4096 = 0"
  by (simp add: aligned_def word_unat_eq_iff unat_mod_distrib)

lemma aligned_PGROUNDDOWN [simp]: "aligned (PGROUNDDOWN a)"
  by (simp add: aligned_iff unat_PGROUNDDOWN minus_mod_eq_mult_div)

lemma PGROUNDDOWN_aligned: "aligned a \<Longrightarrow> PGROUNDDOWN a = a"
  by (simp add: aligned_iff unat_PGROUNDDOWN word_unat_eq_iff)

lemma aligned_PTE_ADDR [simp]: "aligned (PTE_ADDR a)"
  by (simp add: aligned_iff unat_PTE_ADDR minus_mod_eq_mult_div)

lemma in_page_iff:
  assumes "aligned p"
  shows "in_page p x \<longleftrightarrow> PGROUNDDOWN x = p"
proof
  assume x: "in_page p x"
  have p: "unat p mod 4096 = 0"
    using assms by (simp add: aligned_iff)
  have bound: "unat p + 4096 \<le> 2 ^ 32"
  proof -
    have "unat p div 4096 < 2 ^ 20"
      using unat_less32 [of p] by simp
    with p show ?thesis by auto
  qed
  have "unat x = unat p + unat (x - p)"
  proof -
    have "unat (x - p) < 4096"
      using x by (simp add: in_page_def word_less_nat_alt)
    then have "unat (p + (x - p)) = unat p + unat (x - p)"
      unfolding unat_word_ariths(1) [of p] using bound by simp
    then show ?thesis by simp
  qed
  moreover have "unat (x - p) < 4096"
    using x by (simp add: in_page_def word_less_nat_alt)
  ultimately show "PGROUNDDOWN x = p"
    using p by (simp add: word_unat_eq_iff unat_PGROUNDDOWN mod_add_eq mod_add_left_eq [of "unat p", symmetric])
next
  assume "PGROUNDDOWN x = p"
  then have p: "unat p = unat x - unat x mod 4096"
    using unat_PGROUNDDOWN by auto
  then have "p \<le> x"
    by (simp add: word_le_nat_alt)
  then have "unat (x - p) = unat x mod 4096"
    using p by (simp add: unat_sub)
  then show "in_page p x"
    by (simp add: in_page_def word_less_nat_alt)
qed

lemma in_page_unique: "aligned p \<Longrightarrow> aligned q \<Longrightarrow> in_page p x \<Longrightarrow> in_page q x \<Longrightarrow> p = q"
  by (simp add: in_page_iff)

end
