(* ===== verification/Kalloc.thy ===== *)
theory Kalloc
  imports Sched Mmu Kstring
begin

text \<open>
  The physical page allocator (kalloc.c): the free pages form a list threaded through their own first
  word. \<open>flist\<close> relates the list in memory to the list of free pages; every operation is shown on that
  abstraction, and the last part is the history of pages handed out and given back.
\<close>

section \<open>Data\<close>

text \<open>
  \<open>kmem\<close> with, beside the fields of the C struct, the linker's symbol \<open>end\<close>, the first address after the
  kernel. The machine memory \<open>mem\<close> is addressed by kernel virtual addresses.
\<close>

record kmem =
  km_lock :: spinlock
  use_lock :: int
  freelist :: u32
  km_end :: u32

record kmem_st = ptab_st +
  kmem :: kmem
  mem :: mem

definition put_kmlock :: "spinlock \<Rightarrow> 'a kmem_st_scheme \<Rightarrow> 'a kmem_st_scheme" where
  "put_kmlock l s = s\<lparr>kmem := (kmem s)\<lparr>km_lock := l\<rparr>\<rparr>"

abbreviation acquire_kmem :: "'a kmem_st_scheme \<Rightarrow> 'a kmem_st_scheme stop + 'a kmem_st_scheme" where
  "acquire_kmem \<equiv> acquire_at (\<lambda>s. km_lock (kmem s)) put_kmlock"

abbreviation release_kmem :: "'a kmem_st_scheme \<Rightarrow> 'a kmem_st_scheme stop + 'a kmem_st_scheme" where
  "release_kmem \<equiv> release_at (\<lambda>s. km_lock (kmem s)) put_kmlock"

section \<open>Operations\<close>

definition kfree :: "u32 \<Rightarrow> 'a kmem_st_scheme \<Rightarrow> 'a kmem_st_scheme stop + 'a kmem_st_scheme" where
  "kfree v s =
     (if v mod PGSIZE \<noteq> 0 \<or> v < km_end (kmem s) \<or> V2P v \<ge> PHYSTOP then Inl (Panic ''kfree'')
      else let s = s\<lparr>mem := memset (mem s) v 1 PGSIZE\<rparr>
      in seq (if use_lock (kmem s) \<noteq> 0 then acquire_kmem s else Inr s) (\<lambda>s.
      let s = s\<lparr>mem := wr32 (mem s) v (freelist (kmem s))\<rparr>;
          s = s\<lparr>kmem := (kmem s)\<lparr>freelist := v\<rparr>\<rparr>
      in if use_lock (kmem s) \<noteq> 0 then release_kmem s else Inr s))"

definition kalloc :: "'a kmem_st_scheme \<Rightarrow> 'a kmem_st_scheme stop + u32 \<times> 'a kmem_st_scheme" where
  "kalloc s =
     seq (if use_lock (kmem s) \<noteq> 0 then acquire_kmem s else Inr s) (\<lambda>s.
     let r = freelist (kmem s);
         s = (if r \<noteq> 0 then s\<lparr>kmem := (kmem s)\<lparr>freelist := rd32 (mem s) r\<rparr>\<rparr> else s)
     in seq (if use_lock (kmem s) \<noteq> 0 then release_kmem s else Inr s) (\<lambda>s. Inr (r, s)))"

lemma unat_add_page: "unat p + 4096 \<le> unat q \<Longrightarrow> unat (p + 4096) = unat p + 4096" for p q :: u32
  using unat_less32 [of q] by (simp add: unat_word_ariths)

lemma kfree_in_memory:
  assumes "kfree v s = Inr t"
  shows "unat v + 4096 < 2 ^ 32"
proof -
  have "v - 0x80000000 < 0xE000000" using assms by (auto simp: kfree_def V2P_def split: if_splits)
  then show ?thesis by (simp add: word_less_nat_alt unat_sub_if' split: if_splits)
qed

text \<open>
  The loop of freerange, in the 32-bit arithmetic of \<open>p + PGSIZE <= vend\<close>. It ends for all arguments, because kfree panics on a page
  outside physical memory, before the address can wrap around.
\<close>

function freerange_loop :: "u32 \<Rightarrow> u32 \<Rightarrow> 'a kmem_st_scheme \<Rightarrow> 'a kmem_st_scheme stop + 'a kmem_st_scheme" where
  "freerange_loop p vend s =
     (if p + PGSIZE \<le> vend then seq (kfree p s) (freerange_loop (p + PGSIZE) vend) else Inr s)"
  by pat_completeness auto

termination
proof (relation "measure (\<lambda>(p, vend, s). 2 ^ 32 - unat p)", simp)
  fix p vend :: u32 and s t :: "'a kmem_st_scheme"
  assume "kfree p s = Inr t"
  then have "unat p + 4096 < 2 ^ 32" by (rule kfree_in_memory)
  then have "unat (p + 4096) = unat p + 4096" by (simp add: unat_word_ariths)
  with \<open>unat p + 4096 < 2 ^ 32\<close> show "((p + 4096, vend, t), (p, vend, s)) \<in> measure (\<lambda>(p, vend, s). 2 ^ 32 - unat p)" by simp
qed

declare freerange_loop.simps [simp del]

definition freerange :: "u32 \<Rightarrow> u32 \<Rightarrow> 'a kmem_st_scheme \<Rightarrow> 'a kmem_st_scheme stop + 'a kmem_st_scheme" where
  "freerange vstart vend s = freerange_loop (PGROUNDUP vstart) vend s"

definition kinit1 :: "u32 \<Rightarrow> u32 \<Rightarrow> 'a kmem_st_scheme \<Rightarrow> 'a kmem_st_scheme stop + 'a kmem_st_scheme" where
  "kinit1 vstart vend s = freerange vstart vend (s\<lparr>kmem := (kmem s)\<lparr>km_lock := initlock ''kmem'', use_lock := 0\<rparr>\<rparr>)"

definition kinit2 :: "u32 \<Rightarrow> u32 \<Rightarrow> 'a kmem_st_scheme \<Rightarrow> 'a kmem_st_scheme stop + 'a kmem_st_scheme" where
  "kinit2 vstart vend s =
     seq (freerange vstart vend s) (\<lambda>s. Inr (s\<lparr>kmem := (kmem s)\<lparr>use_lock := 1\<rparr>\<rparr>))"

section \<open>The operations without the lock\<close>

lemma kmem_same_cpu [simp]:
  "cpu_ok (s\<lparr>kmem := x\<rparr>) = cpu_ok s" "cpu_ok (s\<lparr>mem := m\<rparr>) = cpu_ok s"
  "this_cpu (s\<lparr>kmem := x\<rparr>) = this_cpu s" "this_cpu (s\<lparr>mem := m\<rparr>) = this_cpu s"
  by (auto intro!: same_cpu_cpu_ok simp: same_cpu_def this_cpu_def)

interpretation km: lock_field "\<lambda>s :: 'a kmem_st_scheme. km_lock (kmem s)" put_kmlock
  by unfold_locales (auto simp: put_kmlock_def same_cpu_def)

definition km_ok :: "'a kmem_st_scheme \<Rightarrow> bool" where
  "km_ok s \<longleftrightarrow> cpu_ok s \<and> lock_free (km_lock (kmem s))"

definition page_ok :: "u32 \<Rightarrow> u32 \<Rightarrow> bool" where
  "page_ok kend v \<longleftrightarrow> aligned v \<and> kend \<le> v \<and> V2P v < PHYSTOP"

definition kfreed :: "u32 \<Rightarrow> 'a kmem_st_scheme \<Rightarrow> 'a kmem_st_scheme" where
  "kfreed v s = s\<lparr>kmem := (kmem s)\<lparr>freelist := v\<rparr>,
     mem := wr32 (memset (mem s) v 1 PGSIZE) v (freelist (kmem s))\<rparr>"

lemma kfree_ok:
  assumes "km_ok s" "page_ok (km_end (kmem s)) v"
  shows "kfree v s = Inr (kfreed v s)"
proof -
  define f :: "'a kmem_st_scheme \<Rightarrow> 'a kmem_st_scheme" where
    "f t = t\<lparr>mem := wr32 (mem t) v (freelist (kmem t)), kmem := (kmem t)\<lparr>freelist := v\<rparr>\<rparr>" for t
  let ?s = "s\<lparr>mem := memset (mem s) v 1 4096\<rparr>"
  have check: "\<not> (v mod 4096 \<noteq> 0 \<or> v < km_end (kmem s) \<or> V2P v \<ge> PHYSTOP)"
    using assms(2) by (auto simp: page_ok_def aligned_def)
  have "km.framed f"
    by (simp add: km.framed_def f_def put_kmlock_def)
  moreover have "cpu_ok ?s" "lock_free (km_lock (kmem ?s))"
    using assms(1) by (simp_all add: km_ok_def)
  ultimately have "seq (acquire_kmem ?s) (\<lambda>t. release_kmem (f t)) = Inr (f ?s)"
    by (intro km.critical)
  moreover have "acquire_kmem ?s = Inr (km.opened ?s)"
    using assms(1) by (intro km.acquire_at_ok) (simp_all add: km_ok_def)
  moreover have "f ?s = kfreed v s"
    by (simp add: f_def kfreed_def)
  moreover have "use_lock (kmem (f t)) = use_lock (kmem t)" "use_lock (kmem (km.opened t)) = use_lock (kmem t)" for t
    by (simp_all add: f_def km.opened_def put_kmlock_def pushed_def)
  ultimately show ?thesis
    unfolding kfree_def Let_def if_not_P [OF check]
    by (cases "use_lock (kmem s) = 0") (simp_all add: f_def [symmetric], simp add: kfreed_def)
qed

definition kalloced :: "'a kmem_st_scheme \<Rightarrow> 'a kmem_st_scheme" where
  "kalloced s = (if freelist (kmem s) = 0 then s
     else s\<lparr>kmem := (kmem s)\<lparr>freelist := rd32 (mem s) (freelist (kmem s))\<rparr>\<rparr>)"

lemma kalloc_ok:
  assumes "km_ok s"
  shows "kalloc s = Inr (freelist (kmem s), kalloced s)"
proof -
  have ok: "cpu_ok s" "lock_free (km_lock (kmem s))"
    using assms by (simp_all add: km_ok_def)
  have step: "(if freelist (kmem t) \<noteq> 0 then t\<lparr>kmem := (kmem t)\<lparr>freelist := rd32 (mem t) (freelist (kmem t))\<rparr>\<rparr> else t)
      = kalloced t" for t :: "'a kmem_st_scheme"
    by (simp add: kalloced_def)
  have "km.framed kalloced"
    by (simp add: km.framed_def kalloced_def put_kmlock_def)
  then have "release_kmem (kalloced (km.opened s)) = Inr (kalloced s)"
    by (rule km.release_at_ok [OF ok])
  moreover have "kmem (km.opened s) = (kmem s)\<lparr>km_lock := held_here (km_lock (kmem s)) s\<rparr>" for s :: "'a kmem_st_scheme"
    by (simp add: km.opened_def put_kmlock_def pushed_def)
  moreover have "use_lock (kmem (kalloced t)) = use_lock (kmem t)" for t :: "'a kmem_st_scheme"
    by (simp add: kalloced_def)
  ultimately show ?thesis
    unfolding kalloc_def Let_def step
    by (cases "use_lock (kmem s) = 0") (simp_all add: km.acquire_at_ok [OF ok])
qed

section \<open>The free list in memory\<close>

fun flist :: "mem \<Rightarrow> u32 \<Rightarrow> u32 list \<Rightarrow> bool" where
  "flist m p [] \<longleftrightarrow> p = 0"
| "flist m p (x # xs) \<longleftrightarrow> p = x \<and> x \<noteq> 0 \<and> flist m (rd32 m x) xs"

text \<open>The state of the allocator with the free pages \<open>xs\<close>, first the one kalloc returns next.\<close>

definition kmem_holds :: "'a kmem_st_scheme \<Rightarrow> u32 list \<Rightarrow> bool" where
  "kmem_holds s xs \<longleftrightarrow> km_ok s \<and> KERNBASE < km_end (kmem s) \<and> flist (mem s) (freelist (kmem s)) xs \<and> distinct xs \<and>
     (\<forall>x \<in> set xs. page_ok (km_end (kmem s)) x)"

lemma in_page_offsets: "in_page p p" "in_page p (p + 1)" "in_page p (p + 2)" "in_page p (p + 3)"
  by (simp_all add: in_page_def)

lemma flist_cong:
  "(\<And>x y. x \<in> set xs \<Longrightarrow> in_page x y \<Longrightarrow> m' y = m y) \<Longrightarrow> flist m' p xs = flist m p xs"
proof (induction xs arbitrary: p)
  case Nil
  then show ?case by simp
next
  case (Cons x xs)
  have "rd32 m' x = rd32 m x"
    by (intro rd32_cong Cons.prems [of x]) (simp_all add: in_page_offsets)
  moreover have "flist m' q xs = flist m q xs" for q
  proof (rule Cons.IH)
    show "m' y = m y" if "z \<in> set xs" "in_page z y" for z y
      using Cons.prems [of z y] that by simp
  qed
  ultimately show ?case
    by simp
qed

lemma wr32_outside: "\<not> in_page v y \<Longrightarrow> wr32 m v w y = m y"
  using in_page_offsets [of v] by (auto intro: wr32_other)

lemma memset_page: "memset m v c 4096 y = (if in_page v y then ucast c else m y)"
  by (simp add: memset_apply in_page_def)

lemma mem_kfreed: "\<not> in_page v y \<Longrightarrow> mem (kfreed v s) y = mem s y"
  by (simp add: kfreed_def wr32_outside memset_page)

lemma km_ok_kfreed [simp]: "km_ok (kfreed v s) = km_ok s" "km_ok (kalloced s) = km_ok s"
  "km_end (kmem (kfreed v s)) = km_end (kmem s)" "km_end (kmem (kalloced s)) = km_end (kmem s)"
  "mem (kalloced s) = mem s"
  by (simp_all add: km_ok_def kfreed_def kalloced_def)

lemma page_ok_aligned: "page_ok e v \<Longrightarrow> aligned v"
  by (simp add: page_ok_def)

lemma page_ok_nonzero: "page_ok e v \<Longrightarrow> KERNBASE < e \<Longrightarrow> v \<noteq> 0"
  by (auto simp: page_ok_def)

lemma kfree_holds:
  assumes xs: "kmem_holds s xs" and v: "page_ok (km_end (kmem s)) v" "v \<notin> set xs"
  shows "kfree v s = Inr (kfreed v s)" "kmem_holds (kfreed v s) (v # xs)"
proof -
  show "kfree v s = Inr (kfreed v s)"
    using xs v(1) by (intro kfree_ok) (simp_all add: kmem_holds_def)
  have "mem (kfreed v s) y = mem s y" if "x \<in> set xs" "in_page x y" for x y
  proof (rule mem_kfreed, rule notI)
    assume "in_page v y"
    moreover have "aligned x"
      using xs that(1) by (auto simp: kmem_holds_def dest: page_ok_aligned)
    ultimately have "v = x"
      using in_page_unique page_ok_aligned [OF v(1)] that(2) by blast
    with v(2) that(1) show False by simp
  qed
  then have "flist (mem (kfreed v s)) (freelist (kmem s)) xs"
    using xs flist_cong [of xs "mem (kfreed v s)" "mem s"] by (simp add: kmem_holds_def)
  moreover have "rd32 (mem (kfreed v s)) v = freelist (kmem s)" "freelist (kmem (kfreed v s)) = v"
    by (simp_all add: kfreed_def)
  moreover have "v \<noteq> 0"
    using v(1) xs page_ok_nonzero by (simp add: kmem_holds_def)
  ultimately show "kmem_holds (kfreed v s) (v # xs)"
    using xs v by (simp add: kmem_holds_def)
qed

lemma kalloc_holds:
  "kmem_holds s [] \<Longrightarrow> kalloc s = Inr (0, s)"
  "kmem_holds s (x # xs) \<Longrightarrow> kalloc s = Inr (x, kalloced s) \<and> kmem_holds (kalloced s) xs"
  by (auto simp: kmem_holds_def kalloc_ok) (auto simp: kalloced_def)

section \<open>freerange\<close>

definition pages :: "u32 \<Rightarrow> u32 \<Rightarrow> u32 list" where
  "pages p vend = map (\<lambda>i. p + of_nat (4096 * i)) [0..<(unat vend - unat p) div 4096]"

lemma pages_step:
  assumes "unat p + 4096 \<le> unat vend"
  shows "pages p vend = p # pages (p + 4096) vend"
proof -
  have n: "(unat vend - unat p) div 4096 = Suc ((unat vend - unat (p + 4096)) div 4096)"
  proof -
    obtain d where "unat vend - unat p = d + 4096"
      using assms by (metis add.commute le_add_diff_inverse2 add_le_imp_le_diff)
    then show ?thesis
      using unat_add_page [OF assms] by simp
  qed
  show ?thesis
    unfolding pages_def n by (subst upt_conv_Cons) (simp_all add: map_Suc_upt [symmetric] del: map_Suc_upt upt_Suc)
qed

lemma pages_stop: "\<not> unat p + 4096 \<le> unat vend \<Longrightarrow> pages p vend = []"
  by (simp add: pages_def)

lemma freerange_test:
  assumes "p \<le> P2V PHYSTOP"
  shows "p + PGSIZE \<le> vend \<longleftrightarrow> unat p + 4096 \<le> unat vend"
  using assms by (simp add: P2V_def word_le_nat_alt unat_word_ariths)

lemma freerange_holds:
  "kmem_holds s xs \<Longrightarrow> p \<le> P2V PHYSTOP \<Longrightarrow> vend \<le> P2V PHYSTOP \<Longrightarrow>
   (\<And>v. v \<in> set (pages p vend) \<Longrightarrow> page_ok (km_end (kmem s)) v \<and> v \<notin> set xs) \<Longrightarrow> distinct (pages p vend) \<Longrightarrow>
   \<exists>s'. freerange_loop p vend s = Inr s' \<and> kmem_holds s' (rev (pages p vend) @ xs) \<and> km_end (kmem s') = km_end (kmem s)"
proof (induction p vend s arbitrary: xs rule: freerange_loop.induct)
  case (1 p vend s)
  note test = freerange_test [OF "1.prems"(2), of vend]
  show ?case
  proof (cases "p + 4096 \<le> vend")
    case True
    note step = pages_step [OF True [unfolded test]]
    have p: "page_ok (km_end (kmem s)) p" "p \<notin> set xs"
      using "1.prems"(4) [of p] by (simp_all add: step)
    note freed = kfree_holds [OF "1.prems"(1) p]
    have "\<exists>s'. freerange_loop (p + 4096) vend (kfreed p s) = Inr s' \<and>
        kmem_holds s' (rev (pages (p + 4096) vend) @ p # xs) \<and> km_end (kmem s') = km_end (kmem (kfreed p s))"
      using "1.prems"(3-5) order_trans [OF True "1.prems"(3)] by (intro "1.IH" [OF True freed]) (auto simp: step)
    then show ?thesis
      using freed(1) True by (simp add: step freerange_loop.simps [of p])
  next
    case False
    with "1.prems"(1) show ?thesis
      by (simp add: pages_stop [OF False [unfolded test]] freerange_loop.simps [of p])
  qed
qed

lemma unat_page_i:
  "i < (unat vend - unat p) div 4096 \<Longrightarrow> unat (p + of_nat (4096 * i)) = unat p + 4096 * i" for p vend :: u32
proof -
  assume "i < (unat vend - unat p) div 4096"
  then have "4096 * i < unat vend - unat p"
    by linarith
  then have "unat p + 4096 * i < 4294967296"
    using unat_less32 [of vend] by linarith
  then show ?thesis
    by (simp add: unat_word_ariths unat_of_nat mod_simps)
qed

lemma distinct_pages: "distinct (pages p vend)"
proof -
  have "inj_on (\<lambda>i. p + of_nat (4096 * i)) {0..<(unat vend - unat p) div 4096}"
  proof (rule inj_onI)
    fix i j
    assume ij: "i \<in> {0..<(unat vend - unat p) div 4096}" "j \<in> {0..<(unat vend - unat p) div 4096}"
      and "p + of_nat (4096 * i) = p + of_nat (4096 * j)"
    then have "unat (p + of_nat (4096 * i)) = unat (p + of_nat (4096 * j))"
      by (simp only:)
    then show "i = j"
      using ij unat_page_i [of i vend p] unat_page_i [of j vend p] by simp
  qed
  then show ?thesis
    by (simp add: pages_def distinct_map)
qed

lemma pages_page_ok:
  assumes "aligned p" "kend \<le> p" "KERNBASE \<le> p" "vend \<le> P2V PHYSTOP" "v \<in> set (pages p vend)"
  shows "page_ok kend v"
proof -
  obtain i where i: "i < (unat vend - unat p) div 4096" and v: "v = p + of_nat (4096 * i)"
    using assms(5) by (auto simp: pages_def)
  have u: "unat v = unat p + 4096 * i"
    unfolding v using i by (rule unat_page_i)
  have "4096 * i < unat vend - unat p"
    using i by linarith
  moreover have "unat vend \<le> 0x8E000000" "0x80000000 \<le> unat p"
    using assms(3,4) by (simp_all add: P2V_def word_le_nat_alt)
  ultimately have v_range: "0x80000000 \<le> unat v" "unat v < 0x8E000000"
    using u by linarith+
  then have "unat (V2P v) = unat v - 0x80000000"
    by (simp add: V2P_def unat_sub word_le_nat_alt)
  moreover have "aligned v"
    using assms(1) u by (simp add: aligned_iff mod_add_left_eq)
  moreover have "kend \<le> v"
    using assms(2) u by (simp add: word_le_nat_alt)
  ultimately show ?thesis
    using v_range by (simp add: page_ok_def word_less_nat_alt)
qed

section \<open>Histories of the allocator\<close>

text \<open>
  The allocator and its clients: kalloc hands out a page, a client writes in pages it owns, and gives one
  back with kfree. \<open>live\<close> is the set of pages handed out and not yet given back.
\<close>

inductive km_run :: "'a kmem_st_scheme \<Rightarrow> u32 set \<Rightarrow> 'a kmem_st_scheme \<Rightarrow> u32 set \<Rightarrow> bool" where
  start: "km_run s live s live"
| alloc: "km_run s live t lv \<Longrightarrow> kalloc t = Inr (v, u) \<Longrightarrow> km_run s live u (if v = 0 then lv else insert v lv)"
| free: "km_run s live t lv \<Longrightarrow> v \<in> lv \<Longrightarrow> kfree v t = Inr u \<Longrightarrow> km_run s live u (lv - {v})"
| client: "km_run s live t lv \<Longrightarrow> (\<And>y. (\<forall>v \<in> lv. \<not> in_page v y) \<Longrightarrow> m y = mem t y) \<Longrightarrow> km_run s live (t\<lparr>mem := m\<rparr>) lv"

text \<open>The free pages and the live pages partition the pool.\<close>

definition pool :: "'a kmem_st_scheme \<Rightarrow> u32 set \<Rightarrow> u32 list \<Rightarrow> u32 set \<Rightarrow> bool" where
  "pool s live xs ps \<longleftrightarrow> kmem_holds s xs \<and> set xs \<inter> live = {} \<and> set xs \<union> live = ps \<and>
     (\<forall>v \<in> live. page_ok (km_end (kmem s)) v)"

lemma pool_client:
  assumes "pool t lv xs ps" "\<And>y. (\<forall>v \<in> lv. \<not> in_page v y) \<Longrightarrow> m y = mem t y"
  shows "pool (t\<lparr>mem := m\<rparr>) lv xs ps"
proof -
  have "m y = mem t y" if "x \<in> set xs" "in_page x y" for x y
  proof (rule assms(2), intro ballI notI)
    fix v assume v: "v \<in> lv" "in_page v y"
    have "aligned v" "aligned x"
      using assms(1) v(1) that(1) by (auto simp: pool_def kmem_holds_def dest: page_ok_aligned)
    then have "v = x"
      using in_page_unique v(2) that(2) by blast
    with v(1) that(1) assms(1) show False
      by (auto simp: pool_def)
  qed
  then have "flist m p xs = flist (mem t) p xs" for p
    by (rule flist_cong)
  then show ?thesis
    using assms(1) by (simp add: pool_def kmem_holds_def km_ok_def)
qed

lemma pool_alloc:
  assumes "pool t lv xs ps" "kalloc t = Inr (v, u)"
  shows "\<exists>ys. pool u (if v = 0 then lv else insert v lv) ys ps \<and> (if v = 0 then xs = [] else xs = v # ys)"
proof (cases xs)
  case Nil
  then show ?thesis
    using assms kalloc_holds(1) [of t] by (auto simp: pool_def)
next
  case (Cons x ys)
  then have "v = x" "u = kalloced t" "kmem_holds (kalloced t) ys" "page_ok (km_end (kmem t)) x" "x \<noteq> 0"
    using assms kalloc_holds(2) [of t x ys] by (auto simp: pool_def kmem_holds_def page_ok_nonzero)
  then show ?thesis
    using assms(1) Cons by (intro exI [of _ ys]) (auto simp: pool_def kmem_holds_def)
qed

lemma pool_free:
  assumes "pool t lv xs ps" "v \<in> lv"
  shows "kfree v t = Inr (kfreed v t)" "pool (kfreed v t) (lv - {v}) (v # xs) ps"
proof -
  have "page_ok (km_end (kmem t)) v" "v \<notin> set xs"
    using assms by (auto simp: pool_def)
  from kfree_holds [OF _ this] assms(1)
  show "kfree v t = Inr (kfreed v t)" "pool (kfreed v t) (lv - {v}) (v # xs) ps"
    using assms by (auto simp: pool_def)
qed

lemma km_run_pool: "km_run s live t lv \<Longrightarrow> pool s live xs ps \<Longrightarrow> \<exists>ys. pool t lv ys ps"
proof (induction rule: km_run.induct)
  case (alloc s live t lv v u)
  then show ?case
    using pool_alloc by blast
next
  case (free s live t lv v u)
  then show ?case
    using pool_free by (metis sum.inject(2))
next
  case (client s live t lv m)
  then show ?case
    using pool_client by blast
qed blast

section \<open>Properties\<close>

text \<open>
  C4. The allocator never hands out a page twice. After any history of kalloc, kfree of live pages and
  client writes inside live pages, the list threaded through memory is intact, free and live pages partition the
  original pool, the next kalloc returns 0 exactly when every page is live and otherwise a page that is
  not, without changing memory, and kfree of a live page succeeds and changes no byte outside it.
\<close>

theorem kalloc_never_shares_pages:
  assumes "kmem_holds s xs" and "km_run s {} t live"
  shows "\<exists>ys. kmem_holds t ys \<and> set ys \<inter> live = {} \<and> set ys \<union> live = set xs \<and>
    (\<exists>v u. kalloc t = Inr (v, u) \<and> (v = 0 \<longleftrightarrow> live = set xs) \<and> v \<notin> live \<and> mem u = mem t) \<and>
    (\<forall>v \<in> live. \<exists>u. kfree v t = Inr u \<and> (\<forall>y. \<not> in_page v y \<longrightarrow> mem u y = mem t y))"
proof -
  have "pool s {} xs (set xs)"
    using assms(1) by (simp add: pool_def)
  then obtain ys where ys: "pool t live ys (set xs)"
    using km_run_pool [OF assms(2)] by blast
  have ok: "kmem_holds t ys" "km_ok t"
    using ys by (simp_all add: pool_def kmem_holds_def)
  have kalloc: "kalloc t = Inr (freelist (kmem t), kalloced t)"
    using ok(2) by (rule kalloc_ok)
  have "0 \<notin> live"
    using ys by (auto simp: pool_def kmem_holds_def dest: page_ok_nonzero)
  moreover have "freelist (kmem t) = 0 \<longleftrightarrow> ys = []" "ys \<noteq> [] \<Longrightarrow> freelist (kmem t) \<in> set ys"
    using ok(1) by (cases ys; auto simp: kmem_holds_def)+
  ultimately have "freelist (kmem t) = 0 \<longleftrightarrow> live = set xs" "freelist (kmem t) \<notin> live"
    using ys by (auto simp: pool_def)
  then have "\<exists>v u. kalloc t = Inr (v, u) \<and> (v = 0 \<longleftrightarrow> live = set xs) \<and> v \<notin> live \<and> mem u = mem t"
    by (simp add: kalloc)
  moreover have "\<exists>u. kfree v t = Inr u \<and> (\<forall>y. \<not> in_page v y \<longrightarrow> mem u y = mem t y)" if "v \<in> live" for v
    using pool_free(1) [OF ys that] by (auto simp: mem_kfreed)
  ultimately show ?thesis
    using ys by (intro exI [of _ ys]) (simp add: pool_def)
qed

lemma PGROUNDUP_top:
  assumes "v \<le> P2V PHYSTOP"
  shows "PGROUNDUP v \<le> P2V PHYSTOP"
proof -
  have v: "unat v \<le> 0x8E000000" using assms by (simp add: P2V_def word_le_nat_alt)
  then have "(unat v + 4095) div 4096 \<le> (0x8E000000 + 4095) div 4096" by (intro div_le_mono) simp
  then have "unat v + 4095 - (unat v + 4095) mod 4096 \<le> 0x8E000000" unfolding minus_mod_eq_mult_div by simp
  then show ?thesis using unat_PGROUNDUP [of v] v by (simp add: P2V_def word_le_nat_alt)
qed

text \<open>
  C15. On a range of memory between the end of the kernel and the top of physical memory, kinit1 returns, and leaves on the
  free list exactly the whole pages between \<open>vstart\<close> rounded up and \<open>vend\<close>, the last one first. The comparison of the loop is
  the 32-bit one.
\<close>

theorem kinit1_frees_range:
  assumes "cpu_ok s" and "freelist (kmem s) = 0" and "KERNBASE < km_end (kmem s)"
    and "km_end (kmem s) \<le> PGROUNDUP vstart" and "vend \<le> P2V PHYSTOP" and "vstart \<le> vend"
  shows "\<exists>s'. kinit1 vstart vend s = Inr s' \<and> kmem_holds s' (rev (pages (PGROUNDUP vstart) vend))"
proof -
  let ?s = "s\<lparr>kmem := (kmem s)\<lparr>km_lock := initlock ''kmem'', use_lock := 0\<rparr>\<rparr>"
  have "kmem_holds ?s []"
    using assms(1-3) by (simp add: kmem_holds_def km_ok_def lock_free_def initlock_def)
  moreover have "aligned (PGROUNDUP vstart)"
    using aligned_PGROUNDDOWN by (simp add: PGROUNDUP_def PGROUNDDOWN_def)
  moreover have "PGROUNDUP vstart \<le> P2V PHYSTOP"
    using PGROUNDUP_top [OF order_trans [OF assms(6,5)]] .
  ultimately obtain s' where "freerange_loop (PGROUNDUP vstart) vend ?s = Inr s'"
      "kmem_holds s' (rev (pages (PGROUNDUP vstart) vend) @ [])"
    using freerange_holds [of ?s "[]" "PGROUNDUP vstart" vend] pages_page_ok [OF _ assms(4) _ assms(5)] assms(3-5) distinct_pages
    by auto
  then show ?thesis
    by (simp add: kinit1_def freerange_def)
qed

definition boot_state :: "kmem_st" where
  "boot_state = \<lparr>cpus = [\<lparr>apicid = 0, cpu_ncli = 0, cpu_intena = True, cpu_proc = None\<rparr>],
     lapic_id = 0, eflags_if = True,
     klog = \<lparr>kl_lock = initlock ''klog'', kl_entries = [], kl_head = 0, kl_count = 0, kl_ticks = 0\<rparr>,
     ptable = \<lparr>pt_lock = initlock ''ptable'', pt_proc = replicate 64 quiet_proc, nextpid = 1, initproc = None\<rparr>,
     kmem = \<lparr>km_lock = initlock ''kmem'', use_lock = 0, freelist = 0, km_end = 0x80115000\<rparr>, mem = (\<lambda>_. 0)\<rparr>"

theorem kinit1_frees_range_witness:
  "\<exists>s'. kinit1 0x80115000 0x80117000 boot_state = Inr s' \<and> kmem_holds s' [0x80116000, 0x80115000]"
proof -
  have "PGROUNDUP 0x80115000 = 0x80115000"
    by (simp add: PGROUNDUP_def)
  moreover have "pages 0x80115000 0x80117000 = [0x80115000, 0x80116000]"
    by (simp add: pages_def upt_rec)
  ultimately show ?thesis
    using kinit1_frees_range [of boot_state "0x80115000" "0x80117000"]
    by (simp add: boot_state_def cpu_ok_def P2V_def)
qed

theorem kalloc_never_shares_pages_witness:
  "\<exists>(s :: kmem_st) t. kmem_holds s [0x80115000] \<and> km_run s {} t {0x80115000} \<and> kmem_holds t []"
proof -
  let ?p = "0x80115000 :: u32"
  let ?s = "kfreed ?p boot_state"
  have "kmem_holds boot_state []" "page_ok (km_end (kmem boot_state)) ?p"
    by (simp_all add: boot_state_def kmem_holds_def km_ok_def cpu_ok_def lock_free_def initlock_def page_ok_def
        aligned_def V2P_def)
  then have s: "kmem_holds ?s [?p]"
    by (intro kfree_holds(2)) simp_all
  have "kalloc ?s = Inr (?p, kalloced ?s)"
    using kalloc_holds(2) [OF s] by simp
  from km_run.alloc [OF km_run.start this] have run: "km_run ?s {} (kalloced ?s) {?p}"
    by simp
  obtain ys where "kmem_holds (kalloced ?s) ys" "set ys \<inter> {?p} = {}" "set ys \<union> {?p} = set [?p]"
    using kalloc_never_shares_pages [OF s run] by blast
  then have "kmem_holds (kalloced ?s) []"
    by (cases ys) auto
  with s run show ?thesis
    by blast
qed

end
