(* ===== verification/Vm.thy ===== *)
theory Vm
  imports Kalloc
begin

text \<open>
  Virtual memory (vm.c): two-level page tables stored in machine memory, the kernel's mappings, growing,
  shrinking, copying and freeing a user address space, and copying bytes to user memory. A page table is
  the bytes of its pages; \<open>lookup\<close> reads off the mapping it represents. Messages printed on an error path go
  to the console, which is not part of the state here.
\<close>

section \<open>Data\<close>

text \<open>
  The kernel's page table, the registers that switchkvm and switchuvm load (the page table base register and the
  kernel stack pointer in the task segment), and the linker's symbol \<open>data\<close>.
\<close>

record vm =
  kpgdir :: u32
  cr3 :: u32
  ts_esp0 :: u32
  kdata :: u32

record vm_st = kmem_st +
  vm :: vm

abbreviation (input) NPDENTRIES :: nat where "NPDENTRIES \<equiv> 1024"
abbreviation (input) KSTACKSIZE :: u32 where "KSTACKSIZE \<equiv> 4096"

text \<open>
  The page loops step a 32-bit address by \<open>PGSIZE\<close>. There are \<open>2^20\<close> pages, so a loop that runs through
  more steps than that repeats an address; it is cut off there and reported as never ending.
\<close>

abbreviation (input) page_fuel :: nat where "page_fuel \<equiv> 1048577"

section \<open>Walking and mapping\<close>

definition walkpgdir :: "u32 \<Rightarrow> u32 \<Rightarrow> bool \<Rightarrow> 'a kmem_st_scheme \<Rightarrow> 'a kmem_st_scheme stop + u32 \<times> 'a kmem_st_scheme" where
  "walkpgdir pgdir va alloc s =
     (let pde = pgdir + 4 * PDX va; e = rd32 (mem s) pde
      in if e AND PTE_P \<noteq> 0 then Inr (P2V (PTE_ADDR e) + 4 * PTX va, s)
         else if \<not> alloc then Inr (0, s)
         else seq (kalloc s) (\<lambda>(pgtab, s).
           if pgtab = 0 then Inr (0, s)
           else let s = s\<lparr>mem := memset (mem s) pgtab 0 PGSIZE\<rparr>;
                    s = s\<lparr>mem := wr32 (mem s) pde (V2P pgtab OR PTE_P OR PTE_W OR PTE_U)\<rparr>
                in Inr (pgtab + 4 * PTX va, s)))"

fun mappages_loop :: "nat \<Rightarrow> u32 \<Rightarrow> u32 \<Rightarrow> u32 \<Rightarrow> u32 \<Rightarrow> u32 \<Rightarrow> 'a kmem_st_scheme \<Rightarrow>
    'a kmem_st_scheme stop + int \<times> 'a kmem_st_scheme" where
  "mappages_loop 0 pgdir a lst pa perm s = Inl Spin"
| "mappages_loop (Suc n) pgdir a lst pa perm s =
     seq (walkpgdir pgdir a True s) (\<lambda>(pte, s).
     if pte = 0 then Inr (-1, s)
     else if rd32 (mem s) pte AND PTE_P \<noteq> 0 then Inl (Panic ''remap'')
     else let s = s\<lparr>mem := wr32 (mem s) pte (pa OR perm OR PTE_P)\<rparr>
          in if a = lst then Inr (0, s)
             else mappages_loop n pgdir (a + PGSIZE) lst (pa + PGSIZE) perm s)"

definition mappages :: "u32 \<Rightarrow> u32 \<Rightarrow> u32 \<Rightarrow> u32 \<Rightarrow> u32 \<Rightarrow> 'a kmem_st_scheme \<Rightarrow>
    'a kmem_st_scheme stop + int \<times> 'a kmem_st_scheme" where
  "mappages pgdir va sz pa perm s =
     mappages_loop page_fuel pgdir (PGROUNDDOWN va) (PGROUNDDOWN (va + sz - 1)) pa perm s"

section \<open>Shrinking and freeing\<close>

fun deallocuvm_loop :: "nat \<Rightarrow> u32 \<Rightarrow> u32 \<Rightarrow> u32 \<Rightarrow> 'a kmem_st_scheme \<Rightarrow> 'a kmem_st_scheme stop + 'a kmem_st_scheme" where
  "deallocuvm_loop 0 pgdir oldsz a s = Inl Spin"
| "deallocuvm_loop (Suc n) pgdir oldsz a s =
     (if a < oldsz then
        seq (walkpgdir pgdir a False s) (\<lambda>(pte, s).
        if pte = 0 then deallocuvm_loop n pgdir oldsz (PGADDR (PDX a + 1) 0 0 - PGSIZE + PGSIZE) s
        else if rd32 (mem s) pte AND PTE_P \<noteq> 0 then
          let pa = PTE_ADDR (rd32 (mem s) pte)
          in if pa = 0 then Inl (Panic ''kfree'')
             else seq (kfree (P2V pa) s) (\<lambda>s.
               deallocuvm_loop n pgdir oldsz (a + PGSIZE) (s\<lparr>mem := wr32 (mem s) pte 0\<rparr>))
        else deallocuvm_loop n pgdir oldsz (a + PGSIZE) s)
      else Inr s)"

definition deallocuvm :: "u32 \<Rightarrow> u32 \<Rightarrow> u32 \<Rightarrow> 'a kmem_st_scheme \<Rightarrow> 'a kmem_st_scheme stop + u32 \<times> 'a kmem_st_scheme" where
  "deallocuvm pgdir oldsz newsz s =
     (if newsz \<ge> oldsz then Inr (oldsz, s)
      else seq (deallocuvm_loop page_fuel pgdir oldsz (PGROUNDUP newsz) s) (\<lambda>s. Inr (newsz, s)))"

fun freevm_tables :: "u32 \<Rightarrow> nat list \<Rightarrow> 'a kmem_st_scheme \<Rightarrow> 'a kmem_st_scheme stop + 'a kmem_st_scheme" where
  "freevm_tables pgdir [] s = Inr s"
| "freevm_tables pgdir (i # is) s =
     (let e = rd32 (mem s) (pgdir + 4 * of_nat i)
      in if e AND PTE_P \<noteq> 0 then seq (kfree (P2V (PTE_ADDR e)) s) (freevm_tables pgdir is)
         else freevm_tables pgdir is s)"

definition freevm :: "u32 \<Rightarrow> 'a kmem_st_scheme \<Rightarrow> 'a kmem_st_scheme stop + 'a kmem_st_scheme" where
  "freevm pgdir s =
     (if pgdir = 0 then Inl (Panic ''freevm: no pgdir'')
      else seq (deallocuvm pgdir KERNBASE 0 s) (\<lambda>(_, s).
           seq (freevm_tables pgdir [0..<NPDENTRIES] s) (kfree pgdir)))"

section \<open>Kernel mappings\<close>

record kmap =
  km_virt :: u32
  phys_start :: u32
  phys_end :: u32
  km_perm :: u32

definition kmap_table :: "u32 \<Rightarrow> kmap list" where
  "kmap_table data =
     [\<lparr>km_virt = KERNBASE, phys_start = 0, phys_end = EXTMEM, km_perm = PTE_W\<rparr>,
      \<lparr>km_virt = KERNLINK, phys_start = V2P KERNLINK, phys_end = V2P data, km_perm = 0\<rparr>,
      \<lparr>km_virt = data, phys_start = V2P data, phys_end = PHYSTOP, km_perm = PTE_W\<rparr>,
      \<lparr>km_virt = DEVSPACE, phys_start = DEVSPACE, phys_end = 0, km_perm = PTE_W\<rparr>]"

fun setupkvm_loop :: "u32 \<Rightarrow> kmap list \<Rightarrow> 'a kmem_st_scheme \<Rightarrow> 'a kmem_st_scheme stop + u32 \<times> 'a kmem_st_scheme" where
  "setupkvm_loop pgdir [] s = Inr (pgdir, s)"
| "setupkvm_loop pgdir (k # ks) s =
     seq (mappages pgdir (km_virt k) (phys_end k - phys_start k) (phys_start k) (km_perm k) s) (\<lambda>(r, s).
     if r < 0 then seq (freevm pgdir s) (\<lambda>s. Inr (0, s)) else setupkvm_loop pgdir ks s)"

definition setupkvm :: "'a vm_st_scheme \<Rightarrow> 'a vm_st_scheme stop + u32 \<times> 'a vm_st_scheme" where
  "setupkvm s =
     seq (kalloc s) (\<lambda>(pgdir, s).
     if pgdir = 0 then Inr (0, s)
     else let s = s\<lparr>mem := memset (mem s) pgdir 0 PGSIZE\<rparr>
     in if P2V PHYSTOP > DEVSPACE then Inl (Panic ''PHYSTOP too high'')
        else setupkvm_loop pgdir (kmap_table (kdata (vm s))) s)"

definition switchkvm :: "'a vm_st_scheme \<Rightarrow> 'a vm_st_scheme" where
  "switchkvm s = s\<lparr>vm := (vm s)\<lparr>cr3 := V2P (kpgdir (vm s))\<rparr>\<rparr>"

definition kvmalloc :: "'a vm_st_scheme \<Rightarrow> 'a vm_st_scheme stop + 'a vm_st_scheme" where
  "kvmalloc s = seq (setupkvm s) (\<lambda>(pgdir, s). Inr (switchkvm (s\<lparr>vm := (vm s)\<lparr>kpgdir := pgdir\<rparr>\<rparr>)))"

definition switchuvm :: "nat option \<Rightarrow> 'a vm_st_scheme \<Rightarrow> 'a vm_st_scheme stop + 'a vm_st_scheme" where
  "switchuvm p s =
     (case p of None \<Rightarrow> Inl (Panic ''switchuvm: no process'')
      | Some p \<Rightarrow> let q = procs s ! p
          in if p_kstack q = 0 then Inl (Panic ''switchuvm: no kstack'')
             else if p_pgdir q = 0 then Inl (Panic ''switchuvm: no pgdir'')
             else seq (pushcli s) (\<lambda>s.
               popcli (s\<lparr>vm := (vm s)\<lparr>ts_esp0 := p_kstack q + KSTACKSIZE, cr3 := V2P (p_pgdir q)\<rparr>\<rparr>)))"

section \<open>Growing and copying\<close>

text \<open>\<open>init\<close> is the kernel address of the program text linked into the kernel.\<close>

definition inituvm :: "u32 \<Rightarrow> u32 \<Rightarrow> u32 \<Rightarrow> 'a kmem_st_scheme \<Rightarrow> 'a kmem_st_scheme stop + 'a kmem_st_scheme" where
  "inituvm pgdir init sz s =
     (if sz \<ge> PGSIZE then Inl (Panic ''inituvm: more than a page'')
      else seq (kalloc s) (\<lambda>(v, s).
           let s = s\<lparr>mem := memset (mem s) v 0 PGSIZE\<rparr>
           in seq (mappages pgdir 0 PGSIZE (V2P v) (PTE_W OR PTE_U) s) (\<lambda>(_, s).
              Inr (s\<lparr>mem := memmove (mem s) v init sz\<rparr>))))"

fun allocuvm_loop :: "nat \<Rightarrow> u32 \<Rightarrow> u32 \<Rightarrow> u32 \<Rightarrow> u32 \<Rightarrow> 'a kmem_st_scheme \<Rightarrow> 'a kmem_st_scheme stop + u32 \<times> 'a kmem_st_scheme" where
  "allocuvm_loop 0 pgdir oldsz newsz a s = Inl Spin"
| "allocuvm_loop (Suc n) pgdir oldsz newsz a s =
     (if a < newsz then
        seq (kalloc s) (\<lambda>(v, s).
        if v = 0 then seq (deallocuvm pgdir newsz oldsz s) (\<lambda>(_, s). Inr (0, s))
        else let s = s\<lparr>mem := memset (mem s) v 0 PGSIZE\<rparr>
        in seq (mappages pgdir a PGSIZE (V2P v) (PTE_W OR PTE_U) s) (\<lambda>(r, s).
           if r < 0 then seq (deallocuvm pgdir newsz oldsz s) (\<lambda>(_, s). seq (kfree v s) (\<lambda>s. Inr (0, s)))
           else allocuvm_loop n pgdir oldsz newsz (a + PGSIZE) s))
      else Inr (newsz, s))"

definition allocuvm :: "u32 \<Rightarrow> u32 \<Rightarrow> u32 \<Rightarrow> 'a kmem_st_scheme \<Rightarrow> 'a kmem_st_scheme stop + u32 \<times> 'a kmem_st_scheme" where
  "allocuvm pgdir oldsz newsz s =
     (if newsz \<ge> KERNBASE then Inr (0, s)
      else if newsz < oldsz then Inr (oldsz, s)
      else allocuvm_loop page_fuel pgdir oldsz newsz (PGROUNDUP oldsz) s)"

definition clearpteu :: "u32 \<Rightarrow> u32 \<Rightarrow> 'a kmem_st_scheme \<Rightarrow> 'a kmem_st_scheme stop + 'a kmem_st_scheme" where
  "clearpteu pgdir uva s =
     seq (walkpgdir pgdir uva False s) (\<lambda>(pte, s).
     if pte = 0 then Inl (Panic ''clearpteu'')
     else Inr (s\<lparr>mem := wr32 (mem s) pte (rd32 (mem s) pte AND NOT PTE_U)\<rparr>))"

fun copyuvm_loop :: "nat \<Rightarrow> u32 \<Rightarrow> u32 \<Rightarrow> u32 \<Rightarrow> u32 \<Rightarrow> 'a kmem_st_scheme \<Rightarrow> 'a kmem_st_scheme stop + u32 \<times> 'a kmem_st_scheme" where
  "copyuvm_loop 0 pgdir d sz i s = Inl Spin"
| "copyuvm_loop (Suc n) pgdir d sz i s =
     (if i < sz then
        seq (walkpgdir pgdir i False s) (\<lambda>(pte, s).
        if pte = 0 then Inl (Panic ''copyuvm: pte should exist'')
        else if rd32 (mem s) pte AND PTE_P = 0 then Inl (Panic ''copyuvm: page not present'')
        else let pa = PTE_ADDR (rd32 (mem s) pte); flags = PTE_FLAGS (rd32 (mem s) pte)
        in seq (kalloc s) (\<lambda>(v, s).
           if v = 0 then seq (freevm d s) (\<lambda>s. Inr (0, s))
           else let s = s\<lparr>mem := memmove (mem s) v (P2V pa) PGSIZE\<rparr>
           in seq (mappages d i PGSIZE (V2P v) flags s) (\<lambda>(r, s).
              if r < 0 then seq (kfree v s) (\<lambda>s. seq (freevm d s) (\<lambda>s. Inr (0, s)))
              else copyuvm_loop n pgdir d sz (i + PGSIZE) s)))
      else Inr (d, s))"

definition copyuvm :: "u32 \<Rightarrow> u32 \<Rightarrow> 'a vm_st_scheme \<Rightarrow> 'a vm_st_scheme stop + u32 \<times> 'a vm_st_scheme" where
  "copyuvm pgdir sz s =
     seq (setupkvm s) (\<lambda>(d, s). if d = 0 then Inr (0, s) else copyuvm_loop page_fuel pgdir d sz 0 s)"

section \<open>User memory\<close>

definition uva2ka :: "u32 \<Rightarrow> u32 \<Rightarrow> 'a kmem_st_scheme \<Rightarrow> 'a kmem_st_scheme stop + u32" where
  "uva2ka pgdir uva s =
     seq (walkpgdir pgdir uva False s) (\<lambda>(pte, s).
     if pte = 0 then Inl Fault
     else let e = rd32 (mem s) pte
     in if e AND PTE_P = 0 then Inr 0 else if e AND PTE_U = 0 then Inr 0 else Inr (P2V (PTE_ADDR e)))"

lemma page_rest:
  "0 < PGSIZE - (va - PGROUNDDOWN va)" "PGSIZE - (va - PGROUNDDOWN va) \<le> PGSIZE"
  "unat (va - PGROUNDDOWN va) = unat va mod 4096" "unat (PGSIZE - (va - PGROUNDDOWN va)) = 4096 - unat va mod 4096"
proof -
  have "PGROUNDDOWN va \<le> va"
    by (simp add: word_le_nat_alt unat_PGROUNDDOWN)
  then show off: "unat (va - PGROUNDDOWN va) = unat va mod 4096"
    by (simp add: unat_sub unat_PGROUNDDOWN)
  then have "va - PGROUNDDOWN va < 4096"
    by (simp add: word_less_nat_alt)
  then show rest: "unat (PGSIZE - (va - PGROUNDDOWN va)) = 4096 - unat va mod 4096"
    by (subst unat_sub) (simp_all add: off)
  show "0 < PGSIZE - (va - PGROUNDDOWN va)" "PGSIZE - (va - PGROUNDDOWN va) \<le> PGSIZE"
    unfolding word_less_nat_alt word_le_nat_alt rest by simp_all
qed

lemma unat_sub_less: "0 < n \<Longrightarrow> n \<le> len \<Longrightarrow> unat (len - n) < unat len" for n len :: u32
  by (simp add: unat_sub word_less_nat_alt word_le_nat_alt)

function copyout :: "u32 \<Rightarrow> u32 \<Rightarrow> u32 \<Rightarrow> u32 \<Rightarrow> 'a kmem_st_scheme \<Rightarrow> 'a kmem_st_scheme stop + int \<times> 'a kmem_st_scheme" where
  "copyout pgdir va buf len s =
     (if len > 0 then
        let va0 = PGROUNDDOWN va
        in seq (uva2ka pgdir va0 s) (\<lambda>pa0.
           if pa0 = 0 then Inr (-1, s)
           else let n = PGSIZE - (va - va0); n = (if n > len then len else n)
           in copyout pgdir (va0 + PGSIZE) (buf + n) (len - n)
                (s\<lparr>mem := memmove (mem s) (pa0 + (va - va0)) buf n\<rparr>))
      else Inr (0, s))"
  by pat_completeness auto

termination
proof (relation "measure (\<lambda>(pgdir, va, buf, len, s). unat len)", simp, clarsimp, intro conjI impI)
  fix va len :: u32
  assume "0 < len"
  then show "0 < unat len"
    by (simp add: word_less_nat_alt)
  assume "\<not> len < 4096 - (va - PGROUNDDOWN va)"
  then show "unat (len - (4096 - (va - PGROUNDDOWN va))) < unat len"
    by (intro unat_sub_less page_rest) simp
qed

declare copyout.simps [simp del]

end
