(* ===== verification/Pagetable.thy ===== *)
theory Pagetable
  imports Vm
begin

text \<open>
  What a page table in memory means. \<open>lookup\<close> gives the entry that maps an address; the lemmas say how it
  changes when an entry is written, when a new second-level table is hooked in, and when memory outside the
  table's pages changes. On top of them walkpgdir and mappages are characterised.
\<close>

section \<open>Word slots of a page\<close>

definition aligned4 :: "u32 \<Rightarrow> bool" where
  "aligned4 a \<longleftrightarrow> unat a mod 4 = 0"

lemma aligned4_slot: "aligned p \<Longrightarrow> aligned4 (p + 4 * i)"
proof -
  assume "aligned p"
  then have "unat p mod 4 = 0"
    using mod_mod_cancel [of 4 4096 "unat p"] by (simp add: aligned_iff)
  then have p: "4 dvd unat p"
    by (simp add: dvd_eq_mod_eq_0)
  have "4 dvd unat (4 * i)"
  proof -
    have "unat (4 * i) = 4 * unat i mod 4294967296"
      by (simp add: unat_word_ariths)
    then show ?thesis
      by (simp add: dvd_mod)
  qed
  with p have "4 dvd (unat p + unat (4 * i)) mod 4294967296"
    by (simp add: dvd_mod)
  moreover have "unat (p + 4 * i) = (unat p + unat (4 * i)) mod 4294967296"
    unfolding unat_word_ariths(1) [of p] by simp
  ultimately show ?thesis
    unfolding aligned4_def by (simp only: dvd_eq_mod_eq_0)
qed

lemma unat_add_small:
  assumes "aligned4 a" "k < 4"
  shows "unat (a + of_nat k) = unat a + k"
proof -
  have "unat a div 4 < 1073741824"
    using unat_less32 [of a] by simp
  moreover have "unat a = 4 * (unat a div 4)"
    using assms(1) mult_div_mod_eq [of 4 "unat a"] by (simp add: aligned4_def)
  ultimately have "unat a + k < 4294967296"
    using assms(2) by linarith
  then show ?thesis
    using assms(2) by (simp add: unat_word_ariths unat_of_nat)
qed

lemma aligned4_apart:
  assumes "aligned4 a" "aligned4 b" "a \<noteq> b" "k < 4" "l < 4"
  shows "a + of_nat k \<noteq> b + of_nat l"
proof
  assume "a + of_nat k = b + of_nat l"
  then have eq: "unat a + k = unat b + l"
    using unat_add_small assms by metis
  have "(unat a + k) div 4 = unat a div 4" "(unat b + l) div 4 = unat b div 4"
    using assms by (simp_all add: aligned4_def div_plus_div_distrib_dvd_left dvd_eq_mod_eq_0)
  then have "unat a div 4 = unat b div 4"
    using eq by simp
  then have "unat a = unat b"
    using assms(1,2) mult_div_mod_eq [of 4 "unat a"] mult_div_mod_eq [of 4 "unat b"] by (simp add: aligned4_def)
  with assms(3) show False
    by (simp add: word_unat_eq_iff)
qed

lemma rd32_cong_k:
  assumes "\<And>k. k < 4 \<Longrightarrow> m' (a + of_nat k) = m (a + of_nat k)"
  shows "rd32 m' a = rd32 m a"
  using assms [of 0] assms [of 1] assms [of 2] assms [of 3] by (intro rd32_cong) simp_all

lemma wr32_other4: "x \<noteq> a \<Longrightarrow> x \<noteq> a + 1 \<Longrightarrow> x \<noteq> a + 2 \<Longrightarrow> x \<noteq> a + 3 \<Longrightarrow> wr32 m a v x = m x"
  by (rule wr32_other) simp

lemma rd32_wr32: "aligned4 a \<Longrightarrow> aligned4 b \<Longrightarrow> rd32 (wr32 m a v) b = (if a = b then v else rd32 m b)"
proof (cases "a = b")
  case False
  assume ab: "aligned4 a" "aligned4 b"
  have apart: "b + of_nat l \<noteq> a + of_nat k" if "k < 4" "l < 4" for k l
    using ab(2,1) False [symmetric] that(2,1) by (rule aligned4_apart)
  have other: "wr32 m a v (b + of_nat l) = m (b + of_nat l)" if "l < 4" for l
  proof (rule wr32_other4)
    show "b + of_nat l \<noteq> a" using apart [of 0 l] that by simp
    show "b + of_nat l \<noteq> a + 1" using apart [of 1 l] that by simp
    show "b + of_nat l \<noteq> a + 2" using apart [of 2 l] that by simp
    show "b + of_nat l \<noteq> a + 3" using apart [of 3 l] that by simp
  qed
  from other have "rd32 (wr32 m a v) b = rd32 m b"
    by (rule rd32_cong_k)
  with False show ?thesis
    by simp
qed simp

lemma unat_slot:
  assumes "aligned p" "i < 1024"
  shows "unat (p + 4 * i) = unat p + 4 * unat i"
proof -
  have "unat p div 4096 < 1048576"
    using unat_less32 [of p] by simp
  moreover have "unat p = 4096 * (unat p div 4096)"
    using assms(1) mult_div_mod_eq [of 4096 "unat p"] by (simp add: aligned_iff)
  moreover have "unat i < 1024"
    using assms(2) by (simp add: word_less_nat_alt)
  ultimately have "unat p + 4 * unat i < 4294967296"
    by linarith
  then show ?thesis
    by (simp add: unat_word_ariths mod_simps)
qed

lemma in_page_slot:
  assumes "aligned p" "i < 1024" "k < 4"
  shows "in_page p (p + 4 * i + of_nat k)"
proof -
  have "unat i < 1024"
    using assms(2) by (simp add: word_less_nat_alt)
  then have "unat (4 * i + of_nat k) = 4 * unat i + k"
    using assms(3) by (simp add: unat_word_ariths unat_of_nat mod_simps)
  then have "4 * i + of_nat k < 4096"
    using \<open>unat i < 1024\<close> assms(3) by (simp add: word_less_nat_alt)
  then show ?thesis
    by (simp add: in_page_def add.assoc)
qed

lemma slot_eq_iff:
  assumes "aligned p" "aligned q" "i < 1024" "j < 1024"
  shows "p + 4 * i = q + 4 * j \<longleftrightarrow> p = q \<and> i = j"
proof
  assume eq: "p + 4 * i = q + 4 * j"
  have "in_page p (p + 4 * i)" "in_page q (q + 4 * j)"
    using in_page_slot [of p i 0] in_page_slot [of q j 0] assms by simp_all
  then have "p = q"
    using in_page_unique assms(1,2) unfolding eq by blast
  moreover from this have "unat i = unat j"
    using eq unat_slot assms by (metis add_left_cancel mult_cancel_left zero_neq_numeral)
  ultimately show "p = q \<and> i = j"
    by (simp add: word_unat_eq_iff)
qed simp

lemma rd32_wr32_slot:
  "aligned p \<Longrightarrow> aligned q \<Longrightarrow> i < 1024 \<Longrightarrow> j < 1024 \<Longrightarrow>
   rd32 (wr32 m (p + 4 * i) v) (q + 4 * j) = (if p = q \<and> i = j then v else rd32 m (q + 4 * j))"
  unfolding rd32_wr32 [OF aligned4_slot aligned4_slot] by (simp only: slot_eq_iff)

lemma rd32_agree:
  assumes "aligned p" "i < 1024" "\<And>y. in_page p y \<Longrightarrow> m' y = m y"
  shows "rd32 m' (p + 4 * i) = rd32 m (p + 4 * i)"
  using assms by (intro rd32_cong_k assms(3) in_page_slot)

lemma rd32_zero_page: "aligned p \<Longrightarrow> i < 1024 \<Longrightarrow> rd32 (memset m p 0 4096) (p + 4 * i) = 0"
proof -
  assume *: "aligned p" "i < 1024"
  have "rd32 (memset m p 0 4096) (p + 4 * i) = rd32 (\<lambda>_. 0) (p + 4 * i)"
    using * by (rule rd32_agree) (simp add: memset_page)
  then show ?thesis
    by (simp add: rd32_def)
qed

lemma wr32_slot_outside:
  "aligned p \<Longrightarrow> i < 1024 \<Longrightarrow> \<not> in_page p y \<Longrightarrow> wr32 m (p + 4 * i) v y = m y"
  using in_page_slot [of p i 0] in_page_slot [of p i 1] in_page_slot [of p i 2] in_page_slot [of p i 3]
  by (intro wr32_other4) (simp_all, blast+)

lemma PDX_less [simp]: "PDX va < 1024" and PTX_less [simp]: "PTX va < 1024"
proof -
  have "unat va div 4194304 < 1024"
    using unat_less32 [of va] by simp
  then show "PDX va < 1024" "PTX va < 1024"
    by (simp_all add: word_less_nat_alt unat_PDX unat_PTX)
qed

lemma same_page_iff: "PGROUNDDOWN va = PGROUNDDOWN vb \<longleftrightarrow> PDX va = PDX vb \<and> PTX va = PTX vb"
proof -
  have "PGROUNDDOWN va = PGROUNDDOWN vb \<longleftrightarrow> unat va div 4096 = unat vb div 4096"
    by (auto simp: word_unat_eq_iff unat_PGROUNDDOWN minus_mod_eq_mult_div)
  also have "\<dots> \<longleftrightarrow> unat va div 4096 div 1024 = unat vb div 4096 div 1024 \<and>
      unat va div 4096 mod 1024 = unat vb div 4096 mod 1024"
    by (metis div_mod_decomp)
  also have "\<dots> \<longleftrightarrow> PDX va = PDX vb \<and> PTX va = PTX vb"
    by (simp add: word_unat_eq_iff unat_PDX unat_PTX div_mult2_eq [symmetric])
  finally show ?thesis .
qed

section \<open>The mapping a page table represents\<close>

definition present :: "u32 \<Rightarrow> bool" where
  "present e \<longleftrightarrow> e AND PTE_P \<noteq> 0"

definition pde_at :: "mem \<Rightarrow> u32 \<Rightarrow> u32 \<Rightarrow> u32" where
  "pde_at m pgdir d = rd32 m (pgdir + 4 * d)"

definition table :: "mem \<Rightarrow> u32 \<Rightarrow> u32 \<Rightarrow> u32" where
  "table m pgdir d = P2V (PTE_ADDR (pde_at m pgdir d))"

definition pte_addr :: "mem \<Rightarrow> u32 \<Rightarrow> u32 \<Rightarrow> u32" where
  "pte_addr m pgdir va = table m pgdir (PDX va) + 4 * PTX va"

definition lookup :: "mem \<Rightarrow> u32 \<Rightarrow> u32 \<Rightarrow> u32 option" where
  "lookup m pgdir va =
     (if present (pde_at m pgdir (PDX va)) \<and> present (rd32 m (pte_addr m pgdir va))
      then Some (rd32 m (pte_addr m pgdir va)) else None)"

text \<open>The pages a page table occupies; they are pairwise distinct.\<close>

definition tables :: "mem \<Rightarrow> u32 \<Rightarrow> u32 set" where
  "tables m pgdir = table m pgdir ` {d. d < 1024 \<and> present (pde_at m pgdir d)}"

definition pt_wf :: "mem \<Rightarrow> u32 \<Rightarrow> bool" where
  "pt_wf m pgdir \<longleftrightarrow> aligned pgdir \<and> pgdir \<notin> tables m pgdir \<and>
     inj_on (table m pgdir) {d. d < 1024 \<and> present (pde_at m pgdir d)}"

abbreviation ptpages :: "mem \<Rightarrow> u32 \<Rightarrow> u32 set" where
  "ptpages m pgdir \<equiv> insert pgdir (tables m pgdir)"

lemma aligned_P2V [simp]: "aligned (P2V a) = aligned a" "aligned (V2P a) = aligned a"
proof -
  have plus: "aligned (x + 0x80000000) = aligned x" for x :: u32
  proof -
    have "unat (x + 0x80000000) mod 4096 = (unat x + 2147483648) mod 4294967296 mod 4096"
      by (simp add: unat_word_ariths)
    also have "\<dots> = (unat x + 2147483648) mod 4096"
      by (rule mod_mod_cancel) simp
    also have "\<dots> = unat x mod 4096"
      using mod_mult_self1 [of "unat x" 524288 4096] by simp
    finally show ?thesis
      by (simp add: aligned_iff)
  qed
  show "aligned (P2V a) = aligned a"
    by (simp add: P2V_def plus)
  show "aligned (V2P a) = aligned a"
    using plus [of "V2P a"] by (simp add: V2P_def)
qed

lemma aligned_table [simp]: "aligned (table m pgdir d)"
  by (simp add: table_def)

lemma tablesI: "d < 1024 \<Longrightarrow> present (pde_at m pgdir d) \<Longrightarrow> table m pgdir d \<in> tables m pgdir"
  by (auto simp: tables_def)

lemma pt_wf_aligned: "pt_wf m pgdir \<Longrightarrow> p \<in> ptpages m pgdir \<Longrightarrow> aligned p"
  by (auto simp: pt_wf_def tables_def)

lemma table_inj:
  "pt_wf m pgdir \<Longrightarrow> d < 1024 \<Longrightarrow> present (pde_at m pgdir d) \<Longrightarrow> e < 1024 \<Longrightarrow> present (pde_at m pgdir e) \<Longrightarrow>
   table m pgdir d = table m pgdir e \<longleftrightarrow> d = e"
  by (auto simp: pt_wf_def inj_on_def)

lemma table_neq_pgdir: "pt_wf m pgdir \<Longrightarrow> d < 1024 \<Longrightarrow> present (pde_at m pgdir d) \<Longrightarrow> table m pgdir d \<noteq> pgdir"
  using tablesI [of d m pgdir] by (auto simp: pt_wf_def)

text \<open>Memory that agrees on the pages of the table gives the same table.\<close>

definition agree :: "u32 set \<Rightarrow> mem \<Rightarrow> mem \<Rightarrow> bool" where
  "agree P m m' \<longleftrightarrow> (\<forall>p \<in> P. \<forall>y. in_page p y \<longrightarrow> m' y = m y)"

lemma agreeD: "agree P m m' \<Longrightarrow> p \<in> P \<Longrightarrow> in_page p y \<Longrightarrow> m' y = m y"
  by (simp add: agree_def)

lemma agree_refl [simp]: "agree P m m"
  by (simp add: agree_def)

lemma agree_trans: "agree P m m' \<Longrightarrow> agree P m' m'' \<Longrightarrow> agree P m m''"
  by (simp add: agree_def)

lemma agree_mono: "agree P m m' \<Longrightarrow> Q \<subseteq> P \<Longrightarrow> agree Q m m'"
  by (auto simp: agree_def)

lemma agree_pde: "agree {pgdir} m m' \<Longrightarrow> aligned pgdir \<Longrightarrow> d < 1024 \<Longrightarrow> pde_at m' pgdir d = pde_at m pgdir d"
  unfolding pde_at_def by (rule rd32_agree) (auto dest: agreeD)

lemma agree_table:
  assumes "agree (ptpages m pgdir) m m'" "pt_wf m pgdir"
  shows "pt_wf m' pgdir" "tables m' pgdir = tables m pgdir" "lookup m' pgdir = lookup m pgdir"
    "d < 1024 \<Longrightarrow> pde_at m' pgdir d = pde_at m pgdir d" "d < 1024 \<Longrightarrow> table m' pgdir d = table m pgdir d"
proof -
  have "agree {pgdir} m m'" "aligned pgdir"
    using assms by (auto intro: agree_mono simp: pt_wf_def)
  then show pde: "pde_at m' pgdir d = pde_at m pgdir d" if "d < 1024" for d
    using that by (rule agree_pde)
  then show table: "table m' pgdir d = table m pgdir d" if "d < 1024" for d
    using that by (simp add: table_def)
  have set: "{d. d < 1024 \<and> present (pde_at m' pgdir d)} = {d. d < 1024 \<and> present (pde_at m pgdir d)}"
    using pde by auto
  show tables: "tables m' pgdir = tables m pgdir"
    unfolding tables_def set using table by auto
  show "pt_wf m' pgdir"
    using assms(2) table unfolding pt_wf_def tables set by (simp add: inj_on_def)
  show "lookup m' pgdir = lookup m pgdir"
  proof
    fix va
    have "rd32 m' (pte_addr m pgdir va) = rd32 m (pte_addr m pgdir va)" if pde: "present (pde_at m pgdir (PDX va))"
      unfolding pte_addr_def
    proof (intro rd32_agree)
      show "m' y = m y" if "in_page (table m pgdir (PDX va)) y" for y
        using agreeD [OF assms(1) _ that] tablesI [OF _ pde] by simp
    qed simp_all
    moreover have "pte_addr m' pgdir va = pte_addr m pgdir va"
      by (simp add: pte_addr_def table)
    ultimately show "lookup m' pgdir va = lookup m pgdir va"
      by (auto simp: lookup_def pde)
  qed
qed

lemma agree_outside: "(\<And>y. \<not> in_page p y \<Longrightarrow> m' y = m y) \<Longrightarrow> aligned p \<Longrightarrow> (\<And>q. q \<in> P \<Longrightarrow> aligned q) \<Longrightarrow> p \<notin> P \<Longrightarrow> agree P m m'"
  unfolding agree_def by (blast dest: in_page_unique)

text \<open>Writing the entry of one address.\<close>

lemma write_pte:
  assumes wf: "pt_wf m pgdir" and pde: "present (pde_at m pgdir (PDX va))"
    and m': "m' = wr32 m (pte_addr m pgdir va) v"
  shows "pt_wf m' pgdir" "tables m' pgdir = tables m pgdir"
    "lookup m' pgdir vb = (if PGROUNDDOWN vb = PGROUNDDOWN va then (if present v then Some v else None) else lookup m pgdir vb)"
    "\<And>p. aligned p \<Longrightarrow> p \<noteq> table m pgdir (PDX va) \<Longrightarrow> agree {p} m m'"
proof -
  let ?t = "table m pgdir (PDX va)"
  show agree: "agree {p} m m'" if "aligned p" "p \<noteq> ?t" for p
    unfolding m' pte_addr_def using that by (intro agree_outside [of ?t]) (auto simp: wr32_slot_outside)
  have dir: "pde_at m' pgdir d = pde_at m pgdir d" "table m' pgdir d = table m pgdir d" if "d < 1024" for d
    using agree [of pgdir] table_neq_pgdir [OF wf _ pde] wf that agree_pde by (auto simp: pt_wf_def table_def)
  have set: "{d. d < 1024 \<and> present (pde_at m' pgdir d)} = {d. d < 1024 \<and> present (pde_at m pgdir d)}"
    using dir by auto
  show tables: "tables m' pgdir = tables m pgdir"
    unfolding tables_def set using dir by auto
  show "pt_wf m' pgdir"
    using wf dir unfolding pt_wf_def tables set by (simp add: inj_on_def)
  have addr: "pte_addr m' pgdir vb = pte_addr m pgdir vb"
    by (simp add: pte_addr_def dir)
  show "lookup m' pgdir vb = (if PGROUNDDOWN vb = PGROUNDDOWN va then (if present v then Some v else None) else lookup m pgdir vb)"
  proof (cases "present (pde_at m pgdir (PDX vb))")
    case True
    have "rd32 m' (pte_addr m pgdir vb) = (if pte_addr m pgdir va = pte_addr m pgdir vb then v else rd32 m (pte_addr m pgdir vb))"
      unfolding m' by (intro rd32_wr32) (simp_all add: pte_addr_def aligned4_slot)
    moreover have "pte_addr m pgdir va = pte_addr m pgdir vb \<longleftrightarrow> PGROUNDDOWN vb = PGROUNDDOWN va"
      unfolding pte_addr_def same_page_iff slot_eq_iff [OF aligned_table aligned_table PTX_less PTX_less]
      using table_inj [OF wf PDX_less pde PDX_less True] by (simp add: eq_commute)
    ultimately show ?thesis
      using True dir(1) [of "PDX vb"] by (simp add: lookup_def addr)
  next
    case False
    then have "PGROUNDDOWN vb \<noteq> PGROUNDDOWN va"
      using pde by (auto simp: same_page_iff)
    then show ?thesis
      using False dir(1) [of "PDX vb"] by (simp add: lookup_def)
  qed
qed

section \<open>Entries\<close>

lemma aligned_low_bits: "aligned a \<Longrightarrow> i < 12 \<Longrightarrow> \<not> bit a i"
proof -
  assume "aligned a" "i < 12"
  have "unat (take_bit 12 a) = unat a mod 4096"
    by (simp add: unsigned_take_bit_eq flip: take_bit_eq_mod) (simp add: take_bit_eq_mod)
  then have "take_bit 12 a = 0"
    using \<open>aligned a\<close> by (simp add: aligned_iff word_unat_eq_iff)
  then have "\<not> bit (take_bit 12 a) i"
    by simp
  with \<open>i < 12\<close> show ?thesis
    by (simp add: bit_take_bit_iff)
qed

lemma flags_high_bits: "f < 4096 \<Longrightarrow> 12 \<le> i \<Longrightarrow> \<not> bit (f :: u32) i"
proof -
  assume "f < 4096" "12 \<le> i"
  then have "unat (take_bit 12 f) = unat f"
    by (simp add: unsigned_take_bit_eq word_less_nat_alt take_bit_nat_eq_self)
  then have "take_bit 12 f = f"
    by (simp add: word_unat_eq_iff)
  then have "bit f i = bit (take_bit 12 f) i"
    by simp
  with \<open>12 \<le> i\<close> show ?thesis
    by (simp add: bit_take_bit_iff)
qed

lemma pte_parts:
  assumes "aligned a" "f < 4096"
  shows "PTE_ADDR (a OR f) = a" "PTE_FLAGS (a OR f) = f"
proof -
  have a: "bit a i \<Longrightarrow> 12 \<le> i" and f: "bit f i \<Longrightarrow> i < 12" for i
    using aligned_low_bits [OF assms(1), of i] flags_high_bits [OF assms(2), of i] by (metis not_less)+
  show "PTE_ADDR (a OR f) = a"
    unfolding PTE_ADDR_def page_mask by (rule bit_word_eqI) (auto simp: bit_simps not_less dest: a f)
  show "PTE_FLAGS (a OR f) = f"
    unfolding PTE_FLAGS_def page_mask by (rule bit_word_eqI) (auto simp: bit_simps not_less dest: a f)
qed

lemma present_or: "present (a OR f) \<longleftrightarrow> present a \<or> present f"
proof -
  have present: "present x \<longleftrightarrow> bit x 0" for x
    by (simp add: present_def bit_0 and_one_eq odd_iff_mod_2_eq_one)
  show ?thesis
    unfolding present by (simp add: bit_or_iff)
qed

section \<open>Hooking in a new table\<close>

lemma or_assoc_flags: "V2P x OR 1 OR 2 OR 4 = V2P x OR 7"
  by (simp add: or.assoc)

lemma hook_table:
  assumes wf: "pt_wf m pgdir" and d: "d < 1024" "\<not> present (pde_at m pgdir d)"
    and x: "aligned x" "x \<notin> ptpages m pgdir"
    and m': "m' = wr32 (memset m x 0 4096) (pgdir + 4 * d) (V2P x OR 7)"
  shows "pt_wf m' pgdir" "tables m' pgdir = insert x (tables m pgdir)" "present (pde_at m' pgdir d)"
    "table m' pgdir d = x" "lookup m' pgdir = lookup m pgdir"
    "\<And>p. aligned p \<Longrightarrow> p \<noteq> pgdir \<Longrightarrow> p \<noteq> x \<Longrightarrow> agree {p} m m'"
proof -
  have dir: "aligned pgdir"
    using wf by (simp add: pt_wf_def)
  show agree: "agree {p} m m'" if "aligned p" "p \<noteq> pgdir" "p \<noteq> x" for p
  proof -
    have "agree {p} m (memset m x 0 4096)"
      using that x(1) by (intro agree_outside [of x]) (auto simp: memset_page)
    moreover have "agree {p} (memset m x 0 4096) m'"
      unfolding m' using that dir d(1) by (intro agree_outside [of pgdir]) (auto simp: wr32_slot_outside)
    ultimately show ?thesis
      by (rule agree_trans)
  qed
  have pde: "pde_at m' pgdir e = (if e = d then V2P x OR 7 else pde_at m pgdir e)" if "e < 1024" for e
  proof -
    have "agree {pgdir} m (memset m x 0 4096)"
      using dir x by (intro agree_outside [of x]) (auto simp: memset_page)
    then have "rd32 (memset m x 0 4096) (pgdir + 4 * e) = rd32 m (pgdir + 4 * e)"
      using agree_pde dir that by (simp add: pde_at_def)
    then show ?thesis
      using that d(1) dir by (auto simp: m' pde_at_def rd32_wr32_slot)
  qed
  have seven: "present (V2P x OR 7)" "PTE_ADDR (V2P x OR 7) = V2P x"
    using x(1) pte_parts(1) [of "V2P x" 7] by (simp_all add: present_or) (simp add: present_def)
  show "present (pde_at m' pgdir d)" and table_d: "table m' pgdir d = x"
    using d(1) seven by (simp_all add: pde table_def)
  have table: "table m' pgdir e = (if e = d then x else table m pgdir e)" if "e < 1024" for e
    using that seven by (simp add: table_def pde)
  have set: "{e. e < 1024 \<and> present (pde_at m' pgdir e)} = insert d {e. e < 1024 \<and> present (pde_at m pgdir e)}"
    using pde d(1) seven by auto
  have "table m' pgdir ` {e. e < 1024 \<and> present (pde_at m pgdir e)} = table m pgdir ` {e. e < 1024 \<and> present (pde_at m pgdir e)}"
    using table d(2) by (intro image_cong) auto
  then show tables: "tables m' pgdir = insert x (tables m pgdir)"
    unfolding tables_def set by (simp add: table_d)
  have "inj_on (table m' pgdir) {e. e < 1024 \<and> present (pde_at m pgdir e)}"
    using wf table d(2) unfolding pt_wf_def by (auto simp: inj_on_def)
  then have "inj_on (table m' pgdir) {e. e < 1024 \<and> present (pde_at m' pgdir e)}"
    unfolding set using x(2) table d(2) table_d by (auto simp: tables_def)
  then show "pt_wf m' pgdir"
    using wf x(2) tables by (auto simp: pt_wf_def)
  show "lookup m' pgdir = lookup m pgdir"
  proof
    fix va
    show "lookup m' pgdir va = lookup m pgdir va"
    proof (cases "PDX va = d")
      case True
      have "rd32 m' (x + 4 * PTX va) = rd32 (memset m x 0 4096) (x + 4 * PTX va)"
        unfolding m' using x dir d(1) by (auto simp: rd32_wr32_slot)
      then have "rd32 m' (pte_addr m' pgdir va) = 0"
        using x(1) True by (simp add: pte_addr_def table_d rd32_zero_page)
      then show ?thesis
        using True d(2) by (simp add: lookup_def present_def)
    next
      case False
      have "rd32 m' (pte_addr m pgdir va) = rd32 m (pte_addr m pgdir va)" if p: "present (pde_at m pgdir (PDX va))"
      proof -
        have "table m pgdir (PDX va) \<noteq> pgdir" "table m pgdir (PDX va) \<noteq> x"
          using table_neq_pgdir [OF wf _ p] tablesI [OF _ p] x(2) by auto
        then have "agree {table m pgdir (PDX va)} m m'"
          by (intro agree) simp_all
        then show ?thesis
          unfolding pte_addr_def by (intro rd32_agree) (auto dest: agreeD)
      qed
      moreover have "pte_addr m' pgdir va = pte_addr m pgdir va"
        using False by (simp add: pte_addr_def table)
      ultimately show ?thesis
        using False by (auto simp: lookup_def pde)
    qed
  qed
qed

section \<open>Frames\<close>

text \<open>
  \<open>only_in P\<close>: memory changed at most in the pages \<open>P\<close>. \<open>mem_step\<close>: of the kernel state at most memory and
  the allocator changed.
\<close>

definition only_in :: "u32 set \<Rightarrow> mem \<Rightarrow> mem \<Rightarrow> bool" where
  "only_in P m m' \<longleftrightarrow> (\<forall>p. aligned p \<longrightarrow> p \<notin> P \<longrightarrow> agree {p} m m')"

definition mem_step :: "'a kmem_st_scheme \<Rightarrow> 'a kmem_st_scheme \<Rightarrow> bool" where
  "mem_step s s' \<longleftrightarrow> s' = s\<lparr>kmem := kmem s', mem := mem s'\<rparr> \<and> km_end (kmem s') = km_end (kmem s) \<and>
     use_lock (kmem s') = use_lock (kmem s) \<and> km_lock (kmem s') = km_lock (kmem s)"

lemma only_in_refl [simp, intro]: "only_in P m m"
  by (simp add: only_in_def)

lemma only_in_trans: "only_in P m m' \<Longrightarrow> only_in P m' m'' \<Longrightarrow> only_in P m m''"
  unfolding only_in_def by (blast intro: agree_trans)

lemma only_in_mono: "only_in P m m' \<Longrightarrow> P \<subseteq> Q \<Longrightarrow> only_in Q m m'"
  unfolding only_in_def by blast

lemma only_in_agree: "only_in P m m' \<Longrightarrow> (\<And>p. p \<in> Q \<Longrightarrow> aligned p \<and> p \<notin> P) \<Longrightarrow> agree Q m m'"
  unfolding only_in_def agree_def by blast

lemma only_in_page: "aligned p \<Longrightarrow> (\<And>y. \<not> in_page p y \<Longrightarrow> m' y = m y) \<Longrightarrow> p \<in> P \<Longrightarrow> only_in P m m'"
  unfolding only_in_def by (blast intro: agree_outside)

lemma mem_step_refl [simp, intro]: "mem_step s s"
  by (simp add: mem_step_def)

lemma mem_step_trans: "mem_step s t \<Longrightarrow> mem_step t u \<Longrightarrow> mem_step s u"
  by (cases s; cases t; cases u; auto simp: mem_step_def)

lemma mem_step_mem [simp]: "mem_step s (t\<lparr>mem := m\<rparr>) \<longleftrightarrow> mem_step s t"
  by (cases s; cases t; auto simp: mem_step_def)

lemma mem_step_kmem: "km_end k = km_end (kmem t) \<Longrightarrow> use_lock k = use_lock (kmem t) \<Longrightarrow> km_lock k = km_lock (kmem t) \<Longrightarrow>
    mem_step s (t\<lparr>kmem := k\<rparr>) \<longleftrightarrow> mem_step s t"
  by (cases s; cases t; auto simp: mem_step_def)

lemma mem_step_kalloced [simp]: "mem_step s (kalloced t) \<longleftrightarrow> mem_step s t"
  by (simp add: kalloced_def mem_step_kmem)

lemma mem_step_kfreed [simp]: "mem_step s (kfreed v t) \<longleftrightarrow> mem_step s t"
  by (simp add: kfreed_def mem_step_kmem)

lemma mem_stepD:
  assumes "mem_step s t"
  shows "km_end (kmem t) = km_end (kmem s)" "km_ok t = km_ok s" "cpu_ok t = cpu_ok s" "ptable t = ptable s"
    "cpus t = cpus s" "this_cpu t = this_cpu s"
proof -
  have t: "t = s\<lparr>kmem := kmem t, mem := mem t\<rparr>" and k: "km_end (kmem t) = km_end (kmem s)" "km_lock (kmem t) = km_lock (kmem s)"
    using assms by (simp_all add: mem_step_def)
  show "km_end (kmem t) = km_end (kmem s)"
    by (fact k)
  show cpu: "cpu_ok t = cpu_ok s"
    using arg_cong [OF t, of cpu_ok] by simp
  show "km_ok t = km_ok s"
    by (simp add: km_ok_def cpu k)
  show "ptable t = ptable s" "cpus t = cpus s" "this_cpu t = this_cpu s"
    using arg_cong [OF t, of ptable] arg_cong [OF t, of cpus] arg_cong [OF t, of this_cpu] by simp_all
qed

section \<open>walkpgdir\<close>

text \<open>
  The state of one page table beside the allocator: its pages are proper pages, none is on the free list
  \<open>xs\<close>. \<open>vm_grow\<close>: the page table grew by the pages taken from the front of the free list, and nothing else
  changed than those pages and the table itself.
\<close>

definition vm_inv :: "'a kmem_st_scheme \<Rightarrow> u32 list \<Rightarrow> u32 \<Rightarrow> bool" where
  "vm_inv s xs pgdir \<longleftrightarrow> kmem_holds s xs \<and> pt_wf (mem s) pgdir \<and>
     (\<forall>p \<in> ptpages (mem s) pgdir. page_ok (km_end (kmem s)) p) \<and> ptpages (mem s) pgdir \<inter> set xs = {}"

definition vm_grow :: "u32 \<Rightarrow> 'a kmem_st_scheme \<Rightarrow> u32 list \<Rightarrow> 'a kmem_st_scheme \<Rightarrow> u32 list \<Rightarrow> bool" where
  "vm_grow pgdir s xs t ys \<longleftrightarrow> vm_inv t ys pgdir \<and> mem_step s t \<and> (\<exists>zs. xs = zs @ ys) \<and>
     only_in (ptpages (mem s) pgdir \<union> set xs) (mem s) (mem t) \<and>
     tables (mem t) pgdir = tables (mem s) pgdir \<union> (set xs - set ys)"

lemma vm_grow_refl: "vm_inv s xs pgdir \<Longrightarrow> vm_grow pgdir s xs s xs"
  by (simp add: vm_grow_def)

lemma vm_grow_trans:
  assumes "vm_grow pgdir s xs t ys" "vm_grow pgdir t ys u zs"
  shows "vm_grow pgdir s xs u zs"
proof -
  have sub: "set ys \<subseteq> set xs" "set zs \<subseteq> set ys" "tables (mem t) pgdir \<subseteq> tables (mem s) pgdir \<union> set xs"
    using assms by (auto simp: vm_grow_def)
  have "only_in (ptpages (mem s) pgdir \<union> set xs) (mem t) (mem u)"
    using assms(2) sub by (auto simp: vm_grow_def elim!: only_in_mono)
  then have "only_in (ptpages (mem s) pgdir \<union> set xs) (mem s) (mem u)"
    using assms(1) by (auto simp: vm_grow_def intro: only_in_trans)
  moreover have "mem_step s u"
    using assms by (auto simp: vm_grow_def intro: mem_step_trans)
  moreover have "\<exists>ws. xs = ws @ zs"
    using assms by (auto simp: vm_grow_def)
  moreover have "vm_inv u zs pgdir"
    using assms(2) by (simp add: vm_grow_def)
  moreover have "tables (mem u) pgdir = tables (mem s) pgdir \<union> (set xs - set zs)"
    using assms sub by (auto simp: vm_grow_def)
  ultimately show ?thesis
    by (simp add: vm_grow_def)
qed

lemma kmem_holds_mem:
  assumes "kmem_holds s xs" "\<And>x y. x \<in> set xs \<Longrightarrow> in_page x y \<Longrightarrow> m y = mem s y"
  shows "kmem_holds (s\<lparr>mem := m\<rparr>) xs"
  using assms flist_cong [of xs m "mem s"] by (simp add: kmem_holds_def km_ok_def)

lemma kmem_holds_only_in:
  assumes "kmem_holds s xs" "only_in P (mem s) m" "P \<inter> set xs = {}"
  shows "kmem_holds (s\<lparr>mem := m\<rparr>) xs"
proof (rule kmem_holds_mem [OF assms(1)])
  fix x y assume x: "x \<in> set xs" "in_page x y"
  then have "aligned x"
    using assms(1) by (auto simp: kmem_holds_def dest: page_ok_aligned)
  then have "agree {x} (mem s) m"
    using assms(2,3) x by (auto simp: only_in_def)
  then show "m y = mem s y"
    using x(2) by (auto dest: agreeD)
qed

lemma page_ok_slot_nonzero:
  assumes "page_ok e p" "i < 1024"
  shows "p + 4 * i \<noteq> 0"
proof -
  have p: "unat (V2P p) < 0xE000000"
    using assms(1) by (simp add: page_ok_def word_less_nat_alt)
  have "p = V2P p + 0x80000000"
    by (simp add: V2P_def)
  then have "unat p = unat (V2P p + 0x80000000)"
    by simp
  also have "\<dots> = unat (V2P p) + 0x80000000"
    using p by (simp add: unat_word_ariths)
  finally have "0 < unat (p + 4 * i)"
    using unat_slot [of p i] assms by (simp add: page_ok_def)
  then show ?thesis
    by auto
qed

lemma pte_addr_nonzero:
  assumes "vm_inv s xs pgdir" "present (pde_at (mem s) pgdir (PDX va))"
  shows "pte_addr (mem s) pgdir va \<noteq> 0"
proof -
  have "page_ok (km_end (kmem s)) (table (mem s) pgdir (PDX va))"
    using assms(1) tablesI [OF _ assms(2)] by (simp add: vm_inv_def)
  then show ?thesis
    by (simp add: pte_addr_def page_ok_slot_nonzero)
qed

lemma walkpgdir_find:
  "walkpgdir pgdir va False s = Inr (if present (pde_at (mem s) pgdir (PDX va)) then pte_addr (mem s) pgdir va else 0, s)"
  by (simp add: walkpgdir_def Let_def present_def pde_at_def pte_addr_def table_def)

lemma walkpgdir_alloc:
  assumes inv: "vm_inv s xs pgdir"
  shows "\<exists>pte t ys. walkpgdir pgdir va True s = Inr (pte, t) \<and> vm_grow pgdir s xs t ys \<and>
    lookup (mem t) pgdir = lookup (mem s) pgdir \<and>
    (if pte = 0 then xs = [] \<and> t = s
     else pte = pte_addr (mem t) pgdir va \<and> present (pde_at (mem t) pgdir (PDX va)))"
proof (cases "present (pde_at (mem s) pgdir (PDX va))")
  case True
  then have "walkpgdir pgdir va True s = Inr (pte_addr (mem s) pgdir va, s)"
    by (simp add: walkpgdir_def Let_def present_def pde_at_def pte_addr_def table_def)
  then show ?thesis
    using True vm_grow_refl [OF inv] pte_addr_nonzero [OF inv True] by auto
next
  case absent: False
  have holds: "kmem_holds s xs"
    using inv by (simp add: vm_inv_def)
  show ?thesis
  proof (cases xs)
    case Nil
    then have "walkpgdir pgdir va True s = Inr (0, s)"
      using absent holds kalloc_holds(1) [of s] by (simp add: walkpgdir_def Let_def present_def pde_at_def)
    then show ?thesis
      using Nil vm_grow_refl [OF inv] by auto
  next
    case (Cons x ys)
    let ?m = "wr32 (memset (mem s) x 0 4096) (pgdir + 4 * PDX va) (V2P x OR 7)"
    let ?t = "(kalloced s)\<lparr>mem := ?m\<rparr>"
    have kalloc: "kalloc s = Inr (x, kalloced s)" and ys: "kmem_holds (kalloced s) ys"
      using kalloc_holds(2) [of s x ys] holds Cons by simp_all
    have x: "page_ok (km_end (kmem s)) x" "x \<notin> ptpages (mem s) pgdir" "x \<notin> set ys" "x \<noteq> 0" "aligned x"
      using inv Cons by (auto simp: vm_inv_def kmem_holds_def page_ok_nonzero dest: page_ok_aligned)
    have wf: "pt_wf (mem s) pgdir" "aligned pgdir"
      using inv by (simp_all add: vm_inv_def pt_wf_def)
    note hook = hook_table [OF wf(1) PDX_less absent x(5,2) refl]
    have walk: "walkpgdir pgdir va True s = Inr (x + 4 * PTX va, ?t)"
      using absent x(4) by (simp add: walkpgdir_def Let_def present_def pde_at_def kalloc or_assoc_flags)
    have only: "only_in {pgdir, x} (mem s) ?m"
      using hook(6) by (simp add: only_in_def)
    have "kmem_holds ?t ys"
      using ys only x inv Cons by (intro kmem_holds_only_in [of _ _ "{pgdir, x}"]) (auto simp: vm_inv_def)
    then have "vm_inv ?t ys pgdir"
      using inv hook(1,2) x Cons by (auto simp: vm_inv_def)
    moreover have "only_in (ptpages (mem s) pgdir \<union> set xs) (mem s) ?m"
      using only Cons by (auto elim: only_in_mono)
    ultimately have "vm_grow pgdir s xs ?t ys"
      using Cons hook(2) x by (auto simp: vm_grow_def)
    moreover have "x + 4 * PTX va \<noteq> 0"
      using page_ok_slot_nonzero [OF x(1)] by simp
    ultimately show ?thesis
      using walk hook(3,4,5) by (intro exI [of _ "x + 4 * PTX va"] exI [of _ ?t] exI [of _ ys]) (simp add: pte_addr_def)
  qed
qed

end
