(* ===== verification/Vm_Map.thy ===== *)
theory Vm_Map
  imports Pagetable
begin

text \<open>
  The operations of vm.c on the mapping a page table represents: mappages adds a range, allocuvm and
  deallocuvm grow and shrink the user part, copyout writes through it, copyuvm duplicates it.
\<close>

section \<open>mappages\<close>

lemma unat_page_ge: "unat x mod 4096 = 0 \<Longrightarrow> x \<noteq> 0 \<Longrightarrow> 4096 \<le> unat x" for x :: u32
proof -
  assume x: "unat x mod 4096 = 0" "x \<noteq> 0"
  then have "unat x \<noteq> 0"
    by (simp add: unat_0_iff)
  with x(1) show ?thesis
    by (auto simp: dvd_eq_mod_eq_0 [symmetric] dest: dvd_imp_le)
qed

lemma page_offset_step:
  fixes off L :: u32
  assumes "unat off mod 4096 = 0" "unat L mod 4096 = 0" "L \<noteq> 0"
  shows "off \<le> L \<longleftrightarrow> off = 0 \<or> off - 4096 \<le> L - 4096"
proof -
  have unat_minus: "unat (x - 4096) = unat x - 4096" if "4096 \<le> unat x" for x :: u32
    using that by (simp add: unat_sub word_le_nat_alt)
  show ?thesis
  proof (cases "off = 0")
    case False
    then show ?thesis
      using unat_page_ge [OF assms(1)] unat_page_ge [OF assms(2,3)]
      by (simp add: word_le_nat_alt unat_minus le_diff_iff)
  qed simp
qed

lemma aligned_diff: "aligned a \<Longrightarrow> aligned b \<Longrightarrow> aligned (a - b)"
proof -
  assume "aligned a" "aligned b"
  then have "4096 dvd unat a" "4096 dvd unat b" "4096 dvd (4294967296 :: nat)"
    by (simp_all add: aligned_iff dvd_eq_mod_eq_0)
  then have "4096 dvd unat (a - b)"
    unfolding unat_sub_if' by (simp add: dvd_diff_nat)
  then show ?thesis
    by (simp add: aligned_iff dvd_eq_mod_eq_0)
qed

lemma aligned_add: "aligned a \<Longrightarrow> aligned b \<Longrightarrow> aligned (a + b)"
  using aligned_diff [of a "- b"] aligned_diff [of 0 b] by (simp add: aligned_def)

text \<open>The mapping after a range of pages from \<open>a\<close> to \<open>lst\<close> has been mapped to physical addresses from \<open>pa\<close>.\<close>

definition map_range :: "(u32 \<Rightarrow> u32 option) \<Rightarrow> u32 \<Rightarrow> u32 \<Rightarrow> u32 \<Rightarrow> u32 \<Rightarrow> u32 \<Rightarrow> u32 option" where
  "map_range f a lst pa perm vb =
     (let off = PGROUNDDOWN vb - a
      in if off \<le> lst - a then Some ((pa + off) OR perm OR PTE_P) else f vb)"

lemma map_range_step:
  assumes "aligned a" "aligned lst" "a \<noteq> lst"
  shows "map_range (map_range f a a pa perm) (a + 4096) lst (pa + 4096) perm = map_range f a lst pa perm"
proof
  fix vb
  let ?off = "PGROUNDDOWN vb - a"
  have "?off \<le> lst - a \<longleftrightarrow> ?off = 0 \<or> ?off - 4096 \<le> lst - a - 4096"
    using assms aligned_diff [OF aligned_PGROUNDDOWN, of a vb] aligned_diff [of lst a]
    by (intro page_offset_step) (simp_all add: aligned_iff)
  then show "map_range (map_range f a a pa perm) (a + 4096) lst (pa + 4096) perm vb = map_range f a lst pa perm vb"
    by (auto simp: map_range_def Let_def algebra_simps diff_diff_eq)
qed

lemma write_entry:
  assumes inv: "vm_inv s xs pgdir" and pde: "present (pde_at (mem s) pgdir (PDX va))"
    and t: "t = s\<lparr>mem := wr32 (mem s) (pte_addr (mem s) pgdir va) v\<rparr>"
  shows "vm_grow pgdir s xs t xs"
    "lookup (mem t) pgdir vb = (if PGROUNDDOWN vb = PGROUNDDOWN va then (if present v then Some v else None)
       else lookup (mem s) pgdir vb)" "tables (mem t) pgdir = tables (mem s) pgdir"
    "only_in (tables (mem s) pgdir) (mem s) (mem t)"
proof -
  let ?m = "wr32 (mem s) (pte_addr (mem s) pgdir va) v"
  have wf: "pt_wf (mem s) pgdir"
    using inv by (simp add: vm_inv_def)
  note w = write_pte [OF wf pde refl, where v = v]
  show "lookup (mem t) pgdir vb = (if PGROUNDDOWN vb = PGROUNDDOWN va then (if present v then Some v else None)
       else lookup (mem s) pgdir vb)"
    unfolding t by (simp add: w(3))
  have only: "only_in {table (mem s) pgdir (PDX va)} (mem s) ?m"
    using w(4) by (simp add: only_in_def)
  then have "kmem_holds t xs"
    unfolding t using inv tablesI [OF _ pde] by (intro kmem_holds_only_in) (auto simp: vm_inv_def)
  then have "vm_inv t xs pgdir"
    using inv w(1,2) by (simp add: vm_inv_def t)
  moreover have "only_in (ptpages (mem s) pgdir \<union> set xs) (mem s) ?m"
    using only tablesI [OF _ pde] by (auto elim!: only_in_mono)
  ultimately show "vm_grow pgdir s xs t xs"
    using w(2) by (simp add: vm_grow_def t)
  show "tables (mem t) pgdir = tables (mem s) pgdir"
    using w(2) by (simp add: t)
  show "only_in (tables (mem s) pgdir) (mem s) (mem t)"
    using only tablesI [OF _ pde] by (auto simp: t elim!: only_in_mono)
qed

lemma vm_grow_inv: "vm_grow pgdir s xs t ys \<Longrightarrow> vm_inv t ys pgdir"
  by (simp add: vm_grow_def)

lemma lookup_None_rd32:
  "lookup m pgdir va = None \<Longrightarrow> present (pde_at m pgdir (PDX va)) \<Longrightarrow> \<not> present (rd32 m (pte_addr m pgdir va))"
  by (auto simp: lookup_def split: if_splits)

lemma present_flag [simp]: "present (a OR b OR 1)"
proof -
  have "present 1"
    by (simp add: present_def)
  then show ?thesis
    by (simp add: present_or)
qed

text \<open>One round of the loop of mappages.\<close>

lemma mappages_round:
  assumes inv: "vm_inv s xs pgdir" and a: "aligned a" "lookup (mem s) pgdir a = None"
  shows "\<exists>mapped t ys. vm_grow pgdir s xs t ys \<and>
    (\<forall>n lst. mappages_loop (Suc n) pgdir a lst pa perm s =
       (if mapped then if a = lst then Inr (0, t) else mappages_loop n pgdir (a + 4096) lst (pa + 4096) perm t else Inr (-1, t))) \<and>
    (if mapped then lookup (mem t) pgdir = map_range (lookup (mem s) pgdir) a a pa perm else ys = [] \<and> t = s)"
proof -
  obtain pte t ys where walk: "walkpgdir pgdir a True s = Inr (pte, t)" and grown: "vm_grow pgdir s xs t ys"
    and same: "lookup (mem t) pgdir = lookup (mem s) pgdir"
    and pte: "if pte = 0 then xs = [] \<and> t = s else pte = pte_addr (mem t) pgdir a \<and> present (pde_at (mem t) pgdir (PDX a))"
    using walkpgdir_alloc [OF inv, of a] by blast
  show ?thesis
  proof (cases "pte = 0")
    case True
    then show ?thesis
      using pte walk grown by (intro exI [of _ False] exI [of _ t] exI [of _ ys]) (auto simp: vm_grow_def)
  next
    case False
    let ?u = "t\<lparr>mem := wr32 (mem t) (pte_addr (mem t) pgdir a) (pa OR perm OR 1)\<rparr>"
    have pde: "present (pde_at (mem t) pgdir (PDX a))" "pte = pte_addr (mem t) pgdir a"
      using pte False by simp_all
    note w = write_entry [OF vm_grow_inv [OF grown] pde(1) refl, of "pa OR perm OR 1"]
    have "\<not> present (rd32 (mem t) pte)"
      using lookup_None_rd32 [OF _ pde(1)] a(2) pde(2) same by simp
    then have "mappages_loop (Suc n) pgdir a lst pa perm s =
        (if a = lst then Inr (0, ?u) else mappages_loop n pgdir (a + 4096) lst (pa + 4096) perm ?u)" for n lst
      using walk False pde(2) by (simp add: present_def Let_def)
    moreover have "lookup (mem ?u) pgdir = map_range (lookup (mem s) pgdir) a a pa perm"
      using w(2) PGROUNDDOWN_aligned [OF a(1)] same by (intro HOL.ext) (simp add: map_range_def)
    ultimately show ?thesis
      using vm_grow_trans [OF grown w(1)] by (intro exI [of _ True] exI [of _ ?u] exI [of _ ys]) simp
  qed
qed

lemma mappages_loop_ok:
  assumes "vm_inv s xs pgdir" "aligned a" "aligned lst" "unat (lst - a) = 4096 * n" "n < fuel"
    and "\<And>vb. PGROUNDDOWN vb - a \<le> lst - a \<Longrightarrow> lookup (mem s) pgdir vb = None"
  shows "\<exists>r t ys. mappages_loop fuel pgdir a lst pa perm s = Inr (r, t) \<and> vm_grow pgdir s xs t ys \<and>
    (r = 0 \<and> lookup (mem t) pgdir = map_range (lookup (mem s) pgdir) a lst pa perm \<or>
     r = -1 \<and> ys = [] \<and> (n = 0 \<longrightarrow> t = s) \<and>
       (\<forall>vb. \<not> PGROUNDDOWN vb - a \<le> lst - a \<longrightarrow> lookup (mem t) pgdir vb = lookup (mem s) pgdir vb))"
  using assms
proof (induction n arbitrary: s xs a pa fuel)
  case (0 s xs a pa fuel)
  have lst: "lst = a"
    using 0(4) by (simp add: unat_0_iff)
  have "lookup (mem s) pgdir a = None"
    using 0(6) [of a] PGROUNDDOWN_aligned [OF 0(2)] by simp
  with mappages_round [OF 0(1,2), of pa perm] 0(5) show ?case
    by (cases fuel) (fastforce simp: lst split: if_splits)+
next
  case (Suc n s xs a pa fuel)
  obtain f where fuel: "fuel = Suc f" "n < f"
    using Suc.prems(5) by (cases fuel) auto
  have neq: "a \<noteq> lst"
    using Suc.prems(4) by auto
  have le: "4096 \<le> lst - a" and next_off: "unat (lst - (a + 4096)) = 4096 * n"
  proof -
    show "4096 \<le> lst - a"
      using Suc.prems(4) by (simp add: word_le_nat_alt)
    then have "unat (lst - a - 4096) = 4096 * n"
      using Suc.prems(4) by (simp add: unat_sub)
    then show "unat (lst - (a + 4096)) = 4096 * n"
      by (simp add: diff_diff_eq)
  qed
  have step: "PGROUNDDOWN vb - a \<le> lst - a \<longleftrightarrow> PGROUNDDOWN vb = a \<or> PGROUNDDOWN vb - (a + 4096) \<le> lst - (a + 4096)" for vb
    using page_offset_step [of "PGROUNDDOWN vb - a" "lst - a"] neq Suc.prems(2,3)
      aligned_diff [OF aligned_PGROUNDDOWN, of a vb] aligned_diff [of lst a]
    by (simp add: aligned_iff diff_diff_eq)
  have "lookup (mem s) pgdir a = None"
    using Suc.prems(6) [of a] PGROUNDDOWN_aligned [OF Suc.prems(2)] by simp
  from mappages_round [OF Suc.prems(1,2) this, of pa perm] obtain mapped t ys where grown: "vm_grow pgdir s xs t ys"
    and loop: "\<forall>n lst. mappages_loop (Suc n) pgdir a lst pa perm s =
       (if mapped then if a = lst then Inr (0, t) else mappages_loop n pgdir (a + 4096) lst (pa + 4096) perm t else Inr (-1, t))"
    and round: "if mapped then lookup (mem t) pgdir = map_range (lookup (mem s) pgdir) a a pa perm else ys = [] \<and> t = s"
    by blast
  have loop: "mappages_loop fuel pgdir a lst pa perm s =
      (if mapped then mappages_loop f pgdir (a + 4096) lst (pa + 4096) perm t else Inr (-1, t))"
    using loop neq unfolding fuel(1) by (simp only: if_False)
  show ?case
  proof (cases mapped)
    case False
    then show ?thesis
      using grown loop round by auto
  next
    case True
    have look: "lookup (mem t) pgdir vb = (if PGROUNDDOWN vb = a then Some (pa OR perm OR 1) else lookup (mem s) pgdir vb)" for vb
      using True round by (auto simp: map_range_def)
    have "aligned (a + 4096)"
      using Suc.prems(2) aligned_add [of a 4096] by (simp add: aligned_def)
    moreover have "lookup (mem t) pgdir vb = None" if "PGROUNDDOWN vb - (a + 4096) \<le> lst - (a + 4096)" for vb
    proof -
      have "PGROUNDDOWN vb \<noteq> a"
        using that next_off Suc.prems(4) unat_less32 [of "lst - a"] by (auto simp: word_le_nat_alt)
      then show ?thesis
        using look step Suc.prems(6) that by simp
    qed
    ultimately obtain r u zs where u: "mappages_loop f pgdir (a + 4096) lst (pa + 4096) perm t = Inr (r, u)"
      "vm_grow pgdir t ys u zs"
      "r = 0 \<and> lookup (mem u) pgdir = map_range (lookup (mem t) pgdir) (a + 4096) lst (pa + 4096) perm \<or>
       r = -1 \<and> zs = [] \<and>
       (\<forall>vb. \<not> PGROUNDDOWN vb - (a + 4096) \<le> lst - (a + 4096) \<longrightarrow> lookup (mem u) pgdir vb = lookup (mem t) pgdir vb)"
      using Suc.IH [OF vm_grow_inv [OF grown] _ Suc.prems(3) next_off fuel(2), of "pa + 4096"] by blast
    have "lookup (mem u) pgdir = map_range (lookup (mem s) pgdir) a lst pa perm" if "r = 0"
      using u(3) that True round map_range_step [OF Suc.prems(2,3) neq] by simp
    moreover have "lookup (mem u) pgdir vb = lookup (mem s) pgdir vb" if "r = -1" "\<not> PGROUNDDOWN vb - a \<le> lst - a" for vb
      using u(3) that step look by auto
    ultimately show ?thesis
      using u loop True vm_grow_trans [OF grown u(2)] by (intro exI [of _ r] exI [of _ u] exI [of _ zs]) auto
  qed
qed

lemma mappages_ok:
  assumes inv: "vm_inv s xs pgdir"
    and free: "\<And>vb. PGROUNDDOWN vb - PGROUNDDOWN va \<le> PGROUNDDOWN (va + sz - 1) - PGROUNDDOWN va \<Longrightarrow> lookup (mem s) pgdir vb = None"
  shows "\<exists>r t ys. mappages pgdir va sz pa perm s = Inr (r, t) \<and> vm_grow pgdir s xs t ys \<and>
    (r = 0 \<and> lookup (mem t) pgdir = map_range (lookup (mem s) pgdir) (PGROUNDDOWN va) (PGROUNDDOWN (va + sz - 1)) pa perm \<or>
     r = -1 \<and> ys = [] \<and> (PGROUNDDOWN (va + sz - 1) = PGROUNDDOWN va \<longrightarrow> t = s) \<and>
       (\<forall>vb. \<not> PGROUNDDOWN vb - PGROUNDDOWN va \<le> PGROUNDDOWN (va + sz - 1) - PGROUNDDOWN va \<longrightarrow>
          lookup (mem t) pgdir vb = lookup (mem s) pgdir vb))"
proof -
  let ?L = "PGROUNDDOWN (va + sz - 1) - PGROUNDDOWN va"
  define n where "n = unat ?L div 4096"
  have "unat ?L mod 4096 = 0"
    using aligned_diff [OF aligned_PGROUNDDOWN aligned_PGROUNDDOWN] by (simp add: aligned_iff)
  then have n: "unat ?L = 4096 * n"
    using mult_div_mod_eq [of 4096 "unat ?L"] by (simp add: n_def)
  then have "n < 1048577"
    using unat_less32 [of ?L] by simp
  from mappages_loop_ok [OF inv aligned_PGROUNDDOWN aligned_PGROUNDDOWN n this free]
  obtain r t ys where *: "mappages_loop 1048577 pgdir (PGROUNDDOWN va) (PGROUNDDOWN (va + sz - 1)) pa perm s = Inr (r, t)"
      "vm_grow pgdir s xs t ys"
      "r = 0 \<and> lookup (mem t) pgdir = map_range (lookup (mem s) pgdir) (PGROUNDDOWN va) (PGROUNDDOWN (va + sz - 1)) pa perm \<or>
       r = -1 \<and> ys = [] \<and> (n = 0 \<longrightarrow> t = s) \<and>
       (\<forall>vb. \<not> PGROUNDDOWN vb - PGROUNDDOWN va \<le> ?L \<longrightarrow> lookup (mem t) pgdir vb = lookup (mem s) pgdir vb)"
    by blast
  moreover have "PGROUNDDOWN (va + sz - 1) = PGROUNDDOWN va \<Longrightarrow> n = 0"
    by (simp add: n_def)
  ultimately show ?thesis
    by (auto simp: mappages_def)
qed

lemma lookup_same_page: "PGROUNDDOWN va = PGROUNDDOWN vb \<Longrightarrow> lookup m pgdir va = lookup m pgdir vb"
  unfolding same_page_iff by (simp add: lookup_def pte_addr_def)

lemma PGROUNDDOWN_last: "aligned va \<Longrightarrow> PGROUNDDOWN (va + 4096 - 1) = va"
  using in_page_iff [of va "4095 + va"] by (simp add: in_page_def)

lemma mappages_page:
  assumes inv: "vm_inv s xs pgdir" and va: "aligned va" "lookup (mem s) pgdir va = None"
  shows "\<exists>r t ys. mappages pgdir va 4096 pa perm s = Inr (r, t) \<and> vm_grow pgdir s xs t ys \<and>
    (r = 0 \<and> lookup (mem t) pgdir = (\<lambda>vb. if PGROUNDDOWN vb = va then Some (pa OR perm OR 1) else lookup (mem s) pgdir vb) \<or>
     r = -1 \<and> ys = [] \<and> t = s)"
proof -
  have page: "PGROUNDDOWN va = va" "PGROUNDDOWN (va + 4096 - 1) = va"
    using va(1) by (rule PGROUNDDOWN_aligned, rule PGROUNDDOWN_last)
  have "lookup (mem s) pgdir vb = None" if "PGROUNDDOWN vb = va" for vb
    using va(2) lookup_same_page [of vb va] that page(1) by simp
  then have none: "\<And>vb. PGROUNDDOWN vb - PGROUNDDOWN va \<le> PGROUNDDOWN (va + 4096 - 1) - PGROUNDDOWN va \<Longrightarrow> lookup (mem s) pgdir vb = None"
    unfolding page by simp
  have "map_range f va va pa perm = (\<lambda>vb. if PGROUNDDOWN vb = va then Some (pa OR perm OR 1) else f vb)" for f
    by (auto simp: map_range_def)
  with mappages_ok [where va = va and sz = 4096 and pa = pa and perm = perm, OF inv none] show ?thesis
    unfolding page by (auto simp: page)
qed

end
