(* ===== verification/Vm_User.thy ===== *)
theory Vm_User
  imports Vm_Map
begin

text \<open>
  User address spaces. \<open>uspace\<close> says that the frames mapped below \<open>KERNBASE\<close> belong to one address space:
  they are pages of the allocator, distinct for distinct addresses, and neither free nor part of the page
  table. deallocuvm, allocuvm and copyuvm keep it, and their effect on the mapping is exact.
\<close>

section \<open>Address spaces\<close>

definition frame :: "u32 \<Rightarrow> u32" where
  "frame e = P2V (PTE_ADDR e)"

definition frames :: "mem \<Rightarrow> u32 \<Rightarrow> u32 set" where
  "frames m pgdir = {f. \<exists>va e. va < KERNBASE \<and> lookup m pgdir va = Some e \<and> f = frame e}"

definition uspace :: "'a kmem_st_scheme \<Rightarrow> u32 list \<Rightarrow> u32 \<Rightarrow> bool" where
  "uspace s xs pgdir \<longleftrightarrow> vm_inv s xs pgdir \<and> (\<forall>f \<in> frames (mem s) pgdir. page_ok (km_end (kmem s)) f) \<and>
     frames (mem s) pgdir \<inter> ptpages (mem s) pgdir = {} \<and> frames (mem s) pgdir \<inter> set xs = {} \<and>
     (\<forall>va vb e f. va < KERNBASE \<longrightarrow> vb < KERNBASE \<longrightarrow> lookup (mem s) pgdir va = Some e \<longrightarrow>
        lookup (mem s) pgdir vb = Some f \<longrightarrow> frame e = frame f \<longrightarrow> PGROUNDDOWN va = PGROUNDDOWN vb)"

lemma framesI: "va < KERNBASE \<Longrightarrow> lookup m pgdir va = Some e \<Longrightarrow> frame e \<in> frames m pgdir"
  by (auto simp: frames_def)

lemma uspace_frame:
  assumes "uspace s xs pgdir" "va < KERNBASE" "lookup (mem s) pgdir va = Some e"
  shows "page_ok (km_end (kmem s)) (frame e)" "frame e \<notin> ptpages (mem s) pgdir" "frame e \<notin> set xs"
    "aligned (frame e)" "PTE_ADDR e \<noteq> 0"
proof -
  have f: "frame e \<in> frames (mem s) pgdir"
    using assms(2,3) by (rule framesI)
  then show "page_ok (km_end (kmem s)) (frame e)" "frame e \<notin> ptpages (mem s) pgdir" "frame e \<notin> set xs"
    using assms(1) unfolding uspace_def by blast+
  show "aligned (frame e)"
    by (simp add: frame_def)
  have "KERNBASE < km_end (kmem s)" "km_end (kmem s) \<le> frame e"
    using assms(1) \<open>page_ok (km_end (kmem s)) (frame e)\<close>
    by (simp_all add: uspace_def vm_inv_def kmem_holds_def page_ok_def)
  then show "PTE_ADDR e \<noteq> 0"
    by (auto simp: frame_def P2V_def)
qed

lemma uspace_inj:
  "uspace s xs pgdir \<Longrightarrow> va < KERNBASE \<Longrightarrow> vb < KERNBASE \<Longrightarrow> lookup (mem s) pgdir va = Some e \<Longrightarrow>
   lookup (mem s) pgdir vb = Some f \<Longrightarrow> frame e = frame f \<Longrightarrow> PGROUNDDOWN va = PGROUNDDOWN vb"
  unfolding uspace_def by blast

lemma uspace_vm_inv: "uspace s xs pgdir \<Longrightarrow> vm_inv s xs pgdir"
  by (simp add: uspace_def)

text \<open>An address space with fewer mappings and their frames possibly on the free list is again one.\<close>

lemma uspace_restrict:
  assumes u: "uspace s xs pgdir" and inv: "vm_inv t ys pgdir" and end_eq: "km_end (kmem t) = km_end (kmem s)"
    and sub: "\<And>va e. lookup (mem t) pgdir va = Some e \<Longrightarrow> lookup (mem s) pgdir va = Some e"
    and tab: "tables (mem t) pgdir = tables (mem s) pgdir"
    and ys: "\<And>va e. va < KERNBASE \<Longrightarrow> lookup (mem t) pgdir va = Some e \<Longrightarrow> frame e \<notin> set ys"
  shows "uspace t ys pgdir"
proof -
  have frames: "frames (mem t) pgdir \<subseteq> frames (mem s) pgdir"
    using sub unfolding frames_def by blast
  moreover have "frames (mem t) pgdir \<inter> set ys = {}"
    using ys unfolding frames_def by blast
  moreover have "PGROUNDDOWN va = PGROUNDDOWN vb"
    if "va < KERNBASE" "vb < KERNBASE" "lookup (mem t) pgdir va = Some e" "lookup (mem t) pgdir vb = Some f" "frame e = frame f"
    for va vb e f
    using uspace_inj [OF u that(1,2) sub [OF that(3)] sub [OF that(4)] that(5)] .
  ultimately show ?thesis
    using u inv unfolding uspace_def end_eq tab by blast
qed

section \<open>deallocuvm\<close>

lemma unmap_page:
  assumes u: "uspace s xs pgdir" and a: "a < KERNBASE" "lookup (mem s) pgdir a = Some e"
    and t: "t = (kfreed (frame e) s)\<lparr>mem := wr32 (mem (kfreed (frame e) s)) (pte_addr (mem s) pgdir a) 0\<rparr>"
  shows "kfree (frame e) s = Inr (kfreed (frame e) s)" "uspace t (frame e # xs) pgdir" "mem_step s t"
    "lookup (mem t) pgdir vb = (if PGROUNDDOWN vb = PGROUNDDOWN a then None else lookup (mem s) pgdir vb)"
    "tables (mem t) pgdir = tables (mem s) pgdir"
    "only_in (insert (frame e) (tables (mem s) pgdir)) (mem s) (mem t)"
proof -
  let ?s = "kfreed (frame e) s"
  note f = uspace_frame [OF u a]
  have inv: "vm_inv s xs pgdir"
    using u by (rule uspace_vm_inv)
  then have wf: "pt_wf (mem s) pgdir" and holds: "kmem_holds s xs"
    by (simp_all add: vm_inv_def)
  show "kfree (frame e) s = Inr ?s"
    using kfree_holds(1) [OF holds f(1,3)] .
  have only: "only_in {frame e} (mem s) (mem ?s)"
    using f(4) by (intro only_in_page [of "frame e"]) (auto simp: mem_kfreed)
  then have agree: "agree (ptpages (mem s) pgdir) (mem s) (mem ?s)"
    using f(2) pt_wf_aligned [OF wf] by (intro only_in_agree) auto
  note same = agree_table [OF agree wf]
  have inv': "vm_inv ?s (frame e # xs) pgdir"
    using kfree_holds(2) [OF holds f(1,3)] inv f(2) same(1,2) by (auto simp: vm_inv_def)
  have pde: "present (pde_at (mem s) pgdir (PDX a))"
    using a(2) by (simp add: lookup_def split: if_splits)
  have addr: "pte_addr (mem ?s) pgdir a = pte_addr (mem s) pgdir a"
    by (simp add: pte_addr_def same(5))
  have t': "t = ?s\<lparr>mem := wr32 (mem ?s) (pte_addr (mem ?s) pgdir a) 0\<rparr>"
    by (simp add: t addr)
  have "present (pde_at (mem ?s) pgdir (PDX a))"
    using pde same(4) by simp
  note w = write_entry [OF inv' this t']
  have absent: "\<not> present 0"
    by (simp add: present_def)
  show look: "lookup (mem t) pgdir vb = (if PGROUNDDOWN vb = PGROUNDDOWN a then None else lookup (mem s) pgdir vb)" for vb
    using w(2) absent same(3) by simp
  show tab: "tables (mem t) pgdir = tables (mem s) pgdir"
    using w(3) same(2) by simp
  show step: "mem_step s t"
    by (simp add: t)
  have "only_in (insert (frame e) (tables (mem s) pgdir)) (mem ?s) (mem t)"
    using w(4) same(2) by (auto elim: only_in_mono)
  then show "only_in (insert (frame e) (tables (mem s) pgdir)) (mem s) (mem t)"
    using only by (auto intro: only_in_trans elim: only_in_mono)
  show "uspace t (frame e # xs) pgdir"
  proof (rule uspace_restrict [OF u vm_grow_inv [OF w(1)] mem_stepD(1) [OF step] _ tab])
    show "lookup (mem s) pgdir va = Some f" if "lookup (mem t) pgdir va = Some f" for va f
      using that look by (simp split: if_splits)
    show "frame f \<notin> set (frame e # xs)" if va: "va < KERNBASE" "lookup (mem t) pgdir va = Some f" for va f
    proof -
      have s: "lookup (mem s) pgdir va = Some f" "PGROUNDDOWN va \<noteq> PGROUNDDOWN a"
        using va(2) look by (simp_all split: if_splits)
      then show ?thesis
        using uspace_frame(3) [OF u va(1) s(1)] uspace_inj [OF u va(1) a(1) s(1) a(2)] by auto
    qed
  qed
qed

definition in_range :: "u32 \<Rightarrow> u32 \<Rightarrow> u32 \<Rightarrow> bool" where
  "in_range a b vb \<longleftrightarrow> a \<le> PGROUNDDOWN vb \<and> PGROUNDDOWN vb < b"

definition mapped_frames :: "mem \<Rightarrow> u32 \<Rightarrow> u32 \<Rightarrow> u32 \<Rightarrow> u32 set" where
  "mapped_frames m pgdir a b = {f. \<exists>vb e. in_range a b vb \<and> lookup m pgdir vb = Some e \<and> f = frame e}"

lemma in_range_empty: "b \<le> a \<Longrightarrow> \<not> in_range a b vb"
  by (auto simp: in_range_def)

lemma unat_add_page_low: "a < KERNBASE \<Longrightarrow> unat (a + 4096) = unat a + 4096"
  by (intro unat_add_page [of _ "0xF0000000"]) (simp add: word_less_nat_alt)

lemma aligned_next: "aligned a \<Longrightarrow> aligned (a + 4096)"
  using aligned_add [of a 4096] by (simp add: aligned_def)

lemma page_gap: "aligned a \<Longrightarrow> aligned p \<Longrightarrow> unat a < unat p \<Longrightarrow> unat a + 4096 \<le> unat p"
proof -
  assume a: "aligned a" "aligned p" "unat a < unat p"
  then have "4096 dvd unat p - unat a"
    by (simp add: aligned_iff dvd_eq_mod_eq_0 [symmetric])
  then show ?thesis
    using a(3) by (auto dest: dvd_imp_le)
qed

lemma in_range_split:
  assumes "aligned a" "a < b" "b \<le> KERNBASE"
  shows "in_range a b vb \<longleftrightarrow> PGROUNDDOWN vb = a \<or> in_range (a + 4096) b vb"
proof -
  have "a < KERNBASE"
    using assms(2,3) by simp
  then have next_page: "unat (a + 4096) = unat a + 4096"
    by (rule unat_add_page_low)
  have "a \<le> PGROUNDDOWN vb \<longleftrightarrow> PGROUNDDOWN vb = a \<or> a + 4096 \<le> PGROUNDDOWN vb"
    using page_gap [OF assms(1) aligned_PGROUNDDOWN, of vb] next_page
    by (cases "unat a < unat (PGROUNDDOWN vb)") (auto simp: word_le_nat_alt word_unat_eq_iff)
  then show ?thesis
    using assms(2) by (auto simp: in_range_def)
qed

lemma mapped_frames_split:
  assumes "aligned a" "a < b" "b \<le> KERNBASE"
  shows "mapped_frames m pgdir a b =
    (case lookup m pgdir a of None \<Rightarrow> {} | Some e \<Rightarrow> {frame e}) \<union> mapped_frames m pgdir (a + 4096) b"
proof -
  have page: "PGROUNDDOWN vb = a \<Longrightarrow> lookup m pgdir vb = lookup m pgdir a" for vb
    using lookup_same_page [of vb a] PGROUNDDOWN_aligned [OF assms(1)] by simp
  have "mapped_frames m pgdir a b = {f. \<exists>vb e. PGROUNDDOWN vb = a \<and> lookup m pgdir vb = Some e \<and> f = frame e} \<union>
      mapped_frames m pgdir (a + 4096) b"
  proof (rule set_eqI)
    show "f \<in> mapped_frames m pgdir a b \<longleftrightarrow>
        f \<in> {f. \<exists>vb e. PGROUNDDOWN vb = a \<and> lookup m pgdir vb = Some e \<and> f = frame e} \<union> mapped_frames m pgdir (a + 4096) b" for f
      unfolding mapped_frames_def Un_iff mem_Collect_eq in_range_split [OF assms] by metis
  qed
  also have "{f. \<exists>vb e. PGROUNDDOWN vb = a \<and> lookup m pgdir vb = Some e \<and> f = frame e} =
      {f. \<exists>e. lookup m pgdir a = Some e \<and> f = frame e}"
    using page PGROUNDDOWN_aligned [OF assms(1)] by (metis (lifting))
  also have "\<dots> = (case lookup m pgdir a of None \<Rightarrow> {} | Some e \<Rightarrow> {frame e})"
    by (auto split: option.splits)
  finally show ?thesis .
qed

lemma unat_next_table:
  assumes "a < KERNBASE"
  shows "unat (PGADDR (PDX a + 1) 0 0) = (unat a div 4194304 + 1) * 4194304"
proof -
  have q: "unat a div 4194304 < 512"
    using assms by (simp add: word_less_nat_alt) 
  have "unat (PDX a + 1) = unat a div 4194304 + 1"
    using q by (simp add: unat_word_ariths unat_PDX)
  moreover have "unat (push_bit 22 w) = unat w * 4194304" if "unat w < 1024" for w :: u32
    using that by (simp add: push_bit_eq_mult unat_word_ariths)
  ultimately show ?thesis
    using q by (simp only: PGADDR_def) (simp del: push_bit_add)
qed

lemma next_table:
  assumes "aligned a" "a < b" "b \<le> KERNBASE" "\<not> present (pde_at m pgdir (PDX a))"
  shows "unat a + 4096 \<le> unat (PGADDR (PDX a + 1) 0 0)" "aligned (PGADDR (PDX a + 1) 0 0)"
    "in_range a b vb \<Longrightarrow> \<not> in_range (PGADDR (PDX a + 1) 0 0) b vb \<Longrightarrow> lookup m pgdir vb = None"
    "in_range (PGADDR (PDX a + 1) 0 0) b vb \<Longrightarrow> in_range a b vb"
proof -
  let ?n = "PGADDR (PDX a + 1) 0 0"
  have n: "unat ?n = (unat a div 4194304 + 1) * 4194304"
    using assms(2,3) by (intro unat_next_table) simp
  then show al: "aligned ?n"
    by (simp add: aligned_iff mod_mult_right_eq)
  have "unat a < unat ?n"
    unfolding n using dividend_less_div_times [of 4194304 "unat a"] by (simp add: add_mult_distrib)
  then show "unat a + 4096 \<le> unat ?n"
    using page_gap [OF assms(1) al] by simp
  then show "in_range ?n b vb \<Longrightarrow> in_range a b vb"
    by (auto simp: in_range_def word_le_nat_alt)
  assume "in_range a b vb" "\<not> in_range ?n b vb"
  then have "unat a \<le> unat vb - unat vb mod 4096" "unat vb - unat vb mod 4096 < unat ?n"
    by (auto simp: in_range_def word_le_nat_alt unat_PGROUNDDOWN)
  moreover obtain k where k: "unat ?n = k * 4096"
    using al by (auto simp: aligned_iff dvd_eq_mod_eq_0 [symmetric] mult.commute elim: dvdE)
  ultimately have low: "unat a \<le> unat vb" and "unat vb div 4096 * 4096 < k * 4096"
    by (simp_all add: minus_mod_eq_div_mult)
  then have "unat vb < unat ?n"
    by (simp add: k div_less_iff_less_mult)
  then have "unat vb div 4194304 < unat a div 4194304 + 1"
    unfolding n by (simp add: div_less_iff_less_mult)
  moreover have "unat a div 4194304 \<le> unat vb div 4194304"
    using low by (rule div_le_mono)
  ultimately have "PDX vb = PDX a"
    by (simp add: word_unat_eq_iff unat_PDX)
  then show "lookup m pgdir vb = None"
    using assms(4) by (simp add: lookup_def)
qed

text \<open>The effect of unmapping the range from \<open>a\<close> to \<open>b\<close> and freeing its frames.\<close>

definition shrunk :: "u32 \<Rightarrow> u32 \<Rightarrow> u32 \<Rightarrow> 'a kmem_st_scheme \<Rightarrow> u32 list \<Rightarrow> 'a kmem_st_scheme \<Rightarrow> u32 list \<Rightarrow> bool" where
  "shrunk pgdir a b s xs t ys \<longleftrightarrow> uspace t ys pgdir \<and> mem_step s t \<and>
     lookup (mem t) pgdir = (\<lambda>vb. if in_range a b vb then None else lookup (mem s) pgdir vb) \<and>
     tables (mem t) pgdir = tables (mem s) pgdir \<and> set ys = set xs \<union> mapped_frames (mem s) pgdir a b \<and>
     only_in (tables (mem s) pgdir \<union> mapped_frames (mem s) pgdir a b) (mem s) (mem t)"

lemma mapped_frames_cong:
  "(\<And>vb. in_range a b vb \<Longrightarrow> lookup m' pgdir vb = lookup m pgdir vb) \<Longrightarrow> mapped_frames m' pgdir a b = mapped_frames m pgdir a b"
  unfolding mapped_frames_def by (metis (no_types, lifting))

lemma shrunk_refl: "uspace s xs pgdir \<Longrightarrow> b \<le> a \<Longrightarrow> shrunk pgdir a b s xs s xs"
  by (auto simp: shrunk_def in_range_empty mapped_frames_def)

lemma shrunk_skip:
  assumes "\<And>vb. in_range a b vb \<Longrightarrow> \<not> in_range c b vb \<Longrightarrow> lookup (mem s) pgdir vb = None"
    and "\<And>vb. in_range c b vb \<Longrightarrow> in_range a b vb" and "shrunk pgdir c b s xs t ys"
  shows "shrunk pgdir a b s xs t ys"
proof -
  have "mapped_frames (mem s) pgdir a b = mapped_frames (mem s) pgdir c b"
    unfolding mapped_frames_def using assms(1,2) by (metis (no_types, lifting) option.distinct(1))
  moreover have "(\<lambda>vb. if in_range a b vb then None else lookup (mem s) pgdir vb) =
      (\<lambda>vb. if in_range c b vb then None else lookup (mem s) pgdir vb)"
    using assms(1,2) by (intro HOL.ext) auto
  ultimately show ?thesis
    using assms(3) by (simp add: shrunk_def)
qed

lemma shrunk_page:
  assumes u: "uspace s xs pgdir" and a: "aligned a" "a < b" "b \<le> KERNBASE" and e: "lookup (mem s) pgdir a = Some e"
    and t: "t = (kfreed (frame e) s)\<lparr>mem := wr32 (mem (kfreed (frame e) s)) (pte_addr (mem s) pgdir a) 0\<rparr>"
    and rest: "shrunk pgdir (a + 4096) b t (frame e # xs) v ys"
  shows "shrunk pgdir a b s xs v ys"
proof -
  have low: "a < KERNBASE"
    using a(2,3) by simp
  note p = unmap_page [OF u low e t]
  have pg: "PGROUNDDOWN a = a"
    using a(1) by (rule PGROUNDDOWN_aligned)
  have "\<not> in_range (a + 4096) b vb" if "PGROUNDDOWN vb = a" for vb
    using that unat_add_page_low [OF low] by (auto simp: in_range_def word_le_nat_alt)
  then have "mapped_frames (mem t) pgdir (a + 4096) b = mapped_frames (mem s) pgdir (a + 4096) b"
    using p(4) pg by (intro mapped_frames_cong) auto
  then have gone: "mapped_frames (mem s) pgdir a b = insert (frame e) (mapped_frames (mem t) pgdir (a + 4096) b)"
    using mapped_frames_split [OF a, of "mem s" pgdir] e by simp
  have "lookup (mem v) pgdir = (\<lambda>vb. if in_range a b vb then None else lookup (mem s) pgdir vb)"
    using rest p(4) pg in_range_split [OF a] by (intro HOL.ext) (simp add: shrunk_def)
  moreover have "set ys = set xs \<union> mapped_frames (mem s) pgdir a b"
    using rest gone by (auto simp: shrunk_def)
  moreover have "only_in (tables (mem s) pgdir \<union> mapped_frames (mem s) pgdir a b) (mem s) (mem v)"
    using rest p(5,6) gone unfolding shrunk_def by (auto intro: only_in_trans elim!: only_in_mono)
  moreover have "mem_step s v"
    using rest p(3) by (auto simp: shrunk_def intro: mem_step_trans)
  ultimately show ?thesis
    using rest p(5) by (simp add: shrunk_def)
qed

lemma deallocuvm_loop_ok:
  assumes "uspace s xs pgdir" "aligned a" "b \<le> KERNBASE" "unat b \<le> unat a + 4096 * n"
  shows "\<exists>t ys. deallocuvm_loop (Suc n) pgdir b a s = Inr t \<and> shrunk pgdir a b s xs t ys"
  using assms
proof (induction n arbitrary: s xs a)
  case 0
  then have "b \<le> a"
    by (simp add: word_le_nat_alt)
  from shrunk_refl [OF 0(1) this] this show ?case
    by (auto simp: not_less)
next
  case (Suc n)
  show ?case
  proof (cases "a < b")
    case False
    then have "b \<le> a"
      by (simp add: not_less)
    from shrunk_refl [OF Suc.prems(1) this] False show ?thesis
      by auto
  next
    case True
    have low: "a < KERNBASE"
      using True Suc.prems(3) by simp
    have next_page: "unat b \<le> unat (a + 4096) + 4096 * n"
      using Suc.prems(4) unat_add_page_low [OF low] by simp
    note IH = Suc.IH [OF _ aligned_next [OF Suc.prems(2)] Suc.prems(3) next_page]
    note walk = walkpgdir_find [of pgdir a s]
    show ?thesis
    proof (cases "present (pde_at (mem s) pgdir (PDX a))")
      case False
      note jump = next_table [OF Suc.prems(2) True Suc.prems(3) False]
      have "unat b \<le> unat (PGADDR (PDX a + 1) 0 0) + 4096 * n"
        using jump(1) Suc.prems(4) by simp
      then obtain t ys where t: "deallocuvm_loop (Suc n) pgdir b (PGADDR (PDX a + 1) 0 0) s = Inr t"
          "shrunk pgdir (PGADDR (PDX a + 1) 0 0) b s xs t ys"
        using Suc.IH [OF Suc.prems(1) jump(2) Suc.prems(3)] by blast
      then show ?thesis
        using True False walk shrunk_skip [OF jump(3,4) t(2)] by auto
    next
      case pde: True
      have nonzero: "pte_addr (mem s) pgdir a \<noteq> 0"
        using uspace_vm_inv [OF Suc.prems(1)] pde by (rule pte_addr_nonzero)
      show ?thesis
      proof (cases "lookup (mem s) pgdir a")
        case None
        obtain t ys where t: "deallocuvm_loop (Suc n) pgdir b (a + 4096) s = Inr t" "shrunk pgdir (a + 4096) b s xs t ys"
          using IH [OF Suc.prems(1)] by blast
        have "lookup (mem s) pgdir vb = None" if "in_range a b vb" "\<not> in_range (a + 4096) b vb" for vb
          using that in_range_split [OF Suc.prems(2) True Suc.prems(3)] lookup_same_page [of vb a] None
            PGROUNDDOWN_aligned [OF Suc.prems(2)] by simp
        then have "shrunk pgdir a b s xs t ys"
          using t(2) in_range_split [OF Suc.prems(2) True Suc.prems(3)] by (intro shrunk_skip [of a b "a + 4096"]) auto
        moreover have "\<not> present (rd32 (mem s) (pte_addr (mem s) pgdir a))"
          using None pde by (simp add: lookup_def split: if_splits)
        ultimately show ?thesis
          using True pde walk nonzero t(1) by (auto simp: present_def)
      next
        case (Some e)
        let ?t = "(kfreed (frame e) s)\<lparr>mem := wr32 (mem (kfreed (frame e) s)) (pte_addr (mem s) pgdir a) 0\<rparr>"
        note p = unmap_page [OF Suc.prems(1) low Some refl]
        have e: "rd32 (mem s) (pte_addr (mem s) pgdir a) = e" "present e"
          using Some by (auto simp: lookup_def split: if_splits)
        obtain v ys where v: "deallocuvm_loop (Suc n) pgdir b (a + 4096) ?t = Inr v"
            "shrunk pgdir (a + 4096) b ?t (frame e # xs) v ys"
          using IH [OF p(2)] by blast
        then have "deallocuvm_loop (Suc (Suc n)) pgdir b a s = Inr v"
          using True pde walk nonzero e p(1) uspace_frame(5) [OF Suc.prems(1) low Some]
          by (simp add: present_def Let_def frame_def)
        then show ?thesis
          using shrunk_page [OF Suc.prems(1,2) True Suc.prems(3) Some refl v(2)] by blast
      qed
    qed
  qed
qed

lemma deallocuvm_ok:
  assumes "uspace s xs pgdir" "oldsz \<le> KERNBASE" "newsz < oldsz"
  shows "\<exists>t ys. deallocuvm pgdir oldsz newsz s = Inr (newsz, t) \<and> shrunk pgdir (PGROUNDUP newsz) oldsz s xs t ys"
proof -
  have "aligned (PGROUNDUP newsz)"
    using aligned_PGROUNDDOWN by (simp add: PGROUNDUP_def PGROUNDDOWN_def)
  moreover have "unat oldsz \<le> unat (PGROUNDUP newsz) + 4096 * 1048576"
    using unat_less32 [of oldsz] by simp
  ultimately obtain t ys where "deallocuvm_loop (Suc 1048576) pgdir oldsz (PGROUNDUP newsz) s = Inr t"
      "shrunk pgdir (PGROUNDUP newsz) oldsz s xs t ys"
    using deallocuvm_loop_ok [OF assms(1) _ assms(2)] by blast
  then show ?thesis
    using assms(3) by (auto simp: deallocuvm_def simp del: deallocuvm_loop.simps)
qed

section \<open>Mapping a fresh frame\<close>

lemma or_less_page: "f < 4096 \<Longrightarrow> g < 4096 \<Longrightarrow> f OR g < 4096" for f g :: u32
proof -
  assume "f < 4096" "g < 4096"
  then have "take_bit 12 f = f" "take_bit 12 g = g"
    by (simp_all add: word_unat_eq_iff unsigned_take_bit_eq word_less_nat_alt take_bit_nat_eq_self)
  then have "f OR g = take_bit 12 (f OR g)"
    by (simp add: take_bit_or)
  also have "\<dots> < 4096"
  proof -
    have "unat (take_bit 12 (f OR g)) < 2 ^ 12"
      unfolding unsigned_take_bit_eq by (rule take_bit_nat_less_exp)
    then show ?thesis
      by (simp add: word_less_nat_alt)
  qed
  finally show ?thesis .
qed

lemma fresh_entry:
  assumes "aligned v" "perm < 4096"
  shows "frame (V2P v OR perm OR 1) = v" "PTE_FLAGS (V2P v OR perm OR 1) = perm OR 1"
  using pte_parts [of "V2P v" "perm OR 1"] assms or_less_page [of perm 1] by (simp_all add: frame_def or.assoc)

lemma kalloc_fill:
  assumes u: "uspace s (v # ys) pgdir" and m: "only_in {v} (mem s) m"
  shows "kalloc s = Inr (v, kalloced s)" "v \<noteq> 0" "page_ok (km_end (kmem s)) v" "aligned v"
    "v \<notin> ptpages (mem s) pgdir" "v \<notin> set ys" "v \<notin> frames (mem s) pgdir"
    "uspace ((kalloced s)\<lparr>mem := m\<rparr>) ys pgdir" "lookup m pgdir = lookup (mem s) pgdir"
    "tables m pgdir = tables (mem s) pgdir"
proof -
  have inv: "vm_inv s (v # ys) pgdir" and holds: "kmem_holds s (v # ys)"
    using u by (simp_all add: uspace_def vm_inv_def)
  show "kalloc s = Inr (v, kalloced s)"
    using kalloc_holds(2) [OF holds] by simp
  show v: "page_ok (km_end (kmem s)) v" "aligned v" "v \<notin> ptpages (mem s) pgdir" "v \<notin> set ys" "v \<notin> frames (mem s) pgdir"
    and "v \<noteq> 0"
    using u holds by (auto simp: uspace_def vm_inv_def kmem_holds_def page_ok_nonzero dest: page_ok_aligned)
  have wf: "pt_wf (mem s) pgdir"
    using inv by (simp add: vm_inv_def)
  have "agree (ptpages (mem s) pgdir) (mem s) m"
    using v(3) pt_wf_aligned [OF wf] by (intro only_in_agree [OF m]) auto
  note same = agree_table [OF this wf]
  show look: "lookup m pgdir = lookup (mem s) pgdir" and tab: "tables m pgdir = tables (mem s) pgdir"
    using same(3,2) by simp_all
  have "kmem_holds ((kalloced s)\<lparr>mem := m\<rparr>) ys"
    using kalloc_holds(2) [OF holds] m v(4) by (intro kmem_holds_only_in [of _ _ "{v}"]) auto
  then have "vm_inv ((kalloced s)\<lparr>mem := m\<rparr>) ys pgdir"
    using inv same(1) tab by (auto simp: vm_inv_def)
  then show "uspace ((kalloced s)\<lparr>mem := m\<rparr>) ys pgdir"
    using u uspace_frame(3) [OF u] by (intro uspace_restrict [OF u]) (auto simp: look tab)
qed

lemma map_fresh:
  assumes u: "uspace s ys pgdir" and v: "page_ok (km_end (kmem s)) v" "v \<notin> ptpages (mem s) pgdir" "v \<notin> set ys"
      "v \<notin> frames (mem s) pgdir"
    and a: "aligned a" "a < KERNBASE" "lookup (mem s) pgdir a = None" and perm: "perm < 4096"
  shows "\<exists>r t zs. mappages pgdir a 4096 (V2P v) perm s = Inr (r, t) \<and>
    (r = 0 \<and> uspace t zs pgdir \<and> vm_grow pgdir s ys t zs \<and> v \<notin> ptpages (mem t) pgdir \<and>
       lookup (mem t) pgdir = (\<lambda>vb. if PGROUNDDOWN vb = a then Some (V2P v OR perm OR 1) else lookup (mem s) pgdir vb) \<or>
     r = -1 \<and> ys = [] \<and> t = s)"
proof -
  obtain r t zs where map: "mappages pgdir a 4096 (V2P v) perm s = Inr (r, t)" and grown: "vm_grow pgdir s ys t zs"
    and res: "r = 0 \<and> lookup (mem t) pgdir = (\<lambda>vb. if PGROUNDDOWN vb = a then Some (V2P v OR perm OR 1) else lookup (mem s) pgdir vb) \<or>
      r = -1 \<and> zs = [] \<and> t = s"
    using mappages_page [OF uspace_vm_inv [OF u] a(1,3)] by blast
  show ?thesis
  proof (cases "r = 0")
    case False
    then have "t = s" "zs = []" "r = -1"
      using res by auto
    moreover from this have "ys = []"
      using grown uspace_vm_inv [OF u] by (cases ys) (auto simp: vm_grow_def vm_inv_def kmem_holds_def)
    ultimately show ?thesis
      using map by auto
  next
    case True
    then have look: "lookup (mem t) pgdir = (\<lambda>vb. if PGROUNDDOWN vb = a then Some (V2P v OR perm OR 1) else lookup (mem s) pgdir vb)"
      using res by auto
    have "aligned v"
      using v(1) by (rule page_ok_aligned)
    note e = fresh_entry [OF this perm]
    have inv: "vm_inv t zs pgdir" and step: "mem_step s t" and sub: "set zs \<subseteq> set ys"
      and tab: "tables (mem t) pgdir = tables (mem s) pgdir \<union> (set ys - set zs)"
      using grown by (auto simp: vm_grow_def)
    have pg: "PGROUNDDOWN a = a"
      using a(1) by (rule PGROUNDDOWN_aligned)
    have frames: "frames (mem t) pgdir \<subseteq> insert v (frames (mem s) pgdir)"
      unfolding frames_def look using e(1) by (auto split: if_splits)
    have "PGROUNDDOWN va = PGROUNDDOWN vb"
      if ab: "va < KERNBASE" "vb < KERNBASE" "lookup (mem t) pgdir va = Some f" "lookup (mem t) pgdir vb = Some g" "frame f = frame g"
      for va vb f g
      using ab e(1) v(4) uspace_inj [OF u ab(1,2)] framesI [OF ab(1), of "mem s" pgdir] framesI [OF ab(2), of "mem s" pgdir]
      unfolding look by (auto split: if_splits)
    moreover have "frames (mem t) pgdir \<inter> ptpages (mem t) pgdir = {}" "frames (mem t) pgdir \<inter> set zs = {}"
        "v \<notin> ptpages (mem t) pgdir"
    proof -
      have "frames (mem s) pgdir \<inter> ptpages (mem s) pgdir = {}" "frames (mem s) pgdir \<inter> set ys = {}"
        using u by (simp_all add: uspace_def)
      then show "frames (mem t) pgdir \<inter> ptpages (mem t) pgdir = {}" "frames (mem t) pgdir \<inter> set zs = {}"
          "v \<notin> ptpages (mem t) pgdir"
        using frames v tab sub by blast+
    qed
    moreover have "\<forall>f \<in> frames (mem t) pgdir. page_ok (km_end (kmem t)) f"
      using frames u v(1) mem_stepD(1) [OF step] unfolding uspace_def by auto
    ultimately have "uspace t zs pgdir"
      using inv unfolding uspace_def by blast
    then show ?thesis
      using map True look grown \<open>v \<notin> ptpages (mem t) pgdir\<close> by blast
  qed
qed

end
