(* ===== verification/Vm_Grow.thy ===== *)
theory Vm_Grow
  imports Vm_User
begin

text \<open>
  Growing an address space: allocuvm either maps zeroed fresh frames for every page of the range or undoes
  what it did, and loses no page either way.
\<close>

lemma kfree_fresh:
  assumes u: "uspace s xs pgdir" and v: "page_ok (km_end (kmem s)) v" "v \<notin> ptpages (mem s) pgdir" "v \<notin> set xs"
    "v \<notin> frames (mem s) pgdir"
  shows "kfree v s = Inr (kfreed v s)" "uspace (kfreed v s) (v # xs) pgdir" "lookup (mem (kfreed v s)) pgdir = lookup (mem s) pgdir"
    "tables (mem (kfreed v s)) pgdir = tables (mem s) pgdir" "only_in {v} (mem s) (mem (kfreed v s))"
proof -
  have inv: "vm_inv s xs pgdir" and holds: "kmem_holds s xs" and wf: "pt_wf (mem s) pgdir"
    using u by (simp_all add: uspace_def vm_inv_def)
  show "kfree v s = Inr (kfreed v s)"
    using kfree_holds(1) [OF holds v(1,3)] .
  show only: "only_in {v} (mem s) (mem (kfreed v s))"
    using page_ok_aligned [OF v(1)] by (intro only_in_page [of v]) (auto simp: mem_kfreed)
  then have "agree (ptpages (mem s) pgdir) (mem s) (mem (kfreed v s))"
    using v(2) pt_wf_aligned [OF wf] by (intro only_in_agree) auto
  note same = agree_table [OF this wf]
  show look: "lookup (mem (kfreed v s)) pgdir = lookup (mem s) pgdir"
    and tab: "tables (mem (kfreed v s)) pgdir = tables (mem s) pgdir"
    using same(3,2) by simp_all
  have "vm_inv (kfreed v s) (v # xs) pgdir"
    using kfree_holds(2) [OF holds v(1,3)] inv v(2) same(1) tab by (auto simp: vm_inv_def)
  then show "uspace (kfreed v s) (v # xs) pgdir"
    using uspace_frame(3) [OF u] v(4) framesI [of _ "mem s" pgdir]
    by (intro uspace_restrict [OF u]) (auto simp: look tab)
qed

section \<open>The loop of allocuvm\<close>

definition grown :: "u32 \<Rightarrow> u32 \<Rightarrow> u32 \<Rightarrow> 'a kmem_st_scheme \<Rightarrow> u32 list \<Rightarrow> 'a kmem_st_scheme \<Rightarrow> u32 list \<Rightarrow> bool" where
  "grown pgdir a b s xs t ys \<longleftrightarrow> uspace t ys pgdir \<and> mem_step s t \<and> set ys \<subseteq> set xs \<and>
     (\<forall>vb. \<not> in_range a b vb \<longrightarrow> lookup (mem t) pgdir vb = lookup (mem s) pgdir vb) \<and>
     (\<forall>vb. in_range a b vb \<longrightarrow> (\<exists>e. lookup (mem t) pgdir vb = Some e \<and> PTE_FLAGS e = PTE_P OR PTE_W OR PTE_U \<and>
        frame e \<in> set xs \<and> (\<forall>y. in_page (frame e) y \<longrightarrow> mem t y = 0))) \<and>
     only_in (ptpages (mem s) pgdir \<union> set xs) (mem s) (mem t) \<and>
     set ys \<union> tables (mem t) pgdir \<union> mapped_frames (mem t) pgdir a b = set xs \<union> tables (mem s) pgdir"

lemma in_page_frame_agree: "only_in P m m' \<Longrightarrow> aligned f \<Longrightarrow> f \<notin> P \<Longrightarrow> in_page f y \<Longrightarrow> m' y = m y"
  by (auto simp: only_in_def dest: agreeD)

lemma in_range_extend:
  assumes "aligned a" "a0 \<le> a" "a < KERNBASE"
  shows "in_range a0 (a + 4096) vb \<longleftrightarrow> in_range a0 a vb \<or> PGROUNDDOWN vb = a"
proof -
  have "PGROUNDDOWN vb < a + 4096 \<longleftrightarrow> PGROUNDDOWN vb < a \<or> PGROUNDDOWN vb = a"
    using page_gap [OF assms(1) aligned_PGROUNDDOWN, of vb] unat_add_page_low [OF assms(3)]
    by (cases "unat a < unat (PGROUNDDOWN vb)") (auto simp: word_less_nat_alt word_unat_eq_iff)
  then show ?thesis
    using assms(2) by (auto simp: in_range_def)
qed

lemma in_range_low: "in_range a b vb \<Longrightarrow> b \<le> KERNBASE \<Longrightarrow> vb < KERNBASE"
proof -
  assume "in_range a b vb" "b \<le> KERNBASE"
  then have "unat (PGROUNDDOWN vb) < 2147483648"
    by (auto simp: in_range_def word_less_nat_alt word_le_nat_alt)
  then have "unat vb div 4096 * 4096 < 524288 * 4096"
    by (simp add: unat_PGROUNDDOWN minus_mod_eq_div_mult)
  then have "unat vb < 2147483648"
    by (simp add: div_less_iff_less_mult)
  then show ?thesis
    by (simp add: word_less_nat_alt)
qed

lemma mapped_frames_extend:
  assumes a: "aligned a" "a0 \<le> a" "a < KERNBASE" and e: "frame e = v"
    and look: "f = (\<lambda>vb. if PGROUNDDOWN vb = a then Some e else g vb)" "lookup m' pgdir = f" "lookup m pgdir = g"
  shows "mapped_frames m' pgdir a0 (a + 4096) = insert v (mapped_frames m pgdir a0 a)"
proof (rule set_eqI)
  fix w
  have a_page: "PGROUNDDOWN a = a"
    using a(1) by (rule PGROUNDDOWN_aligned)
  have "\<not> in_range a0 a vb" if "PGROUNDDOWN vb = a" for vb
    using that by (simp add: in_range_def)
  then show "w \<in> mapped_frames m' pgdir a0 (a + 4096) \<longleftrightarrow> w \<in> insert v (mapped_frames m pgdir a0 a)"
    unfolding mapped_frames_def mem_Collect_eq insert_iff in_range_extend [OF a] look
    using a_page e by (metis option.inject)
qed

lemma grown_page:
  assumes g: "grown pgdir a0 a s0 xs0 s (v # ys)" and a: "aligned a" "a0 \<le> a" "a < KERNBASE"
    and m: "m = memset (mem s) v 0 4096" and u: "u = (kalloced s)\<lparr>mem := m\<rparr>"
    and t: "uspace t zs pgdir" "vm_grow pgdir u ys t zs" "v \<notin> ptpages (mem t) pgdir"
      "lookup (mem t) pgdir = (\<lambda>vb. if PGROUNDDOWN vb = a then Some (V2P v OR (2 OR 4) OR 1) else lookup (mem u) pgdir vb)"
  shows "grown pgdir a0 (a + 4096) s0 xs0 t zs"
proof -
  have us: "uspace s (v # ys) pgdir" and sub: "insert v (set ys) \<subseteq> set xs0"
    and pool: "insert v (set ys) \<union> tables (mem s) pgdir \<union> mapped_frames (mem s) pgdir a0 a = set xs0 \<union> tables (mem s0) pgdir"
    using g by (auto simp: grown_def)
  have al: "aligned v"
    using us by (auto simp: uspace_def vm_inv_def kmem_holds_def dest: page_ok_aligned)
  have only_m: "only_in {v} (mem s) m"
    using al by (intro only_in_page [of v]) (auto simp: m memset_page)
  note fill = kalloc_fill [OF us only_m]
  have e: "frame (V2P v OR (2 OR 4) OR 1) = v" "PTE_FLAGS (V2P v OR (2 OR 4) OR 1) = 1 OR 2 OR 4"
    using fresh_entry [OF al, of "2 OR 4"] by simp_all
  have tab: "tables (mem t) pgdir = tables (mem s) pgdir \<union> (set ys - set zs)" "set zs \<subseteq> set ys"
    and only_t: "only_in (ptpages (mem s) pgdir \<union> set ys) m (mem t)" and step: "mem_step u t"
    using t(2) fill(10) by (auto simp: vm_grow_def u)
  have "mem_step s u"
    by (simp add: u)
  with step have step: "mem_step s t"
    by (rule mem_step_trans [rotated])
  have look: "lookup (mem t) pgdir = (\<lambda>vb. if PGROUNDDOWN vb = a then Some (V2P v OR (2 OR 4) OR 1) else lookup (mem s) pgdir vb)"
  proof -
    have "lookup (mem u) pgdir = lookup (mem s) pgdir"
      using fill(9) by (simp add: u)
    then show ?thesis
      using t(4) by (simp only:)
  qed
  have frames: "mapped_frames (mem t) pgdir a0 (a + 4096) = insert v (mapped_frames (mem s) pgdir a0 a)"
    using a e(1) refl look refl by (rule mapped_frames_extend)
  have keep: "mem t y = m y" if "aligned f" "f \<notin> ptpages (mem s) pgdir" "f \<notin> set ys" "in_page f y" for f y
    using in_page_frame_agree [OF only_t that(1) _ that(4)] that(2,3) by simp
  have new: "\<exists>e. lookup (mem t) pgdir vb = Some e \<and> PTE_FLAGS e = 1 OR 2 OR 4 \<and>
      frame e \<in> set xs0 \<and> (\<forall>y. in_page (frame e) y \<longrightarrow> mem t y = 0)" if range: "in_range a0 (a + 4096) vb" for vb
  proof (cases "PGROUNDDOWN vb = a")
    case True
    then show ?thesis
      using look e sub keep [OF al fill(5,6)] by (auto simp: m memset_page)
  next
    case False
    then have in_old: "in_range a0 a vb"
      using range in_range_extend [OF a] by simp
    then obtain f where f: "lookup (mem s) pgdir vb = Some f" "PTE_FLAGS f = 1 OR 2 OR 4" "frame f \<in> set xs0"
        "\<And>y. in_page (frame f) y \<Longrightarrow> mem s y = 0"
      using g by (auto simp: grown_def)
    have "vb < KERNBASE"
      using in_range_low [OF in_old] a(3) by simp
    note ok = uspace_frame [OF us this f(1)]
    have "mem t y = 0" if "in_page (frame f) y" for y
      using keep [OF ok(4,2) _ that] in_page_frame_agree [OF only_m ok(4) _ that] ok(3) f(4) [OF that] by simp
    then show ?thesis
      using look False f by simp
  qed
  have "\<not> in_range a0 (a + 4096) vb \<Longrightarrow> lookup (mem t) pgdir vb = lookup (mem s0) pgdir vb" for vb
    using g look in_range_extend [OF a] by (auto simp: grown_def)
  moreover have "only_in (ptpages (mem s0) pgdir \<union> set xs0) (mem s0) (mem t)"
  proof (rule only_in_trans, rule only_in_trans)
    show "only_in (ptpages (mem s0) pgdir \<union> set xs0) (mem s0) (mem s)"
      using g by (simp add: grown_def)
    show "only_in (ptpages (mem s0) pgdir \<union> set xs0) (mem s) m"
      using only_m by (rule only_in_mono) (use sub in auto)
    show "only_in (ptpages (mem s0) pgdir \<union> set xs0) m (mem t)"
      using only_t by (rule only_in_mono) (use sub pool in auto)
  qed
  moreover have "set zs \<union> tables (mem t) pgdir \<union> mapped_frames (mem t) pgdir a0 (a + 4096) = set xs0 \<union> tables (mem s0) pgdir"
    unfolding frames pool [symmetric] using tab by auto
  moreover have "mem_step s0 t"
    using g step by (auto simp: grown_def intro: mem_step_trans)
  ultimately show ?thesis
    using t(1) new tab(2) sub by (auto simp: grown_def)
qed

definition undone :: "u32 \<Rightarrow> 'a kmem_st_scheme \<Rightarrow> u32 list \<Rightarrow> 'a kmem_st_scheme \<Rightarrow> u32 list \<Rightarrow> bool" where
  "undone pgdir s xs t ys \<longleftrightarrow> uspace t ys pgdir \<and> mem_step s t \<and> lookup (mem t) pgdir = lookup (mem s) pgdir \<and>
     only_in (ptpages (mem s) pgdir \<union> set xs) (mem s) (mem t) \<and>
     set ys \<union> tables (mem t) pgdir = set xs \<union> tables (mem s) pgdir"

lemma grown_mapped:
  assumes g: "grown pgdir a0 a s0 xs0 s xs" and ab: "a \<le> b"
    and none: "\<And>vb. in_range a0 b vb \<Longrightarrow> lookup (mem s0) pgdir vb = None"
  shows "mapped_frames (mem s) pgdir a0 b = mapped_frames (mem s) pgdir a0 a"
    "(\<lambda>vb. if in_range a0 b vb then None else lookup (mem s) pgdir vb) = lookup (mem s0) pgdir"
proof -
  have sub: "in_range a0 a vb \<Longrightarrow> in_range a0 b vb" for vb
    using ab by (auto simp: in_range_def)
  have out: "\<not> in_range a0 a vb \<Longrightarrow> lookup (mem s) pgdir vb = lookup (mem s0) pgdir vb" for vb
    using g by (simp add: grown_def)
  have "in_range a0 b vb \<Longrightarrow> lookup (mem s) pgdir vb = Some e \<Longrightarrow> in_range a0 a vb" for vb e
    using none [of vb] out [of vb] by (cases "in_range a0 a vb") simp_all
  then show "mapped_frames (mem s) pgdir a0 b = mapped_frames (mem s) pgdir a0 a"
    unfolding mapped_frames_def using sub by blast
  show "(\<lambda>vb. if in_range a0 b vb then None else lookup (mem s) pgdir vb) = lookup (mem s0) pgdir"
    using none out sub by (intro HOL.ext) auto
qed

lemma grown_undo:
  assumes g: "grown pgdir a0 a s0 xs0 s xs" and ab: "a \<le> b"
    and none: "\<And>vb. in_range a0 b vb \<Longrightarrow> lookup (mem s0) pgdir vb = None"
    and t: "shrunk pgdir a0 b s xs t ys"
  shows "undone pgdir s0 xs0 t ys"
proof -
  note m = grown_mapped [OF g ab none]
  have pool: "set xs \<union> tables (mem s) pgdir \<union> mapped_frames (mem s) pgdir a0 a = set xs0 \<union> tables (mem s0) pgdir"
    using g by (simp add: grown_def)
  have "only_in (ptpages (mem s0) pgdir \<union> set xs0) (mem s) (mem t)"
    using t pool m(1) by (auto simp: shrunk_def elim!: only_in_mono)
  then have "only_in (ptpages (mem s0) pgdir \<union> set xs0) (mem s0) (mem t)"
    using g by (auto simp: grown_def intro: only_in_trans)
  moreover have "lookup (mem t) pgdir = lookup (mem s0) pgdir"
    using t m(2) by (simp add: shrunk_def)
  moreover have "mem_step s0 t"
    using t g by (auto simp: shrunk_def grown_def intro: mem_step_trans)
  ultimately show ?thesis
    using t pool m(1) by (auto simp: shrunk_def undone_def)
qed

text \<open>The same when the loop already holds one more page, which it gives back last.\<close>

lemma grown_undo_held:
  assumes g: "grown pgdir a0 a s0 xs0 s (v # ys)" and ab: "a \<le> b" "b \<le> KERNBASE"
    and none: "\<And>vb. in_range a0 b vb \<Longrightarrow> lookup (mem s0) pgdir vb = None"
    and m: "only_in {v} (mem s) m" and u: "u = (kalloced s)\<lparr>mem := m\<rparr>" and t: "shrunk pgdir a0 b u ys t zs"
  shows "kfree v t = Inr (kfreed v t)" "undone pgdir s0 xs0 (kfreed v t) (v # zs)"
proof -
  have us: "uspace s (v # ys) pgdir"
    using g by (simp add: grown_def)
  note fill = kalloc_fill [OF us m]
  note mapped = grown_mapped [OF g ab(1) none]
  have mu: "mem u = m" "mem_step s u" "km_end (kmem u) = km_end (kmem s)"
    by (simp_all add: u)
  have gone: "mapped_frames (mem u) pgdir a0 b = mapped_frames (mem s) pgdir a0 a"
    using mapped(1) fill(9) mapped_frames_cong [of a0 b "mem u" pgdir "mem s"] by (simp add: u)
  have pool: "insert v (set ys) \<union> tables (mem s) pgdir \<union> mapped_frames (mem s) pgdir a0 a = set xs0 \<union> tables (mem s0) pgdir"
    and sub: "insert v (set ys) \<subseteq> set xs0"
    using g by (simp_all add: grown_def)
  have tab: "tables (mem t) pgdir = tables (mem s) pgdir" and zs: "set zs = set ys \<union> mapped_frames (mem s) pgdir a0 a"
    and look: "lookup (mem t) pgdir = lookup (mem s0) pgdir" and ut: "uspace t zs pgdir" and step: "mem_step u t"
    and only: "only_in (tables (mem s) pgdir \<union> mapped_frames (mem s) pgdir a0 a) m (mem t)"
    using t mapped(2) unfolding shrunk_def mu(1) gone [unfolded mu(1)] fill(9,10) by simp_all
  have "mapped_frames (mem s) pgdir a0 b \<subseteq> frames (mem s) pgdir"
    using in_range_low [OF _ ab(2)] unfolding mapped_frames_def frames_def by blast
  then have in_frames: "mapped_frames (mem s) pgdir a0 a \<subseteq> frames (mem s) pgdir"
    by (simp only: mapped(1))
  have "lookup (mem t) pgdir va = Some e \<Longrightarrow> lookup (mem s) pgdir va = Some e" for va e
    using fun_cong [OF mapped(2), of va] look by (simp split: if_splits)
  then have "frames (mem t) pgdir \<subseteq> frames (mem s) pgdir"
    unfolding frames_def by blast
  then have "v \<notin> frames (mem t) pgdir" "v \<notin> set zs" "v \<notin> ptpages (mem t) pgdir"
    using fill(5,6,7) zs in_frames tab by auto
  moreover have "page_ok (km_end (kmem t)) v"
    using fill(3) mu(3) mem_stepD(1) [OF step] by simp
  ultimately have v: "page_ok (km_end (kmem t)) v" "v \<notin> ptpages (mem t) pgdir" "v \<notin> set zs" "v \<notin> frames (mem t) pgdir"
    by simp_all
  note freed = kfree_fresh [OF ut v]
  show "kfree v t = Inr (kfreed v t)"
    by (rule freed(1))
  let ?P = "ptpages (mem s0) pgdir \<union> set xs0"
  have "only_in ?P (mem s0) (mem s)" "only_in ?P (mem s) m" "only_in ?P m (mem t)" "only_in ?P (mem t) (mem (kfreed v t))"
    using g m only freed(5) sub pool by (auto simp: grown_def elim!: only_in_mono)
  then have "only_in ?P (mem s0) (mem (kfreed v t))"
    by (blast intro: only_in_trans)
  moreover have "mem_step s0 (kfreed v t)"
    using g step mu(2) by (auto simp: grown_def intro: mem_step_trans)
  ultimately show "undone pgdir s0 xs0 (kfreed v t) (v # zs)"
    using freed(2-4) look tab zs pool by (auto simp: undone_def)
qed

lemma grown_cong:
  "(\<And>vb. in_range a b vb = in_range a c vb) \<Longrightarrow> grown pgdir a b s xs t ys = grown pgdir a c s xs t ys"
  by (simp add: grown_def mapped_frames_def)

lemma in_range_round:
  assumes "aligned a" "b \<le> a" "unat a < unat b + 4096"
  shows "in_range a0 a vb = in_range a0 b vb"
proof -
  have "PGROUNDDOWN vb < a \<longleftrightarrow> PGROUNDDOWN vb < b"
    using page_gap [OF aligned_PGROUNDDOWN assms(1), of vb] assms(2,3)
    by (cases "unat (PGROUNDDOWN vb) < unat a") (auto simp: word_less_nat_alt word_le_nat_alt)
  then show ?thesis
    by (simp add: in_range_def)
qed

lemma allocuvm_loop_ok:
  assumes "grown pgdir a0 a s0 xs0 s xs" "aligned a" "a0 \<le> a" "unat a < unat b + 4096" "unat b \<le> unat a + 4096 * n"
    and a0: "a0 = PGROUNDUP oldsz" "oldsz \<le> a0" and b: "b < KERNBASE"
    and none: "\<And>vb. in_range a0 b vb \<Longrightarrow> lookup (mem s0) pgdir vb = None"
  shows "\<exists>r t ys. allocuvm_loop (Suc n) pgdir oldsz b a s = Inr (r, t) \<and>
    (r = b \<and> grown pgdir a0 b s0 xs0 t ys \<or> r = 0 \<and> undone pgdir s0 xs0 t ys)"
  using assms(1-5)
proof (induction n arbitrary: a s xs)
  case 0
  then have "\<not> a < b" "b \<le> a"
    by (simp_all add: word_less_nat_alt word_le_nat_alt)
  with 0 show ?case
    using grown_cong [OF in_range_round, of a b] by fastforce
next
  case (Suc n)
  show ?case
  proof (cases "a < b")
    case False
    then show ?thesis
      using Suc.prems grown_cong [OF in_range_round, of a b] by fastforce
  next
    case True
    have low: "a < KERNBASE" and ab: "a \<le> b" "b \<le> KERNBASE" and less: "oldsz < b"
      using True b a0(2) Suc.prems(3) by simp_all
    have us: "uspace s xs pgdir"
      using Suc.prems(1) by (simp add: grown_def)
    have none_a: "lookup (mem s) pgdir a = None"
    proof -
      have "\<not> in_range a0 a a" "in_range a0 b a"
        using True Suc.prems(3) PGROUNDDOWN_aligned [OF Suc.prems(2)] by (simp_all add: in_range_def)
      then show ?thesis
        using Suc.prems(1) none by (simp add: grown_def)
    qed
    show ?thesis
    proof (cases xs)
      case Nil
      have "kalloc s = Inr (0, s)"
        using us Nil by (intro kalloc_holds(1)) (simp add: uspace_def vm_inv_def)
      moreover obtain t ys where t: "deallocuvm pgdir b oldsz s = Inr (oldsz, t)" "shrunk pgdir a0 b s xs t ys"
        using deallocuvm_ok [OF us ab(2) less] a0(1) by blast
      ultimately show ?thesis
        using True grown_undo [OF Suc.prems(1) ab(1) none t(2)] by auto
    next
      case (Cons v ys)
      let ?m = "memset (mem s) v 0 4096"
      let ?u = "(kalloced s)\<lparr>mem := ?m\<rparr>"
      have us': "uspace s (v # ys) pgdir" and g: "grown pgdir a0 a s0 xs0 s (v # ys)"
        using us Suc.prems(1) Cons by simp_all
      have "aligned v"
        using us' by (auto simp: uspace_def vm_inv_def kmem_holds_def dest: page_ok_aligned)
      then have m: "only_in {v} (mem s) ?m"
        by (intro only_in_page [of v]) (auto simp: memset_page)
      note fill = kalloc_fill [OF us' m]
      have frames: "frames ?m pgdir = frames (mem s) pgdir"
        by (simp add: frames_def fill(9))
      have "\<exists>r t zs. mappages pgdir a 4096 (V2P v) (2 OR 4) ?u = Inr (r, t) \<and>
        (r = 0 \<and> uspace t zs pgdir \<and> vm_grow pgdir ?u ys t zs \<and> v \<notin> ptpages (mem t) pgdir \<and>
           lookup (mem t) pgdir = (\<lambda>vb. if PGROUNDDOWN vb = a then Some (V2P v OR (2 OR 4) OR 1) else lookup (mem ?u) pgdir vb) \<or>
         r = -1 \<and> ys = [] \<and> t = ?u)"
        using fill none_a frames by (intro map_fresh [OF fill(8) _ _ _ _ Suc.prems(2) low]) simp_all
      then obtain r t zs where map: "mappages pgdir a 4096 (V2P v) (2 OR 4) ?u = Inr (r, t)"
        and res: "r = 0 \<and> uspace t zs pgdir \<and> vm_grow pgdir ?u ys t zs \<and> v \<notin> ptpages (mem t) pgdir \<and>
           lookup (mem t) pgdir = (\<lambda>vb. if PGROUNDDOWN vb = a then Some (V2P v OR (2 OR 4) OR 1) else lookup (mem ?u) pgdir vb) \<or>
         r = -1 \<and> ys = [] \<and> t = ?u"
        by blast
      show ?thesis
      proof (cases "r = 0")
        case True': True
        then have "grown pgdir a0 (a + 4096) s0 xs0 t zs"
          using res by (intro grown_page [OF g Suc.prems(2,3) low refl refl]) auto
        moreover have next_page: "unat (a + 4096) = unat a + 4096"
          using low by (rule unat_add_page_low)
        ultimately have "\<exists>r w ws. allocuvm_loop (Suc n) pgdir oldsz b (a + 4096) t = Inr (r, w) \<and>
            (r = b \<and> grown pgdir a0 b s0 xs0 w ws \<or> r = 0 \<and> undone pgdir s0 xs0 w ws)"
          using Suc.prems True aligned_next [OF Suc.prems(2)]
          by (intro Suc.IH) (simp_all add: word_less_nat_alt word_le_nat_alt)
        then show ?thesis
          using True True' map fill(1,2) by (simp add: Let_def)
      next
        case False
        then have r: "r = -1" "ys = []" "t = ?u"
          using res by auto
        obtain w zs' where w: "deallocuvm pgdir b oldsz ?u = Inr (oldsz, w)" "shrunk pgdir a0 b ?u ys w zs'"
          using deallocuvm_ok [OF fill(8) ab(2) less] a0(1) by blast
        note undo = grown_undo_held [OF g ab none m refl w(2)]
        then show ?thesis
          using True map fill(1,2) r w(1) by (auto simp: Let_def)
      qed
    qed
  qed
qed

lemma oldsz_le_PGROUNDUP:
  assumes "oldsz \<le> newsz" "newsz < KERNBASE"
  shows "oldsz \<le> PGROUNDUP oldsz" "unat (PGROUNDUP oldsz) < unat newsz + 4096" "aligned (PGROUNDUP oldsz)"
proof -
  have small: "unat oldsz + 4095 < 2 ^ 32"
    using assms by (simp add: word_less_nat_alt word_le_nat_alt)
  note u = unat_PGROUNDUP [OF small]
  have "(unat oldsz + 4095) mod 4096 \<le> 4095"
    using mod_less_divisor [of 4096 "unat oldsz + 4095"] by linarith
  then show "oldsz \<le> PGROUNDUP oldsz"
    unfolding word_le_nat_alt u by linarith
  show "unat (PGROUNDUP oldsz) < unat newsz + 4096"
    using assms(1) unfolding word_le_nat_alt u by linarith
  show "aligned (PGROUNDUP oldsz)"
    using aligned_PGROUNDDOWN by (simp add: PGROUNDUP_def PGROUNDDOWN_def)
qed

lemma grown_start: "uspace s xs pgdir \<Longrightarrow> grown pgdir a a s xs s xs"
  by (auto simp: grown_def in_range_empty mapped_frames_def)

lemma allocuvm_ok:
  assumes u: "uspace s xs pgdir" and sz: "oldsz \<le> newsz" "newsz < KERNBASE"
    and none: "\<And>vb. in_range (PGROUNDUP oldsz) newsz vb \<Longrightarrow> lookup (mem s) pgdir vb = None"
  shows "\<exists>r t ys. allocuvm pgdir oldsz newsz s = Inr (r, t) \<and>
    (r = newsz \<and> grown pgdir (PGROUNDUP oldsz) newsz s xs t ys \<or> r = 0 \<and> undone pgdir s xs t ys)"
proof -
  note old = oldsz_le_PGROUNDUP [OF sz]
  have "unat newsz \<le> unat (PGROUNDUP oldsz) + 4096 * 1048576"
    using unat_less32 [of newsz] by simp
  from allocuvm_loop_ok [OF grown_start [OF u] old(3) order_refl old(2) this refl old(1) sz(2) none]
  have "\<exists>r t ys. allocuvm_loop (Suc 1048576) pgdir oldsz newsz (PGROUNDUP oldsz) s = Inr (r, t) \<and>
    (r = newsz \<and> grown pgdir (PGROUNDUP oldsz) newsz s xs t ys \<or> r = 0 \<and> undone pgdir s xs t ys)"
    by blast
  moreover have "\<not> newsz \<ge> KERNBASE" "\<not> newsz < oldsz"
    using sz by simp_all
  ultimately show ?thesis
    by (simp add: allocuvm_def del: allocuvm_loop.simps)
qed

end
