(* ===== verification/Vm_Copy.thy ===== *)
theory Vm_Copy
  imports Vm_Grow
begin

text \<open>
  Copying through page tables: copyout writes a kernel buffer into the user memory a page table maps.
\<close>

section \<open>User memory\<close>

text \<open>The byte a user program reads at an address, and the pages it may touch.\<close>

definition user_page :: "mem \<Rightarrow> u32 \<Rightarrow> u32 \<Rightarrow> bool" where
  "user_page m pgdir va \<longleftrightarrow> (case lookup m pgdir va of None \<Rightarrow> False | Some e \<Rightarrow> e AND PTE_U \<noteq> 0)"

definition ubyte :: "mem \<Rightarrow> u32 \<Rightarrow> u32 \<Rightarrow> u8 option" where
  "ubyte m pgdir va = (case lookup m pgdir va of None \<Rightarrow> None | Some e \<Rightarrow> Some (m (frame e + (va - PGROUNDDOWN va))))"

lemma uspace_user_write:
  assumes u: "uspace s xs pgdir" and m: "only_in (frames (mem s) pgdir) (mem s) m"
  shows "uspace (s\<lparr>mem := m\<rparr>) xs pgdir" "lookup m pgdir = lookup (mem s) pgdir" "tables m pgdir = tables (mem s) pgdir"
proof -
  have inv: "vm_inv s xs pgdir" and wf: "pt_wf (mem s) pgdir"
    using u by (simp_all add: uspace_def vm_inv_def)
  have "agree (ptpages (mem s) pgdir) (mem s) m"
    using u pt_wf_aligned [OF wf] unfolding uspace_def by (intro only_in_agree [OF m]) blast
  note same = agree_table [OF this wf]
  show look: "lookup m pgdir = lookup (mem s) pgdir" and tab: "tables m pgdir = tables (mem s) pgdir"
    using same(3,2) by simp_all
  have "kmem_holds (s\<lparr>mem := m\<rparr>) xs"
    using u by (intro kmem_holds_only_in [OF _ m]) (auto simp: uspace_def vm_inv_def)
  then have "vm_inv (s\<lparr>mem := m\<rparr>) xs pgdir"
    using inv same(1) tab by (simp add: vm_inv_def)
  then show "uspace (s\<lparr>mem := m\<rparr>) xs pgdir"
    using uspace_frame(3) [OF u] by (intro uspace_restrict [OF u]) (auto simp: look tab)
qed

lemma uva2ka_ok:
  assumes u: "uspace s xs pgdir" and e: "lookup (mem s) pgdir va = Some e"
  shows "uva2ka pgdir va s = Inr (if e AND PTE_U = 0 then 0 else frame e)"
proof -
  have p: "present (pde_at (mem s) pgdir (PDX va))" "rd32 (mem s) (pte_addr (mem s) pgdir va) = e" "e AND 1 \<noteq> 0"
    using e by (auto simp: lookup_def present_def split: if_splits)
  moreover have "pte_addr (mem s) pgdir va \<noteq> 0"
    using uspace_vm_inv [OF u] p(1) by (rule pte_addr_nonzero)
  ultimately show ?thesis
    by (simp add: uva2ka_def walkpgdir_find Let_def frame_def)
qed

lemma in_page_offset: "aligned f \<Longrightarrow> in_page f (f + off) \<longleftrightarrow> off < 4096"
  by (simp add: in_page_def)

lemma page_off_less: "va - PGROUNDDOWN va < 4096"
  using page_rest(3) [of va] by (simp add: word_less_nat_alt)

lemma unat_plus_small: "unat a + unat b < 4096 \<Longrightarrow> unat (a + b) = unat a + unat b" for a b :: u32
  by (simp add: unat_word_ariths)

section \<open>One round of copyout\<close>

text \<open>Writing \<open>n\<close> bytes from \<open>va\<close> on inside one page.\<close>

lemma write_in_page:
  assumes u: "uspace s xs pgdir" and va: "va < KERNBASE" "lookup (mem s) pgdir va = Some e"
    and n: "n \<le> 4096 - (va - PGROUNDDOWN va)" and buf: "unat buf + unat n < 2 ^ 32"
    and m: "m = memmove (mem s) (frame e + (va - PGROUNDDOWN va)) buf n"
  shows "only_in {frame e} (mem s) m"
    "x < KERNBASE \<Longrightarrow> ubyte m pgdir x = (if x - va < n then Some (mem s (buf + (x - va))) else ubyte (mem s) pgdir x)"
proof -
  let ?off = "va - PGROUNDDOWN va"
  let ?dst = "frame e + ?off"
  note f = uspace_frame [OF u va]
  have off: "unat ?off = unat va mod 4096" "unat n + unat ?off \<le> 4096"
    using page_rest(3,4) [of va] n by (simp_all add: word_le_nat_alt)
  have room: "unat (frame e) + 4096 \<le> 2 ^ 32"
    using f(4) unat_less32 [of "frame e"] by (auto simp: aligned_iff)
  have dst: "unat ?dst + unat n \<le> 2 ^ 32"
    using off(2) room by (simp add: unat_word_ariths)
  have move: "m y = (if y - ?dst < n then mem s (buf + (y - ?dst)) else mem s y)" for y
    unfolding m by (rule memmove_apply [OF buf dst])
  have inside: "in_page (frame e) y" if "y - ?dst < n" for y
  proof -
    have "unat ?off + unat (y - ?dst) < 4096"
      using that off(2) by (simp add: word_less_nat_alt)
    then show ?thesis
      using unat_plus_small [of ?off "y - ?dst"] by (simp add: in_page_def word_less_nat_alt)
  qed
  show only: "only_in {frame e} (mem s) m"
    using f(4) inside by (intro only_in_page [of "frame e"]) (auto simp: move)
  then have look: "lookup m pgdir = lookup (mem s) pgdir"
    using uspace_user_write(2) [OF u] framesI [OF va] only_in_mono by blast
  assume x: "x < KERNBASE"
  have same_page: "PGROUNDDOWN x = PGROUNDDOWN va" if "x - va < n"
  proof -
    have "unat ?off + unat (x - va) < 4096"
      using that off(2) by (simp add: word_less_nat_alt)
    then have "in_page (PGROUNDDOWN va) x"
      using unat_plus_small [of ?off "x - va"] by (simp add: in_page_def word_less_nat_alt)
    then show ?thesis
      by (simp add: in_page_iff)
  qed
  show "ubyte m pgdir x = (if x - va < n then Some (mem s (buf + (x - va))) else ubyte (mem s) pgdir x)"
  proof (cases "PGROUNDDOWN x = PGROUNDDOWN va")
    case True
    then have "lookup (mem s) pgdir x = Some e"
      using va(2) lookup_same_page by metis
    then show ?thesis
      using True by (simp add: ubyte_def look move)
  next
    case False
    have "m (frame f' + (x - PGROUNDDOWN x)) = mem s (frame f' + (x - PGROUNDDOWN x))"
      if "lookup (mem s) pgdir x = Some f'" for f'
    proof -
      have "frame f' \<noteq> frame e"
        using uspace_inj [OF u x va(1) that va(2)] False by blast
      moreover have "aligned (frame f')"
        using uspace_frame(4) [OF u x that] .
      ultimately show ?thesis
        using in_page_frame_agree [OF only, of "frame f'"] in_page_offset page_off_less by simp
    qed
    then show ?thesis
      using False same_page by (auto simp: ubyte_def look split: option.split)
  qed
qed

section \<open>copyout\<close>

lemma only_in_at: "only_in P m m' \<Longrightarrow> PGROUNDDOWN y \<notin> P \<Longrightarrow> m' y = m y"
  using in_page_frame_agree [of P m m' "PGROUNDDOWN y" y] by (simp add: in_page_iff)

lemma word_range_split: "n \<le> len \<Longrightarrow> d < len \<longleftrightarrow> d < n \<or> d - n < len - n" for d n len :: u32
proof (cases "d < n")
  case False
  assume "n \<le> len"
  with False show ?thesis
    by (simp add: word_less_nat_alt word_le_nat_alt unat_sub less_diff_iff)
qed simp

lemma copyout_ok:
  assumes "uspace s xs pgdir" "unat va + unat len \<le> 2 ^ 31" "unat buf + unat len < 2 ^ 32"
    and "\<And>i. i < len \<Longrightarrow> user_page (mem s) pgdir (va + i)"
    and "\<And>i f. i < len \<Longrightarrow> f \<in> frames (mem s) pgdir \<Longrightarrow> \<not> in_page f (buf + i)"
  shows "\<exists>m. copyout pgdir va buf len s = Inr (0, s\<lparr>mem := m\<rparr>) \<and> only_in (frames (mem s) pgdir) (mem s) m \<and>
    (\<forall>x < KERNBASE. ubyte m pgdir x = (if x - va < len then Some (mem s (buf + (x - va))) else ubyte (mem s) pgdir x))"
  using assms
proof (induction pgdir va buf len s rule: copyout.induct)
  case (1 pgdir va buf len s)
  show ?case
  proof (cases "len > 0")
    case False
    then have "len = 0"
      by (simp add: word_gt_0)
    then show ?thesis
      by (intro exI [of _ "mem s"]) (simp add: copyout.simps [of pgdir])
  next
    case True
    let ?r = "4096 - (va - PGROUNDDOWN va)"
    define n where "n = (if ?r > len then len else ?r)"
    have n: "n \<le> ?r" "n \<le> len" "0 < n"
      using True page_rest(1) [of va] by (auto simp: n_def)
    have low: "va < KERNBASE"
      using "1.prems"(2) True by (simp add: word_less_nat_alt)
    obtain e where e: "lookup (mem s) pgdir va = Some e" "e AND 4 \<noteq> 0"
      using "1.prems"(4) [of 0] True by (auto simp: user_page_def split: option.splits)
    have page: "lookup (mem s) pgdir (PGROUNDDOWN va) = Some e"
      using e(1) lookup_same_page [of "PGROUNDDOWN va" va] PGROUNDDOWN_aligned [OF aligned_PGROUNDDOWN] by simp
    note f = uspace_frame [OF "1.prems"(1) low e(1)]
    have nz: "frame e \<noteq> 0"
      using f(1) "1.prems"(1) page_ok_nonzero by (auto simp: uspace_def vm_inv_def kmem_holds_def)
    have ka: "uva2ka pgdir (PGROUNDDOWN va) s = Inr (frame e)"
      using uva2ka_ok [OF "1.prems"(1) page] e(2) by simp
    let ?m = "memmove (mem s) (frame e + (va - PGROUNDDOWN va)) buf n"
    have "unat buf + unat n < 2 ^ 32"
      using "1.prems"(3) n(2) by (simp add: word_le_nat_alt)
    note w = write_in_page [OF "1.prems"(1) low e(1) n(1) this refl]
    have only: "only_in (frames (mem s) pgdir) (mem s) ?m"
      using w(1) framesI [OF low e(1)] by (auto elim: only_in_mono)
    note kept = uspace_user_write [OF "1.prems"(1) only]
    have frames: "frames ?m pgdir = frames (mem s) pgdir"
      by (simp add: frames_def kept(2))
    have step: "copyout pgdir va buf len s = copyout pgdir (PGROUNDDOWN va + 4096) (buf + n) (len - n) (s\<lparr>mem := ?m\<rparr>)"
      using True ka nz by (simp add: copyout.simps [of pgdir va] Let_def n_def)
    show ?thesis
    proof (cases "n = len")
      case True
      then show ?thesis
        using step only w(2) by (intro exI [of _ ?m]) (simp add: copyout.simps)
    next
      case False
      then have nr: "n = ?r" and next_va: "PGROUNDDOWN va + 4096 = va + n"
        by (auto simp: n_def split: if_splits)
      have un: "unat (va + n) = unat va + unat n" "unat (buf + n) = unat buf + unat n" "unat (len - n) = unat len - unat n"
          "unat n \<le> unat len"
        using "1.prems"(2,3) n(2) by (simp_all add: word_le_nat_alt unat_word_ariths unat_sub)
      have shift: "n + i < len" if "i < len - n" for i
      proof -
        have "unat i < unat len - unat n"
          using that un(3) by (simp add: word_less_nat_alt)
        then show ?thesis
          using unat_less32 [of len] by (simp add: word_less_nat_alt unat_word_ariths)
      qed
      have "\<exists>m. copyout pgdir (va + n) (buf + n) (len - n) (s\<lparr>mem := ?m\<rparr>) = Inr (0, s\<lparr>mem := ?m, mem := m\<rparr>) \<and>
          only_in (frames (mem (s\<lparr>mem := ?m\<rparr>)) pgdir) (mem (s\<lparr>mem := ?m\<rparr>)) m \<and>
          (\<forall>x < KERNBASE. ubyte m pgdir x = (if x - (va + n) < len - n then Some (mem (s\<lparr>mem := ?m\<rparr>) (buf + n + (x - (va + n))))
            else ubyte (mem (s\<lparr>mem := ?m\<rparr>)) pgdir x))"
      proof (rule "1.IH" [OF True refl ka nz refl refl, folded n_def, unfolded next_va])
        show "uspace (s\<lparr>mem := ?m\<rparr>) xs pgdir"
          by (rule kept(1))
        show "unat (va + n) + unat (len - n) \<le> 2 ^ 31" "unat (buf + n) + unat (len - n) < 2 ^ 32"
          using "1.prems"(2,3) un by simp_all
        show "user_page (mem (s\<lparr>mem := ?m\<rparr>)) pgdir (va + n + i)" if "i < len - n" for i
          using "1.prems"(4) [OF shift [OF that]] kept(2) by (simp add: user_page_def add.assoc)
        show "\<not> in_page f (buf + n + i)" if "i < len - n" "f \<in> frames (mem (s\<lparr>mem := ?m\<rparr>)) pgdir" for i f
          using "1.prems"(5) [OF shift [OF that(1)]] that(2) frames by (simp add: add.assoc)
      qed
      then obtain m where m: "copyout pgdir (va + n) (buf + n) (len - n) (s\<lparr>mem := ?m\<rparr>) = Inr (0, s\<lparr>mem := m\<rparr>)"
          "only_in (frames (mem s) pgdir) ?m m"
          "\<And>x. x < KERNBASE \<Longrightarrow> ubyte m pgdir x = (if x - (va + n) < len - n then Some (?m (buf + n + (x - (va + n)))) else ubyte ?m pgdir x)"
        using frames by auto
      have src: "?m (buf + i) = mem s (buf + i)" if "i < len" for i
        using only_in_at [OF w(1)] "1.prems"(5) [OF that framesI [OF low e(1)]] f(4) by (simp add: in_page_iff)
      have "ubyte m pgdir x = (if x - va < len then Some (mem s (buf + (x - va))) else ubyte (mem s) pgdir x)" if "x < KERNBASE" for x
        using m(3) [OF that] w(2) [OF that] src [of "x - va"] word_range_split [OF n(2), of "x - va"]
        by (simp add: diff_diff_eq)
      then show ?thesis
        using step m(1,2) only next_va by (intro exI [of _ m]) (auto intro: only_in_trans)
    qed
  qed
qed

end
