(* ===== verification/Vm_Props.thy ===== *)
theory Vm_Props
  imports Vm_Copy
begin

text \<open>The properties of virtual memory, with an address space of concrete pages as their witness.\<close>

section \<open>A small machine\<close>

text \<open>
  An empty page table in the first page after the kernel and three free pages, with nothing mapped.
\<close>

definition small_vm :: "kmem_st" where
  "small_vm = kfreed 0x80118000 (kfreed 0x80117000 (kfreed 0x80116000 boot_state))"

lemma boot_state_simps [simp]:
  "kmem boot_state = \<lparr>km_lock = initlock ''kmem'', use_lock = 0, freelist = 0, km_end = 0x80115000\<rparr>"
  "mem boot_state = (\<lambda>_. 0)"
  by (simp_all add: boot_state_def)

lemma lookup_zero: "lookup (\<lambda>_. 0) pgdir va = None"
  by (simp add: lookup_def pde_at_def present_def rd32_def)

lemma tables_zero: "tables (\<lambda>_. 0) pgdir = {}"
  by (simp add: tables_def pde_at_def present_def rd32_def)

lemma frames_none: "(\<And>va. lookup m pgdir va = None) \<Longrightarrow> frames m pgdir = {}"
  by (simp add: frames_def)

lemma uspace_boot: "uspace boot_state [] 0x80115000"
proof -
  have "km_ok boot_state"
    by (simp add: km_ok_def boot_state_def cpu_ok_def lock_free_def initlock_def)
  moreover have "page_ok 0x80115000 0x80115000"
    by (simp add: page_ok_def aligned_def V2P_def)
  ultimately show ?thesis
    by (simp add: uspace_def vm_inv_def kmem_holds_def pt_wf_def tables_zero frames_none lookup_zero
        pde_at_def present_def rd32_def page_ok_def)
qed

lemma small_vm_step:
  assumes u: "uspace s xs 0x80115000" "lookup (mem s) 0x80115000 = (\<lambda>_. None)" "tables (mem s) 0x80115000 = {}"
      "km_end (kmem s) = 0x80115000"
    and v: "aligned v" "0x80115000 < v" "v < 0x8E000000" "v \<notin> set xs"
  shows "uspace (kfreed v s) (v # xs) 0x80115000" "lookup (mem (kfreed v s)) 0x80115000 = (\<lambda>_. None)"
    "tables (mem (kfreed v s)) 0x80115000 = {}" "km_end (kmem (kfreed v s)) = 0x80115000"
proof -
  have "unat (V2P v) = unat v - 0x80000000"
    using v(2) by (simp add: V2P_def unat_sub word_le_nat_alt word_less_nat_alt)
  then have "page_ok (km_end (kmem s)) v"
    using v u(4) by (simp add: page_ok_def word_less_nat_alt word_le_nat_alt)
  moreover have "v \<notin> ptpages (mem s) 0x80115000" "v \<notin> frames (mem s) 0x80115000"
    using v(2) u(2,3) by (simp_all add: frames_none)
  ultimately have "uspace (kfreed v s) (v # xs) 0x80115000"
      "lookup (mem (kfreed v s)) 0x80115000 = lookup (mem s) 0x80115000"
      "tables (mem (kfreed v s)) 0x80115000 = tables (mem s) 0x80115000"
    using kfree_fresh [OF u(1) _ _ v(4)] by blast+
  then show "uspace (kfreed v s) (v # xs) 0x80115000" "lookup (mem (kfreed v s)) 0x80115000 = (\<lambda>_. None)"
    "tables (mem (kfreed v s)) 0x80115000 = {}" "km_end (kmem (kfreed v s)) = 0x80115000"
    using u(2-4) by simp_all
qed

lemma small_vm_uspace:
  "uspace small_vm [0x80118000, 0x80117000, 0x80116000] 0x80115000" "lookup (mem small_vm) 0x80115000 va = None"
  "tables (mem small_vm) 0x80115000 = {}"
proof -
  have al: "aligned 0x80116000" "aligned 0x80117000" "aligned 0x80118000"
    by (simp_all add: aligned_def)
  have boot: "lookup (mem boot_state) 0x80115000 = (\<lambda>_. None)" "tables (mem boot_state) 0x80115000 = {}"
      "km_end (kmem boot_state) = 0x80115000"
    by (simp_all add: fun_eq_iff lookup_zero tables_zero)
  have a: "uspace (kfreed 0x80116000 boot_state) [0x80116000] 0x80115000"
      "lookup (mem (kfreed 0x80116000 boot_state)) 0x80115000 = (\<lambda>_. None)"
      "tables (mem (kfreed 0x80116000 boot_state)) 0x80115000 = {}"
      "km_end (kmem (kfreed 0x80116000 boot_state)) = 0x80115000"
    using small_vm_step [OF uspace_boot boot al(1)] by simp_all
  note b = small_vm_step [OF a al(2)]
  note c = small_vm_step [OF b al(3)]
  show "uspace small_vm [0x80118000, 0x80117000, 0x80116000] 0x80115000" "lookup (mem small_vm) 0x80115000 va = None"
    "tables (mem small_vm) 0x80115000 = {}"
    using c b by (simp_all add: small_vm_def)
qed

section \<open>Properties\<close>

text \<open>
  C5. allocuvm is all or nothing. On an address space whose pages between \<open>oldsz\<close> rounded up and \<open>newsz\<close> are unmapped
  it returns; if it returns \<open>newsz\<close>, every page of that range is mapped present, writable and for the user, to a
  frame that was free, distinct for distinct pages and filled with zeros; if it returns 0, the mapping is what
  it was. Either way the address space stays well formed, other mappings and the contents of all pages but free
  pages and page table pages stay, and no page is lost: free pages, page tables and new frames together are the
  old free pages and page tables.
\<close>

theorem allocuvm_all_or_nothing:
  assumes "uspace s xs pgdir" and "oldsz \<le> newsz" and "newsz < KERNBASE"
    and "\<And>vb. in_range (PGROUNDUP oldsz) newsz vb \<Longrightarrow> lookup (mem s) pgdir vb = None"
  shows "\<exists>r t ys. allocuvm pgdir oldsz newsz s = Inr (r, t) \<and> uspace t ys pgdir \<and>
    only_in (ptpages (mem s) pgdir \<union> set xs) (mem s) (mem t) \<and>
    (r = newsz \<and>
       (\<forall>vb. if in_range (PGROUNDUP oldsz) newsz vb
         then \<exists>e. lookup (mem t) pgdir vb = Some e \<and> PTE_FLAGS e = PTE_P OR PTE_W OR PTE_U \<and> frame e \<in> set xs \<and>
           (\<forall>y. in_page (frame e) y \<longrightarrow> mem t y = 0)
         else lookup (mem t) pgdir vb = lookup (mem s) pgdir vb) \<and>
       set ys \<union> tables (mem t) pgdir \<union> mapped_frames (mem t) pgdir (PGROUNDUP oldsz) newsz = set xs \<union> tables (mem s) pgdir \<or>
     r = 0 \<and> lookup (mem t) pgdir = lookup (mem s) pgdir \<and>
       set ys \<union> tables (mem t) pgdir = set xs \<union> tables (mem s) pgdir)"
proof -
  obtain r t ys where *: "allocuvm pgdir oldsz newsz s = Inr (r, t)"
    "r = newsz \<and> grown pgdir (PGROUNDUP oldsz) newsz s xs t ys \<or> r = 0 \<and> undone pgdir s xs t ys"
    using allocuvm_ok [OF assms] by blast
  from *(2) show ?thesis
    unfolding grown_def undone_def
    by (intro exI [of _ r] exI [of _ t] exI [of _ ys] conjI) (use * in \<open>auto simp: grown_def undone_def\<close>)
qed

theorem allocuvm_all_or_nothing_witness:
  "uspace small_vm [0x80118000, 0x80117000, 0x80116000] 0x80115000 \<and>
   (\<exists>r t ys. allocuvm 0x80115000 0 100 small_vm = Inr (r, t) \<and> uspace t ys 0x80115000 \<and>
      (r = 100 \<longrightarrow> (\<exists>e. lookup (mem t) 0x80115000 0 = Some e \<and> frame e \<in> {0x80118000, 0x80117000, 0x80116000})))"
proof -
  have "in_range (PGROUNDUP 0) 100 0"
    by (simp add: in_range_def PGROUNDUP_def PGROUNDDOWN_def)
  moreover have "(0 :: u32) \<le> 100" "(100 :: u32) < KERNBASE"
    by simp_all
  moreover obtain r t ys where *: "allocuvm 0x80115000 0 100 small_vm = Inr (r, t)" "uspace t ys 0x80115000"
    "r = 100 \<and> (\<forall>vb. if in_range (PGROUNDUP 0) 100 vb
         then \<exists>e. lookup (mem t) 0x80115000 vb = Some e \<and> PTE_FLAGS e = PTE_P OR PTE_W OR PTE_U \<and>
           frame e \<in> set [0x80118000, 0x80117000, 0x80116000] \<and> (\<forall>y. in_page (frame e) y \<longrightarrow> mem t y = 0)
         else lookup (mem t) 0x80115000 vb = lookup (mem small_vm) 0x80115000 vb) \<or> r = 0"
    using allocuvm_all_or_nothing [OF small_vm_uspace(1) calculation(2,3) small_vm_uspace(2)] by blast
  ultimately have "r = 100 \<longrightarrow> (\<exists>e. lookup (mem t) 0x80115000 0 = Some e \<and>
      frame e \<in> set [0x80118000, 0x80117000, 0x80116000])"
    by (elim disjE conjE) (drule spec [of _ 0], auto)
  with * small_vm_uspace(1) show ?thesis
    by auto
qed

text \<open>
  C8. deallocuvm returns for every size up to \<open>KERNBASE\<close>, also when whole page tables are missing in between: it
  returns the new size, unmaps exactly the pages from \<open>newsz\<close> rounded up to \<open>oldsz\<close>, puts exactly their frames on
  the free list, and changes no other page than those frames and the second-level tables.
\<close>

theorem deallocuvm_unmaps_range:
  assumes "uspace s xs pgdir" and "oldsz \<le> KERNBASE" and "newsz < oldsz"
  shows "\<exists>t ys. deallocuvm pgdir oldsz newsz s = Inr (newsz, t) \<and> uspace t ys pgdir \<and>
    lookup (mem t) pgdir = (\<lambda>vb. if in_range (PGROUNDUP newsz) oldsz vb then None else lookup (mem s) pgdir vb) \<and>
    set ys = set xs \<union> mapped_frames (mem s) pgdir (PGROUNDUP newsz) oldsz \<and>
    only_in (tables (mem s) pgdir \<union> mapped_frames (mem s) pgdir (PGROUNDUP newsz) oldsz) (mem s) (mem t)"
  using deallocuvm_ok [OF assms] unfolding shrunk_def by blast

theorem deallocuvm_unmaps_range_witness:
  "\<exists>t ys. deallocuvm 0x80115000 KERNBASE 0 small_vm = Inr (0, t) \<and> uspace t ys 0x80115000 \<and>
     set ys = {0x80118000, 0x80117000, 0x80116000}"
proof -
  have "mapped_frames (mem small_vm) 0x80115000 a b = {}" for a b
    by (simp add: mapped_frames_def small_vm_uspace(2))
  then show ?thesis
    using deallocuvm_unmaps_range [OF small_vm_uspace(1), of KERNBASE 0] by simp blast
qed

text \<open>
  C7. copyout writes through the page table, across page boundaries: when every byte of the destination range is
  mapped for the user and the source buffer is not user memory, it returns 0, the user reads the buffer at the
  destination and what it read before everywhere else, and no memory but user frames changes.
\<close>

theorem copyout_writes_user_memory:
  assumes "uspace s xs pgdir" and "unat va + unat len \<le> 2 ^ 31" and "unat buf + unat len < 2 ^ 32"
    and "\<And>i. i < len \<Longrightarrow> user_page (mem s) pgdir (va + i)"
    and "\<And>i f. i < len \<Longrightarrow> f \<in> frames (mem s) pgdir \<Longrightarrow> \<not> in_page f (buf + i)"
  shows "\<exists>t. copyout pgdir va buf len s = Inr (0, t) \<and> uspace t xs pgdir \<and>
    lookup (mem t) pgdir = lookup (mem s) pgdir \<and> only_in (frames (mem s) pgdir) (mem s) (mem t) \<and>
    (\<forall>x < KERNBASE. ubyte (mem t) pgdir x = (if x - va < len then Some (mem s (buf + (x - va))) else ubyte (mem s) pgdir x))"
proof -
  obtain m where m: "copyout pgdir va buf len s = Inr (0, s\<lparr>mem := m\<rparr>)" "only_in (frames (mem s) pgdir) (mem s) m"
    "\<forall>x < KERNBASE. ubyte m pgdir x = (if x - va < len then Some (mem s (buf + (x - va))) else ubyte (mem s) pgdir x)"
    using copyout_ok [OF assms] by blast
  with uspace_user_write [OF assms(1) m(2)] show ?thesis
    by (intro exI [of _ "s\<lparr>mem := m\<rparr>"]) simp
qed

text \<open>The witness: the first page of the small machine mapped for the user.\<close>

lemma small_mapped:
  "\<exists>(s :: kmem_st) zs e. uspace s zs 0x80115000 \<and> e AND PTE_U \<noteq> 0 \<and> frame e = 0x80118000 \<and>
     lookup (mem s) 0x80115000 = (\<lambda>vb. if PGROUNDDOWN vb = 0 then Some e else None)"
proof -
  let ?v = "0x80118000 :: u32"
  let ?s = "(kalloced small_vm)\<lparr>mem := mem small_vm\<rparr>"
  let ?e = "V2P ?v OR 6 OR 1"
  have al: "aligned ?v" "aligned 0"
    by (simp_all add: aligned_def)
  have "only_in {?v} (mem small_vm) (mem small_vm)"
    by simp
  note fill = kalloc_fill [OF small_vm_uspace(1) this]
  have "v \<notin> frames (mem ?s) 0x80115000" for v
    by (simp add: frames_none small_vm_uspace(2))
  then have "\<exists>r t zs. mappages 0x80115000 0 4096 (V2P ?v) 6 ?s = Inr (r, t) \<and>
    (r = 0 \<and> uspace t zs 0x80115000 \<and> vm_grow 0x80115000 ?s [0x80117000, 0x80116000] t zs \<and> ?v \<notin> ptpages (mem t) 0x80115000 \<and>
       lookup (mem t) 0x80115000 = (\<lambda>vb. if PGROUNDDOWN vb = 0 then Some (V2P ?v OR 6 OR 1) else lookup (mem ?s) 0x80115000 vb) \<or>
     r = -1 \<and> [0x80117000, 0x80116000 :: u32] = [] \<and> t = ?s)"
    using fill(3,5,6) small_vm_uspace(2) by (intro map_fresh [OF fill(8)]) (simp_all add: al(2))
  then obtain t :: kmem_st and zs where "uspace t zs 0x80115000"
      "lookup (mem t) 0x80115000 = (\<lambda>vb. if PGROUNDDOWN vb = 0 then Some ?e else lookup (mem ?s) 0x80115000 vb)"
    using list.distinct(2) by blast
  moreover from this(2) have "lookup (mem t) 0x80115000 = (\<lambda>vb. if PGROUNDDOWN vb = 0 then Some ?e else None)"
    by (simp add: fun_eq_iff small_vm_uspace(2))
  moreover have "frame ?e = ?v"
    using fresh_entry(1) [OF al(1), of 6] by simp
  moreover have "?e AND 4 \<noteq> 0"
    by (simp add: V2P_def)
  ultimately show ?thesis
    by blast
qed

theorem copyout_writes_user_memory_witness:
  "\<exists>(s :: kmem_st) xs t. uspace s xs 0x80115000 \<and> copyout 0x80115000 5 0x80000000 1 s = Inr (0, t) \<and>
     ubyte (mem t) 0x80115000 5 = Some (mem s 0x80000000)"
proof -
  obtain s :: kmem_st and zs e where s: "uspace s zs 0x80115000" "e AND PTE_U \<noteq> 0" "frame e = 0x80118000"
    "lookup (mem s) 0x80115000 = (\<lambda>vb. if PGROUNDDOWN vb = 0 then Some e else None)"
    using small_mapped by blast
  have five: "PGROUNDDOWN 5 = 0"
    by (simp add: PGROUNDDOWN_def)
  have "user_page (mem s) 0x80115000 (5 + i)" if "i < 1" for i
    using that s(2,4) five by (simp add: user_page_def)
  moreover have one: "f = 0x80118000" if "f \<in> frames (mem s) 0x80115000" for f
    using that s(3,4) by (auto simp: frames_def split: if_splits)
  have "\<not> in_page f (0x80000000 + i)" if "i < 1" "f \<in> frames (mem s) 0x80115000" for i f
    using that one [OF that(2)] by (simp add: in_page_def)
  ultimately obtain t where "copyout 0x80115000 5 0x80000000 1 s = Inr (0, t)"
    "\<forall>x < KERNBASE. ubyte (mem t) 0x80115000 x =
       (if x - 5 < 1 then Some (mem s (0x80000000 + (x - 5))) else ubyte (mem s) 0x80115000 x)"
    using copyout_writes_user_memory [OF s(1), of 5 1 "0x80000000"] by auto
  then show ?thesis
    using s(1) by auto
qed

end
