(* ===== verification/Klock.thy ===== *)
theory Klock
  imports Sched
begin

text \<open>
  Critical sections of kernel threads: the contract of a spin lock that is a field of the state
  independent of the process table. Inside such a section a thread may wake other processes or go to sleep.
\<close>

text \<open>The situation of a kernel thread of process \<open>p\<close> outside every section that holds \<open>ptable.lock\<close>.\<close>

definition sleep_ready :: "nat \<Rightarrow> 'a ptab_st_scheme \<Rightarrow> bool" where
  "sleep_ready p s \<longleftrightarrow> running p s \<and> lock_free (pt_lock (ptable s))"

lemma upd_procs_cpu:
  "upd_procs f (s\<lparr>eflags_if := e, cpus := c\<rparr>) = (upd_procs f s)\<lparr>eflags_if := e, cpus := c\<rparr>"
  "lapic_id (upd_procs f s) = lapic_id s"
  by (simp_all add: upd_procs_def)

lemma sleep_ready_pt_ok: "sleep_ready p s \<Longrightarrow> pt_ok s"
  by (simp add: sleep_ready_def running_def pt_ok_def)

lemma sleep_ready_wakeup1 [simp]: "sleep_ready p (wakeup1 ch s) = sleep_ready p s"
  by (simp add: wakeup1_def sleep_ready_def running_def)

lemma wakeup1_lock [simp]: "pt_lock (ptable (wakeup1 ch s)) = pt_lock (ptable s)"
  "cpus (wakeup1 ch s) = cpus s" "this_cpu (wakeup1 ch s) = this_cpu s" "cpu_ok (wakeup1 ch s) = cpu_ok s"
  by (simp_all add: wakeup1_def)

locale kernel_lock = lock_field get put
  for get :: "'a ptab_st_scheme \<Rightarrow> spinlock" and put :: "spinlock \<Rightarrow> 'a ptab_st_scheme \<Rightarrow> 'a ptab_st_scheme" +
  assumes put_ptable: "(put l s)\<lparr>ptable := x\<rparr> = put l (s\<lparr>ptable := x\<rparr>)"
    and get_ptable: "get (s\<lparr>ptable := x\<rparr>) = get s"
    and ptable_put: "ptable (put l s) = ptable s"
begin

lemma put_upd_procs: "put l (upd_procs f s) = upd_procs f (put l s)"
  by (simp add: upd_procs_def put_ptable ptable_put)

lemma get_upd_procs: "get (upd_procs f s) = get s"
  by (simp add: upd_procs_def get_ptable)

lemma get_put_ptlock: "get (put_ptlock l t) = get t"
  by (simp add: put_ptlock_def get_ptable)

lemma ptable_opened: "ptable (opened s) = ptable s"
  by (simp add: opened_def ptable_put pushed_def)

lemma cpu_opened:
  assumes "cpu_ok s"
  shows "cpu_ok (opened s)" "this_cpu (opened s) = this_cpu s" "cpus (opened s) = cpus (pushed s)"
proof -
  have same: "same_cpu (opened s) (pushed s)"
    by (simp add: opened_def same_put)
  then show "cpu_ok (opened s)"
    using same_cpu_cpu_ok cpu_ok_pushed [OF assms] by blast
  show "this_cpu (opened s) = this_cpu s" "cpus (opened s) = cpus (pushed s)"
    using same this_cpu_pushed [of s] by (simp_all add: same_cpu_def this_cpu_def)
qed

lemma running_opened: "running p s \<Longrightarrow> running p (opened s)"
  unfolding running_def
proof (elim conjE, intro conjI)
  assume ok: "cpu_ok s" and p: "cpu_proc (cpus s ! this_cpu s) = Some p" "p < length (procs s)"
  show "cpu_ok (opened s)"
    using cpu_opened(1) [OF ok] .
  show "cpu_proc (cpus (opened s) ! this_cpu (opened s)) = Some p"
    unfolding cpu_opened(2,3) [OF ok] using p(1) ok by (auto simp: pushed_def elim: cpu_okE)
  show "p < length (procs (opened s))"
    using p(2) by (simp add: ptable_opened)
qed

lemma sleep_ready_opened: "sleep_ready p s \<Longrightarrow> sleep_ready p (opened s)"
  by (simp add: sleep_ready_def running_opened ptable_opened)

lemma framed_id: "framed (\<lambda>t. t)"
  by (simp add: framed_def)

lemma framed_procs: "framed (upd_procs f)"
  unfolding framed_def by (simp add: put_upd_procs [symmetric] upd_procs_cpu)

lemma framed_wakeup1: "framed (wakeup1 ch)"
  unfolding wakeup1_def by (rule framed_procs)

lemma framed_comp: "framed f \<Longrightarrow> framed g \<Longrightarrow> framed (\<lambda>t. f (g t))"
  unfolding framed_def by simp

lemma framed_cpu: "framed f \<Longrightarrow> same_cpu (f s) s"
  using framed_self [of f s] same_put [of "get s" "(f s)\<lparr>eflags_if := eflags_if s, cpus := cpus s\<rparr>"]
  by (simp add: same_cpu_def framed_def)

lemma framed_get: "framed f \<Longrightarrow> get (f s) = get s"
  using framed_self [of f s] by (metis get_put)

text \<open>
  Going to sleep at the end of a section with the body \<open>f\<close>: the lock is given back, \<open>ptable.lock\<close> is taken
  instead, and the process is marked as sleeping.
\<close>

lemma sleep_in_section:
  assumes run: "sleep_ready p s" and free: "lock_free (get s)" and ncli: "cpu_ncli (cpus s ! this_cpu s) = 0"
    and f: "framed f" and pt: "pt_lock (ptable (f s)) = pt_lock (ptable s)" "length (procs (f s)) = length (procs s)"
  shows "sleep ch (Some (get, put)) (f (opened s)) =
    Inl (Switch (upd_proc p (\<lambda>q. q\<lparr>p_chan := Some ch, p_state := SLEEPING\<rparr>) (pt.opened (f s))))"
proof -
  let ?t = "f (opened s)"
  have ok: "cpu_ok s" and p: "cpu_proc (cpus s ! this_cpu s) = Some p" "p < length (procs s)"
    and ptf: "lock_free (pt_lock (ptable s))"
    using run by (auto simp: sleep_ready_def running_def)
  have t: "?t = put (held_here (get s) s) ((f s)\<lparr>eflags_if := False, cpus := cpus (pushed s)\<rparr>)"
    using f by (rule body_opened)
  have same: "same_cpu ?t (opened s)"
    by (rule framed_cpu [OF f])
  have cpu: "cpu_ok ?t" "this_cpu ?t = this_cpu s" "cpus ?t = cpus (pushed s)"
    using same cpu_opened [OF ok] same_cpu_cpu_ok [OF same] by (simp_all add: same_cpu_def this_cpu_def)
  have pushed_cpu: "cpus (pushed s) ! this_cpu s = (cpus s ! this_cpu s)\<lparr>cpu_ncli := 1\<rparr>"
    using ok ncli by (auto simp: pushed_def elim: cpu_okE)
  have ptab: "ptable ?t = ptable (f s)"
    by (simp add: t ptable_put)
  have "running p ?t"
    using p cpu by (simp add: running_def pushed_cpu ptab pt)
  moreover have "cpu_ncli (cpus ?t ! this_cpu ?t) = 1"
    by (simp add: cpu pushed_cpu)
  moreover have "get ?t = held_here (get s) ?t"
    unfolding held_here_def cpu(2) by (simp add: t get_put held_here_def)
  moreover have "lock_free (pt_lock (ptable ?t))"
    using ptf by (simp add: ptab pt)
  ultimately have "sleep ch (Some (get, put)) ?t = Inl (Switch (upd_proc p (\<lambda>q. q\<lparr>p_chan := Some ch, p_state := SLEEPING\<rparr>)
      (put (get s) (put_ptlock (held_here (pt_lock (ptable ?t)) ?t) ?t))))"
    using free by (intro sleep_ok lock_field_axioms) (simp_all add: get_put_ptlock ptable_put)
  moreover have "put (get s) (put_ptlock (held_here (pt_lock (ptable ?t)) ?t) ?t) = pt.opened (f s)"
  proof -
    have here: "held_here (pt_lock (ptable ?t)) ?t = held_here (pt_lock (ptable (f s))) (f s)"
      using cpu(2) framed_cpu [OF f, of s] by (simp add: held_here_def ptab same_cpu_def this_cpu_def)
    let ?x = "(f s)\<lparr>eflags_if := False, cpus := cpus (pushed s)\<rparr>"
    have "get ?x = get s"
      by (simp add: get_cpu framed_get [OF f])
    then have "put (get s) ?x = ?x"
      using put_get [of ?x] by simp
    moreover have "pushed (f s) = (f s)\<lparr>eflags_if := False, cpus := cpus (pushed s)\<rparr>"
      using framed_cpu [OF f, of s] by (simp add: pushed_def same_cpu_def this_cpu_def)
    ultimately show ?thesis
      unfolding here by (simp add: t pt.opened_def put_ptlock_def ptable_put put_ptable put_put) 
        (metis put_ptable)
  qed
  ultimately show ?thesis
    by simp
qed

end

end
