(* ===== verification/Sleeplock.thy ===== *)
theory Sleeplock
  imports Klock
begin

text \<open>
  Sleep locks (sleeplock.c, sleeplock.h). A sleep lock lives inside another structure of the kernel state (a
  buffer, an inode); the routines take the field that holds it, as a read and a write function, and the
  channel that stands for its address. The part of acquiresleep from the test of the loop on is a definition of its
  own, because a process that slept continues there.
\<close>

record sleeplock =
  sl_locked :: u32
  sl_lk :: spinlock
  sl_name :: string
  sl_pid :: int

definition initsleeplock :: "string \<Rightarrow> sleeplock" where
  "initsleeplock name = \<lparr>sl_locked = 0, sl_lk = initlock ''sleep lock'', sl_name = name, sl_pid = 0\<rparr>"

text \<open>The spin lock inside the sleep lock, as a field of the state.\<close>

definition get_lk :: "('s \<Rightarrow> sleeplock) \<Rightarrow> 's \<Rightarrow> spinlock" where
  "get_lk get s = sl_lk (get s)"

definition put_lk :: "('s \<Rightarrow> sleeplock) \<Rightarrow> (sleeplock \<Rightarrow> 's \<Rightarrow> 's) \<Rightarrow> spinlock \<Rightarrow> 's \<Rightarrow> 's" where
  "put_lk get put l s = put ((get s)\<lparr>sl_lk := l\<rparr>) s"

definition acquiresleep_loop :: "chan \<Rightarrow> ('a ptab_st_scheme \<Rightarrow> sleeplock) \<Rightarrow>
    (sleeplock \<Rightarrow> 'a ptab_st_scheme \<Rightarrow> 'a ptab_st_scheme) \<Rightarrow> 'a ptab_st_scheme \<Rightarrow> 'a ptab_st_scheme stop + 'a ptab_st_scheme" where
  "acquiresleep_loop ch get put s =
     (if sl_locked (get s) \<noteq> 0 then sleep ch (Some (get_lk get, put_lk get put)) s
      else let s = put ((get s)\<lparr>sl_locked := 1\<rparr>) s
      in seq (myproc s) (\<lambda>(p, s). seq (deref p) (\<lambda>p.
         release_at (get_lk get) (put_lk get put) (put ((get s)\<lparr>sl_pid := p_pid (procs s ! p)\<rparr>) s))))"

definition acquiresleep :: "chan \<Rightarrow> ('a ptab_st_scheme \<Rightarrow> sleeplock) \<Rightarrow>
    (sleeplock \<Rightarrow> 'a ptab_st_scheme \<Rightarrow> 'a ptab_st_scheme) \<Rightarrow> 'a ptab_st_scheme \<Rightarrow> 'a ptab_st_scheme stop + 'a ptab_st_scheme" where
  "acquiresleep ch get put s =
     seq (acquire_at (get_lk get) (put_lk get put) s) (acquiresleep_loop ch get put)"

definition acquiresleep_resume :: "bool \<Rightarrow> nat \<Rightarrow> chan \<Rightarrow> ('a ptab_st_scheme \<Rightarrow> sleeplock) \<Rightarrow>
    (sleeplock \<Rightarrow> 'a ptab_st_scheme \<Rightarrow> 'a ptab_st_scheme) \<Rightarrow> 'a ptab_st_scheme \<Rightarrow> 'a ptab_st_scheme stop + 'a ptab_st_scheme" where
  "acquiresleep_resume intena p ch get put s =
     seq (sleep_resume intena p (Some (get_lk get, put_lk get put)) s) (acquiresleep_loop ch get put)"

definition releasesleep :: "chan \<Rightarrow> ('a ptab_st_scheme \<Rightarrow> sleeplock) \<Rightarrow>
    (sleeplock \<Rightarrow> 'a ptab_st_scheme \<Rightarrow> 'a ptab_st_scheme) \<Rightarrow> 'a ptab_st_scheme \<Rightarrow> 'a ptab_st_scheme stop + 'a ptab_st_scheme" where
  "releasesleep ch get put s =
     seq (acquire_at (get_lk get) (put_lk get put) s) (\<lambda>s.
     seq (wakeup ch (put ((get s)\<lparr>sl_locked := 0, sl_pid := 0\<rparr>) s))
       (release_at (get_lk get) (put_lk get put)))"

definition holdingsleep :: "('a ptab_st_scheme \<Rightarrow> sleeplock) \<Rightarrow>
    (sleeplock \<Rightarrow> 'a ptab_st_scheme \<Rightarrow> 'a ptab_st_scheme) \<Rightarrow> 'a ptab_st_scheme \<Rightarrow> 'a ptab_st_scheme stop + bool \<times> 'a ptab_st_scheme" where
  "holdingsleep get put s =
     seq (acquire_at (get_lk get) (put_lk get put) s) (\<lambda>s.
     seq (if sl_locked (get s) = 0 then Inr (False, s)
          else seq (myproc s) (\<lambda>(p, s). seq (deref p) (\<lambda>p. Inr (sl_pid (get s) = p_pid (procs s ! p), s)))) (\<lambda>(r, s).
     seq (release_at (get_lk get) (put_lk get put) s) (\<lambda>s. Inr (r, s))))"

section \<open>The contract of a sleep lock field\<close>

text \<open>
  The field behaves like a variable and is independent of the CPU part of the state and of the process
  table.
\<close>

locale sleeplock_field =
  fixes get :: "'a ptab_st_scheme \<Rightarrow> sleeplock" and put :: "sleeplock \<Rightarrow> 'a ptab_st_scheme \<Rightarrow> 'a ptab_st_scheme"
  assumes get_put_sl: "get (put l s) = l"
    and put_put_sl: "put l (put l' s) = put l s"
    and put_get_sl: "put (get s) s = s"
    and put_cpu_sl: "(put l s)\<lparr>eflags_if := e, cpus := c\<rparr> = put l (s\<lparr>eflags_if := e, cpus := c\<rparr>)"
    and get_cpu_sl: "get (s\<lparr>eflags_if := e, cpus := c\<rparr>) = get s"
    and same_put_sl: "same_cpu (put l s) s"
    and put_ptable_sl: "(put l s)\<lparr>ptable := x\<rparr> = put l (s\<lparr>ptable := x\<rparr>)"
    and get_ptable_sl: "get (s\<lparr>ptable := x\<rparr>) = get s"
    and ptable_put_sl: "ptable (put l s) = ptable s"

sublocale sleeplock_field \<subseteq> kernel_lock "get_lk get" "put_lk get put"
  by unfold_locales
    (simp_all add: get_lk_def put_lk_def get_put_sl put_put_sl put_get_sl put_cpu_sl get_cpu_sl same_put_sl
      put_ptable_sl get_ptable_sl ptable_put_sl)

context sleeplock_field
begin

definition sl_free :: "'a ptab_st_scheme \<Rightarrow> bool" where
  "sl_free s \<longleftrightarrow> lock_free (sl_lk (get s)) \<and> sl_locked (get s) = 0"

definition sl_held :: "nat \<Rightarrow> 'a ptab_st_scheme \<Rightarrow> bool" where
  "sl_held p s \<longleftrightarrow> lock_free (sl_lk (get s)) \<and> sl_locked (get s) \<noteq> 0 \<and> sl_pid (get s) = p_pid (procs s ! p)"

lemma put_lk_eq: "put_lk get put l s = put ((get s)\<lparr>sl_lk := l\<rparr>) s"
  by (simp add: put_lk_def)

lemma get_opened: "get (opened s) = (get s)\<lparr>sl_lk := held_here (sl_lk (get s)) s\<rparr>"
proof -
  have "get (pushed s) = get s"
    using get_cpu_sl by (simp add: pushed_def)
  then show ?thesis
    by (simp add: opened_def put_lk_eq get_put_sl get_lk_def)
qed

lemma lapic_put: "lapic_id (put l s) = lapic_id s"
  using same_put_sl [of l s] by (simp add: same_cpu_def)

lemma same_cpu_put: "cpu_ok (put l s) = cpu_ok s" "cpus (put l s) = cpus s" "this_cpu (put l s) = this_cpu s"
  using same_put_sl [of l s] same_cpu_cpu_ok [of "put l s" s] by (simp_all add: same_cpu_def this_cpu_def)

lemma framed_body:
  assumes "\<And>l x. g (x\<lparr>sl_lk := l\<rparr>) = (g x)\<lparr>sl_lk := l\<rparr>"
  shows "framed (\<lambda>t. put (g (get t)) t)"
  unfolding framed_def
  by (simp add: put_lk_def get_put_sl put_put_sl put_cpu_sl get_cpu_sl assms lapic_put)

lemma acquiresleep_ok:
  assumes run: "running p s" and free: "sl_free s"
  shows "acquiresleep ch get put s = Inr (put ((get s)\<lparr>sl_locked := 1, sl_pid := p_pid (procs s ! p)\<rparr>) s)"
proof -
  let ?g = "\<lambda>x :: sleeplock. x\<lparr>sl_locked := 1, sl_pid := p_pid (procs s ! p)\<rparr>"
  have ok: "cpu_ok s" "lock_free (get_lk get s)"
    using run free by (auto simp: running_def sl_free_def get_lk_def)
  have run': "running p (put l (opened s))" for l
    using running_opened [OF run] by (simp add: running_def same_cpu_put ptable_put_sl)
  have "release_at (get_lk get) (put_lk get put) (put (?g (get (opened s))) (opened s)) = Inr (put (?g (get s)) s)"
    by (rule release_at_ok [OF ok framed_body]) simp
  then show ?thesis
    using free run' unfolding acquiresleep_def
    by (simp add: acquire_at_ok [OF ok] acquiresleep_loop_def get_opened sl_free_def running_def myproc_ok
        get_put_sl put_put_sl ptable_put_sl ptable_opened)
qed

lemma holdingsleep_ok:
  assumes run: "running p s" and lk: "lock_free (sl_lk (get s))"
  shows "holdingsleep get put s = Inr (sl_locked (get s) \<noteq> 0 \<and> sl_pid (get s) = p_pid (procs s ! p), s)"
proof -
  have ok: "cpu_ok s" "lock_free (get_lk get s)"
    using run lk by (auto simp: running_def get_lk_def)
  have "framed (\<lambda>t. t)"
    by (simp add: framed_def)
  from release_at_ok [OF ok this] show ?thesis
    using running_opened [OF run] unfolding holdingsleep_def
    by (simp add: acquire_at_ok [OF ok] get_opened running_def myproc_ok ptable_opened)
qed

lemma releasesleep_ok:
  assumes run: "sleep_ready p s" and lk: "lock_free (sl_lk (get s))"
  shows "releasesleep ch get put s = Inr (wakeup1 ch (put ((get s)\<lparr>sl_locked := 0, sl_pid := 0\<rparr>) s))"
proof -
  have ok: "cpu_ok s" "lock_free (get_lk get s)"
    using run lk by (auto simp: sleep_ready_def running_def get_lk_def)
  let ?g = "\<lambda>x :: sleeplock. x\<lparr>sl_locked := 0, sl_pid := 0\<rparr>"
  have "pt_ok (put l (opened s))" for l
    using running_opened [of p s] run
    by (simp add: pt_ok_def running_def same_cpu_put ptable_put_sl ptable_opened sleep_ready_def)
  moreover have "release_at (get_lk get) (put_lk get put) (wakeup1 ch (put (?g (get (opened s))) (opened s)))
      = Inr (wakeup1 ch (put (?g (get s)) s))"
    by (rule release_at_ok [OF ok framed_comp [OF framed_wakeup1 framed_body]]) simp
  ultimately show ?thesis
    unfolding releasesleep_def by (simp add: acquire_at_ok [OF ok] wakeup_ok)
qed

end

end
