(* ===== verification/Bio.thy ===== *)
theory Bio
  imports Sleeplock Vm
begin

text \<open>
  The buffer cache (bio.c, buf.h) on the in-memory disk of memide.c. The buffers are an array; \<open>prev\<close> and
  \<open>next\<close> are indices into it, and the index \<open>NBUF\<close> is \<open>bcache.head\<close>, which the C struct places right after
  the array. The disk is its blocks.
\<close>

section \<open>Data\<close>

abbreviation (input) NBUF :: nat where "NBUF \<equiv> 30"
abbreviation (input) HEAD :: nat where "HEAD \<equiv> 30"
abbreviation (input) BSIZE :: nat where "BSIZE \<equiv> 512"
abbreviation (input) B_VALID :: u32 where "B_VALID \<equiv> 2"
abbreviation (input) B_DIRTY :: u32 where "B_DIRTY \<equiv> 4"

record buf =
  b_flags :: u32
  b_dev :: u32
  b_blockno :: u32
  b_lock :: sleeplock
  b_refcnt :: u32
  b_prev :: nat
  b_next :: nat
  b_qnext :: "nat option"
  b_data :: "u8 list"

record bcache =
  bc_lock :: spinlock
  bc_buf :: "nat \<Rightarrow> buf"

text \<open>
  The cache, and the disk of memide.c: \<open>memdisk\<close> by blocks of \<open>BSIZE\<close> bytes and \<open>disksize\<close>. The code
  never reads \<open>disk_trace\<close>: it lists the block writes in the order the disk performs them, and serves to say what a
  crash between two of them leaves.
\<close>

record bio_st = vm_st +
  bcache :: bcache
  disksize :: u32
  memdisk :: "u32 \<Rightarrow> u8 list"
  disk_trace :: "(u32 \<times> u8 list) list"

abbreviation bufs :: "'a bio_st_scheme \<Rightarrow> nat \<Rightarrow> buf" where
  "bufs s \<equiv> bc_buf (bcache s)"

definition upd_buf :: "nat \<Rightarrow> (buf \<Rightarrow> buf) \<Rightarrow> 'a bio_st_scheme \<Rightarrow> 'a bio_st_scheme" where
  "upd_buf i f s = s\<lparr>bcache := (bcache s)\<lparr>bc_buf := (bufs s)(i := f (bufs s i))\<rparr>\<rparr>"

definition put_bclock :: "spinlock \<Rightarrow> 'a bio_st_scheme \<Rightarrow> 'a bio_st_scheme" where
  "put_bclock l s = s\<lparr>bcache := (bcache s)\<lparr>bc_lock := l\<rparr>\<rparr>"

abbreviation acquire_bcache :: "'a bio_st_scheme \<Rightarrow> 'a bio_st_scheme stop + 'a bio_st_scheme" where
  "acquire_bcache \<equiv> acquire_at (\<lambda>s. bc_lock (bcache s)) put_bclock"

abbreviation release_bcache :: "'a bio_st_scheme \<Rightarrow> 'a bio_st_scheme stop + 'a bio_st_scheme" where
  "release_bcache \<equiv> release_at (\<lambda>s. bc_lock (bcache s)) put_bclock"

definition get_buflock :: "nat \<Rightarrow> 'a bio_st_scheme \<Rightarrow> sleeplock" where
  "get_buflock i s = b_lock (bufs s i)"

definition put_buflock :: "nat \<Rightarrow> sleeplock \<Rightarrow> 'a bio_st_scheme \<Rightarrow> 'a bio_st_scheme" where
  "put_buflock i l = upd_buf i (\<lambda>b. b\<lparr>b_lock := l\<rparr>)"

section \<open>The list of buffers\<close>

text \<open>Insert a buffer right after the head; take it out from between its neighbours.\<close>

definition link_head :: "nat \<Rightarrow> 'a bio_st_scheme \<Rightarrow> 'a bio_st_scheme" where
  "link_head b s =
     (let s = upd_buf b (\<lambda>x. x\<lparr>b_next := b_next (bufs s HEAD)\<rparr>) s;
          s = upd_buf b (\<lambda>x. x\<lparr>b_prev := HEAD\<rparr>) s;
          s = upd_buf (b_next (bufs s HEAD)) (\<lambda>x. x\<lparr>b_prev := b\<rparr>) s
      in upd_buf HEAD (\<lambda>x. x\<lparr>b_next := b\<rparr>) s)"

definition unlink_buf :: "nat \<Rightarrow> 'a bio_st_scheme \<Rightarrow> 'a bio_st_scheme" where
  "unlink_buf b s =
     (let s = upd_buf (b_next (bufs s b)) (\<lambda>x. x\<lparr>b_prev := b_prev (bufs s b)\<rparr>) s
      in upd_buf (b_prev (bufs s b)) (\<lambda>x. x\<lparr>b_next := b_next (bufs s b)\<rparr>) s)"

definition binit :: "'a bio_st_scheme \<Rightarrow> 'a bio_st_scheme" where
  "binit s =
     (let s = put_bclock (initlock ''bcache'') s;
          s = upd_buf HEAD (\<lambda>x. x\<lparr>b_prev := HEAD\<rparr>) s;
          s = upd_buf HEAD (\<lambda>x. x\<lparr>b_next := HEAD\<rparr>) s
      in fold (\<lambda>b s. link_head b (put_buflock b (initsleeplock ''buffer'') s)) [0..<NBUF] s)"

text \<open>
  The two searches of bget along the list, forwards for the block and backwards for a buffer to
  recycle. A list longer than the array would be a cycle that misses the head.
\<close>

fun find_cached :: "nat \<Rightarrow> u32 \<Rightarrow> u32 \<Rightarrow> nat \<Rightarrow> (nat \<Rightarrow> buf) \<Rightarrow> 's stop + nat option" where
  "find_cached 0 dev blockno b B = Inl Spin"
| "find_cached (Suc n) dev blockno b B =
     (if b = HEAD then Inr None
      else if b_dev (B b) = dev \<and> b_blockno (B b) = blockno then Inr (Some b)
      else find_cached n dev blockno (b_next (B b)) B)"

fun find_recycle :: "nat \<Rightarrow> nat \<Rightarrow> (nat \<Rightarrow> buf) \<Rightarrow> 's stop + nat option" where
  "find_recycle 0 b B = Inl Spin"
| "find_recycle (Suc n) b B =
     (if b = HEAD then Inr None
      else if b_refcnt (B b) = 0 \<and> b_flags (B b) AND B_DIRTY = 0 then Inr (Some b)
      else find_recycle n (b_prev (B b)) B)"

definition bget :: "u32 \<Rightarrow> u32 \<Rightarrow> 'a bio_st_scheme \<Rightarrow> 'a bio_st_scheme stop + nat \<times> 'a bio_st_scheme" where
  "bget dev blockno s =
     seq (acquire_bcache s) (\<lambda>s.
     seq (find_cached (Suc NBUF) dev blockno (b_next (bufs s HEAD)) (bufs s)) (\<lambda>r. case r of
       Some b \<Rightarrow>
         seq (release_bcache (upd_buf b (\<lambda>x. x\<lparr>b_refcnt := b_refcnt x + 1\<rparr>) s)) (\<lambda>s.
         seq (acquiresleep (Ch_buflock b) (get_buflock b) (put_buflock b) s) (\<lambda>s. Inr (b, s)))
     | None \<Rightarrow>
         seq (find_recycle (Suc NBUF) (b_prev (bufs s HEAD)) (bufs s)) (\<lambda>r. case r of
           Some b \<Rightarrow>
             seq (release_bcache (upd_buf b
               (\<lambda>x. x\<lparr>b_dev := dev, b_blockno := blockno, b_flags := 0, b_refcnt := 1\<rparr>) s)) (\<lambda>s.
             seq (acquiresleep (Ch_buflock b) (get_buflock b) (put_buflock b) s) (\<lambda>s. Inr (b, s)))
         | None \<Rightarrow> Inl (Panic ''bget: no buffers''))))"

section \<open>The in-memory disk\<close>

definition iderw :: "nat \<Rightarrow> 'a bio_st_scheme \<Rightarrow> 'a bio_st_scheme stop + 'a bio_st_scheme" where
  "iderw b s =
     seq (holdingsleep (get_buflock b) (put_buflock b) s) (\<lambda>(h, s).
     if \<not> h then Inl (Panic ''iderw: buf not locked'')
     else if b_flags (bufs s b) AND (B_VALID OR B_DIRTY) = B_VALID then Inl (Panic ''iderw: nothing to do'')
     else if b_dev (bufs s b) \<noteq> 1 then Inl (Panic ''iderw: request not for disk 1'')
     else if b_blockno (bufs s b) \<ge> disksize s then Inl (Panic ''iderw: block out of range'')
     else let n = b_blockno (bufs s b);
              s = (if b_flags (bufs s b) AND B_DIRTY \<noteq> 0
                   then let s = upd_buf b (\<lambda>x. x\<lparr>b_flags := b_flags x AND NOT B_DIRTY\<rparr>) s
                        in s\<lparr>memdisk := (memdisk s)(n := b_data (bufs s b)),
                             disk_trace := disk_trace s @ [(n, b_data (bufs s b))]\<rparr>
                   else upd_buf b (\<lambda>x. x\<lparr>b_data := memdisk s n\<rparr>) s)
          in Inr (upd_buf b (\<lambda>x. x\<lparr>b_flags := b_flags x OR B_VALID\<rparr>) s))"

section \<open>Reading, writing and releasing\<close>

definition bread :: "u32 \<Rightarrow> u32 \<Rightarrow> 'a bio_st_scheme \<Rightarrow> 'a bio_st_scheme stop + nat \<times> 'a bio_st_scheme" where
  "bread dev blockno s =
     seq (bget dev blockno s) (\<lambda>(b, s).
     if b_flags (bufs s b) AND B_VALID = 0 then seq (iderw b s) (\<lambda>s. Inr (b, s)) else Inr (b, s))"

definition bwrite :: "nat \<Rightarrow> 'a bio_st_scheme \<Rightarrow> 'a bio_st_scheme stop + 'a bio_st_scheme" where
  "bwrite b s =
     seq (holdingsleep (get_buflock b) (put_buflock b) s) (\<lambda>(h, s).
     if \<not> h then Inl (Panic ''bwrite'')
     else iderw b (upd_buf b (\<lambda>x. x\<lparr>b_flags := b_flags x OR B_DIRTY\<rparr>) s))"

definition brelse :: "nat \<Rightarrow> 'a bio_st_scheme \<Rightarrow> 'a bio_st_scheme stop + 'a bio_st_scheme" where
  "brelse b s =
     seq (holdingsleep (get_buflock b) (put_buflock b) s) (\<lambda>(h, s).
     if \<not> h then Inl (Panic ''brelse'')
     else seq (releasesleep (Ch_buflock b) (get_buflock b) (put_buflock b) s) (\<lambda>s.
     seq (acquire_bcache s) (\<lambda>s.
     let s = upd_buf b (\<lambda>x. x\<lparr>b_refcnt := b_refcnt x - 1\<rparr>) s;
         s = (if b_refcnt (bufs s b) = 0 then link_head b (unlink_buf b s) else s)
     in release_bcache s)))"

end
