(* ===== verification/Log.thy ===== *)
theory Log
  imports Bio
begin

text \<open>
  The redo log (log.c) and readsb of fs.c, which it calls. Blocks are lists of bytes; the on-disk log
  header is read and written at its byte offsets. The buffer that a routine changes is written back with its
  new contents by \<open>set_data\<close>.
\<close>

section \<open>Data\<close>

abbreviation (input) MAXOPBLOCKS :: int where "MAXOPBLOCKS \<equiv> 10"
abbreviation (input) LOGSIZE :: nat where "LOGSIZE \<equiv> 30"

record superblock =
  sb_size :: u32
  sb_nblocks :: u32
  sb_ninodes :: u32
  sb_nlog :: u32
  sb_logstart :: u32
  sb_inodestart :: u32
  sb_bmapstart :: u32

record logheader =
  lh_n :: int
  lh_block :: "u32 list"

record log =
  lg_lock :: spinlock
  lg_start :: int
  lg_size :: int
  lg_outstanding :: int
  lg_committing :: int
  lg_dev :: int
  lg_lh :: logheader

record log_st = bio_st +
  log :: log

definition upd_log :: "(log \<Rightarrow> log) \<Rightarrow> 'a log_st_scheme \<Rightarrow> 'a log_st_scheme" where
  "upd_log f s = s\<lparr>log := f (log s)\<rparr>"

definition put_loglock :: "spinlock \<Rightarrow> 'a log_st_scheme \<Rightarrow> 'a log_st_scheme" where
  "put_loglock l = upd_log (\<lambda>g. g\<lparr>lg_lock := l\<rparr>)"

abbreviation acquire_log :: "'a log_st_scheme \<Rightarrow> 'a log_st_scheme stop + 'a log_st_scheme" where
  "acquire_log \<equiv> acquire_at (\<lambda>s. lg_lock (log s)) put_loglock"

abbreviation release_log :: "'a log_st_scheme \<Rightarrow> 'a log_st_scheme stop + 'a log_st_scheme" where
  "release_log \<equiv> release_at (\<lambda>s. lg_lock (log s)) put_loglock"

abbreviation lh_count :: "'a log_st_scheme \<Rightarrow> int" where
  "lh_count s \<equiv> lh_n (lg_lh (log s))"

abbreviation lh_blocks :: "'a log_st_scheme \<Rightarrow> u32 list" where
  "lh_blocks s \<equiv> lh_block (lg_lh (log s))"

definition set_lh :: "(logheader \<Rightarrow> logheader) \<Rightarrow> 'a log_st_scheme \<Rightarrow> 'a log_st_scheme" where
  "set_lh f = upd_log (\<lambda>g. g\<lparr>lg_lh := f (lg_lh g)\<rparr>)"

definition set_data :: "nat \<Rightarrow> u8 list \<Rightarrow> 'a bio_st_scheme \<Rightarrow> 'a bio_st_scheme" where
  "set_data b d = upd_buf b (\<lambda>x. x\<lparr>b_data := d\<rparr>)"

text \<open>The block number of log slot \<open>i\<close>; the array has \<open>LOGSIZE\<close> entries.\<close>

definition lh_at :: "nat \<Rightarrow> 'a log_st_scheme \<Rightarrow> 's stop + u32" where
  "lh_at i s = (if i < length (lh_blocks s) then Inr (lh_blocks s ! i) else Inl Fault)"

section \<open>The superblock\<close>

definition superblock_of :: "u8 list \<Rightarrow> superblock" where
  "superblock_of d = \<lparr>sb_size = ld32 d 0, sb_nblocks = ld32 d 4, sb_ninodes = ld32 d 8, sb_nlog = ld32 d 12,
     sb_logstart = ld32 d 16, sb_inodestart = ld32 d 20, sb_bmapstart = ld32 d 24\<rparr>"

definition readsb :: "u32 \<Rightarrow> 'a bio_st_scheme \<Rightarrow> 'a bio_st_scheme stop + superblock \<times> 'a bio_st_scheme" where
  "readsb dev s =
     seq (bread dev 1 s) (\<lambda>(bp, s).
     let sb = superblock_of (b_data (bufs s bp))
     in seq (brelse bp s) (\<lambda>s. Inr (sb, s)))"

section \<open>Installing and recovering\<close>

definition install_one :: "nat \<Rightarrow> 'a log_st_scheme \<Rightarrow> 'a log_st_scheme stop + 'a log_st_scheme" where
  "install_one tail s =
     seq (bread (of_int (lg_dev (log s))) (of_int (lg_start (log s) + int tail + 1)) s) (\<lambda>(lbuf, s).
     seq (lh_at tail s) (\<lambda>dst.
     seq (bread (of_int (lg_dev (log s))) dst s) (\<lambda>(dbuf, s).
     seq (bwrite dbuf (set_data dbuf (b_data (bufs s lbuf)) s)) (\<lambda>s.
     seq (brelse lbuf s) (brelse dbuf)))))"

definition install_trans :: "'a log_st_scheme \<Rightarrow> 'a log_st_scheme stop + 'a log_st_scheme" where
  "install_trans s = fold_st install_one [0..<nat (lh_count s)] s"

definition read_head_slot :: "u8 list \<Rightarrow> nat \<Rightarrow> 'a log_st_scheme \<Rightarrow> 'a log_st_scheme stop + 'a log_st_scheme" where
  "read_head_slot d i s =
     (if i < LOGSIZE then Inr (set_lh (\<lambda>h. h\<lparr>lh_block := (lh_block h)[i := ld32 d (4 + 4 * i)]\<rparr>) s) else Inl Fault)"

definition read_head :: "'a log_st_scheme \<Rightarrow> 'a log_st_scheme stop + 'a log_st_scheme" where
  "read_head s =
     seq (bread (of_int (lg_dev (log s))) (of_int (lg_start (log s))) s) (\<lambda>(b, s).
     let d = b_data (bufs s b); s = set_lh (\<lambda>h. h\<lparr>lh_n := sint (ld32 d 0)\<rparr>) s
     in seq (fold_st (read_head_slot d) [0..<nat (lh_count s)] s) (brelse b))"

definition write_head_slot :: "nat \<Rightarrow> nat \<Rightarrow> 'a log_st_scheme \<Rightarrow> 'a log_st_scheme stop + 'a log_st_scheme" where
  "write_head_slot b i s =
     seq (lh_at i s) (\<lambda>n. Inr (set_data b (st32 (b_data (bufs s b)) (4 + 4 * i) n) s))"

definition write_head :: "'a log_st_scheme \<Rightarrow> 'a log_st_scheme stop + 'a log_st_scheme" where
  "write_head s =
     seq (bread (of_int (lg_dev (log s))) (of_int (lg_start (log s))) s) (\<lambda>(b, s).
     let s = set_data b (st32 (b_data (bufs s b)) 0 (of_int (lh_count s))) s
     in seq (fold_st (write_head_slot b) [0..<nat (lh_count s)] s) (\<lambda>s.
     seq (bwrite b s) (brelse b)))"

definition recover_from_log :: "'a log_st_scheme \<Rightarrow> 'a log_st_scheme stop + 'a log_st_scheme" where
  "recover_from_log s =
     seq (read_head s) (\<lambda>s.
     seq (install_trans s) (\<lambda>s.
     write_head (set_lh (\<lambda>h. h\<lparr>lh_n := 0\<rparr>) s)))"

text \<open>
  \<open>sizeof(struct logheader)\<close> is 124, less than \<open>BSIZE\<close>, so the check at the start of initlog never fails.
\<close>

definition initlog :: "int \<Rightarrow> 'a log_st_scheme \<Rightarrow> 'a log_st_scheme stop + 'a log_st_scheme" where
  "initlog dev s =
     seq (readsb (of_int dev) (put_loglock (initlock ''log'') s)) (\<lambda>(sb, s).
     recover_from_log (upd_log (\<lambda>g. g\<lparr>lg_start := sint (sb_logstart sb), lg_size := sint (sb_nlog sb), lg_dev := dev\<rparr>) s))"

section \<open>Transactions\<close>

text \<open>
  begin_op from the test of its loop on, with \<open>log.lock\<close> held; a process that slept continues there.
\<close>

definition begin_op_loop :: "'a log_st_scheme \<Rightarrow> 'a log_st_scheme stop + 'a log_st_scheme" where
  "begin_op_loop s =
     (if lg_committing (log s) \<noteq> 0 then sleep Ch_log (Some (\<lambda>s. lg_lock (log s), put_loglock)) s
      else if lh_count s + (lg_outstanding (log s) + 1) * MAXOPBLOCKS > int LOGSIZE
      then sleep Ch_log (Some (\<lambda>s. lg_lock (log s), put_loglock)) s
      else release_log (upd_log (\<lambda>g. g\<lparr>lg_outstanding := lg_outstanding g + 1\<rparr>) s))"

definition begin_op :: "'a log_st_scheme \<Rightarrow> 'a log_st_scheme stop + 'a log_st_scheme" where
  "begin_op s = seq (acquire_log s) begin_op_loop"

definition begin_op_resume :: "bool \<Rightarrow> nat \<Rightarrow> 'a log_st_scheme \<Rightarrow> 'a log_st_scheme stop + 'a log_st_scheme" where
  "begin_op_resume intena p s =
     seq (sleep_resume intena p (Some (\<lambda>s. lg_lock (log s), put_loglock)) s) begin_op_loop"

definition write_log_one :: "nat \<Rightarrow> 'a log_st_scheme \<Rightarrow> 'a log_st_scheme stop + 'a log_st_scheme" where
  "write_log_one tail s =
     seq (bread (of_int (lg_dev (log s))) (of_int (lg_start (log s) + int tail + 1)) s) (\<lambda>(dst, s).
     seq (lh_at tail s) (\<lambda>n.
     seq (bread (of_int (lg_dev (log s))) n s) (\<lambda>(src, s).
     seq (bwrite dst (set_data dst (b_data (bufs s src)) s)) (\<lambda>s.
     seq (brelse src s) (brelse dst)))))"

definition write_log :: "'a log_st_scheme \<Rightarrow> 'a log_st_scheme stop + 'a log_st_scheme" where
  "write_log s = fold_st write_log_one [0..<nat (lh_count s)] s"

definition commit :: "'a log_st_scheme \<Rightarrow> 'a log_st_scheme stop + 'a log_st_scheme" where
  "commit s =
     (if lh_count s > 0 then
        seq (write_log s) (\<lambda>s.
        seq (write_head s) (\<lambda>s.
        seq (install_trans s) (\<lambda>s.
        write_head (set_lh (\<lambda>h. h\<lparr>lh_n := 0\<rparr>) s))))
      else Inr s)"

definition end_op :: "'a log_st_scheme \<Rightarrow> 'a log_st_scheme stop + 'a log_st_scheme" where
  "end_op s =
     seq (acquire_log s) (\<lambda>s.
     let s = upd_log (\<lambda>g. g\<lparr>lg_outstanding := lg_outstanding g - 1\<rparr>) s
     in if lg_committing (log s) \<noteq> 0 then Inl (Panic ''log.committing'')
        else if lg_outstanding (log s) = 0
        then seq (release_log (upd_log (\<lambda>g. g\<lparr>lg_committing := 1\<rparr>) s)) (\<lambda>s.
             seq (commit s) (\<lambda>s.
             seq (acquire_log s) (\<lambda>s.
             seq (wakeup Ch_log (upd_log (\<lambda>g. g\<lparr>lg_committing := 0\<rparr>) s)) release_log)))
        else seq (wakeup Ch_log s) release_log)"

text \<open>The slot of a block in the log: the one that already has it (absorption), or the next free one.\<close>

fun log_slot :: "u32 list \<Rightarrow> nat \<Rightarrow> u32 \<Rightarrow> nat" where
  "log_slot bs 0 n = 0"
| "log_slot [] (Suc k) n = 0"
| "log_slot (b # bs) (Suc k) n = (if b = n then 0 else Suc (log_slot bs k n))"

definition log_write :: "nat \<Rightarrow> 'a log_st_scheme \<Rightarrow> 'a log_st_scheme stop + 'a log_st_scheme" where
  "log_write b s =
     (if lh_count s \<ge> int LOGSIZE \<or> lh_count s \<ge> lg_size (log s) - 1 then Inl (Panic ''too big a transaction'')
      else if lg_outstanding (log s) < 1 then Inl (Panic ''log_write outside of trans'')
      else seq (acquire_log s) (\<lambda>s.
        let n = b_blockno (bufs s b); i = log_slot (lh_blocks s) (nat (lh_count s)) n;
            s = set_lh (\<lambda>h. h\<lparr>lh_block := (lh_block h)[i := n]\<rparr>) s;
            s = (if int i = lh_count s then set_lh (\<lambda>h. h\<lparr>lh_n := lh_n h + 1\<rparr>) s else s);
            s = upd_buf b (\<lambda>x. x\<lparr>b_flags := b_flags x OR B_DIRTY\<rparr>) s
        in release_log s))"

end
