(* ===== verification/Inode.thy ===== *)
theory Inode
  imports Log
begin

text \<open>
  Disk blocks and inodes (the first half of fs.c, with fs.h, file.h and stat.h): the block bitmap, the inode
  cache, reading and writing inodes on disk, the block map of a file and truncation. An inode is
  named by its index in \<open>icache.inode\<close>.
\<close>

section \<open>Data\<close>

abbreviation (input) NINODE :: nat where "NINODE \<equiv> 50"
abbreviation (input) NDIRECT :: nat where "NDIRECT \<equiv> 12"
abbreviation (input) NINDIRECT :: nat where "NINDIRECT \<equiv> 128"
abbreviation (input) MAXFILE :: nat where "MAXFILE \<equiv> 140"
abbreviation (input) BPB :: nat where "BPB \<equiv> 4096"
abbreviation (input) IPB :: nat where "IPB \<equiv> 8"
abbreviation (input) ROOTDEV :: u32 where "ROOTDEV \<equiv> 1"
abbreviation (input) ROOTINO :: u32 where "ROOTINO \<equiv> 1"
abbreviation (input) T_DIR :: u16 where "T_DIR \<equiv> 1"
abbreviation (input) T_FILE :: u16 where "T_FILE \<equiv> 2"
abbreviation (input) T_DEV :: u16 where "T_DEV \<equiv> 3"

record inode =
  i_dev :: u32
  i_inum :: u32
  i_ref :: int
  i_lock :: sleeplock
  i_valid :: int
  i_type :: u16
  i_major :: u16
  i_minor :: u16
  i_nlink :: u16
  i_size :: u32
  i_addrs :: "u32 list"

record icache =
  ic_lock :: spinlock
  ic_inode :: "nat \<Rightarrow> inode"

record fs_st = log_st +
  icache :: icache
  sb :: superblock

record stat =
  st_type :: u16
  st_dev :: u32
  st_ino :: u32
  st_nlink :: u16
  st_size :: u32

abbreviation inodes :: "'a fs_st_scheme \<Rightarrow> nat \<Rightarrow> inode" where
  "inodes s \<equiv> ic_inode (icache s)"

definition upd_inode :: "nat \<Rightarrow> (inode \<Rightarrow> inode) \<Rightarrow> 'a fs_st_scheme \<Rightarrow> 'a fs_st_scheme" where
  "upd_inode i f s = s\<lparr>icache := (icache s)\<lparr>ic_inode := (inodes s)(i := f (inodes s i))\<rparr>\<rparr>"

definition put_iclock :: "spinlock \<Rightarrow> 'a fs_st_scheme \<Rightarrow> 'a fs_st_scheme" where
  "put_iclock l s = s\<lparr>icache := (icache s)\<lparr>ic_lock := l\<rparr>\<rparr>"

abbreviation acquire_icache :: "'a fs_st_scheme \<Rightarrow> 'a fs_st_scheme stop + 'a fs_st_scheme" where
  "acquire_icache \<equiv> acquire_at (\<lambda>s. ic_lock (icache s)) put_iclock"

abbreviation release_icache :: "'a fs_st_scheme \<Rightarrow> 'a fs_st_scheme stop + 'a fs_st_scheme" where
  "release_icache \<equiv> release_at (\<lambda>s. ic_lock (icache s)) put_iclock"

definition get_inodelock :: "nat \<Rightarrow> 'a fs_st_scheme \<Rightarrow> sleeplock" where
  "get_inodelock i s = i_lock (inodes s i)"

definition put_inodelock :: "nat \<Rightarrow> sleeplock \<Rightarrow> 'a fs_st_scheme \<Rightarrow> 'a fs_st_scheme" where
  "put_inodelock i l = upd_inode i (\<lambda>x. x\<lparr>i_lock := l\<rparr>)"

section \<open>Blocks\<close>

definition IBLOCK :: "u32 \<Rightarrow> superblock \<Rightarrow> u32" where
  "IBLOCK i x = i div 8 + sb_inodestart x"

definition BBLOCK :: "u32 \<Rightarrow> superblock \<Rightarrow> u32" where
  "BBLOCK b x = b div 4096 + sb_bmapstart x"

definition bzero :: "u32 \<Rightarrow> u32 \<Rightarrow> 'a log_st_scheme \<Rightarrow> 'a log_st_scheme stop + 'a log_st_scheme" where
  "bzero dev bno s =
     seq (bread dev bno s) (\<lambda>(bp, s).
     seq (log_write bp (set_data bp (replicate BSIZE 0) s)) (brelse bp))"

text \<open>Bit \<open>bi\<close> of a bitmap block.\<close>

definition bit_mask :: "nat \<Rightarrow> u8" where
  "bit_mask bi = push_bit (bi mod 8) 1"

definition bit_set :: "u8 list \<Rightarrow> nat \<Rightarrow> bool" where
  "bit_set d bi \<longleftrightarrow> d ! (bi div 8) AND bit_mask bi \<noteq> 0"

text \<open>The inner loop of balloc from bit \<open>bi\<close> on, with \<open>k\<close> bits of the block left.\<close>

fun balloc_scan :: "nat \<Rightarrow> nat \<Rightarrow> nat \<Rightarrow> u8 list \<Rightarrow> nat \<Rightarrow> nat option" where
  "balloc_scan 0 sz b d bi = None"
| "balloc_scan (Suc k) sz b d bi =
     (if b + bi < sz then if \<not> bit_set d bi then Some bi else balloc_scan k sz b d (bi + 1) else None)"

text \<open>The outer loop of balloc over the block numbers \<open>b\<close>, which are below the size of a disk and far from the bounds of an int.\<close>

fun balloc_loop :: "u32 \<Rightarrow> nat list \<Rightarrow> 'a fs_st_scheme \<Rightarrow> 'a fs_st_scheme stop + u32 \<times> 'a fs_st_scheme" where
  "balloc_loop dev [] s = Inl (Panic ''balloc: out of blocks'')"
| "balloc_loop dev (b # bs) s =
     seq (bread dev (BBLOCK (of_nat b) (sb s)) s) (\<lambda>(bp, s).
     let d = b_data (bufs s bp)
     in case balloc_scan BPB (unat (sb_size (sb s))) b d 0 of
          Some bi \<Rightarrow>
            seq (log_write bp (set_data bp (d[bi div 8 := d ! (bi div 8) OR bit_mask bi]) s)) (\<lambda>s.
            seq (brelse bp s) (\<lambda>s.
            seq (bzero dev (of_nat (b + bi)) s) (\<lambda>s. Inr (of_nat (b + bi), s))))
        | None \<Rightarrow> seq (brelse bp s) (balloc_loop dev bs))"

definition balloc :: "u32 \<Rightarrow> 'a fs_st_scheme \<Rightarrow> 'a fs_st_scheme stop + u32 \<times> 'a fs_st_scheme" where
  "balloc dev s = balloc_loop dev (steps (unat (sb_size (sb s))) BPB) s"

definition bfree :: "u32 \<Rightarrow> u32 \<Rightarrow> 'a fs_st_scheme \<Rightarrow> 'a fs_st_scheme stop + 'a fs_st_scheme" where
  "bfree dev b s =
     seq (bread dev (BBLOCK b (sb s)) s) (\<lambda>(bp, s).
     let bi = unat b mod BPB; d = b_data (bufs s bp)
     in if \<not> bit_set d bi then Inl (Panic ''freeing free block'')
        else seq (log_write bp (set_data bp (d[bi div 8 := d ! (bi div 8) AND NOT (bit_mask bi)]) s)) (brelse bp))"

section \<open>The inode cache\<close>

text \<open>iinit also prints the superblock on the console.\<close>

definition iinit :: "u32 \<Rightarrow> 'a fs_st_scheme \<Rightarrow> 'a fs_st_scheme stop + 'a fs_st_scheme" where
  "iinit dev s =
     (let s = put_iclock (initlock ''icache'') s;
          s = fold (\<lambda>i. put_inodelock i (initsleeplock ''inode'')) [0..<NINODE] s
      in seq (readsb dev s) (\<lambda>(x, s). Inr (s\<lparr>sb := x\<rparr>)))"

text \<open>The scan of iget: the entry that caches the inode, and the first free entry seen before.\<close>

fun iget_scan :: "(nat \<Rightarrow> inode) \<Rightarrow> u32 \<Rightarrow> u32 \<Rightarrow> nat list \<Rightarrow> nat option \<Rightarrow> nat option \<times> nat option" where
  "iget_scan I dev inum [] e0 = (None, e0)"
| "iget_scan I dev inum (ip # ips) e0 =
     (if i_ref (I ip) > 0 \<and> i_dev (I ip) = dev \<and> i_inum (I ip) = inum then (Some ip, e0)
      else iget_scan I dev inum ips (if e0 = None \<and> i_ref (I ip) = 0 then Some ip else e0))"

definition iget :: "u32 \<Rightarrow> u32 \<Rightarrow> 'a fs_st_scheme \<Rightarrow> 'a fs_st_scheme stop + nat \<times> 'a fs_st_scheme" where
  "iget dev inum s =
     seq (acquire_icache s) (\<lambda>s.
     case iget_scan (inodes s) dev inum [0..<NINODE] None of
       (Some ip, _) \<Rightarrow>
         seq (release_icache (upd_inode ip (\<lambda>x. x\<lparr>i_ref := i_ref x + 1\<rparr>) s)) (\<lambda>s. Inr (ip, s))
     | (None, None) \<Rightarrow> Inl (Panic ''iget: no inodes'')
     | (None, Some ip) \<Rightarrow>
         seq (release_icache (upd_inode ip (\<lambda>x. x\<lparr>i_dev := dev, i_inum := inum, i_ref := 1, i_valid := 0\<rparr>) s))
           (\<lambda>s. Inr (ip, s)))"

definition idup :: "nat \<Rightarrow> 'a fs_st_scheme \<Rightarrow> 'a fs_st_scheme stop + nat \<times> 'a fs_st_scheme" where
  "idup ip s =
     seq (acquire_icache s) (\<lambda>s.
     seq (release_icache (upd_inode ip (\<lambda>x. x\<lparr>i_ref := i_ref x + 1\<rparr>) s)) (\<lambda>s. Inr (ip, s)))"

section \<open>Inodes on disk\<close>

text \<open>
  struct dinode at its byte offset in a block: type, major, minor and nlink of two bytes each, size and the
  13 block addresses of four bytes each.
\<close>

definition dinode_off :: "u32 \<Rightarrow> nat" where
  "dinode_off inum = (unat inum mod IPB) * 64"

definition dinode_load :: "u8 list \<Rightarrow> nat \<Rightarrow> inode \<Rightarrow> inode" where
  "dinode_load d k x = x\<lparr>i_type := ld16 d k, i_major := ld16 d (k + 2), i_minor := ld16 d (k + 4),
     i_nlink := ld16 d (k + 6), i_size := ld32 d (k + 8), i_addrs := map (\<lambda>i. ld32 d (k + 12 + 4 * i)) [0..<NDIRECT + 1]\<rparr>"

definition dinode_store :: "inode \<Rightarrow> u8 list \<Rightarrow> nat \<Rightarrow> u8 list" where
  "dinode_store x d k =
     (let d = st16 d k (i_type x); d = st16 d (k + 2) (i_major x); d = st16 d (k + 4) (i_minor x);
          d = st16 d (k + 6) (i_nlink x); d = st32 d (k + 8) (i_size x)
      in fold (\<lambda>i d. st32 d (k + 12 + 4 * i) (i_addrs x ! i)) [0..<NDIRECT + 1] d)"

definition dinode_fresh :: "u16 \<Rightarrow> u8 list \<Rightarrow> nat \<Rightarrow> u8 list" where
  "dinode_fresh type d k = st16 (take k d @ replicate 64 0 @ drop (k + 64) d) k type"

fun ialloc_loop :: "u32 \<Rightarrow> u16 \<Rightarrow> nat list \<Rightarrow> 'a fs_st_scheme \<Rightarrow> 'a fs_st_scheme stop + nat \<times> 'a fs_st_scheme" where
  "ialloc_loop dev type [] s = Inl (Panic ''ialloc: no inodes'')"
| "ialloc_loop dev type (inum # is) s =
     seq (bread dev (IBLOCK (of_nat inum) (sb s)) s) (\<lambda>(bp, s).
     let d = b_data (bufs s bp); k = dinode_off (of_nat inum)
     in if ld16 d k = 0
        then seq (log_write bp (set_data bp (dinode_fresh type d k) s)) (\<lambda>s.
             seq (brelse bp s) (iget dev (of_nat inum)))
        else seq (brelse bp s) (ialloc_loop dev type is))"

definition ialloc :: "u32 \<Rightarrow> u16 \<Rightarrow> 'a fs_st_scheme \<Rightarrow> 'a fs_st_scheme stop + nat \<times> 'a fs_st_scheme" where
  "ialloc dev type s = ialloc_loop dev type [1..<unat (sb_ninodes (sb s))] s"

definition iupdate :: "nat \<Rightarrow> 'a fs_st_scheme \<Rightarrow> 'a fs_st_scheme stop + 'a fs_st_scheme" where
  "iupdate ip s =
     (let x = inodes s ip
      in seq (bread (i_dev x) (IBLOCK (i_inum x) (sb s)) s) (\<lambda>(bp, s).
         seq (log_write bp (set_data bp (dinode_store x (b_data (bufs s bp)) (dinode_off (i_inum x))) s)) (brelse bp)))"

definition ilock :: "nat \<Rightarrow> 'a fs_st_scheme \<Rightarrow> 'a fs_st_scheme stop + 'a fs_st_scheme" where
  "ilock ip s =
     (if i_ref (inodes s ip) < 1 then Inl (Panic ''ilock'')
      else seq (acquiresleep (Ch_inodelock ip) (get_inodelock ip) (put_inodelock ip) s) (\<lambda>s.
      if i_valid (inodes s ip) = 0
      then seq (bread (i_dev (inodes s ip)) (IBLOCK (i_inum (inodes s ip)) (sb s)) s) (\<lambda>(bp, s).
           let s = upd_inode ip (dinode_load (b_data (bufs s bp)) (dinode_off (i_inum (inodes s ip)))) s
           in seq (brelse bp s) (\<lambda>s.
              let s = upd_inode ip (\<lambda>x. x\<lparr>i_valid := 1\<rparr>) s
              in if i_type (inodes s ip) = 0 then Inl (Panic ''ilock: no type'') else Inr s))
      else Inr s))"

definition iunlock :: "nat \<Rightarrow> 'a fs_st_scheme \<Rightarrow> 'a fs_st_scheme stop + 'a fs_st_scheme" where
  "iunlock ip s =
     seq (holdingsleep (get_inodelock ip) (put_inodelock ip) s) (\<lambda>(h, s).
     if \<not> h \<or> i_ref (inodes s ip) < 1 then Inl (Panic ''iunlock'')
     else releasesleep (Ch_inodelock ip) (get_inodelock ip) (put_inodelock ip) s)"

section \<open>The contents of an inode\<close>

definition set_addr :: "nat \<Rightarrow> nat \<Rightarrow> u32 \<Rightarrow> 'a fs_st_scheme \<Rightarrow> 'a fs_st_scheme" where
  "set_addr ip i a = upd_inode ip (\<lambda>x. x\<lparr>i_addrs := (i_addrs x)[i := a]\<rparr>)"

text \<open>The block of slot \<open>i\<close> of \<open>ip->addrs\<close>, allocated if the slot is e0.\<close>

definition bmap_slot :: "nat \<Rightarrow> nat \<Rightarrow> 'a fs_st_scheme \<Rightarrow> 'a fs_st_scheme stop + u32 \<times> 'a fs_st_scheme" where
  "bmap_slot ip i s =
     (let addr = i_addrs (inodes s ip) ! i
      in if addr = 0 then seq (balloc (i_dev (inodes s ip)) s) (\<lambda>(addr, s). Inr (addr, set_addr ip i addr s))
         else Inr (addr, s))"

definition bmap :: "nat \<Rightarrow> u32 \<Rightarrow> 'a fs_st_scheme \<Rightarrow> 'a fs_st_scheme stop + u32 \<times> 'a fs_st_scheme" where
  "bmap ip bn s =
     (if bn < 12 then bmap_slot ip (unat bn) s
      else if bn - 12 < 128
      then seq (bmap_slot ip NDIRECT s) (\<lambda>(addr, s).
           seq (bread (i_dev (inodes s ip)) addr s) (\<lambda>(bp, s).
           let k = 4 * unat (bn - 12); addr = ld32 (b_data (bufs s bp)) k
           in if addr = 0
              then seq (balloc (i_dev (inodes s ip)) s) (\<lambda>(addr, s).
                   seq (log_write bp (set_data bp (st32 (b_data (bufs s bp)) k addr) s)) (\<lambda>s.
                   seq (brelse bp s) (\<lambda>s. Inr (addr, s))))
              else seq (brelse bp s) (\<lambda>s. Inr (addr, s))))
      else Inl (Panic ''bmap: out of range''))"

definition itrunc_direct :: "nat \<Rightarrow> nat \<Rightarrow> 'a fs_st_scheme \<Rightarrow> 'a fs_st_scheme stop + 'a fs_st_scheme" where
  "itrunc_direct ip i s =
     (let a = i_addrs (inodes s ip) ! i
      in if a \<noteq> 0 then seq (bfree (i_dev (inodes s ip)) a s) (\<lambda>s. Inr (set_addr ip i 0 s)) else Inr s)"

definition itrunc_entry :: "nat \<Rightarrow> nat \<Rightarrow> nat \<Rightarrow> 'a fs_st_scheme \<Rightarrow> 'a fs_st_scheme stop + 'a fs_st_scheme" where
  "itrunc_entry ip bp j s =
     (let a = ld32 (b_data (bufs s bp)) (4 * j)
      in if a \<noteq> 0 then bfree (i_dev (inodes s ip)) a s else Inr s)"

definition itrunc_indirect :: "nat \<Rightarrow> 'a fs_st_scheme \<Rightarrow> 'a fs_st_scheme stop + 'a fs_st_scheme" where
  "itrunc_indirect ip s =
     (let a = i_addrs (inodes s ip) ! NDIRECT
      in if a \<noteq> 0
         then seq (bread (i_dev (inodes s ip)) a s) (\<lambda>(bp, s).
              seq (fold_st (itrunc_entry ip bp) [0..<NINDIRECT] s) (\<lambda>s.
              seq (brelse bp s) (\<lambda>s.
              seq (bfree (i_dev (inodes s ip)) (i_addrs (inodes s ip) ! NDIRECT) s) (\<lambda>s. Inr (set_addr ip NDIRECT 0 s)))))
         else Inr s)"

definition itrunc :: "nat \<Rightarrow> 'a fs_st_scheme \<Rightarrow> 'a fs_st_scheme stop + 'a fs_st_scheme" where
  "itrunc ip s =
     seq (fold_st (itrunc_direct ip) [0..<NDIRECT] s) (\<lambda>s.
     seq (itrunc_indirect ip s) (\<lambda>s.
     iupdate ip (upd_inode ip (\<lambda>x. x\<lparr>i_size := 0\<rparr>) s)))"

definition iput :: "nat \<Rightarrow> 'a fs_st_scheme \<Rightarrow> 'a fs_st_scheme stop + 'a fs_st_scheme" where
  "iput ip s =
     seq (acquiresleep (Ch_inodelock ip) (get_inodelock ip) (put_inodelock ip) s) (\<lambda>s.
     seq (if i_valid (inodes s ip) \<noteq> 0 \<and> i_nlink (inodes s ip) = 0
          then seq (acquire_icache s) (\<lambda>s.
               let r = i_ref (inodes s ip)
               in seq (release_icache s) (\<lambda>s.
                  if r = 1
                  then seq (itrunc ip s) (\<lambda>s.
                       seq (iupdate ip (upd_inode ip (\<lambda>x. x\<lparr>i_type := 0\<rparr>) s)) (\<lambda>s.
                       Inr (upd_inode ip (\<lambda>x. x\<lparr>i_valid := 0\<rparr>) s)))
                  else Inr s))
          else Inr s) (\<lambda>s.
     seq (releasesleep (Ch_inodelock ip) (get_inodelock ip) (put_inodelock ip) s) (\<lambda>s.
     seq (acquire_icache s) (\<lambda>s. release_icache (upd_inode ip (\<lambda>x. x\<lparr>i_ref := i_ref x - 1\<rparr>) s)))))"

definition iunlockput :: "nat \<Rightarrow> 'a fs_st_scheme \<Rightarrow> 'a fs_st_scheme stop + 'a fs_st_scheme" where
  "iunlockput ip s = seq (iunlock ip s) (iput ip)"

definition stati :: "nat \<Rightarrow> 'a fs_st_scheme \<Rightarrow> stat" where
  "stati ip s =
     (let x = inodes s ip
      in \<lparr>st_type = i_type x, st_dev = i_dev x, st_ino = i_inum x, st_nlink = i_nlink x, st_size = i_size x\<rparr>)"

end
