(* ===== verification/Digits.thy ===== *)
theory Digits
  imports Prelude
begin

text \<open>
  Numbers as text: the loop that printint of console.c and printint of printf.c share, and the arguments of their
  callers. A string is the list of its bytes without the terminator.
\<close>

definition bytes :: "string \<Rightarrow> u8 list" where
  "bytes = map of_char"

text \<open>
  The digits of a number from the least significant on, as the loop of printint stores them in \<open>buf\<close>; the loop
  runs once even for 0.
\<close>

function digits_rev :: "string \<Rightarrow> nat \<Rightarrow> nat \<Rightarrow> u8 list" where
  "digits_rev ds base x =
     of_char (ds ! (x mod base)) # (if base < 2 \<or> x div base = 0 then [] else digits_rev ds base (x div base))"
  by pat_completeness auto
termination
  by (relation "measure (\<lambda>(ds, base, x). x)") (auto intro!: div_less_dividend gr0I)

declare digits_rev.simps [simp del]

text \<open>The characters printint stores; \<open>-xx\<close> is taken in 32 bits.\<close>

definition printint_buf :: "string \<Rightarrow> u32 \<Rightarrow> nat \<Rightarrow> bool \<Rightarrow> u8 list" where
  "printint_buf ds xx base signed_p =
     (let neg = (signed_p \<and> sint xx < 0); x = (if neg then - xx else xx)
      in digits_rev ds base (unat x) @ (if neg then bytes ''-'' else []))"

text \<open>
  The arguments after the format: a number, or a pointer to a string. Printing a number where the
  format asks for a string, or running out of arguments, reads what is not there.
\<close>

datatype parg = PInt u32 | PStr "u8 list option"

section \<open>Reading a number back\<close>

definition digit_idx :: "string \<Rightarrow> u8 \<Rightarrow> nat" where
  "digit_idx ds c = length (takeWhile (\<lambda>d. of_char d \<noteq> c) ds)"

definition num_value :: "string \<Rightarrow> nat \<Rightarrow> u8 list \<Rightarrow> nat" where
  "num_value ds base cs = foldl (\<lambda>n c. n * base + digit_idx ds c) 0 cs"

definition int_value :: "string \<Rightarrow> nat \<Rightarrow> u8 list \<Rightarrow> int" where
  "int_value ds base cs = (if cs \<noteq> [] \<and> hd cs = 45 then - int (num_value ds base (tl cs)) else int (num_value ds base cs))"

text \<open>The two digit strings of the sources: lower case in the kernel, upper case in the user library.\<close>

abbreviation (input) kdigits :: string where "kdigits \<equiv> ''0123456789abcdef''"
abbreviation (input) udigits :: string where "udigits \<equiv> ''0123456789ABCDEF''"

lemma digit_chars:
  "\<forall>k \<in> set [0..<16]. digit_idx kdigits (of_char (kdigits ! k)) = k \<and> (of_char (kdigits ! k) :: u8) \<noteq> 45"
  "\<forall>k \<in> set [0..<16]. digit_idx udigits (of_char (udigits ! k)) = k \<and> (of_char (udigits ! k) :: u8) \<noteq> 45"
  by (simp_all add: upt_conv_Cons digit_idx_def of_char_def)

lemma digit_ok:
  assumes "ds \<in> {kdigits, udigits}" "k < 16"
  shows "digit_idx ds (of_char (ds ! k)) = k" "(of_char (ds ! k) :: u8) \<noteq> 45"
  using assms digit_chars by auto

lemma num_value_snoc [simp]: "num_value ds base (cs @ [c]) = num_value ds base cs * base + digit_idx ds c"
  by (simp add: num_value_def)

lemma num_value_digits:
  assumes "ds \<in> {kdigits, udigits}" "2 \<le> base" "base \<le> 16"
  shows "num_value ds base (rev (digits_rev ds base x)) = x"
proof (induction x rule: less_induct)
  case (less x)
  have d: "digit_idx ds (of_char (ds ! (x mod base))) = x mod base"
    using assms by (intro digit_ok(1)) (auto intro: less_le_trans [OF mod_less_divisor])
  show ?case
  proof (cases "x div base = 0")
    case True
    then show ?thesis
      using assms(2) d by (subst digits_rev.simps) (simp add: num_value_def div_eq_0_iff)
  next
    case False
    then have "x div base < x"
      using assms(2) by (intro div_less_dividend) (auto intro!: gr0I)
    then show ?thesis
      using False assms(2) d less.IH by (subst digits_rev.simps) simp
  qed
qed

lemma digits_rev_chars: "c \<in> set (digits_rev ds base x) \<Longrightarrow> 2 \<le> base \<Longrightarrow> \<exists>k < base. c = of_char (ds ! k)"
proof (induction x rule: less_induct)
  case (less x)
  show ?case
  proof (cases "x div base = 0 \<or> c = of_char (ds ! (x mod base))")
    case True
    then show ?thesis
      using less.prems by (subst (asm) (1) digits_rev.simps) (auto intro!: exI [of _ "x mod base"])
  next
    case False
    then have "x div base < x" "c \<in> set (digits_rev ds base (x div base))"
      using less.prems by (auto intro!: div_less_dividend gr0I) (subst (asm) (1) digits_rev.simps, auto)
    then show ?thesis
      using less.IH less.prems(2) by blast
  qed
qed

lemma digits_rev_length: "2 \<le> base \<Longrightarrow> x < base ^ n \<Longrightarrow> 0 < n \<Longrightarrow> length (digits_rev ds base x) \<le> n"
proof (induction n arbitrary: x)
  case (Suc n)
  show ?case
  proof (cases "x div base = 0")
    case True
    then show ?thesis
      by (subst digits_rev.simps) simp
  next
    case False
    have lt: "x div base < base ^ n"
      using Suc.prems(1,2) by (simp add: less_mult_imp_div_less mult.commute)
    then have "0 < n"
      using False by (cases n) auto
    then show ?thesis
      using Suc.IH [OF Suc.prems(1) lt] by (subst digits_rev.simps) simp
  qed
qed simp

lemma uint_of_int_id: "0 \<le> k \<Longrightarrow> k < 2 ^ 32 \<Longrightarrow> uint (of_int k :: u32) = k"
  by (simp add: uint_word_of_int)

lemma sint_abs:
  fixes xx :: u32
  shows "sint xx < 0 \<Longrightarrow> int (unat (- xx)) = - sint xx" "0 \<le> sint xx \<Longrightarrow> int (unat xx) = sint xx"
proof -
  have b: "- (2 ^ 31) \<le> sint xx" "sint xx < 2 ^ 31"
    using sint_greater_eq [of xx] sint_lt [of xx] by simp_all
  show "sint xx < 0 \<Longrightarrow> int (unat (- xx)) = - sint xx"
    using b uint_of_int_id [of "- sint xx"] by simp
  show "0 \<le> sint xx \<Longrightarrow> int (unat xx) = sint xx"
    using b uint_of_int_id [of "sint xx"] by simp
qed

lemma digits_rev_Cons: "digits_rev ds base x \<noteq> []"
  by (subst digits_rev.simps) simp

lemma int_value_digits:
  assumes "ds \<in> {kdigits, udigits}" "2 \<le> base" "base \<le> 16"
  shows "int_value ds base (rev (digits_rev ds base x)) = int x" "int_value ds base (45 # rev (digits_rev ds base x)) = - int x"
proof -
  have "last (digits_rev ds base x) \<in> set (digits_rev ds base x)"
    by (rule last_in_set [OF digits_rev_Cons])
  then obtain k where k: "k < base" "last (digits_rev ds base x) = of_char (ds ! k)"
    using digits_rev_chars assms(2) by blast
  then have "hd (rev (digits_rev ds base x)) \<noteq> 45"
    using digit_ok(2) [OF assms(1), of k] assms(3) by (simp add: hd_rev)
  then show "int_value ds base (rev (digits_rev ds base x)) = int x"
    by (simp add: int_value_def num_value_digits [OF assms])
  show "int_value ds base (45 # rev (digits_rev ds base x)) = - int x"
    by (simp add: int_value_def num_value_digits [OF assms])
qed

lemma printint_value:
  assumes "ds \<in> {kdigits, udigits}" "2 \<le> base" "base \<le> 16"
  shows "int_value ds base (rev (printint_buf ds xx base True)) = sint xx"
    "int_value ds base (rev (printint_buf ds xx base False)) = uint xx"
  using int_value_digits [OF assms] sint_abs [of xx]
  by (auto simp: printint_buf_def Let_def bytes_def of_char_def)

lemma printint_length:
  assumes "2 \<le> base" "2 ^ 32 \<le> base ^ n" "0 < n"
  shows "length (printint_buf ds xx base b) \<le> Suc n"
proof -
  have "unat y < base ^ n" for y :: u32
    using unat_less32 [of y] assms(2) by simp
  then show ?thesis
    using digits_rev_length [OF assms(1) _ assms(3)] by (auto simp: printint_buf_def Let_def bytes_def intro: le_SucI)
qed

text \<open>
  C32. printint prints the number. With the digits of the kernel and with those of the user library, for every 32-bit value,
  reading back the characters it prints gives the signed value in base 10 and the unsigned value in base 16, the most
  negative number included; and the characters fit the 16 bytes of \<open>buf\<close>.
\<close>

theorem printint_prints_value:
  "int_value kdigits 10 (rev (printint_buf kdigits xx 10 True)) = sint xx \<and>
   int_value kdigits 16 (rev (printint_buf kdigits xx 16 False)) = uint xx \<and>
   int_value udigits 10 (rev (printint_buf udigits xx 10 True)) = sint xx \<and>
   int_value udigits 16 (rev (printint_buf udigits xx 16 False)) = uint xx \<and>
   length (printint_buf ds xx 10 b) \<le> 11 \<and> length (printint_buf ds xx 16 b) \<le> 9"
  using printint_value [of kdigits] printint_value [of udigits] printint_length [of 10 10 ds xx b] printint_length [of 16 8 ds xx b]
  by simp

end
