(* ===== verification/Console.thy ===== *)
theory Console
  imports Inode Digits
begin

text \<open>
  Console input and output (console.c, and uartputc of uart.c) and klog_dump of klog.c, which prints. The
  screen is the CGA text memory and its cursor register, the serial line is the bytes sent to it. The interrupt
  handler takes the characters its \<open>getc\<close> function delivers before it returns a negative number. A character
  string is the list of its bytes without the terminator.
\<close>

section \<open>Data\<close>

abbreviation (input) BACKSPACE :: u32 where "BACKSPACE \<equiv> 0x100"
abbreviation (input) INPUT_BUF :: u32 where "INPUT_BUF \<equiv> 128"
abbreviation (input) CONSOLE :: nat where "CONSOLE \<equiv> 1"
abbreviation (input) NDEV :: nat where "NDEV \<equiv> 10"

record cons =
  co_lock :: spinlock
  co_locking :: int
  co_panicked :: int

record screen =
  crt :: "int \<Rightarrow> u16"
  crt_pos :: u16
  uart :: int
  uart_out :: "u8 list"

record input =
  in_buf :: "u8 list"
  in_r :: u32
  in_w :: u32
  in_e :: u32

text \<open>The functions the sources store in \<open>devsw\<close>.\<close>

datatype devfn = Fn_consoleread | Fn_consolewrite

record devsw =
  dev_read :: "devfn option"
  dev_write :: "devfn option"

record cons_st = fs_st +
  cons :: cons
  scr :: screen
  input :: input
  devsw :: "nat \<Rightarrow> devsw"

definition put_conslock :: "spinlock \<Rightarrow> 'a cons_st_scheme \<Rightarrow> 'a cons_st_scheme" where
  "put_conslock l s = s\<lparr>cons := (cons s)\<lparr>co_lock := l\<rparr>\<rparr>"

abbreviation acquire_cons :: "'a cons_st_scheme \<Rightarrow> 'a cons_st_scheme stop + 'a cons_st_scheme" where
  "acquire_cons \<equiv> acquire_at (\<lambda>s. co_lock (cons s)) put_conslock"

abbreviation release_cons :: "'a cons_st_scheme \<Rightarrow> 'a cons_st_scheme stop + 'a cons_st_scheme" where
  "release_cons \<equiv> release_at (\<lambda>s. co_lock (cons s)) put_conslock"

section \<open>Output\<close>

text \<open>uartputc waits a bounded time for the line and sends the byte whether or not it became ready.\<close>

definition uartputc :: "u32 \<Rightarrow> 'a cons_st_scheme \<Rightarrow> 'a cons_st_scheme" where
  "uartputc c s =
     (if uart (scr s) = 0 then s else s\<lparr>scr := (scr s)\<lparr>uart_out := uart_out (scr s) @ [ucast c]\<rparr>\<rparr>)"

definition scroll :: "(int \<Rightarrow> u16) \<Rightarrow> int \<Rightarrow> int \<Rightarrow> u16" where
  "scroll m pos i =
     (if 0 \<le> i \<and> i < 23 * 80 then (if pos \<le> i \<and> i < 24 * 80 then 0 else m (i + 80))
      else if pos \<le> i \<and> i < 24 * 80 then 0 else m i)"

definition cgaputc :: "u32 \<Rightarrow> 'a cons_st_scheme \<Rightarrow> 'a cons_st_scheme stop + 'a cons_st_scheme" where
  "cgaputc c s =
     (let pos = uint (crt_pos (scr s)); m = crt (scr s);
          (pos, m) = (if c = 10 then (pos + (80 - pos mod 80), m)
                      else if c = BACKSPACE then (if pos > 0 then pos - 1 else pos, m)
                      else (pos + 1, m(pos := ucast (c AND 0xff) OR 0x0700)))
      in if pos < 0 \<or> pos > 25 * 80 then Inl (Panic ''pos under/overflow'')
         else let (pos, m) = (if pos div 80 \<ge> 24 then (pos - 80, scroll m (pos - 80)) else (pos, m))
              in Inr (s\<lparr>scr := (scr s)\<lparr>crt_pos := of_int pos, crt := m(pos := 0x20 OR 0x0700)\<rparr>\<rparr>))"

definition consputc :: "u32 \<Rightarrow> 'a cons_st_scheme \<Rightarrow> 'a cons_st_scheme stop + 'a cons_st_scheme" where
  "consputc c s =
     (if co_panicked (cons s) \<noteq> 0 then Inl Spin
      else cgaputc c (if c = BACKSPACE then uartputc 8 (uartputc 0x20 (uartputc 8 s)) else uartputc c s))"

section \<open>Formatted output\<close>

definition printint :: "u32 \<Rightarrow> nat \<Rightarrow> bool \<Rightarrow> 'a cons_st_scheme \<Rightarrow> 'a cons_st_scheme stop + 'a cons_st_scheme" where
  "printint xx base signed_p s =
     fold_st (\<lambda>c. consputc (ucast c)) (rev (printint_buf ''0123456789abcdef'' xx base signed_p)) s"

fun cprintf_loop :: "u8 list \<Rightarrow> parg list \<Rightarrow> 'a cons_st_scheme \<Rightarrow> 'a cons_st_scheme stop + 'a cons_st_scheme" where
  "cprintf_loop [] args s = Inr s"
| "cprintf_loop [c] args s = (if c \<noteq> 0x25 then consputc (ucast c) s else Inr s)"
| "cprintf_loop (c # d # fmt) args s =
     (if c \<noteq> 0x25 then seq (consputc (ucast c) s) (cprintf_loop (d # fmt) args)
      else if d = of_char CHR ''d'' then
        (case args of PInt n # args \<Rightarrow> seq (printint n 10 True s) (cprintf_loop fmt args) | _ \<Rightarrow> Inl Fault)
      else if d = of_char CHR ''x'' \<or> d = of_char CHR ''p'' then
        (case args of PInt n # args \<Rightarrow> seq (printint n 16 False s) (cprintf_loop fmt args) | _ \<Rightarrow> Inl Fault)
      else if d = of_char CHR ''s'' then
        (case args of PStr p # args \<Rightarrow>
           seq (fold_st (\<lambda>c. consputc (ucast c)) (case p of None \<Rightarrow> bytes ''(null)'' | Some str \<Rightarrow> str) s)
             (cprintf_loop fmt args) | _ \<Rightarrow> Inl Fault)
      else if d = 0x25 then seq (consputc 0x25 s) (cprintf_loop fmt args)
      else seq (consputc 0x25 s) (\<lambda>s. seq (consputc (ucast d) s) (cprintf_loop fmt args)))"

definition cprintf :: "string \<Rightarrow> parg list \<Rightarrow> 'a cons_st_scheme \<Rightarrow> 'a cons_st_scheme stop + 'a cons_st_scheme" where
  "cprintf fmt args s =
     (let locking = co_locking (cons s)
      in seq (if locking \<noteq> 0 then acquire_cons s else Inr s) (\<lambda>s.
         seq (cprintf_loop (bytes fmt) args s) (\<lambda>s.
         if locking \<noteq> 0 then release_cons s else Inr s)))"

section \<open>Printing the flight recorder\<close>

definition klog_dump_entry :: "int \<Rightarrow> int \<Rightarrow> 'a cons_st_scheme \<Rightarrow> 'a cons_st_scheme stop + 'a cons_st_scheme" where
  "klog_dump_entry start i s =
     (let e = kl_entries (klog s) ! nat ((start + i) mod 128)
      in cprintf (''[%d] type=%d pid=%d extra=%d'' @ [CHR 0x0A])
           [PInt (timestamp e), PInt (of_int (event_type e)), PInt (of_int (le_pid e)), PInt (of_int (extra e))] s)"

definition klog_dump :: "'a cons_st_scheme \<Rightarrow> 'a cons_st_scheme stop + 'a cons_st_scheme" where
  "klog_dump s =
     seq (cprintf ([CHR 0x0A] @ ''=== KERNEL LOG DUMP ==='' @ [CHR 0x0A]) [] s) (\<lambda>s.
     let start = (kl_head (klog s) - kl_count (klog s) + 128) mod 128
     in fold_st (klog_dump_entry start) [0..kl_count (klog s) - 1] s)"

section \<open>Input\<close>

abbreviation buf_at :: "u32 \<Rightarrow> input \<Rightarrow> u8" where
  "buf_at k x \<equiv> in_buf x ! unat (k mod INPUT_BUF)"

text \<open>How many characters kill-line erases: back to the last newline or to the write index.\<close>

function kill_len :: "u8 list \<Rightarrow> u32 \<Rightarrow> u32 \<Rightarrow> nat" where
  "kill_len b e w = (if e \<noteq> w \<and> b ! unat ((e - 1) mod INPUT_BUF) \<noteq> 10 then Suc (kill_len b (e - 1) w) else 0)"
  by pat_completeness auto

termination
proof (relation "measure (\<lambda>(b, e, w). unat (e - w))")
  fix b :: "u8 list" and e w :: u32
  assume "e \<noteq> w \<and> b ! unat ((e - 1) mod 128) \<noteq> 10"
  then have "e - w \<noteq> 0" by simp
  then have "unat (e - 1 - w) = unat (e - w) - 1" "0 < unat (e - w)"
    unfolding diff_right_commute [of e 1 w] by (simp_all add: unat_minus_one unat_gt_0)
  then show "((b, e - 1, w), b, e, w) \<in> measure (\<lambda>(b, e, w). unat (e - w))"
    by simp
qed simp

declare kill_len.simps [simp del]

definition backspace :: "'a cons_st_scheme \<Rightarrow> 'a cons_st_scheme stop + 'a cons_st_scheme" where
  "backspace s = consputc BACKSPACE (s\<lparr>input := (input s)\<lparr>in_e := in_e (input s) - 1\<rparr>\<rparr>)"

text \<open>
  One character of the loop of consoleintr. Control-P asks for a process listing, which procdump prints after
  the loop.
\<close>

definition console_char :: "u32 \<Rightarrow> 'a cons_st_scheme \<Rightarrow> 'a cons_st_scheme stop + 'a cons_st_scheme" where
  "console_char c s =
     (if c = 0x10 then Inr s
      else if c = 0x15 then
        fold_st (\<lambda>_. backspace) [0..<kill_len (in_buf (input s)) (in_e (input s)) (in_w (input s))] s
      else if c = 8 \<or> c = 0x7f then if in_e (input s) \<noteq> in_w (input s) then backspace s else Inr s
      else if c \<noteq> 0 \<and> in_e (input s) - in_r (input s) < INPUT_BUF then
        let c = (if c = 13 then 10 else c); x = input s;
            x = x\<lparr>in_buf := (in_buf x)[unat (in_e x mod INPUT_BUF) := ucast c], in_e := in_e x + 1\<rparr>
        in seq (consputc c (s\<lparr>input := x\<rparr>)) (\<lambda>s.
           if c = 10 \<or> c = 4 \<or> in_e (input s) = in_r (input s) + INPUT_BUF
           then wakeup Ch_input (s\<lparr>input := (input s)\<lparr>in_w := in_e (input s)\<rparr>\<rparr>)
           else Inr s)
      else Inr s)"

definition consoleintr :: "u32 list \<Rightarrow> 'a cons_st_scheme \<Rightarrow> 'a cons_st_scheme stop + bool \<times> 'a cons_st_scheme" where
  "consoleintr cs s =
     seq (acquire_cons s) (\<lambda>s.
     seq (fold_st console_char cs s) (\<lambda>s.
     seq (release_cons s) (\<lambda>s. Inr (0x10 \<in> set cs, s))))"

text \<open>
  consoleread from the test of its loop on, with \<open>cons.lock\<close> held: \<open>n\<close> bytes are still wanted of \<open>target\<close> and \<open>out\<close>
  are the bytes stored so far. The result is the return value and the bytes stored.
\<close>

definition consoleread_done :: "nat \<Rightarrow> int \<Rightarrow> u8 list \<Rightarrow> 'a cons_st_scheme \<Rightarrow>
    'a cons_st_scheme stop + (int \<times> u8 list) \<times> 'a cons_st_scheme" where
  "consoleread_done ip r out s =
     seq (release_cons s) (\<lambda>s. seq (ilock ip s) (\<lambda>s. Inr ((r, out), s)))"

fun consoleread_loop :: "nat \<Rightarrow> nat \<Rightarrow> nat \<Rightarrow> u8 list \<Rightarrow> 'a cons_st_scheme \<Rightarrow>
    'a cons_st_scheme stop + (int \<times> u8 list) \<times> 'a cons_st_scheme" where
  "consoleread_loop ip target 0 out s = consoleread_done ip (int target) out s"
| "consoleread_loop ip target (Suc n) out s =
     (if in_r (input s) = in_w (input s)
      then seq (myproc s) (\<lambda>(p, s). seq (deref p) (\<lambda>p.
           if p_killed (procs s ! p) \<noteq> 0 then consoleread_done ip (-1) out s
           else sleep Ch_input (Some (\<lambda>s. co_lock (cons s), put_conslock)) s))
      else let c = buf_at (in_r (input s)) (input s);
               t = s\<lparr>input := (input s)\<lparr>in_r := in_r (input s) + 1\<rparr>\<rparr>
           in if c = 4
              then consoleread_done ip (int target - int (Suc n)) out (if Suc n < target then s else t)
              else if c = 10 then consoleread_done ip (int target - int n) (out @ [c]) t
              else consoleread_loop ip target n (out @ [c]) t)"

definition consoleread :: "nat \<Rightarrow> int \<Rightarrow> 'a cons_st_scheme \<Rightarrow>
    'a cons_st_scheme stop + (int \<times> u8 list) \<times> 'a cons_st_scheme" where
  "consoleread ip n s =
     seq (iunlock ip s) (\<lambda>s.
     seq (acquire_cons s) (consoleread_loop ip (nat n) (nat n) []))"

definition consoleread_resume :: "bool \<Rightarrow> nat \<Rightarrow> nat \<Rightarrow> nat \<Rightarrow> nat \<Rightarrow> u8 list \<Rightarrow> 'a cons_st_scheme \<Rightarrow>
    'a cons_st_scheme stop + (int \<times> u8 list) \<times> 'a cons_st_scheme" where
  "consoleread_resume intena p ip target n out s =
     seq (sleep_resume intena p (Some (\<lambda>s. co_lock (cons s), put_conslock)) s) (consoleread_loop ip target n out)"

definition consolewrite :: "nat \<Rightarrow> u8 list \<Rightarrow> int \<Rightarrow> 'a cons_st_scheme \<Rightarrow> 'a cons_st_scheme stop + int \<times> 'a cons_st_scheme" where
  "consolewrite ip buf n s =
     seq (iunlock ip s) (\<lambda>s.
     seq (acquire_cons s) (\<lambda>s.
     seq (fold_st (\<lambda>c. consputc (ucast c)) (take (nat n) buf) s) (\<lambda>s.
     seq (release_cons s) (\<lambda>s.
     seq (ilock ip s) (\<lambda>s. Inr (n, s))))))"

text \<open>consoleinit, without the routing of the keyboard interrupt in the I/O APIC.\<close>

definition consoleinit :: "'a cons_st_scheme \<Rightarrow> 'a cons_st_scheme" where
  "consoleinit s =
     (let s = put_conslock (initlock ''console'') s;
          s = s\<lparr>devsw := (devsw s)(CONSOLE := \<lparr>dev_read = Some Fn_consoleread, dev_write = Some Fn_consolewrite\<rparr>)\<rparr>
      in s\<lparr>cons := (cons s)\<lparr>co_locking := 1\<rparr>\<rparr>)"

end
