(* ===== verification/Fs.thy ===== *)
theory Fs
  imports Console
begin

text \<open>
  File contents, directories and path names (the second half of fs.c). A destination buffer is the list of the
  bytes stored in it, a source buffer the list of its bytes. A character string is the list of its
  bytes without the terminator; a name of \<open>DIRSIZ\<close> bytes has none.
\<close>

abbreviation (input) DIRSIZ :: nat where "DIRSIZ \<equiv> 14"

section \<open>Reading and writing\<close>

text \<open>The loop of readi: \<open>left\<close> is \<open>n - tot\<close>.\<close>

function readi_loop :: "nat \<Rightarrow> nat \<Rightarrow> nat \<Rightarrow> u8 list \<Rightarrow> 'a fs_st_scheme \<Rightarrow>
    'a fs_st_scheme stop + u8 list \<times> 'a fs_st_scheme" where
  "readi_loop ip off left out s =
     (if left = 0 then Inr (out, s)
      else seq (bmap ip (of_nat (off div BSIZE)) s) (\<lambda>(a, s).
           seq (bread (i_dev (inodes s ip)) a s) (\<lambda>(bp, s).
           let m = min left (BSIZE - off mod BSIZE); chunk = take m (drop (off mod BSIZE) (b_data (bufs s bp)))
           in seq (brelse bp s) (readi_loop ip (off + m) (left - m) (out @ chunk)))))"
  by pat_completeness auto

termination
  by (relation "measure (\<lambda>(ip, off, left, out, s). left)") auto

declare readi_loop.simps [simp del]

definition call_read :: "devfn \<Rightarrow> nat \<Rightarrow> u32 \<Rightarrow> 'a cons_st_scheme \<Rightarrow>
    'a cons_st_scheme stop + (int \<times> u8 list) \<times> 'a cons_st_scheme" where
  "call_read f ip n s = (case f of Fn_consoleread \<Rightarrow> consoleread ip (sint n) s | Fn_consolewrite \<Rightarrow> Inl Fault)"

definition readi :: "nat \<Rightarrow> u32 \<Rightarrow> u32 \<Rightarrow> 'a cons_st_scheme \<Rightarrow>
    'a cons_st_scheme stop + (int \<times> u8 list) \<times> 'a cons_st_scheme" where
  "readi ip off n s =
     (let x = inodes s ip
      in if i_type x = T_DEV
         then if sint (i_major x) < 0 \<or> sint (i_major x) \<ge> int NDEV then Inr ((-1, []), s)
              else (case dev_read (devsw s (unat (i_major x))) of None \<Rightarrow> Inr ((-1, []), s)
                    | Some f \<Rightarrow> call_read f ip n s)
         else if off > i_size x \<or> off + n < off then Inr ((-1, []), s)
         else let n = (if off + n > i_size x then i_size x - off else n)
              in seq (readi_loop ip (unat off) (unat n) [] s) (\<lambda>(out, s). Inr ((sint n, out), s)))"

function writei_loop :: "nat \<Rightarrow> u8 list \<Rightarrow> nat \<Rightarrow> nat \<Rightarrow> 'a fs_st_scheme \<Rightarrow>
    'a fs_st_scheme stop + 'a fs_st_scheme" where
  "writei_loop ip src off left s =
     (if left = 0 then Inr s
      else seq (bmap ip (of_nat (off div BSIZE)) s) (\<lambda>(a, s).
           seq (bread (i_dev (inodes s ip)) a s) (\<lambda>(bp, s).
           let m = min left (BSIZE - off mod BSIZE); d = b_data (bufs s bp);
               d = take (off mod BSIZE) d @ take m src @ drop (off mod BSIZE + m) d
           in seq (log_write bp (set_data bp d s)) (\<lambda>s.
              seq (brelse bp s) (writei_loop ip (drop m src) (off + m) (left - m))))))"
  by pat_completeness auto

termination
  by (relation "measure (\<lambda>(ip, src, off, left, s). left)") auto

declare writei_loop.simps [simp del]

definition call_write :: "devfn \<Rightarrow> nat \<Rightarrow> u8 list \<Rightarrow> u32 \<Rightarrow> 'a cons_st_scheme \<Rightarrow>
    'a cons_st_scheme stop + int \<times> 'a cons_st_scheme" where
  "call_write f ip src n s = (case f of Fn_consoleread \<Rightarrow> Inl Fault | Fn_consolewrite \<Rightarrow> consolewrite ip src (sint n) s)"

definition writei :: "nat \<Rightarrow> u8 list \<Rightarrow> u32 \<Rightarrow> u32 \<Rightarrow> 'a cons_st_scheme \<Rightarrow>
    'a cons_st_scheme stop + int \<times> 'a cons_st_scheme" where
  "writei ip src off n s =
     (let x = inodes s ip
      in if i_type x = T_DEV
         then if sint (i_major x) < 0 \<or> sint (i_major x) \<ge> int NDEV then Inr (-1, s)
              else (case dev_write (devsw s (unat (i_major x))) of None \<Rightarrow> Inr (-1, s)
                    | Some f \<Rightarrow> call_write f ip src n s)
         else if off > i_size x \<or> off + n < off then Inr (-1, s)
         else if off + n > of_nat (MAXFILE * BSIZE) then Inr (-1, s)
         else seq (writei_loop ip src (unat off) (unat n) s) (\<lambda>s.
              if n > 0 \<and> off + n > i_size (inodes s ip)
              then seq (iupdate ip (upd_inode ip (\<lambda>x. x\<lparr>i_size := off + n\<rparr>) s)) (\<lambda>s. Inr (sint n, s))
              else Inr (sint n, s)))"

section \<open>Directories\<close>

text \<open>strncmp of string.c on lists, whose end stands for the terminator.\<close>

fun strncmp_list :: "nat \<Rightarrow> u8 list \<Rightarrow> u8 list \<Rightarrow> int" where
  "strncmp_list 0 p q = 0"
| "strncmp_list (Suc n) p q =
     (let a = (case p of [] \<Rightarrow> 0 | x # _ \<Rightarrow> x); b = (case q of [] \<Rightarrow> 0 | x # _ \<Rightarrow> x)
      in if a \<noteq> 0 \<and> a = b then strncmp_list n (tl p) (tl q) else uint a - uint b)"

definition namecmp :: "u8 list \<Rightarrow> u8 list \<Rightarrow> int" where
  "namecmp s t = strncmp_list DIRSIZ s t"

text \<open>struct dirent: the inode number in two bytes and the name in fourteen.\<close>

definition de_inum :: "u8 list \<Rightarrow> u16" where
  "de_inum de = ld16 de 0"

definition de_name :: "u8 list \<Rightarrow> u8 list" where
  "de_name de = drop 2 de"

definition mk_dirent :: "u8 list \<Rightarrow> u32 \<Rightarrow> u8 list" where
  "mk_dirent name inum =
     st16 ([0, 0] @ take DIRSIZ name @ replicate (DIRSIZ - length name) 0) 0 (ucast inum)"

fun dirlookup_loop :: "nat \<Rightarrow> u8 list \<Rightarrow> nat list \<Rightarrow> 'a cons_st_scheme \<Rightarrow>
    'a cons_st_scheme stop + (nat \<times> u32) option \<times> 'a cons_st_scheme" where
  "dirlookup_loop dp name [] s = Inr (None, s)"
| "dirlookup_loop dp name (off # offs) s =
     seq (readi dp (of_nat off) 16 s) (\<lambda>((r, de), s).
     if r \<noteq> 16 then Inl (Panic ''dirlookup read'')
     else if de_inum de = 0 then dirlookup_loop dp name offs s
     else if namecmp name (de_name de) = 0
     then seq (iget (i_dev (inodes s dp)) (ucast (de_inum de)) s) (\<lambda>(ip, s). Inr (Some (ip, of_nat off), s))
     else dirlookup_loop dp name offs s)"

definition dirlookup :: "nat \<Rightarrow> u8 list \<Rightarrow> 'a cons_st_scheme \<Rightarrow>
    'a cons_st_scheme stop + (nat \<times> u32) option \<times> 'a cons_st_scheme" where
  "dirlookup dp name s =
     (if i_type (inodes s dp) \<noteq> T_DIR then Inl (Panic ''dirlookup not DIR'')
      else dirlookup_loop dp name (steps (unat (i_size (inodes s dp))) 16) s)"

text \<open>The offset of the first free entry of a directory, or the first offset past its end.\<close>

fun dirlink_slot :: "nat \<Rightarrow> nat \<Rightarrow> nat list \<Rightarrow> 'a cons_st_scheme \<Rightarrow> 'a cons_st_scheme stop + nat \<times> 'a cons_st_scheme" where
  "dirlink_slot dp after [] s = Inr (after, s)"
| "dirlink_slot dp after (off # offs) s =
     seq (readi dp (of_nat off) 16 s) (\<lambda>((r, de), s).
     if r \<noteq> 16 then Inl (Panic ''dirlink read'')
     else if de_inum de = 0 then Inr (off, s)
     else dirlink_slot dp (off + 16) offs s)"

definition dirlink :: "nat \<Rightarrow> u8 list \<Rightarrow> u32 \<Rightarrow> 'a cons_st_scheme \<Rightarrow> 'a cons_st_scheme stop + int \<times> 'a cons_st_scheme" where
  "dirlink dp name inum s =
     seq (dirlookup dp name s) (\<lambda>(r, s). case r of
       Some (ip, _) \<Rightarrow> seq (iput ip s) (\<lambda>s. Inr (-1, s))
     | None \<Rightarrow>
         seq (dirlink_slot dp 0 (steps (unat (i_size (inodes s dp))) 16) s) (\<lambda>(off, s).
         seq (writei dp (mk_dirent name inum) (of_nat off) 16 s) (\<lambda>(r, s).
         if r \<noteq> 16 then Inl (Panic ''dirlink'') else Inr (0, s))))"

section \<open>Paths\<close>

definition slash :: u8 where
  "slash = 0x2f"

definition skipelem :: "u8 list \<Rightarrow> (u8 list \<times> u8 list) option" where
  "skipelem path =
     (let path = dropWhile (\<lambda>c. c = slash) path
      in if path = [] then None
         else Some (take DIRSIZ (takeWhile (\<lambda>c. c \<noteq> slash) path),
                    dropWhile (\<lambda>c. c = slash) (dropWhile (\<lambda>c. c \<noteq> slash) path)))"

lemma skipelem_shorter: "skipelem path = Some (name, rest) \<Longrightarrow> length rest < length path"
proof -
  assume *: "skipelem path = Some (name, rest)"
  let ?p = "dropWhile (\<lambda>c. c = slash) path"
  have p: "?p \<noteq> []" "rest = dropWhile (\<lambda>c. c = slash) (dropWhile (\<lambda>c. c \<noteq> slash) ?p)"
    using * by (auto simp: skipelem_def Let_def split: if_splits)
  have "hd ?p \<noteq> slash"
    using hd_dropWhile [OF p(1)] .
  then have "length (dropWhile (\<lambda>c. c \<noteq> slash) ?p) < length ?p"
    using p(1) by (cases ?p) (auto simp: le_imp_less_Suc length_dropWhile_le)
  moreover have "length rest \<le> length (dropWhile (\<lambda>c. c \<noteq> slash) ?p)" "length ?p \<le> length path"
    unfolding p(2) by (rule length_dropWhile_le)+
  ultimately show ?thesis by linarith
qed

text \<open>
  The loop of namex with the inode reached and the rest of the path. The result is the inode and, for the
  parent, the last path element.
\<close>

function namex_loop :: "bool \<Rightarrow> nat \<Rightarrow> u8 list \<Rightarrow> 'a cons_st_scheme \<Rightarrow>
    'a cons_st_scheme stop + (nat \<times> u8 list) option \<times> 'a cons_st_scheme" where
  "namex_loop parent ip path s =
     (case skipelem path of
        None \<Rightarrow> if parent then seq (iput ip s) (\<lambda>s. Inr (None, s)) else Inr (Some (ip, []), s)
      | Some (name, rest) \<Rightarrow>
          seq (ilock ip s) (\<lambda>s.
          if i_type (inodes s ip) \<noteq> T_DIR then seq (iunlockput ip s) (\<lambda>s. Inr (None, s))
          else if parent \<and> rest = [] then seq (iunlock ip s) (\<lambda>s. Inr (Some (ip, name), s))
          else seq (dirlookup ip name s) (\<lambda>(r, s). case r of
                 None \<Rightarrow> seq (iunlockput ip s) (\<lambda>s. Inr (None, s))
               | Some (nxt, _) \<Rightarrow> seq (iunlockput ip s) (namex_loop parent nxt rest))))"
  by pat_completeness auto

termination
  by (relation "measure (\<lambda>(parent, ip, path, s). length path)") (auto dest: skipelem_shorter)

declare namex_loop.simps [simp del]

definition namex :: "u8 list \<Rightarrow> bool \<Rightarrow> 'a cons_st_scheme \<Rightarrow>
    'a cons_st_scheme stop + (nat \<times> u8 list) option \<times> 'a cons_st_scheme" where
  "namex path parent s =
     seq (if path \<noteq> [] \<and> hd path = slash then iget ROOTDEV ROOTINO s
          else seq (myproc s) (\<lambda>(p, s). seq (deref p) (\<lambda>p. seq (deref (p_cwd (procs s ! p))) (\<lambda>ip. idup ip s))))
       (\<lambda>(ip, s). namex_loop parent ip path s)"

definition namei :: "u8 list \<Rightarrow> 'a cons_st_scheme \<Rightarrow> 'a cons_st_scheme stop + nat option \<times> 'a cons_st_scheme" where
  "namei path s = seq (namex path False s) (\<lambda>(r, s). Inr (map_option fst r, s))"

definition nameiparent :: "u8 list \<Rightarrow> 'a cons_st_scheme \<Rightarrow>
    'a cons_st_scheme stop + (nat \<times> u8 list) option \<times> 'a cons_st_scheme" where
  "nameiparent path s = namex path True s"

end
