(* ===== verification/Pipe.thy ===== *)
theory Pipe
  imports Fs
begin

text \<open>
  Pipes (pipe.c, without pipealloc, which needs the file table). A pipe lives in a page of its own and is named by
  the address of the page. The loops of pipewrite and piperead from their test on are definitions of their
  own, because a process that slept continues there.
\<close>

section \<open>Data\<close>

abbreviation (input) PIPESIZE :: nat where "PIPESIZE \<equiv> 512"

record pipe =
  pi_lock :: spinlock
  pi_data :: "u8 list"
  nread :: u32
  nwrite :: u32
  readopen :: int
  writeopen :: int

record pipe_st = cons_st +
  pipes :: "u32 \<Rightarrow> pipe"

definition upd_pipe :: "u32 \<Rightarrow> (pipe \<Rightarrow> pipe) \<Rightarrow> 'a pipe_st_scheme \<Rightarrow> 'a pipe_st_scheme" where
  "upd_pipe p f s = s\<lparr>pipes := (pipes s)(p := f (pipes s p))\<rparr>"

definition get_pilock :: "u32 \<Rightarrow> 'a pipe_st_scheme \<Rightarrow> spinlock" where
  "get_pilock p s = pi_lock (pipes s p)"

definition put_pilock :: "u32 \<Rightarrow> spinlock \<Rightarrow> 'a pipe_st_scheme \<Rightarrow> 'a pipe_st_scheme" where
  "put_pilock p l = upd_pipe p (\<lambda>x. x\<lparr>pi_lock := l\<rparr>)"

abbreviation acquire_pipe :: "u32 \<Rightarrow> 'a pipe_st_scheme \<Rightarrow> 'a pipe_st_scheme stop + 'a pipe_st_scheme" where
  "acquire_pipe p \<equiv> acquire_at (get_pilock p) (put_pilock p)"

abbreviation release_pipe :: "u32 \<Rightarrow> 'a pipe_st_scheme \<Rightarrow> 'a pipe_st_scheme stop + 'a pipe_st_scheme" where
  "release_pipe p \<equiv> release_at (get_pilock p) (put_pilock p)"

section \<open>Operations\<close>

definition pipeclose :: "u32 \<Rightarrow> bool \<Rightarrow> 'a pipe_st_scheme \<Rightarrow> 'a pipe_st_scheme stop + 'a pipe_st_scheme" where
  "pipeclose p writable s =
     seq (acquire_pipe p s) (\<lambda>s.
     seq (if writable then wakeup (Ch_nread p) (upd_pipe p (\<lambda>x. x\<lparr>writeopen := 0\<rparr>) s)
          else wakeup (Ch_nwrite p) (upd_pipe p (\<lambda>x. x\<lparr>readopen := 0\<rparr>) s)) (\<lambda>s.
     if readopen (pipes s p) = 0 \<and> writeopen (pipes s p) = 0 then seq (release_pipe p s) (kfree p)
     else release_pipe p s))"

definition killed_now :: "'a ptab_st_scheme \<Rightarrow> 'a ptab_st_scheme stop + bool \<times> 'a ptab_st_scheme" where
  "killed_now s = seq (myproc s) (\<lambda>(q, s). seq (deref q) (\<lambda>q. Inr (p_killed (procs s ! q) \<noteq> 0, s)))"

definition pipe_put :: "u8 \<Rightarrow> pipe \<Rightarrow> pipe" where
  "pipe_put c x = x\<lparr>pi_data := (pi_data x)[unat (nwrite x mod 512) := c], nwrite := nwrite x + 1\<rparr>"

fun pipewrite_loop :: "u32 \<Rightarrow> int \<Rightarrow> u8 list \<Rightarrow> 'a pipe_st_scheme \<Rightarrow> 'a pipe_st_scheme stop + int \<times> 'a pipe_st_scheme" where
  "pipewrite_loop p n [] s =
     seq (wakeup (Ch_nread p) s) (\<lambda>s. seq (release_pipe p s) (\<lambda>s. Inr (n, s)))"
| "pipewrite_loop p n (c # cs) s =
     (if nwrite (pipes s p) = nread (pipes s p) + 512
      then seq (if readopen (pipes s p) = 0 then Inr (True, s) else killed_now s) (\<lambda>(quit, s).
           if quit then seq (release_pipe p s) (\<lambda>s. Inr (-1, s))
           else seq (wakeup (Ch_nread p) s) (sleep (Ch_nwrite p) (Some (get_pilock p, put_pilock p))))
      else pipewrite_loop p n cs (upd_pipe p (pipe_put c) s))"

definition pipewrite :: "u32 \<Rightarrow> u8 list \<Rightarrow> int \<Rightarrow> 'a pipe_st_scheme \<Rightarrow> 'a pipe_st_scheme stop + int \<times> 'a pipe_st_scheme" where
  "pipewrite p addr n s = seq (acquire_pipe p s) (pipewrite_loop p n (take (nat n) addr))"

definition pipewrite_resume :: "bool \<Rightarrow> nat \<Rightarrow> u32 \<Rightarrow> int \<Rightarrow> u8 list \<Rightarrow> 'a pipe_st_scheme \<Rightarrow>
    'a pipe_st_scheme stop + int \<times> 'a pipe_st_scheme" where
  "pipewrite_resume intena q p n cs s =
     seq (sleep_resume intena q (Some (get_pilock p, put_pilock p)) s) (pipewrite_loop p n cs)"

definition pipe_get :: "pipe \<Rightarrow> u8" where
  "pipe_get x = pi_data x ! unat (nread x mod 512)"

text \<open>The copy loop of piperead: at most \<open>n\<close> bytes, up to the last byte written.\<close>

fun piperead_copy :: "u32 \<Rightarrow> nat \<Rightarrow> u8 list \<Rightarrow> 'a pipe_st_scheme \<Rightarrow> u8 list \<times> 'a pipe_st_scheme" where
  "piperead_copy p 0 out s = (out, s)"
| "piperead_copy p (Suc n) out s =
     (if nread (pipes s p) = nwrite (pipes s p) then (out, s)
      else piperead_copy p n (out @ [pipe_get (pipes s p)]) (upd_pipe p (\<lambda>x. x\<lparr>nread := nread x + 1\<rparr>) s))"

definition piperead_loop :: "u32 \<Rightarrow> int \<Rightarrow> 'a pipe_st_scheme \<Rightarrow> 'a pipe_st_scheme stop + (int \<times> u8 list) \<times> 'a pipe_st_scheme" where
  "piperead_loop p n s =
     (if nread (pipes s p) = nwrite (pipes s p) \<and> writeopen (pipes s p) \<noteq> 0
      then seq (killed_now s) (\<lambda>(quit, s).
           if quit then seq (release_pipe p s) (\<lambda>s. Inr ((-1, []), s))
           else sleep (Ch_nread p) (Some (get_pilock p, put_pilock p)) s)
      else let (out, s) = piperead_copy p (nat n) [] s
           in seq (wakeup (Ch_nwrite p) s) (\<lambda>s. seq (release_pipe p s) (\<lambda>s. Inr ((int (length out), out), s))))"

definition piperead :: "u32 \<Rightarrow> int \<Rightarrow> 'a pipe_st_scheme \<Rightarrow> 'a pipe_st_scheme stop + (int \<times> u8 list) \<times> 'a pipe_st_scheme" where
  "piperead p n s = seq (acquire_pipe p s) (piperead_loop p n)"

definition piperead_resume :: "bool \<Rightarrow> nat \<Rightarrow> u32 \<Rightarrow> int \<Rightarrow> 'a pipe_st_scheme \<Rightarrow>
    'a pipe_st_scheme stop + (int \<times> u8 list) \<times> 'a pipe_st_scheme" where
  "piperead_resume intena q p n s =
     seq (sleep_resume intena q (Some (get_pilock p, put_pilock p)) s) (piperead_loop p n)"

end
