(* ===== verification/File.thy ===== *)
theory File
  imports Pipe
begin

text \<open>
  Open files (file.c, file.h) and pipealloc of pipe.c. An open file is named by its index in \<open>ftable.file\<close>.
\<close>

section \<open>Data\<close>

abbreviation (input) NFILE :: nat where "NFILE \<equiv> 100"

datatype fdtype = FD_NONE | FD_PIPE | FD_INODE

record kfile =
  f_type :: fdtype
  f_ref :: int
  f_readable :: u8
  f_writable :: u8
  f_pipe :: u32
  f_ip :: nat
  f_off :: u32

record ftable =
  ft_lock :: spinlock
  ft_file :: "nat \<Rightarrow> kfile"

record file_st = pipe_st +
  ftable :: ftable

abbreviation files :: "'a file_st_scheme \<Rightarrow> nat \<Rightarrow> kfile" where
  "files s \<equiv> ft_file (ftable s)"

definition upd_file :: "nat \<Rightarrow> (kfile \<Rightarrow> kfile) \<Rightarrow> 'a file_st_scheme \<Rightarrow> 'a file_st_scheme" where
  "upd_file i f s = s\<lparr>ftable := (ftable s)\<lparr>ft_file := (files s)(i := f (files s i))\<rparr>\<rparr>"

definition put_ftlock :: "spinlock \<Rightarrow> 'a file_st_scheme \<Rightarrow> 'a file_st_scheme" where
  "put_ftlock l s = s\<lparr>ftable := (ftable s)\<lparr>ft_lock := l\<rparr>\<rparr>"

abbreviation acquire_ftable :: "'a file_st_scheme \<Rightarrow> 'a file_st_scheme stop + 'a file_st_scheme" where
  "acquire_ftable \<equiv> acquire_at (\<lambda>s. ft_lock (ftable s)) put_ftlock"

abbreviation release_ftable :: "'a file_st_scheme \<Rightarrow> 'a file_st_scheme stop + 'a file_st_scheme" where
  "release_ftable \<equiv> release_at (\<lambda>s. ft_lock (ftable s)) put_ftlock"

section \<open>Reference counts\<close>

definition fileinit :: "'a file_st_scheme \<Rightarrow> 'a file_st_scheme" where
  "fileinit s = put_ftlock (initlock ''ftable'') s"

definition filealloc :: "'a file_st_scheme \<Rightarrow> 'a file_st_scheme stop + nat option \<times> 'a file_st_scheme" where
  "filealloc s =
     seq (acquire_ftable s) (\<lambda>s.
     case find (\<lambda>f. f_ref (files s f) = 0) [0..<NFILE] of
       Some f \<Rightarrow> seq (release_ftable (upd_file f (\<lambda>x. x\<lparr>f_ref := 1\<rparr>) s)) (\<lambda>s. Inr (Some f, s))
     | None \<Rightarrow> seq (release_ftable s) (\<lambda>s. Inr (None, s)))"

definition filedup :: "nat \<Rightarrow> 'a file_st_scheme \<Rightarrow> 'a file_st_scheme stop + nat \<times> 'a file_st_scheme" where
  "filedup f s =
     seq (acquire_ftable s) (\<lambda>s.
     if f_ref (files s f) < 1 then Inl (Panic ''filedup'')
     else seq (release_ftable (upd_file f (\<lambda>x. x\<lparr>f_ref := f_ref x + 1\<rparr>) s)) (\<lambda>s. Inr (f, s)))"

definition fileclose :: "nat \<Rightarrow> 'a file_st_scheme \<Rightarrow> 'a file_st_scheme stop + 'a file_st_scheme" where
  "fileclose f s =
     seq (acquire_ftable s) (\<lambda>s.
     if f_ref (files s f) < 1 then Inl (Panic ''fileclose'')
     else let s = upd_file f (\<lambda>x. x\<lparr>f_ref := f_ref x - 1\<rparr>) s
     in if f_ref (files s f) > 0 then release_ftable s
        else let ff = files s f
        in seq (release_ftable (upd_file f (\<lambda>x. x\<lparr>f_ref := 0, f_type := FD_NONE\<rparr>) s)) (\<lambda>s.
           case f_type ff of
             FD_PIPE \<Rightarrow> pipeclose (f_pipe ff) (f_writable ff \<noteq> 0) s
           | FD_INODE \<Rightarrow> seq (begin_op s) (\<lambda>s. seq (iput (f_ip ff) s) end_op)
           | FD_NONE \<Rightarrow> Inr s))"

section \<open>Reading and writing\<close>

definition filestat :: "nat \<Rightarrow> 'a file_st_scheme \<Rightarrow> 'a file_st_scheme stop + (int \<times> stat option) \<times> 'a file_st_scheme" where
  "filestat f s =
     (if f_type (files s f) = FD_INODE
      then let ip = f_ip (files s f)
           in seq (ilock ip s) (\<lambda>s. let st = stati ip s in seq (iunlock ip s) (\<lambda>s. Inr ((0, Some st), s)))
      else Inr ((-1, None), s))"

definition fileread :: "nat \<Rightarrow> int \<Rightarrow> 'a file_st_scheme \<Rightarrow> 'a file_st_scheme stop + (int \<times> u8 list) \<times> 'a file_st_scheme" where
  "fileread f n s =
     (if f_readable (files s f) = 0 then Inr ((-1, []), s)
      else case f_type (files s f) of
        FD_PIPE \<Rightarrow> piperead (f_pipe (files s f)) n s
      | FD_INODE \<Rightarrow>
          let ip = f_ip (files s f)
          in seq (ilock ip s) (\<lambda>s.
             seq (readi ip (f_off (files s f)) (of_int n) s) (\<lambda>((r, out), s).
             let s = (if r > 0 then upd_file f (\<lambda>x. x\<lparr>f_off := f_off x + of_int r\<rparr>) s else s)
             in seq (iunlock ip s) (\<lambda>s. Inr ((r, out), s))))
      | FD_NONE \<Rightarrow> Inl (Panic ''fileread''))"

text \<open>
  The loop of filewrite with \<open>i\<close> bytes written; at most \<open>max\<close> bytes go into one transaction. The loop ends
  because every turn writes at least one byte.
\<close>

definition write_max :: int where
  "write_max = ((10 - 1 - 1 - 2) div 2) * 512"

lemma write_max_pos: "0 < write_max"
  by (simp add: write_max_def)

function filewrite_loop :: "nat \<Rightarrow> u8 list \<Rightarrow> int \<Rightarrow> int \<Rightarrow> 'a file_st_scheme \<Rightarrow> 'a file_st_scheme stop + int \<times> 'a file_st_scheme" where
  "filewrite_loop f addr n i s =
     (if i < n then
        let n1 = min (n - i) write_max; ip = f_ip (files s f)
        in seq (begin_op s) (\<lambda>s.
           seq (ilock ip s) (\<lambda>s.
           seq (writei ip (drop (nat i) addr) (f_off (files s f)) (of_int n1) s) (\<lambda>(r, s).
           let s = (if r > 0 then upd_file f (\<lambda>x. x\<lparr>f_off := f_off x + of_int r\<rparr>) s else s)
           in seq (iunlock ip s) (\<lambda>s.
              seq (end_op s) (\<lambda>s.
              if r < 0 then Inr (i, s)
              else if r \<noteq> n1 then Inl (Panic ''short filewrite'')
              else filewrite_loop f addr n (i + r) s)))))
      else Inr (i, s))"
  by pat_completeness auto

termination
  by (relation "measure (\<lambda>(f, addr, n, i, s). nat (n - i))") (use write_max_pos in auto)

declare filewrite_loop.simps [simp del]

definition filewrite :: "nat \<Rightarrow> u8 list \<Rightarrow> int \<Rightarrow> 'a file_st_scheme \<Rightarrow> 'a file_st_scheme stop + int \<times> 'a file_st_scheme" where
  "filewrite f addr n s =
     (if f_writable (files s f) = 0 then Inr (-1, s)
      else case f_type (files s f) of
        FD_PIPE \<Rightarrow> pipewrite (f_pipe (files s f)) addr n s
      | FD_INODE \<Rightarrow> seq (filewrite_loop f addr n 0 s) (\<lambda>(i, s). Inr (if i = n then n else -1, s))
      | FD_NONE \<Rightarrow> Inl (Panic ''filewrite''))"

section \<open>Creating a pipe\<close>

text \<open>The cleanup at \<open>bad:\<close>; the page is always 0 there, since nothing after its allocation fails.\<close>

definition pipealloc_bad :: "nat option \<Rightarrow> nat option \<Rightarrow> 'a file_st_scheme \<Rightarrow>
    'a file_st_scheme stop + (nat \<times> nat) option \<times> 'a file_st_scheme" where
  "pipealloc_bad f0 f1 s =
     seq (case f0 of Some f \<Rightarrow> fileclose f s | None \<Rightarrow> Inr s) (\<lambda>s.
     seq (case f1 of Some f \<Rightarrow> fileclose f s | None \<Rightarrow> Inr s) (\<lambda>s. Inr (None, s)))"

definition pipealloc :: "'a file_st_scheme \<Rightarrow> 'a file_st_scheme stop + (nat \<times> nat) option \<times> 'a file_st_scheme" where
  "pipealloc s =
     seq (filealloc s) (\<lambda>(f0, s). case f0 of None \<Rightarrow> pipealloc_bad None None s | Some a \<Rightarrow>
     seq (filealloc s) (\<lambda>(f1, s). case f1 of None \<Rightarrow> pipealloc_bad f0 None s | Some b \<Rightarrow>
     seq (kalloc s) (\<lambda>(p, s). if p = 0 then pipealloc_bad f0 f1 s
     else let s = upd_pipe p (\<lambda>x. x\<lparr>readopen := 1, writeopen := 1, nwrite := 0, nread := 0, pi_lock := initlock ''pipe''\<rparr>) s;
              s = upd_file a (\<lambda>x. x\<lparr>f_type := FD_PIPE, f_readable := 1, f_writable := 0, f_pipe := p\<rparr>) s;
              s = upd_file b (\<lambda>x. x\<lparr>f_type := FD_PIPE, f_readable := 0, f_writable := 1, f_pipe := p\<rparr>) s
          in Inr (Some (a, b), s))))"

end
