(* ===== verification/Proc.thy ===== *)
theory Proc
  imports File
begin

text \<open>
  Processes (the rest of proc.c): creation, growth, fork, exit, wait and the scheduler. The trap frame and the
  saved context live on the process's kernel stack; the trap frame is a field of the process here, and the
  context, which only swtch reads, has no counterpart.
\<close>

section \<open>Data\<close>

abbreviation (input) NOFILE :: nat where "NOFILE \<equiv> 16"

text \<open>The clock of trap.c, its lock, and the static variable \<open>first\<close> of forkret.\<close>

record sys_st = file_st +
  tickslock :: spinlock
  ticks :: u32
  forkret_first :: int

definition set_state :: "procstate \<Rightarrow> nat \<Rightarrow> 'a ptab_st_scheme \<Rightarrow> 'a ptab_st_scheme" where
  "set_state st p = upd_proc p (\<lambda>q. q\<lparr>p_state := st\<rparr>)"

definition set_nextpid :: "int \<Rightarrow> 'a ptab_st_scheme \<Rightarrow> 'a ptab_st_scheme" where
  "set_nextpid n s = s\<lparr>ptable := (ptable s)\<lparr>nextpid := n\<rparr>\<rparr>"

section \<open>Creating processes\<close>

text \<open>\<open>nextpid\<close> is an int of C; its increment wraps around in 32 bits.\<close>

definition int32 :: "int \<Rightarrow> int" where
  "int32 n = sint (of_int n :: u32)"

definition allocproc :: "'a kmem_st_scheme \<Rightarrow> 'a kmem_st_scheme stop + nat option \<times> 'a kmem_st_scheme" where
  "allocproc s =
     seq (acquire_ptable s) (\<lambda>s.
     case find (\<lambda>p. p_state (procs s ! p) = UNUSED) [0..<NPROC] of
       None \<Rightarrow> seq (release_ptable s) (\<lambda>s. Inr (None, s))
     | Some p \<Rightarrow>
         let s = upd_proc p (\<lambda>q. q\<lparr>p_state := EMBRYO, p_pid := nextpid (ptable s)\<rparr>) s;
             s = set_nextpid (int32 (nextpid (ptable s) + 1)) s
         in seq (release_ptable s) (\<lambda>s.
            seq (kalloc s) (\<lambda>(v, s).
            let s = upd_proc p (\<lambda>q. q\<lparr>p_kstack := v\<rparr>) s
            in if v = 0 then Inr (None, set_state UNUSED p s) else Inr (Some p, s))))"

definition zero_tf :: trapframe where
  "zero_tf = \<lparr>tf_edi = 0, tf_esi = 0, tf_ebp = 0, tf_oesp = 0, tf_ebx = 0, tf_edx = 0, tf_ecx = 0, tf_eax = 0,
     tf_gs = 0, tf_fs = 0, tf_es = 0, tf_ds = 0, tf_trapno = 0, tf_err = 0, tf_eip = 0, tf_cs = 0, tf_eflags = 0,
     tf_esp = 0, tf_ss = 0\<rparr>"

definition user_tf :: trapframe where
  "user_tf = (let cs = push_bit 3 3 OR 3; ds = push_bit 3 4 OR 3
     in zero_tf\<lparr>tf_cs := cs, tf_ds := ds, tf_es := ds, tf_ss := ds, tf_eflags := 0x200, tf_esp := PGSIZE, tf_eip := 0\<rparr>)"

text \<open>safestrcpy into the 16 bytes of \<open>name\<close>: at most 15 bytes of the string.\<close>

definition proc_name :: "u8 list \<Rightarrow> u8 list" where
  "proc_name str = take 15 str"

text \<open>\<open>init\<close> and \<open>sz\<close> are the kernel address and the size of initcode.S, linked into the kernel.\<close>

definition userinit :: "u32 \<Rightarrow> u32 \<Rightarrow> 'a file_st_scheme \<Rightarrow> 'a file_st_scheme stop + 'a file_st_scheme" where
  "userinit init sz s =
     seq (allocproc s) (\<lambda>(p, s).
     let s = s\<lparr>ptable := (ptable s)\<lparr>initproc := p\<rparr>\<rparr>
     in seq (deref p) (\<lambda>p.
     seq (setupkvm s) (\<lambda>(pgdir, s).
     let s = upd_proc p (\<lambda>q. q\<lparr>p_pgdir := pgdir\<rparr>) s
     in if pgdir = 0 then Inl (Panic ''userinit: out of memory?'')
     else seq (inituvm pgdir init sz s) (\<lambda>s.
     let s = upd_proc p (\<lambda>q. q\<lparr>p_sz := PGSIZE, p_tf := user_tf, p_name := proc_name (bytes ''initcode'')\<rparr>) s
     in seq (namei [slash] s) (\<lambda>(cwd, s).
     let s = upd_proc p (\<lambda>q. q\<lparr>p_cwd := cwd\<rparr>) s
     in seq (acquire_ptable s) (\<lambda>s. release_ptable (set_state RUNNABLE p s)))))))"

definition growproc :: "int \<Rightarrow> 'a vm_st_scheme \<Rightarrow> 'a vm_st_scheme stop + int \<times> 'a vm_st_scheme" where
  "growproc n s =
     seq (myproc s) (\<lambda>(p, s). seq (deref p) (\<lambda>p.
     let sz = p_sz (procs s ! p); pgdir = p_pgdir (procs s ! p);
         done = (\<lambda>sz s. seq (switchuvm (Some p) (upd_proc p (\<lambda>q. q\<lparr>p_sz := sz\<rparr>) s)) (\<lambda>s. Inr (0, s)))
     in if n > 0 then seq (allocuvm pgdir sz (sz + of_int n) s) (\<lambda>(sz, s). if sz = 0 then Inr (-1, s) else done sz s)
        else if n < 0 then seq (deallocuvm pgdir sz (sz + of_int n) s) (\<lambda>(sz, s). if sz = 0 then Inr (-1, s) else done sz s)
        else done sz s))"

definition fork_file :: "nat \<Rightarrow> nat \<Rightarrow> nat \<Rightarrow> 'a file_st_scheme \<Rightarrow> 'a file_st_scheme stop + 'a file_st_scheme" where
  "fork_file cur np i s =
     (case p_ofile (procs s ! cur) ! i of
        None \<Rightarrow> Inr s
      | Some f \<Rightarrow> seq (filedup f s) (\<lambda>(f, s). Inr (upd_proc np (\<lambda>q. q\<lparr>p_ofile := (p_ofile q)[i := Some f]\<rparr>) s)))"

definition fork :: "'a file_st_scheme \<Rightarrow> 'a file_st_scheme stop + int \<times> 'a file_st_scheme" where
  "fork s =
     seq (myproc s) (\<lambda>(cur, s).
     seq (allocproc s) (\<lambda>(np, s). case np of None \<Rightarrow> Inr (-1, s) | Some np \<Rightarrow>
     seq (deref cur) (\<lambda>cur.
     seq (copyuvm (p_pgdir (procs s ! cur)) (p_sz (procs s ! cur)) s) (\<lambda>(d, s).
     let s = upd_proc np (\<lambda>q. q\<lparr>p_pgdir := d\<rparr>) s
     in if d = 0
        then seq (kfree (p_kstack (procs s ! np)) s) (\<lambda>s.
             Inr (-1, set_state UNUSED np (upd_proc np (\<lambda>q. q\<lparr>p_kstack := 0\<rparr>) s)))
        else let s = upd_proc np (\<lambda>q. q\<lparr>p_sz := p_sz (procs s ! cur), p_parent := Some cur,
                       p_tf := (p_tf (procs s ! cur))\<lparr>tf_eax := 0\<rparr>\<rparr>) s
        in seq (fold_st (fork_file cur np) [0..<NOFILE] s) (\<lambda>s.
           seq (deref (p_cwd (procs s ! cur))) (\<lambda>ip.
           seq (idup ip s) (\<lambda>(ip, s).
           let s = upd_proc np (\<lambda>q. q\<lparr>p_cwd := Some ip, p_name := proc_name (p_name (procs s ! cur))\<rparr>) s;
               pid = p_pid (procs s ! np)
           in seq (acquire_ptable s) (\<lambda>s.
              seq (release_ptable (set_state RUNNABLE np s)) (\<lambda>s. Inr (pid, s))))))))))"

section \<open>Exit and wait\<close>

text \<open>wakeup1 on a process pointer, which may be null.\<close>

definition wakeup1_proc :: "nat option \<Rightarrow> 'a ptab_st_scheme \<Rightarrow> 'a ptab_st_scheme" where
  "wakeup1_proc q s =
     (case q of Some q \<Rightarrow> wakeup1 (Ch_proc q) s
      | None \<Rightarrow> upd_procs (map (\<lambda>p. if p_state p = SLEEPING \<and> p_chan p = None then p\<lparr>p_state := RUNNABLE\<rparr> else p)) s)"

definition exit_file :: "nat \<Rightarrow> nat \<Rightarrow> 'a file_st_scheme \<Rightarrow> 'a file_st_scheme stop + 'a file_st_scheme" where
  "exit_file cur fd s =
     (case p_ofile (procs s ! cur) ! fd of
        None \<Rightarrow> Inr s
      | Some f \<Rightarrow> seq (fileclose f s) (\<lambda>s. Inr (upd_proc cur (\<lambda>q. q\<lparr>p_ofile := (p_ofile q)[fd := None]\<rparr>) s)))"

definition reparent :: "nat \<Rightarrow> nat \<Rightarrow> 'a ptab_st_scheme \<Rightarrow> 'a ptab_st_scheme" where
  "reparent cur p s =
     (if p_parent (procs s ! p) = Some cur
      then let s = upd_proc p (\<lambda>q. q\<lparr>p_parent := initproc (ptable s)\<rparr>) s
           in if p_state (procs s ! p) = ZOMBIE then wakeup1_proc (initproc (ptable s)) s else s
      else s)"

definition exit :: "'a file_st_scheme \<Rightarrow> 'a file_st_scheme stop + 'b" where
  "exit s =
     seq (myproc s) (\<lambda>(cur, s).
     if cur = initproc (ptable s) then Inl (Panic ''init exiting'')
     else seq (deref cur) (\<lambda>cur.
     seq (fold_st (exit_file cur) [0..<NOFILE] s) (\<lambda>s.
     seq (begin_op s) (\<lambda>s.
     seq (deref (p_cwd (procs s ! cur))) (\<lambda>ip.
     seq (iput ip s) (\<lambda>s.
     seq (end_op s) (\<lambda>s.
     let s = upd_proc cur (\<lambda>q. q\<lparr>p_cwd := None\<rparr>) s
     in seq (acquire_ptable s) (\<lambda>s.
        let s = wakeup1_proc (p_parent (procs s ! cur)) s;
            s = fold (reparent cur) [0..<NPROC] s
        in sched (set_state ZOMBIE cur s)))))))))"

text \<open>wait from the top of its endless loop on, with \<open>ptable.lock\<close> held.\<close>

definition wait_loop :: "nat \<Rightarrow> 'a vm_st_scheme \<Rightarrow> 'a vm_st_scheme stop + int \<times> 'a vm_st_scheme" where
  "wait_loop cur s =
     (case find (\<lambda>p. p_parent (procs s ! p) = Some cur \<and> p_state (procs s ! p) = ZOMBIE) [0..<NPROC] of
        Some p \<Rightarrow>
          let pid = p_pid (procs s ! p)
          in seq (kfree (p_kstack (procs s ! p)) s) (\<lambda>s.
             let s = upd_proc p (\<lambda>q. q\<lparr>p_kstack := 0\<rparr>) s
             in seq (freevm (p_pgdir (procs s ! p)) s) (\<lambda>s.
             let s = upd_proc p (\<lambda>q. q\<lparr>p_pid := 0, p_parent := None, p_name := [], p_killed := 0, p_state := UNUSED\<rparr>) s
             in seq (release_ptable s) (\<lambda>s. Inr (pid, s))))
      | None \<Rightarrow>
          if \<not> (\<exists>p \<in> {0..<NPROC}. p_parent (procs s ! p) = Some cur) \<or> p_killed (procs s ! cur) \<noteq> 0
          then seq (release_ptable s) (\<lambda>s. Inr (-1, s))
          else sleep (Ch_proc cur) None s)"

definition wait :: "'a vm_st_scheme \<Rightarrow> 'a vm_st_scheme stop + int \<times> 'a vm_st_scheme" where
  "wait s =
     seq (myproc s) (\<lambda>(cur, s).
     seq (acquire_ptable s) (\<lambda>s.
     seq (deref cur) (\<lambda>cur. wait_loop cur s)))"

definition wait_resume :: "bool \<Rightarrow> nat \<Rightarrow> 'a vm_st_scheme \<Rightarrow> 'a vm_st_scheme stop + int \<times> 'a vm_st_scheme" where
  "wait_resume intena cur s = seq (sleep_resume intena cur None s) (wait_loop cur)"

section \<open>The scheduler\<close>

definition set_cpu_proc :: "nat option \<Rightarrow> nat \<Rightarrow> 'a kcpu_scheme \<Rightarrow> 'a kcpu_scheme" where
  "set_cpu_proc p c s = s\<lparr>cpus := (cpus s)[c := (cpus s ! c)\<lparr>cpu_proc := p\<rparr>]\<rparr>"

text \<open>
  The loop of scheduler on CPU \<open>c\<close> from table slot \<open>i\<close> on, with \<open>ptable.lock\<close> held: it switches to the next
  runnable process (the result names it), or ends the pass and releases the lock. A
  process that gives up the CPU comes back in \<open>scheduler_back\<close>.
\<close>

definition scheduler_from :: "nat \<Rightarrow> nat \<Rightarrow> 'a vm_st_scheme \<Rightarrow> 'a vm_st_scheme stop + nat option \<times> 'a vm_st_scheme" where
  "scheduler_from c i s =
     (case find (\<lambda>p. p_state (procs s ! p) = RUNNABLE) [i..<NPROC] of
        Some p \<Rightarrow>
          seq (switchuvm (Some p) (set_cpu_proc (Some p) c s)) (\<lambda>s. Inr (Some p, set_state RUNNING p s))
      | None \<Rightarrow> seq (release_ptable s) (\<lambda>s. Inr (None, s)))"

definition scheduler_back :: "nat \<Rightarrow> nat \<Rightarrow> 'a vm_st_scheme \<Rightarrow> 'a vm_st_scheme stop + nat option \<times> 'a vm_st_scheme" where
  "scheduler_back c p s = scheduler_from c (p + 1) (set_cpu_proc None c (switchkvm s))"

definition scheduler_pass :: "nat \<Rightarrow> 'a vm_st_scheme \<Rightarrow> 'a vm_st_scheme stop + nat option \<times> 'a vm_st_scheme" where
  "scheduler_pass c s = seq (acquire_ptable (s\<lparr>eflags_if := True\<rparr>)) (scheduler_from c 0)"

definition scheduler :: "'a vm_st_scheme \<Rightarrow> 'a vm_st_scheme stop + nat option \<times> 'a vm_st_scheme" where
  "scheduler s = seq (mycpu s) (\<lambda>c. scheduler_pass c (set_cpu_proc None c s))"

definition forkret :: "'a sys_st_scheme \<Rightarrow> 'a sys_st_scheme stop + 'a sys_st_scheme" where
  "forkret s =
     seq (release_ptable s) (\<lambda>s.
     if forkret_first s \<noteq> 0
     then seq (iinit ROOTDEV (s\<lparr>forkret_first := 0\<rparr>)) (initlog 1)
     else Inr s)"

end
