(* ===== verification/Syscall.thy ===== *)
theory Syscall
  imports Proc
begin

text \<open>
  Fetching system call arguments from user memory (the first part of syscall.c) and the process system calls
  (sysproc.c). The kernel reads and writes user memory through the page table the CPU has loaded; an
  address that is not mapped faults. An argument routine that returns -1 gives \<open>None\<close> here; a system call returns
  the 32 bits it leaves in \<open>eax\<close>.
\<close>

section \<open>User memory\<close>

definition kva :: "u32 \<Rightarrow> 'a vm_st_scheme \<Rightarrow> 'a vm_st_scheme stop + u32" where
  "kva va s =
     seq (walkpgdir (P2V (cr3 (vm s))) va False s) (\<lambda>(pte, s).
     if pte = 0 \<or> rd32 (mem s) pte AND PTE_P = 0 then Inl Fault
     else Inr (P2V (PTE_ADDR (rd32 (mem s) pte)) + (va - PGROUNDDOWN va)))"

definition uload8 :: "u32 \<Rightarrow> 'a vm_st_scheme \<Rightarrow> 'a vm_st_scheme stop + u8" where
  "uload8 va s = seq (kva va s) (\<lambda>a. Inr (mem s a))"

fun uload :: "u32 \<Rightarrow> nat \<Rightarrow> 'a vm_st_scheme \<Rightarrow> 'a vm_st_scheme stop + u8 list" where
  "uload va 0 s = Inr []"
| "uload va (Suc n) s = seq (uload8 va s) (\<lambda>b. seq (uload (va + 1) n s) (\<lambda>bs. Inr (b # bs)))"

fun ustore :: "u32 \<Rightarrow> u8 list \<Rightarrow> 'a vm_st_scheme \<Rightarrow> 'a vm_st_scheme stop + 'a vm_st_scheme" where
  "ustore va [] s = Inr s"
| "ustore va (b # bs) s = seq (kva va s) (\<lambda>a. ustore (va + 1) bs (s\<lparr>mem := (mem s)(a := b)\<rparr>))"

definition le16 :: "u16 \<Rightarrow> u8 list" where
  "le16 v = [ucast v, ucast (drop_bit 8 v)]"

definition le32 :: "u32 \<Rightarrow> u8 list" where
  "le32 v = [ucast v, ucast (drop_bit 8 v), ucast (drop_bit 16 v), ucast (drop_bit 24 v)]"

definition curproc :: "'a ptab_st_scheme \<Rightarrow> 'a ptab_st_scheme stop + nat \<times> 'a ptab_st_scheme" where
  "curproc s = seq (myproc s) (\<lambda>(p, s). seq (deref p) (\<lambda>p. Inr (p, s)))"

section \<open>Arguments\<close>

definition fetchint :: "u32 \<Rightarrow> 'a vm_st_scheme \<Rightarrow> 'a vm_st_scheme stop + u32 option \<times> 'a vm_st_scheme" where
  "fetchint addr s =
     seq (curproc s) (\<lambda>(p, s).
     if addr \<ge> p_sz (procs s ! p) \<or> addr + 4 > p_sz (procs s ! p) then Inr (None, s)
     else seq (uload addr 4 s) (\<lambda>bs. Inr (Some (ld32 bs 0), s)))"

text \<open>The loop of fetchstr with \<open>n\<close> bytes up to the end of the address space; the result is the string.\<close>

fun fetchstr_loop :: "nat \<Rightarrow> u32 \<Rightarrow> u8 list \<Rightarrow> 'a vm_st_scheme \<Rightarrow> 'a vm_st_scheme stop + u8 list option" where
  "fetchstr_loop 0 va str s = Inr None"
| "fetchstr_loop (Suc n) va str s =
     seq (uload8 va s) (\<lambda>b. if b = 0 then Inr (Some str) else fetchstr_loop n (va + 1) (str @ [b]) s)"

definition fetchstr :: "u32 \<Rightarrow> 'a vm_st_scheme \<Rightarrow> 'a vm_st_scheme stop + u8 list option \<times> 'a vm_st_scheme" where
  "fetchstr addr s =
     seq (curproc s) (\<lambda>(p, s).
     if addr \<ge> p_sz (procs s ! p) then Inr (None, s)
     else seq (fetchstr_loop (unat (p_sz (procs s ! p)) - unat addr) addr [] s) (\<lambda>r. Inr (r, s)))"

definition argint :: "nat \<Rightarrow> 'a vm_st_scheme \<Rightarrow> 'a vm_st_scheme stop + u32 option \<times> 'a vm_st_scheme" where
  "argint n s =
     seq (curproc s) (\<lambda>(p, s). fetchint (tf_esp (p_tf (procs s ! p)) + 4 + 4 * of_nat n) s)"

definition argptr :: "nat \<Rightarrow> int \<Rightarrow> 'a vm_st_scheme \<Rightarrow> 'a vm_st_scheme stop + u32 option \<times> 'a vm_st_scheme" where
  "argptr n sz s =
     seq (curproc s) (\<lambda>(p, s).
     seq (argint n s) (\<lambda>(i, s). case i of None \<Rightarrow> Inr (None, s) | Some i \<Rightarrow>
     if sz < 0 \<or> i \<ge> p_sz (procs s ! p) \<or> i + of_int sz > p_sz (procs s ! p) then Inr (None, s)
     else Inr (Some i, s)))"

definition argstr :: "nat \<Rightarrow> 'a vm_st_scheme \<Rightarrow> 'a vm_st_scheme stop + u8 list option \<times> 'a vm_st_scheme" where
  "argstr n s =
     seq (argint n s) (\<lambda>(addr, s). case addr of None \<Rightarrow> Inr (None, s) | Some addr \<Rightarrow> fetchstr addr s)"

section \<open>Process system calls\<close>

definition sys_fork :: "'a file_st_scheme \<Rightarrow> 'a file_st_scheme stop + u32 \<times> 'a file_st_scheme" where
  "sys_fork s = seq (fork s) (\<lambda>(r, s). Inr (of_int r, s))"

definition sys_exit :: "'a file_st_scheme \<Rightarrow> 'a file_st_scheme stop + u32 \<times> 'a file_st_scheme" where
  "sys_exit s = exit s"

definition sys_wait :: "'a vm_st_scheme \<Rightarrow> 'a vm_st_scheme stop + u32 \<times> 'a vm_st_scheme" where
  "sys_wait s = seq (wait s) (\<lambda>(r, s). Inr (of_int r, s))"

definition sys_kill :: "'a vm_st_scheme \<Rightarrow> 'a vm_st_scheme stop + u32 \<times> 'a vm_st_scheme" where
  "sys_kill s =
     seq (argint 0 s) (\<lambda>(pid, s). case pid of None \<Rightarrow> Inr (-1, s)
     | Some pid \<Rightarrow> seq (kill (sint pid) s) (\<lambda>(r, s). Inr (of_int r, s)))"

definition sys_getpid :: "'a ptab_st_scheme \<Rightarrow> 'a ptab_st_scheme stop + u32 \<times> 'a ptab_st_scheme" where
  "sys_getpid s = seq (curproc s) (\<lambda>(p, s). Inr (of_int (p_pid (procs s ! p)), s))"

definition sys_sbrk :: "'a vm_st_scheme \<Rightarrow> 'a vm_st_scheme stop + u32 \<times> 'a vm_st_scheme" where
  "sys_sbrk s =
     seq (argint 0 s) (\<lambda>(n, s). case n of None \<Rightarrow> Inr (-1, s) | Some n \<Rightarrow>
     seq (curproc s) (\<lambda>(p, s).
     let addr = p_sz (procs s ! p)
     in seq (growproc (sint n) s) (\<lambda>(r, s). Inr (if r < 0 then -1 else addr, s))))"

definition put_tickslock :: "spinlock \<Rightarrow> 'a sys_st_scheme \<Rightarrow> 'a sys_st_scheme" where
  "put_tickslock l s = s\<lparr>tickslock := l\<rparr>"

text \<open>
  sys_sleep from the test of its loop on, with \<open>tickslock\<close> held; the test compares in 32 bits without sign.
\<close>

definition sys_sleep_loop :: "u32 \<Rightarrow> u32 \<Rightarrow> 'a sys_st_scheme \<Rightarrow> 'a sys_st_scheme stop + u32 \<times> 'a sys_st_scheme" where
  "sys_sleep_loop ticks0 n s =
     (if ticks s - ticks0 < n
      then seq (killed_now s) (\<lambda>(k, s).
           if k then seq (release_at tickslock put_tickslock s) (\<lambda>s. Inr (-1, s))
           else sleep Ch_ticks (Some (tickslock, put_tickslock)) s)
      else seq (release_at tickslock put_tickslock s) (\<lambda>s. Inr (0, s)))"

definition sys_sleep :: "'a sys_st_scheme \<Rightarrow> 'a sys_st_scheme stop + u32 \<times> 'a sys_st_scheme" where
  "sys_sleep s =
     seq (argint 0 s) (\<lambda>(n, s). case n of None \<Rightarrow> Inr (-1, s) | Some n \<Rightarrow>
     seq (acquire_at tickslock put_tickslock s) (\<lambda>s. sys_sleep_loop (ticks s) n s))"

definition sys_sleep_resume :: "bool \<Rightarrow> nat \<Rightarrow> u32 \<Rightarrow> u32 \<Rightarrow> 'a sys_st_scheme \<Rightarrow> 'a sys_st_scheme stop + u32 \<times> 'a sys_st_scheme" where
  "sys_sleep_resume intena p ticks0 n s =
     seq (sleep_resume intena p (Some (tickslock, put_tickslock)) s) (sys_sleep_loop ticks0 n)"

definition sys_uptime :: "'a sys_st_scheme \<Rightarrow> 'a sys_st_scheme stop + u32 \<times> 'a sys_st_scheme" where
  "sys_uptime s =
     seq (acquire_at tickslock put_tickslock s) (\<lambda>s.
     let x = ticks s in seq (release_at tickslock put_tickslock s) (\<lambda>s. Inr (x, s)))"

end
