(* ===== verification/Exec.thy ===== *)
theory Exec
  imports Syscall
begin

text \<open>
  Loading a program (exec.c, elf.h, and loaduvm of vm.c). The argument strings and the argument array are
  given as bytes; \<open>copyout_list\<close> is copyout of vm.c with the source given that way.
\<close>

section \<open>Loading a segment\<close>

fun store_bytes :: "mem \<Rightarrow> u32 \<Rightarrow> u8 list \<Rightarrow> mem" where
  "store_bytes m a [] = m"
| "store_bytes m a (b # bs) = store_bytes (m(a := b)) (a + 1) bs"

text \<open>The page loop of loaduvm; \<open>sz\<close> is below \<open>KERNBASE\<close>, which allocuvm has checked, so the offset does not wrap.\<close>

fun loaduvm_loop :: "u32 \<Rightarrow> u32 \<Rightarrow> nat \<Rightarrow> u32 \<Rightarrow> u32 \<Rightarrow> nat list \<Rightarrow> 'a cons_st_scheme \<Rightarrow>
    'a cons_st_scheme stop + int \<times> 'a cons_st_scheme" where
  "loaduvm_loop pgdir addr ip offset sz [] s = Inr (0, s)"
| "loaduvm_loop pgdir addr ip offset sz (i # is) s =
     seq (walkpgdir pgdir (addr + of_nat i) False s) (\<lambda>(pte, s).
     if pte = 0 then Inl (Panic ''loaduvm: address should exist'')
     else let pa = PTE_ADDR (rd32 (mem s) pte);
              n = (if sz - of_nat i < PGSIZE then sz - of_nat i else PGSIZE)
          in seq (readi ip (offset + of_nat i) n s) (\<lambda>((r, out), s).
             let s = s\<lparr>mem := store_bytes (mem s) (P2V pa) out\<rparr>
             in if of_int r \<noteq> n then Inr (-1, s) else loaduvm_loop pgdir addr ip offset sz is s))"

definition loaduvm :: "u32 \<Rightarrow> u32 \<Rightarrow> nat \<Rightarrow> u32 \<Rightarrow> u32 \<Rightarrow> 'a cons_st_scheme \<Rightarrow>
    'a cons_st_scheme stop + int \<times> 'a cons_st_scheme" where
  "loaduvm pgdir addr ip offset sz s =
     (if addr mod PGSIZE \<noteq> 0 then Inl (Panic ''loaduvm: addr must be page aligned'')
      else loaduvm_loop pgdir addr ip offset sz (steps (unat sz) 4096) s)"

section \<open>The program file\<close>

abbreviation (input) ELF_MAGIC :: u32 where "ELF_MAGIC \<equiv> 0x464C457F"
abbreviation (input) ELF_PROG_LOAD :: u32 where "ELF_PROG_LOAD \<equiv> 1"
abbreviation (input) MAXARG :: nat where "MAXARG \<equiv> 32"

record elfhdr =
  e_magic :: u32
  e_entry :: u32
  e_phoff :: u32
  e_phnum :: u16

record proghdr =
  ph_type :: u32
  ph_off :: u32
  ph_vaddr :: u32
  ph_filesz :: u32
  ph_memsz :: u32

definition elfhdr_of :: "u8 list \<Rightarrow> elfhdr" where
  "elfhdr_of d = \<lparr>e_magic = ld32 d 0, e_entry = ld32 d 24, e_phoff = ld32 d 28, e_phnum = ld16 d 44\<rparr>"

definition proghdr_of :: "u8 list \<Rightarrow> proghdr" where
  "proghdr_of d = \<lparr>ph_type = ld32 d 0, ph_off = ld32 d 4, ph_vaddr = ld32 d 8, ph_filesz = ld32 d 16, ph_memsz = ld32 d 20\<rparr>"

text \<open>The loop over the program headers, at file offset \<open>off\<close>; None is a jump to \<open>bad\<close>.\<close>

fun exec_load :: "nat \<Rightarrow> u32 \<Rightarrow> nat \<Rightarrow> u32 \<Rightarrow> u32 \<Rightarrow> 'a cons_st_scheme \<Rightarrow>
    'a cons_st_scheme stop + u32 option \<times> 'a cons_st_scheme" where
  "exec_load 0 pgdir ip off sz s = Inr (Some sz, s)"
| "exec_load (Suc k) pgdir ip off sz s =
     seq (readi ip off 32 s) (\<lambda>((r, d), s).
     if r \<noteq> 32 then Inr (None, s)
     else let ph = proghdr_of d
     in if ph_type ph \<noteq> ELF_PROG_LOAD then exec_load k pgdir ip (off + 32) sz s
        else if ph_memsz ph < ph_filesz ph then Inr (None, s)
        else if ph_vaddr ph + ph_memsz ph < ph_vaddr ph then Inr (None, s)
        else seq (allocuvm pgdir sz (ph_vaddr ph + ph_memsz ph) s) (\<lambda>(sz, s).
             if sz = 0 then Inr (None, s)
             else if ph_vaddr ph mod PGSIZE \<noteq> 0 then Inr (None, s)
             else seq (loaduvm pgdir (ph_vaddr ph) ip (ph_off ph) (ph_filesz ph) s) (\<lambda>(r, s).
                  if r < 0 then Inr (None, s) else exec_load k pgdir ip (off + 32) sz s)))"

section \<open>The stack of the new program\<close>

function copyout_list :: "u32 \<Rightarrow> u32 \<Rightarrow> u8 list \<Rightarrow> 'a kmem_st_scheme \<Rightarrow> 'a kmem_st_scheme stop + int \<times> 'a kmem_st_scheme" where
  "copyout_list pgdir va bs s =
     (if bs \<noteq> [] then
        let va0 = PGROUNDDOWN va
        in seq (uva2ka pgdir va0 s) (\<lambda>pa0.
           if pa0 = 0 then Inr (-1, s)
           else let n = unat (PGSIZE - (va - va0))
           in copyout_list pgdir (va0 + PGSIZE) (drop n bs)
                (s\<lparr>mem := store_bytes (mem s) (pa0 + (va - va0)) (take n bs)\<rparr>))
      else Inr (0, s))"
  by pat_completeness auto

termination
proof (relation "measure (\<lambda>(pgdir, va, bs, s). length bs)", simp, clarsimp simp: page_rest(4))
  fix va :: u32 and bs :: "u8 list"
  assume "bs \<noteq> []"
  moreover have "unat va mod 4096 < 4096" by simp
  ultimately show "length bs + unat va mod 4096 - 4096 < length bs"
    by (cases bs) (simp_all, linarith?)
qed

declare copyout_list.simps [simp del]

text \<open>
  The loop that pushes the argument strings: the stack pointer and the addresses of the strings pushed so
  far; None is a jump to \<open>bad\<close>.
\<close>

fun exec_push :: "u32 \<Rightarrow> u8 list list \<Rightarrow> u32 \<Rightarrow> u32 list \<Rightarrow> 'a kmem_st_scheme \<Rightarrow>
    'a kmem_st_scheme stop + (u32 \<times> u32 list) option \<times> 'a kmem_st_scheme" where
  "exec_push pgdir [] sp us s = Inr (Some (sp, us), s)"
| "exec_push pgdir (arg # args) sp us s =
     (if length us \<ge> MAXARG then Inr (None, s)
      else let sp = (sp - (of_nat (length arg) + 1)) AND NOT 3
      in seq (copyout_list pgdir sp (arg @ [0]) s) (\<lambda>(r, s).
         if r < 0 then Inr (None, s) else exec_push pgdir args sp (us @ [sp]) s))"

definition ustack_of :: "u32 \<Rightarrow> u32 list \<Rightarrow> u32 list" where
  "ustack_of sp us =
     (let argc = of_nat (length us) in [0xffffffff, argc, sp - (argc + 1) * 4] @ us @ [0])"

section \<open>exec\<close>

definition exec_bad :: "u32 \<Rightarrow> nat option \<Rightarrow> 'a cons_st_scheme \<Rightarrow> 'a cons_st_scheme stop + int \<times> 'a cons_st_scheme" where
  "exec_bad pgdir ip s =
     seq (if pgdir \<noteq> 0 then freevm pgdir s else Inr s) (\<lambda>s.
     case ip of None \<Rightarrow> Inr (-1, s)
     | Some ip \<Rightarrow> seq (iunlockput ip s) (\<lambda>s. seq (end_op s) (\<lambda>s. Inr (-1, s))))"

text \<open>The name of the program is the path after its last slash.\<close>

definition last_elem :: "u8 list \<Rightarrow> u8 list" where
  "last_elem path = rev (takeWhile (\<lambda>c. c \<noteq> slash) (rev path))"

text \<open>The second half of exec, from the guard page and the stack on.\<close>

definition exec_stack :: "nat \<Rightarrow> u8 list \<Rightarrow> u8 list list \<Rightarrow> elfhdr \<Rightarrow> u32 \<Rightarrow> u32 \<Rightarrow> 'a cons_st_scheme \<Rightarrow>
    'a cons_st_scheme stop + int \<times> 'a cons_st_scheme" where
  "exec_stack cur path argv elf pgdir sz s =
     (let sz = PGROUNDUP sz
      in seq (allocuvm pgdir sz (sz + 2 * PGSIZE) s) (\<lambda>(sz, s).
         if sz = 0 then exec_bad pgdir None s
         else seq (clearpteu pgdir (sz - 2 * PGSIZE) s) (\<lambda>s.
         seq (exec_push pgdir argv sz [] s) (\<lambda>(r, s). case r of
           None \<Rightarrow> exec_bad pgdir None s
         | Some (sp, us) \<Rightarrow>
             let ust = ustack_of sp us; sp = sp - of_nat (length ust) * 4
             in seq (copyout_list pgdir sp (concat (map le32 ust)) s) (\<lambda>(r, s).
                if r < 0 then exec_bad pgdir None s
                else let oldpgdir = p_pgdir (procs s ! cur);
                         s = upd_proc cur (\<lambda>q. q\<lparr>p_name := proc_name (last_elem path), p_pgdir := pgdir, p_sz := sz,
                               p_tf := (p_tf q)\<lparr>tf_eip := e_entry elf, tf_esp := sp\<rparr>\<rparr>) s
                     in seq (switchuvm (Some cur) s) (\<lambda>s. seq (freevm oldpgdir s) (\<lambda>s. Inr (0, s))))))))"

definition exec :: "u8 list \<Rightarrow> u8 list list \<Rightarrow> 'a cons_st_scheme \<Rightarrow> 'a cons_st_scheme stop + int \<times> 'a cons_st_scheme" where
  "exec path argv s =
     seq (curproc s) (\<lambda>(cur, s).
     seq (begin_op s) (\<lambda>s.
     seq (namei path s) (\<lambda>(ip, s). case ip of
       None \<Rightarrow> seq (end_op s) (\<lambda>s. seq (cprintf (''exec: fail'' @ [CHR 0x0A]) [] s) (\<lambda>s. Inr (-1, s)))
     | Some ip \<Rightarrow>
         seq (ilock ip s) (\<lambda>s.
         seq (readi ip 0 52 s) (\<lambda>((r, d), s).
         let elf = elfhdr_of d
         in if r \<noteq> 52 \<or> e_magic elf \<noteq> ELF_MAGIC then exec_bad 0 (Some ip) s
         else seq (setupkvm s) (\<lambda>(pgdir, s).
         if pgdir = 0 then exec_bad 0 (Some ip) s
         else seq (exec_load (unat (e_phnum elf)) pgdir ip (e_phoff elf) 0 s) (\<lambda>(r, s). case r of
           None \<Rightarrow> exec_bad pgdir (Some ip) s
         | Some sz \<Rightarrow>
             seq (iunlockput ip s) (\<lambda>s.
             seq (end_op s) (\<lambda>s.
             exec_stack cur path argv elf pgdir sz s)))))))))"

end
