(* ===== verification/Sysfile.thy ===== *)
theory Sysfile
  imports Exec
begin

text \<open>
  The file system calls (sysfile.c). Reading a file stores its bytes through the page table when the
  routine below returns them; writing fetches the bytes first.
\<close>

section \<open>Descriptors\<close>

definition argfd :: "nat \<Rightarrow> 'a vm_st_scheme \<Rightarrow> 'a vm_st_scheme stop + (nat \<times> nat) option \<times> 'a vm_st_scheme" where
  "argfd n s =
     seq (argint n s) (\<lambda>(fd, s). case fd of None \<Rightarrow> Inr (None, s) | Some fd \<Rightarrow>
     if sint fd < 0 \<or> sint fd \<ge> int NOFILE then Inr (None, s)
     else seq (curproc s) (\<lambda>(p, s). case p_ofile (procs s ! p) ! unat fd of
       None \<Rightarrow> Inr (None, s) | Some f \<Rightarrow> Inr (Some (unat fd, f), s)))"

definition set_ofile :: "nat \<Rightarrow> nat \<Rightarrow> nat option \<Rightarrow> 'a ptab_st_scheme \<Rightarrow> 'a ptab_st_scheme" where
  "set_ofile p fd f = upd_proc p (\<lambda>q. q\<lparr>p_ofile := (p_ofile q)[fd := f]\<rparr>)"

definition fdalloc :: "nat \<Rightarrow> 'a ptab_st_scheme \<Rightarrow> 'a ptab_st_scheme stop + nat option \<times> 'a ptab_st_scheme" where
  "fdalloc f s =
     seq (curproc s) (\<lambda>(p, s).
     case find (\<lambda>fd. p_ofile (procs s ! p) ! fd = None) [0..<NOFILE] of
       Some fd \<Rightarrow> Inr (Some fd, set_ofile p fd (Some f) s)
     | None \<Rightarrow> Inr (None, s))"

definition sys_dup :: "'a file_st_scheme \<Rightarrow> 'a file_st_scheme stop + u32 \<times> 'a file_st_scheme" where
  "sys_dup s =
     seq (argfd 0 s) (\<lambda>(r, s). case r of None \<Rightarrow> Inr (-1, s) | Some (_, f) \<Rightarrow>
     seq (fdalloc f s) (\<lambda>(r, s). case r of None \<Rightarrow> Inr (-1, s) | Some fd \<Rightarrow>
     seq (filedup f s) (\<lambda>(_, s). Inr (of_nat fd, s))))"

text \<open>The three arguments of read and write: the file, the byte count and the checked buffer.\<close>

definition arg_rw :: "'a vm_st_scheme \<Rightarrow> 'a vm_st_scheme stop + (nat \<times> u32 \<times> int) option \<times> 'a vm_st_scheme" where
  "arg_rw s =
     seq (argfd 0 s) (\<lambda>(r, s). case r of None \<Rightarrow> Inr (None, s) | Some (_, f) \<Rightarrow>
     seq (argint 2 s) (\<lambda>(n, s). case n of None \<Rightarrow> Inr (None, s) | Some n \<Rightarrow>
     seq (argptr 1 (sint n) s) (\<lambda>(p, s). case p of None \<Rightarrow> Inr (None, s) | Some p \<Rightarrow> Inr (Some (f, p, sint n), s))))"

definition sys_read :: "'a file_st_scheme \<Rightarrow> 'a file_st_scheme stop + u32 \<times> 'a file_st_scheme" where
  "sys_read s =
     seq (arg_rw s) (\<lambda>(r, s). case r of None \<Rightarrow> Inr (-1, s) | Some (f, p, n) \<Rightarrow>
     seq (fileread f n s) (\<lambda>((r, out), s). seq (ustore p out s) (\<lambda>s. Inr (of_int r, s))))"

definition sys_write :: "'a file_st_scheme \<Rightarrow> 'a file_st_scheme stop + u32 \<times> 'a file_st_scheme" where
  "sys_write s =
     seq (arg_rw s) (\<lambda>(r, s). case r of None \<Rightarrow> Inr (-1, s) | Some (f, p, n) \<Rightarrow>
     seq (uload p (nat n) s) (\<lambda>bs. seq (filewrite f bs n s) (\<lambda>(r, s). Inr (of_int r, s))))"

definition sys_close :: "'a file_st_scheme \<Rightarrow> 'a file_st_scheme stop + u32 \<times> 'a file_st_scheme" where
  "sys_close s =
     seq (argfd 0 s) (\<lambda>(r, s). case r of None \<Rightarrow> Inr (-1, s) | Some (fd, f) \<Rightarrow>
     seq (curproc s) (\<lambda>(p, s).
     seq (fileclose f (set_ofile p fd None s)) (\<lambda>s. Inr (0, s))))"

text \<open>struct stat in memory: the fields at offsets 0, 4, 8, 12 and 16; the padding stays.\<close>

definition ustore_stat :: "u32 \<Rightarrow> stat \<Rightarrow> 'a vm_st_scheme \<Rightarrow> 'a vm_st_scheme stop + 'a vm_st_scheme" where
  "ustore_stat p st s =
     seq (ustore (p + 4) (le32 (st_dev st)) s) (\<lambda>s.
     seq (ustore (p + 8) (le32 (st_ino st)) s) (\<lambda>s.
     seq (ustore p (le16 (st_type st)) s) (\<lambda>s.
     seq (ustore (p + 12) (le16 (st_nlink st)) s) (\<lambda>s.
     ustore (p + 16) (le32 (st_size st)) s))))"

definition sys_fstat :: "'a file_st_scheme \<Rightarrow> 'a file_st_scheme stop + u32 \<times> 'a file_st_scheme" where
  "sys_fstat s =
     seq (argfd 0 s) (\<lambda>(r, s). case r of None \<Rightarrow> Inr (-1, s) | Some (_, f) \<Rightarrow>
     seq (argptr 1 20 s) (\<lambda>(p, s). case p of None \<Rightarrow> Inr (-1, s) | Some p \<Rightarrow>
     seq (filestat f s) (\<lambda>((r, st), s). case st of None \<Rightarrow> Inr (of_int r, s)
     | Some st \<Rightarrow> seq (ustore_stat p st s) (\<lambda>s. Inr (of_int r, s)))))"

section \<open>Links\<close>

definition set_nlink :: "nat \<Rightarrow> (u16 \<Rightarrow> u16) \<Rightarrow> 'a fs_st_scheme \<Rightarrow> 'a fs_st_scheme" where
  "set_nlink ip f = upd_inode ip (\<lambda>x. x\<lparr>i_nlink := f (i_nlink x)\<rparr>)"

definition sys_link_bad :: "nat \<Rightarrow> 'a cons_st_scheme \<Rightarrow> 'a cons_st_scheme stop + u32 \<times> 'a cons_st_scheme" where
  "sys_link_bad ip s =
     seq (ilock ip s) (\<lambda>s.
     seq (iupdate ip (set_nlink ip (\<lambda>n. n - 1) s)) (\<lambda>s.
     seq (iunlockput ip s) (\<lambda>s.
     seq (end_op s) (\<lambda>s. Inr (-1, s)))))"

definition sys_link :: "'a cons_st_scheme \<Rightarrow> 'a cons_st_scheme stop + u32 \<times> 'a cons_st_scheme" where
  "sys_link s =
     seq (argstr 0 s) (\<lambda>(old, s). case old of None \<Rightarrow> Inr (-1, s) | Some old \<Rightarrow>
     seq (argstr 1 s) (\<lambda>(new, s). case new of None \<Rightarrow> Inr (-1, s) | Some new \<Rightarrow>
     seq (begin_op s) (\<lambda>s.
     seq (namei old s) (\<lambda>(ip, s). case ip of None \<Rightarrow> seq (end_op s) (\<lambda>s. Inr (-1, s)) | Some ip \<Rightarrow>
     seq (ilock ip s) (\<lambda>s.
     if i_type (inodes s ip) = T_DIR then seq (iunlockput ip s) (\<lambda>s. seq (end_op s) (\<lambda>s. Inr (-1, s)))
     else seq (iupdate ip (set_nlink ip (\<lambda>n. n + 1) s)) (\<lambda>s.
     seq (iunlock ip s) (\<lambda>s.
     seq (nameiparent new s) (\<lambda>(r, s). case r of None \<Rightarrow> sys_link_bad ip s | Some (dp, name) \<Rightarrow>
     seq (ilock dp s) (\<lambda>s.
     seq (if i_dev (inodes s dp) \<noteq> i_dev (inodes s ip) then Inr (-1, s) else dirlink dp name (i_inum (inodes s ip)) s) (\<lambda>(r, s).
     if r < 0 then seq (iunlockput dp s) (sys_link_bad ip)
     else seq (iunlockput dp s) (\<lambda>s.
          seq (iput ip s) (\<lambda>s.
          seq (end_op s) (\<lambda>s. Inr (0, s))))))))))))))"

fun isdirempty_loop :: "nat \<Rightarrow> nat list \<Rightarrow> 'a cons_st_scheme \<Rightarrow> 'a cons_st_scheme stop + bool \<times> 'a cons_st_scheme" where
  "isdirempty_loop dp [] s = Inr (True, s)"
| "isdirempty_loop dp (off # offs) s =
     seq (readi dp (of_nat off) 16 s) (\<lambda>((r, de), s).
     if r \<noteq> 16 then Inl (Panic ''isdirempty: readi'')
     else if de_inum de \<noteq> 0 then Inr (False, s)
     else isdirempty_loop dp offs s)"

definition isdirempty :: "nat \<Rightarrow> 'a cons_st_scheme \<Rightarrow> 'a cons_st_scheme stop + bool \<times> 'a cons_st_scheme" where
  "isdirempty dp s = isdirempty_loop dp (drop 2 (steps (unat (i_size (inodes s dp))) 16)) s"

definition sys_unlink_bad :: "nat \<Rightarrow> 'a cons_st_scheme \<Rightarrow> 'a cons_st_scheme stop + u32 \<times> 'a cons_st_scheme" where
  "sys_unlink_bad dp s = seq (iunlockput dp s) (\<lambda>s. seq (end_op s) (\<lambda>s. Inr (-1, s)))"

definition sys_unlink :: "'a cons_st_scheme \<Rightarrow> 'a cons_st_scheme stop + u32 \<times> 'a cons_st_scheme" where
  "sys_unlink s =
     seq (argstr 0 s) (\<lambda>(path, s). case path of None \<Rightarrow> Inr (-1, s) | Some path \<Rightarrow>
     seq (begin_op s) (\<lambda>s.
     seq (nameiparent path s) (\<lambda>(r, s). case r of None \<Rightarrow> seq (end_op s) (\<lambda>s. Inr (-1, s)) | Some (dp, name) \<Rightarrow>
     seq (ilock dp s) (\<lambda>s.
     if namecmp name (bytes ''.'') = 0 \<or> namecmp name (bytes ''..'') = 0 then sys_unlink_bad dp s
     else seq (dirlookup dp name s) (\<lambda>(r, s). case r of None \<Rightarrow> sys_unlink_bad dp s | Some (ip, off) \<Rightarrow>
     seq (ilock ip s) (\<lambda>s.
     if sint (i_nlink (inodes s ip)) < 1 then Inl (Panic ''unlink: nlink < 1'')
     else seq (if i_type (inodes s ip) = T_DIR then isdirempty ip s else Inr (True, s)) (\<lambda>(e, s).
     if \<not> e then seq (iunlockput ip s) (sys_unlink_bad dp)
     else seq (writei dp (replicate 16 0) off 16 s) (\<lambda>(r, s).
     if r \<noteq> 16 then Inl (Panic ''unlink: writei'')
     else seq (if i_type (inodes s ip) = T_DIR then iupdate dp (set_nlink dp (\<lambda>n. n - 1) s) else Inr s) (\<lambda>s.
     seq (iunlockput dp s) (\<lambda>s.
     seq (iupdate ip (set_nlink ip (\<lambda>n. n - 1) s)) (\<lambda>s.
     seq (iunlockput ip s) (\<lambda>s.
     seq (end_op s) (\<lambda>s. Inr (0, s))))))))))))))"

section \<open>Creating and opening\<close>

text \<open>The entries . and .. of a new directory.\<close>

definition create_dots :: "nat \<Rightarrow> nat \<Rightarrow> 'a cons_st_scheme \<Rightarrow> 'a cons_st_scheme stop + 'a cons_st_scheme" where
  "create_dots dp ip s =
     seq (iupdate dp (set_nlink dp (\<lambda>n. n + 1) s)) (\<lambda>s.
     seq (dirlink ip (bytes ''.'') (i_inum (inodes s ip)) s) (\<lambda>(r, s).
     if r < 0 then Inl (Panic ''create dots'')
     else seq (dirlink ip (bytes ''..'') (i_inum (inodes s dp)) s) (\<lambda>(r, s).
          if r < 0 then Inl (Panic ''create dots'') else Inr s)))"

definition create :: "u8 list \<Rightarrow> u16 \<Rightarrow> u16 \<Rightarrow> u16 \<Rightarrow> 'a cons_st_scheme \<Rightarrow> 'a cons_st_scheme stop + nat option \<times> 'a cons_st_scheme" where
  "create path type major minor s =
     seq (nameiparent path s) (\<lambda>(r, s). case r of None \<Rightarrow> Inr (None, s) | Some (dp, name) \<Rightarrow>
     seq (ilock dp s) (\<lambda>s.
     seq (dirlookup dp name s) (\<lambda>(r, s). case r of
       Some (ip, _) \<Rightarrow>
         seq (iunlockput dp s) (\<lambda>s.
         seq (ilock ip s) (\<lambda>s.
         if type = T_FILE \<and> i_type (inodes s ip) = T_FILE then Inr (Some ip, s)
         else seq (iunlockput ip s) (\<lambda>s. Inr (None, s))))
     | None \<Rightarrow>
         seq (ialloc (i_dev (inodes s dp)) type s) (\<lambda>(ip, s).
         seq (ilock ip s) (\<lambda>s.
         seq (iupdate ip (upd_inode ip (\<lambda>x. x\<lparr>i_major := major, i_minor := minor, i_nlink := 1\<rparr>) s)) (\<lambda>s.
         seq (if type = T_DIR then create_dots dp ip s else Inr s) (\<lambda>s.
         seq (dirlink dp name (i_inum (inodes s ip)) s) (\<lambda>(r, s).
         if r < 0 then Inl (Panic ''create: dirlink'')
         else seq (iunlockput dp s) (\<lambda>s. Inr (Some ip, s))))))))))"

abbreviation (input) O_RDONLY :: u32 where "O_RDONLY \<equiv> 0"
abbreviation (input) O_WRONLY :: u32 where "O_WRONLY \<equiv> 1"
abbreviation (input) O_RDWR :: u32 where "O_RDWR \<equiv> 2"
abbreviation (input) O_CREATE :: u32 where "O_CREATE \<equiv> 0x200"

text \<open>The inode to open, locked and referenced.\<close>

definition open_inode :: "u8 list \<Rightarrow> u32 \<Rightarrow> 'a cons_st_scheme \<Rightarrow> 'a cons_st_scheme stop + nat option \<times> 'a cons_st_scheme" where
  "open_inode path omode s =
     (if omode AND O_CREATE \<noteq> 0 then create path T_FILE 0 0 s
      else seq (namei path s) (\<lambda>(ip, s). case ip of None \<Rightarrow> Inr (None, s) | Some ip \<Rightarrow>
           seq (ilock ip s) (\<lambda>s.
           if i_type (inodes s ip) = T_DIR \<and> omode \<noteq> O_RDONLY then seq (iunlockput ip s) (\<lambda>s. Inr (None, s))
           else Inr (Some ip, s))))"

definition open_fail :: "nat option \<Rightarrow> nat \<Rightarrow> 'a file_st_scheme \<Rightarrow> 'a file_st_scheme stop + u32 \<times> 'a file_st_scheme" where
  "open_fail f ip s =
     seq (case f of None \<Rightarrow> Inr s | Some f \<Rightarrow> fileclose f s) (\<lambda>s.
     seq (iunlockput ip s) (\<lambda>s.
     seq (end_op s) (\<lambda>s. Inr (-1, s))))"

definition sys_open :: "'a file_st_scheme \<Rightarrow> 'a file_st_scheme stop + u32 \<times> 'a file_st_scheme" where
  "sys_open s =
     seq (argstr 0 s) (\<lambda>(path, s). case path of None \<Rightarrow> Inr (-1, s) | Some path \<Rightarrow>
     seq (argint 1 s) (\<lambda>(omode, s). case omode of None \<Rightarrow> Inr (-1, s) | Some omode \<Rightarrow>
     seq (begin_op s) (\<lambda>s.
     seq (open_inode path omode s) (\<lambda>(ip, s). case ip of None \<Rightarrow> seq (end_op s) (\<lambda>s. Inr (-1, s)) | Some ip \<Rightarrow>
     seq (filealloc s) (\<lambda>(f, s). case f of None \<Rightarrow> open_fail None ip s | Some f \<Rightarrow>
     seq (fdalloc f s) (\<lambda>(fd, s). case fd of None \<Rightarrow> open_fail (Some f) ip s | Some fd \<Rightarrow>
     seq (iunlock ip s) (\<lambda>s.
     seq (end_op s) (\<lambda>s.
     Inr (of_nat fd, upd_file f (\<lambda>x. x\<lparr>f_type := FD_INODE, f_ip := ip, f_off := 0,
       f_readable := (if omode AND O_WRONLY = 0 then 1 else 0),
       f_writable := (if omode AND O_WRONLY \<noteq> 0 \<or> omode AND O_RDWR \<noteq> 0 then 1 else 0)\<rparr>) s)))))))))"

text \<open>The common end of mkdir and mknod.\<close>

definition made :: "nat option \<Rightarrow> 'a cons_st_scheme \<Rightarrow> 'a cons_st_scheme stop + u32 \<times> 'a cons_st_scheme" where
  "made ip s =
     (case ip of None \<Rightarrow> seq (end_op s) (\<lambda>s. Inr (-1, s))
      | Some ip \<Rightarrow> seq (iunlockput ip s) (\<lambda>s. seq (end_op s) (\<lambda>s. Inr (0, s))))"

definition sys_mkdir :: "'a cons_st_scheme \<Rightarrow> 'a cons_st_scheme stop + u32 \<times> 'a cons_st_scheme" where
  "sys_mkdir s =
     seq (begin_op s) (\<lambda>s.
     seq (argstr 0 s) (\<lambda>(path, s). case path of None \<Rightarrow> made None s | Some path \<Rightarrow>
     seq (create path T_DIR 0 0 s) (\<lambda>(ip, s). made ip s)))"

definition sys_mknod :: "'a cons_st_scheme \<Rightarrow> 'a cons_st_scheme stop + u32 \<times> 'a cons_st_scheme" where
  "sys_mknod s =
     seq (begin_op s) (\<lambda>s.
     seq (argstr 0 s) (\<lambda>(path, s). case path of None \<Rightarrow> made None s | Some path \<Rightarrow>
     seq (argint 1 s) (\<lambda>(major, s). case major of None \<Rightarrow> made None s | Some major \<Rightarrow>
     seq (argint 2 s) (\<lambda>(minor, s). case minor of None \<Rightarrow> made None s | Some minor \<Rightarrow>
     seq (create path T_DEV (ucast major) (ucast minor) s) (\<lambda>(ip, s). made ip s)))))"

definition sys_chdir :: "'a cons_st_scheme \<Rightarrow> 'a cons_st_scheme stop + u32 \<times> 'a cons_st_scheme" where
  "sys_chdir s =
     seq (curproc s) (\<lambda>(cur, s).
     seq (begin_op s) (\<lambda>s.
     seq (argstr 0 s) (\<lambda>(path, s). case path of None \<Rightarrow> made None s | Some path \<Rightarrow>
     seq (namei path s) (\<lambda>(ip, s). case ip of None \<Rightarrow> made None s | Some ip \<Rightarrow>
     seq (ilock ip s) (\<lambda>s.
     if i_type (inodes s ip) \<noteq> T_DIR then seq (iunlockput ip s) (made None)
     else seq (iunlock ip s) (\<lambda>s.
     seq (deref (p_cwd (procs s ! cur))) (\<lambda>old.
     seq (iput old s) (\<lambda>s.
     seq (end_op s) (\<lambda>s. Inr (0, upd_proc cur (\<lambda>q. q\<lparr>p_cwd := Some ip\<rparr>) s))))))))))"

section \<open>Programs and pipes\<close>

text \<open>The loop of sys_exec with \<open>k\<close> entries of \<open>argv\<close> left; None is a return of -1.\<close>

fun fetch_argv :: "nat \<Rightarrow> u32 \<Rightarrow> u8 list list \<Rightarrow> 'a vm_st_scheme \<Rightarrow> 'a vm_st_scheme stop + u8 list list option \<times> 'a vm_st_scheme" where
  "fetch_argv 0 uargv argv s = Inr (None, s)"
| "fetch_argv (Suc k) uargv argv s =
     seq (fetchint uargv s) (\<lambda>(uarg, s). case uarg of None \<Rightarrow> Inr (None, s) | Some uarg \<Rightarrow>
     if uarg = 0 then Inr (Some argv, s)
     else seq (fetchstr uarg s) (\<lambda>(str, s). case str of None \<Rightarrow> Inr (None, s)
          | Some str \<Rightarrow> fetch_argv k (uargv + 4) (argv @ [str]) s))"

definition sys_exec :: "'a cons_st_scheme \<Rightarrow> 'a cons_st_scheme stop + u32 \<times> 'a cons_st_scheme" where
  "sys_exec s =
     seq (argstr 0 s) (\<lambda>(path, s). case path of None \<Rightarrow> Inr (-1, s) | Some path \<Rightarrow>
     seq (argint 1 s) (\<lambda>(uargv, s). case uargv of None \<Rightarrow> Inr (-1, s) | Some uargv \<Rightarrow>
     seq (fetch_argv MAXARG uargv [] s) (\<lambda>(argv, s). case argv of None \<Rightarrow> Inr (-1, s) | Some argv \<Rightarrow>
     seq (exec path argv s) (\<lambda>(r, s). Inr (of_int r, s)))))"

definition pipe_fail :: "nat option \<Rightarrow> nat \<Rightarrow> nat \<Rightarrow> 'a file_st_scheme \<Rightarrow> 'a file_st_scheme stop + u32 \<times> 'a file_st_scheme" where
  "pipe_fail fd0 rf w_f s =
     seq (case fd0 of None \<Rightarrow> Inr s | Some fd \<Rightarrow> seq (curproc s) (\<lambda>(p, s). Inr (set_ofile p fd None s))) (\<lambda>s.
     seq (fileclose rf s) (\<lambda>s.
     seq (fileclose w_f s) (\<lambda>s. Inr (-1, s))))"

definition sys_pipe :: "'a file_st_scheme \<Rightarrow> 'a file_st_scheme stop + u32 \<times> 'a file_st_scheme" where
  "sys_pipe s =
     seq (argptr 0 8 s) (\<lambda>(fd, s). case fd of None \<Rightarrow> Inr (-1, s) | Some fd \<Rightarrow>
     seq (pipealloc s) (\<lambda>(r, s). case r of None \<Rightarrow> Inr (-1, s) | Some (rf, w_f) \<Rightarrow>
     seq (fdalloc rf s) (\<lambda>(fd0, s). case fd0 of None \<Rightarrow> pipe_fail None rf w_f s | Some a \<Rightarrow>
     seq (fdalloc w_f s) (\<lambda>(fd1, s). case fd1 of None \<Rightarrow> pipe_fail fd0 rf w_f s | Some b \<Rightarrow>
     seq (ustore fd (le32 (of_nat a)) s) (\<lambda>s.
     seq (ustore (fd + 4) (le32 (of_nat b)) s) (\<lambda>s. Inr (0, s)))))))"

end
