(* ===== verification/Kbd.thy ===== *)
theory Kbd
  imports Console
begin

text \<open>
  The keyboard driver (kbd.c with the tables of kbd.h) and the input side of the serial line (uart.c). The keyboard
  delivers bytes at its data port; the driver keeps the state of the modifier keys in \<open>shift\<close> and translates a byte to
  a character. The bytes pending at a port when its interrupt is handled are an argument.
\<close>

unbundle bit_operations_syntax

section \<open>Tables\<close>

abbreviation (input) SHIFT :: u32 where "SHIFT \<equiv> 1"
abbreviation (input) CTL :: u32 where "CTL \<equiv> 2"
abbreviation (input) ALT :: u32 where "ALT \<equiv> 4"
abbreviation (input) CAPSLOCK :: u32 where "CAPSLOCK \<equiv> 8"
abbreviation (input) NUMLOCK :: u32 where "NUMLOCK \<equiv> 16"
abbreviation (input) SCROLLLOCK :: u32 where "SCROLLLOCK \<equiv> 32"
abbreviation (input) E0ESC :: u32 where "E0ESC \<equiv> 64"

text \<open>
  An array of 256 bytes with initialisers: the listed ones in order, then those at an index; the others are 0. A
  lookup is written as in C.
\<close>

definition table :: "u8 list \<Rightarrow> (u32 \<times> u8) list \<Rightarrow> u32 \<Rightarrow> u32" where
  "table xs ys i = (case map_of ys i of Some c \<Rightarrow> ucast c
     | None \<Rightarrow> if unat i < length xs then ucast (xs ! unat i) else 0)"

definition shiftcode :: "u32 \<Rightarrow> u32" where
  "shiftcode = table [] [(0x1D, 2), (0x2A, 1), (0x36, 1), (0x38, 4), (0x9D, 2), (0xB8, 4)]"

definition togglecode :: "u32 \<Rightarrow> u32" where
  "togglecode = table [] [(0x3A, 8), (0x45, 16), (0x46, 32)]"

text \<open>The keys behind an E0 escape, the same in all maps but for the two of the keypad.\<close>

definition special_keys :: "(u32 \<times> u8) list" where
  "special_keys = [(0xC8, 0xE2), (0xD0, 0xE3), (0xC9, 0xE6), (0xD1, 0xE7), (0xCB, 0xE4), (0xCD, 0xE5),
     (0x97, 0xE0), (0xCF, 0xE1), (0xD2, 0xE8), (0xD3, 0xE9)]"

definition normal_row :: "u8 list" where
  "normal_row =
      [0, 0x1B] @ bytes ''1234567890-='' @ [8, 9] @
      bytes ''qwertyuiop[]'' @ [10, 0] @ bytes ''asdfghjkl;'' @ [39, 96, 0, 92] @ bytes ''zxcvbnm,./'' @ [0, 42,
       0, 32, 0, 0, 0, 0, 0, 0,
       0, 0, 0, 0, 0, 0, 0] @ bytes ''789-456+1230.'' @ [0, 0, 0, 0]"

definition normalmap :: "u32 \<Rightarrow> u32" where
  "normalmap = table normal_row ([(0x9C, 10), (0xB5, 47)] @ special_keys)"

definition shift_row :: "u8 list" where
  "shift_row =
      [0, 27] @ bytes ''!@#$%^&*()_+'' @ [8, 9] @
      bytes ''QWERTYUIOP{}'' @ [10, 0] @ bytes ''ASDFGHJKL:'' @ [34, 126, 0, 124] @ bytes ''ZXCVBNM<>?'' @ [0, 42,
       0, 32, 0, 0, 0, 0, 0, 0,
       0, 0, 0, 0, 0, 0, 0] @ bytes ''789-456+1230.'' @ [0, 0, 0, 0]"

definition shiftmap :: "u32 \<Rightarrow> u32" where
  "shiftmap = table shift_row ([(0x9C, 10), (0xB5, 47)] @ special_keys)"

definition Ctl :: "string \<Rightarrow> u8 list" where
  "Ctl x = map (\<lambda>c. c - 64) (bytes x)"

definition ctl_row :: "u8 list" where
  "ctl_row =
      [0, 0, 0, 0, 0, 0, 0, 0,
       0, 0, 0, 0, 0, 0, 0, 0] @
      Ctl ''QWERTYUIOP'' @ [0, 0, 13, 0] @ Ctl ''ASDFGHJKL'' @ [0,
       0, 0, 0] @ Ctl [CHR 0x5C] @ Ctl ''ZXCVBNM'' @ [0, 0] @ Ctl ''/'' @ [0, 0]"

definition ctlmap :: "u32 \<Rightarrow> u32" where
  "ctlmap = table ctl_row ([(0x9C, 13), (0xB5, 47 - 64)] @ special_keys)"

section \<open>The driver\<close>

text \<open>
  What kbdgetc makes of a byte at the data port: the character it returns (0 for none) and the new \<open>shift\<close>.
\<close>

definition charcode :: "u32 \<Rightarrow> u32 \<Rightarrow> u32" where
  "charcode i = [normalmap, shiftmap, ctlmap, ctlmap] ! unat i"

definition kbd_byte :: "u32 \<Rightarrow> u32 \<Rightarrow> u32 \<times> u32" where
  "kbd_byte data shift =
     (if data = 0xE0 then (0, shift OR E0ESC)
      else if data AND 0x80 \<noteq> 0 then
        let data = (if shift AND E0ESC \<noteq> 0 then data else data AND 0x7F)
        in (0, shift AND NOT (shiftcode data OR E0ESC))
      else
        let (data, shift) = (if shift AND E0ESC \<noteq> 0 then (data OR 0x80, shift AND NOT E0ESC) else (data, shift));
            shift = shift OR shiftcode data;
            shift = shift XOR togglecode data;
            c = charcode (shift AND (CTL OR SHIFT)) data;
            c = (if shift AND CAPSLOCK \<noteq> 0
                 then if 97 \<le> c \<and> c \<le> 122 then c + (65 - 97)
                      else if 65 \<le> c \<and> c \<le> 90 then c + (97 - 65)
                      else c
                 else c)
        in (c, shift))"

text \<open>
  kbdgetc and uartgetc with the bytes \<open>bs\<close> waiting at the port: -1 when the status port shows none. Of the two
  results the second is what is left at the port.
\<close>

definition kbdgetc :: "u8 list \<Rightarrow> u32 \<Rightarrow> int \<times> u8 list \<times> u32" where
  "kbdgetc bs shift =
     (case bs of [] \<Rightarrow> (-1, [], shift)
      | data # bs \<Rightarrow> let (c, shift) = kbd_byte (ucast data) shift in (sint c, bs, shift))"

definition uartgetc :: "int \<Rightarrow> u8 list \<Rightarrow> int \<times> u8 list" where
  "uartgetc present bs =
     (if present = 0 then (-1, bs)
      else case bs of [] \<Rightarrow> (-1, []) | data # bs \<Rightarrow> (uint data, bs))"

text \<open>
  The characters that the loop of consoleintr takes from its argument \<open>getc\<close>, until it returns a negative number.
\<close>

function kbd_chars :: "u8 list \<Rightarrow> u32 \<Rightarrow> u32 list \<times> u8 list \<times> u32" where
  "kbd_chars bs shift =
     (case kbdgetc bs shift of (c, bs, shift) \<Rightarrow>
      if c < 0 then ([], bs, shift)
      else case kbd_chars bs shift of (cs, r) \<Rightarrow> (of_int c # cs, r))"
  by pat_completeness auto

termination
  by (relation "measure (length \<circ> fst)") (auto simp: kbdgetc_def split: list.splits prod.splits)

function uart_chars :: "int \<Rightarrow> u8 list \<Rightarrow> u32 list \<times> u8 list" where
  "uart_chars present bs =
     (case uartgetc present bs of (c, bs) \<Rightarrow>
      if c < 0 then ([], bs) else case uart_chars present bs of (cs, r) \<Rightarrow> (of_int c # cs, r))"
  by pat_completeness auto

termination
  by (relation "measure (length \<circ> snd)") (auto simp: uartgetc_def split: list.splits if_splits)

declare kbd_chars.simps [simp del] uart_chars.simps [simp del]

definition kbdintr :: "u8 list \<Rightarrow> u32 \<Rightarrow> 'a cons_st_scheme \<Rightarrow>
    'a cons_st_scheme stop + bool \<times> u32 \<times> 'a cons_st_scheme" where
  "kbdintr bs shift s =
     (case kbd_chars bs shift of (cs, _, shift) \<Rightarrow> seq (consoleintr cs s) (\<lambda>(dump, s). Inr (dump, shift, s)))"

definition uartintr :: "u8 list \<Rightarrow> 'a cons_st_scheme \<Rightarrow> 'a cons_st_scheme stop + bool \<times> 'a cons_st_scheme" where
  "uartintr bs s = (case uart_chars (uart (scr s)) bs of (cs, _) \<Rightarrow> consoleintr cs s)"

section \<open>Typing\<close>

text \<open>A lookup in one of the tables, and so every character, fits a byte; the loop takes every waiting byte.\<close>

lemma table_byte: "unat (table xs ys i) < 256"
proof -
  have "unat (ucast c :: u32) < 256" for c :: u8
    using unsigned_less [of c, where 'a = nat] by (simp add: unsigned_ucast_eq take_bit_eq_mod)
  then show ?thesis
    by (simp add: table_def split: option.splits)
qed

lemma charcode_byte:
  assumes "unat i < 4"
  shows "unat (charcode i d) < 256"
proof -
  from assms have "unat i = 0 \<or> unat i = 1 \<or> unat i = 2 \<or> unat i = 3"
    by auto
  then show ?thesis
    using table_byte by (auto simp: charcode_def normalmap_def shiftmap_def ctlmap_def numeral_2_eq_2 numeral_3_eq_3)
qed

lemma and_3_small: "unat (x AND 3) < 4" for x :: u32
proof -
  have "x AND 3 = take_bit 2 x"
    by (simp add: take_bit_eq_mask mask_eq_exp_minus_1)
  then show ?thesis
    by (simp add: unat_mod take_bit_eq_mod)
qed

lemma kbd_byte_small:
  assumes "unat d < 256"
  shows "unat (fst (kbd_byte d shift)) < 256"
proof -
  have lower: "unat (c + (65 - 97)) < 256" if "97 \<le> c" "c \<le> 122" for c :: u32
  proof -
    have "unat (c - 32) = unat c - 32"
      using that by (simp add: word_le_nat_alt unat_sub_if')
    then show ?thesis using that by (simp add: word_le_nat_alt)
  qed
  have upper: "unat (c + (97 - 65)) < 256" if "65 \<le> c" "c \<le> 90" for c :: u32
    using that by (simp add: word_le_nat_alt unat_word_ariths)
  show ?thesis
    using charcode_byte [OF and_3_small] lower upper
    by (auto simp: kbd_byte_def Let_def split: if_splits)
qed

lemma kbd_chars_Nil [simp]: "kbd_chars [] shift = ([], [], shift)"
  by (subst kbd_chars.simps) (simp add: kbdgetc_def)

lemma kbd_chars_Cons [simp]:
  "kbd_chars (d # bs) shift =
     (case kbd_byte (ucast d) shift of (c, shift) \<Rightarrow> case kbd_chars bs shift of (cs, r) \<Rightarrow> (c # cs, r))"
proof -
  obtain c h where c: "kbd_byte (ucast d) shift = (c, h)" by fastforce
  have "unat (ucast d :: u32) < 256"
    using unsigned_less [of d, where 'a = nat] by (simp add: unsigned_ucast_eq take_bit_eq_mod)
  then have "unat c < 256"
    using kbd_byte_small [of "ucast d" shift] c by simp
  then have "uint c < 256"
    by (metis int_eq_iff_numeral of_nat_less_iff unat_eq_nat_uint uint_nat)
  then have "sint c = uint c"
    unfolding sint_uint by (intro signed_take_bit_int_eq_self) (simp_all add: order.trans [OF _ uint_ge_0])
  then show ?thesis
    by (subst kbd_chars.simps) (simp add: kbdgetc_def c split: prod.splits)
qed

text \<open>
  The keys that type a printable character on the main block: the key itself, or the key while the left shift key is
  held, each byte as the keyboard sends it. With the caps lock on, letters change case.
\<close>

definition codes :: "u8 list" where
  "codes = map of_nat [0..<0x58]"

definition keys_for :: "u8 \<Rightarrow> u8 list" where
  "keys_for c =
     (case find (\<lambda>k. normalmap (ucast k) = ucast c) codes of
        Some k \<Rightarrow> [k, k OR 0x80]
      | None \<Rightarrow> case find (\<lambda>k. shiftmap (ucast k) = ucast c) codes of
          Some k \<Rightarrow> [0x2A, k, k OR 0x80, 0xAA]
        | None \<Rightarrow> [])"

definition swap_case :: "u32 \<Rightarrow> u32" where
  "swap_case c = (if 97 \<le> c \<and> c \<le> 122 then c - 32 else if 65 \<le> c \<and> c \<le> 90 then c + 32 else c)"

definition printable :: "u8 list" where
  "printable = map of_nat [32..<127]"

lemma code_bits:
  assumes "k \<in> set codes"
  shows "ucast k AND (0x80 :: u32) = 0" "ucast (k OR 0x80) AND (0x80 :: u32) \<noteq> 0" "ucast (k OR 0x80) AND (0x7F :: u32) = ucast k"
    "ucast k \<noteq> (0xE0 :: u32)" "ucast (k OR 0x80) \<noteq> (0xE0 :: u32)"
proof -
  have "list_all (\<lambda>k. ucast k AND (0x80 :: u32) = 0 \<and> ucast (k OR 0x80) AND (0x80 :: u32) \<noteq> 0 \<and>
      ucast (k OR 0x80) AND (0x7F :: u32) = ucast k \<and> ucast k \<noteq> (0xE0 :: u32) \<and> ucast (k OR 0x80) \<noteq> (0xE0 :: u32)) codes"
    by code_simp
  with assms show "ucast k AND (0x80 :: u32) = 0" "ucast (k OR 0x80) AND (0x80 :: u32) \<noteq> 0" "ucast (k OR 0x80) AND (0x7F :: u32) = ucast k"
    "ucast k \<noteq> (0xE0 :: u32)" "ucast (k OR 0x80) \<noteq> (0xE0 :: u32)"
    by (simp_all add: list_all_iff)
qed

lemma modifier_maps:
  assumes "x \<in> {0x1D, 0x2A, 0x36, 0x38, 0x3A, 0x45, 0x46}"
  shows "normalmap x = 0 \<and> shiftmap x = 0"
  using assms
  by (auto simp: normalmap_def shiftmap_def table_def normal_row_def shift_row_def special_keys_def bytes_def of_char_def)

lemma modifier_silent:
  assumes "normalmap d \<noteq> 0 \<or> shiftmap d \<noteq> 0" "d \<noteq> 0x9D" "d \<noteq> 0xB8"
  shows "shiftcode d = 0 \<and> togglecode d = 0"
proof (rule ccontr)
  assume "\<not> ?thesis"
  then have "d \<in> {0x1D, 0x2A, 0x36, 0x38, 0x3A, 0x45, 0x46}"
    using assms(2,3) by (simp add: shiftcode_def togglecode_def table_def split: if_splits)
  with modifier_maps assms(1) show False by blast
qed

lemma stroke:
  assumes "k \<in> set codes" "shiftcode (ucast k) = 0" "togglecode (ucast k) = 0" "shift \<in> {0, SHIFT, CAPSLOCK, SHIFT OR CAPSLOCK}"
  shows "kbd_byte (ucast k) shift =
      ((if shift AND CAPSLOCK = 0 then charcode (shift AND 3) (ucast k) else swap_case (charcode (shift AND 3) (ucast k))), shift)"
    "kbd_byte (ucast (k OR 0x80)) shift = (0, shift)"
proof -
  note b = code_bits [OF assms(1)]
  show "kbd_byte (ucast k) shift =
      ((if shift AND CAPSLOCK = 0 then charcode (shift AND 3) (ucast k) else swap_case (charcode (shift AND 3) (ucast k))), shift)"
    using b assms(4) by (elim insertE) (simp_all add: kbd_byte_def swap_case_def Let_def assms(2,3))
  show "kbd_byte (ucast (k OR 0x80)) shift = (0, shift)"
    using b assms(4) by (elim insertE) (simp_all add: kbd_byte_def Let_def assms(2,3))
qed

lemma shift_stroke:
  assumes "shift \<in> {0, CAPSLOCK}"
  shows "kbd_byte 0x2A shift = (0, SHIFT OR shift)" "kbd_byte 0xAA (SHIFT OR shift) = (0, shift)"
proof -
  have "charcode 1 0x2A = 0"
    using modifier_maps by (simp add: charcode_def)
  moreover have "shiftcode 0x2A = 1" "togglecode 0x2A = 0"
    by (simp_all add: shiftcode_def togglecode_def table_def)
  moreover have "shift = 0 \<or> shift = 8" using assms by blast
  ultimately show "kbd_byte 0x2A shift = (0, SHIFT OR shift)" "kbd_byte 0xAA (SHIFT OR shift) = (0, shift)"
    unfolding kbd_byte_def Let_def by (elim disjE; simp)+
qed

lemma row_codes:
  assumes "c \<in> set xs" "length xs \<le> 0x58" "\<forall>d \<in> fst ` set ys. 0x58 \<le> d"
  shows "\<exists>k :: u8. unat k < length xs \<and> table xs ys (ucast k) = ucast c"
proof -
  from assms(1) obtain i where i: "i < length xs" "xs ! i = c"
    by (metis in_set_conv_nth)
  have u: "unat (ucast (of_nat i :: u8) :: u32) = i"
    using i assms(2) by (simp add: unsigned_ucast_eq unat_of_nat take_bit_eq_mod)
  then have "\<not> (0x58 :: u32) \<le> ucast (of_nat i :: u8)"
    using i assms(2) by (simp add: word_le_nat_alt)
  then have "map_of ys (ucast (of_nat i :: u8)) = None"
    using assms(3) by (auto simp: map_of_eq_None_iff)
  then have "table xs ys (ucast (of_nat i :: u8)) = ucast c"
    using i u by (simp add: table_def)
  moreover have "unat (of_nat i :: u8) < length xs"
    using i assms(2) by (simp add: unat_of_nat)
  ultimately show ?thesis by blast
qed

lemma printable_rows:
  assumes "c \<in> set printable"
  shows "c \<noteq> 0" "c \<in> set normal_row \<or> c \<in> set shift_row"
proof -
  have "list_all (\<lambda>c. c \<noteq> 0 \<and> (c \<in> set normal_row \<or> c \<in> set shift_row)) printable"
    unfolding printable_def normal_row_def shift_row_def bytes_def by (simp add: of_char_def)
  with assms show "c \<noteq> 0" "c \<in> set normal_row \<or> c \<in> set shift_row"
    by (simp_all add: list_all_iff)
qed

lemma row_lengths: "length normal_row = 0x58" "length shift_row = 0x58"
  by (simp_all add: normal_row_def shift_row_def bytes_def)

lemma code_in:
  assumes "unat (k :: u8) < 0x58"
  shows "k \<in> set codes"
proof -
  have "k = of_nat (unat k)" by simp
  then show ?thesis using assms unfolding codes_def by (metis atLeastLessThan_iff image_eqI list.set_map set_upt zero_le)
qed

lemma key_exists:
  assumes "c \<in> set printable"
  shows "\<exists>k \<in> set codes. normalmap (ucast k) = ucast c \<or> shiftmap (ucast k) = ucast c"
proof -
  let ?ys = "[(0x9C, 10), (0xB5, 47)] @ special_keys"
  have ge: "\<forall>d \<in> fst ` set ?ys. 0x58 \<le> d"
    by (simp add: special_keys_def)
  have *: "\<exists>k \<in> set codes. table xs ?ys (ucast k) = ucast c" if c: "c \<in> set xs" and n: "length xs = 0x58" for xs
  proof -
    have "length xs \<le> 0x58" using n by simp
    from row_codes [OF c this ge] obtain k :: u8 where "unat k < length xs" and k: "table xs ?ys (ucast k) = ucast c"
      by (elim exE conjE)
    then have "k \<in> set codes"
      unfolding n by (intro code_in)
    with k show ?thesis by (rule bexI)
  qed
  show ?thesis
    using printable_rows(2) [OF assms] * [OF _ row_lengths(1)] * [OF _ row_lengths(2)]
    unfolding normalmap_def shiftmap_def by blast
qed

lemma find_Some_set: "find P xs = Some x \<Longrightarrow> x \<in> set xs \<and> P x"
  by (auto simp: find_Some_iff)

lemma keys_for_cases:
  assumes "c \<in> set printable"
  obtains k where "k \<in> set codes" "normalmap (ucast k) = ucast c" "keys_for c = [k, k OR 0x80]"
  | k where "k \<in> set codes" "shiftmap (ucast k) = ucast c" "keys_for c = [0x2A, k, k OR 0x80, 0xAA]"
proof (cases "find (\<lambda>k. normalmap (ucast k) = ucast c) codes")
  case None
  then have "find (\<lambda>k. shiftmap (ucast k) = ucast c) codes \<noteq> None"
    using key_exists [OF assms] unfolding find_None_iff by blast
  then obtain k where k: "find (\<lambda>k. shiftmap (ucast k) = ucast c) codes = Some k"
    by blast
  with None have "keys_for c = [0x2A, k, k OR 0x80, 0xAA]"
    by (simp add: keys_for_def)
  with find_Some_set [OF k] show ?thesis
    using that(2) by blast
next
  case (Some k)
  then have "keys_for c = [k, k OR 0x80]"
    by (simp add: keys_for_def)
  with find_Some_set [OF Some] show ?thesis
    using that(1) by blast
qed

lemma code_key:
  assumes "k \<in> set codes" "normalmap (ucast k) \<noteq> 0 \<or> shiftmap (ucast k) \<noteq> 0"
  shows "shiftcode (ucast k) = 0" "togglecode (ucast k) = 0"
proof -
  have "ucast k \<noteq> (0x9D :: u32)" "ucast k \<noteq> (0xB8 :: u32)"
    using code_bits(1) [OF assms(1)] by auto
  then show "shiftcode (ucast k) = 0" "togglecode (ucast k) = 0"
    using modifier_silent [OF assms(2)] by simp_all
qed

lemma is_up_8_32: "is_up (ucast :: u8 \<Rightarrow> u32)"
  by (simp add: is_up.rep_eq)

lemma types_one:
  assumes "c \<in> set printable" "shift \<in> {0, CAPSLOCK}"
  defines "d \<equiv> (if shift = CAPSLOCK then swap_case (ucast c) else ucast c)"
  shows "\<exists>cs. kbd_chars (keys_for c) shift = (cs, [], shift) \<and> filter (\<lambda>c. c \<noteq> 0) cs = [d]"
proof -
  have c0: "ucast c \<noteq> (0 :: u32)"
    using printable_rows(1) [OF assms(1)] by (metis ucast_0 ucast_up_ucast_id is_up_8_32)
  then have d0: "d \<noteq> 0"
    by (auto simp: d_def swap_case_def word_le_nat_alt unat_eq_0 [symmetric] unat_word_ariths unat_sub_if')
  have sh: "shift = 0 \<or> shift = 8" using assms(2) by blast
  from assms(1) show ?thesis
  proof (cases rule: keys_for_cases)
    case (1 k)
    then have "charcode 0 (ucast k) = ucast c"
      by (simp add: charcode_def)
    moreover have "shift \<in> {0, SHIFT, CAPSLOCK, SHIFT OR CAPSLOCK}" using sh by auto
    ultimately have "kbd_byte (ucast k) shift = (d, shift)" "kbd_byte (ucast (k OR 0x80)) shift = (0, shift)"
      using stroke [OF 1(1) code_key [OF 1(1)], of shift] sh c0 1(2) by (auto simp: d_def)
    then show ?thesis using 1(3) d0 by simp
  next
    case (2 k)
    then have "charcode 1 (ucast k) = ucast c"
      by (simp add: charcode_def)
    moreover have "SHIFT OR shift \<in> {0, SHIFT, CAPSLOCK, SHIFT OR CAPSLOCK}" using sh by auto
    ultimately have "kbd_byte (ucast k) (SHIFT OR shift) = (d, SHIFT OR shift)"
        "kbd_byte (ucast (k OR 0x80)) (SHIFT OR shift) = (0, SHIFT OR shift)"
      using stroke [OF 2(1) code_key [OF 2(1)], of "SHIFT OR shift"] sh c0 2(2) by (auto simp: d_def)
    then show ?thesis using 2(3) d0 shift_stroke [OF assms(2)] by simp
  qed
qed

lemma kbd_chars_append:
  "kbd_chars (xs @ ys) shift =
     (case kbd_chars xs shift of (cs, _, h) \<Rightarrow> case kbd_chars ys h of (ds, r) \<Rightarrow> (cs @ ds, r))"
  by (induction xs arbitrary: shift) (simp_all split: prod.splits)

text \<open>
  C38. The keyboard types what its keys say. For every text of printable ASCII characters there are key strokes, those of
  \<open>keys_for\<close>, whose bytes the driver turns into exactly that text (it returns 0 for the bytes that are not
  characters, which the console skips); with the caps lock on, the same strokes give the text with the case of its letters
  exchanged. All bytes are taken and the state of the modifier keys is the same at the end.
\<close>

theorem keyboard_types_text:
  assumes "set tx \<subseteq> set printable" and "shift \<in> {0, CAPSLOCK}"
  shows "\<exists>cs. kbd_chars (concat (map keys_for tx)) shift = (cs, [], shift) \<and>
    filter (\<lambda>c. c \<noteq> 0) cs = map (\<lambda>c. if shift = CAPSLOCK then swap_case (ucast c) else ucast c) tx"
  using assms(1)
proof (induction tx)
  case (Cons c tx)
  then show ?case
    using types_one [OF _ assms(2), of c] by (force simp: kbd_chars_append)
qed simp

theorem keyboard_types_text_witness:
  "\<exists>cs. kbd_chars (concat (map keys_for [76, 115])) 0 = (cs, [], 0) \<and> filter (\<lambda>c. c \<noteq> 0) cs = [76, 115]"
proof -
  have "set [76, 115] \<subseteq> set printable" by code_simp
  then show ?thesis using keyboard_types_text [of "[76, 115]" 0] by simp
qed

end
