(* ===== verification/Trap.thy ===== *)
theory Trap
  imports Sysfile Kbd
begin

text \<open>
  The system call table (the rest of syscall.c) and traps (trap.c). The interrupt acknowledgement of the local APIC
  has no effect on this state. The values a trap takes from the machine are arguments: the bytes waiting at the keyboard
  and at the serial line, the fault address register, and the frame pointers in the saved contexts of the processes,
  which procdump (proc.c) follows.
\<close>

section \<open>System calls\<close>

definition syscalls :: "int \<Rightarrow> ('a sys_st_scheme \<Rightarrow> 'a sys_st_scheme stop + u32 \<times> 'a sys_st_scheme) option" where
  "syscalls num =
     (if num = 1 then Some sys_fork
      else if num = 2 then Some sys_exit
      else if num = 3 then Some sys_wait
      else if num = 4 then Some sys_pipe
      else if num = 5 then Some sys_read
      else if num = 6 then Some sys_kill
      else if num = 7 then Some sys_exec
      else if num = 8 then Some sys_fstat
      else if num = 9 then Some sys_chdir
      else if num = 10 then Some sys_dup
      else if num = 11 then Some sys_getpid
      else if num = 12 then Some sys_sbrk
      else if num = 13 then Some sys_sleep
      else if num = 14 then Some sys_uptime
      else if num = 15 then Some sys_open
      else if num = 16 then Some sys_write
      else if num = 17 then Some sys_mknod
      else if num = 18 then Some sys_unlink
      else if num = 19 then Some sys_link
      else if num = 20 then Some sys_mkdir
      else if num = 21 then Some sys_close
      else None)"

definition set_eax :: "nat \<Rightarrow> u32 \<Rightarrow> 'a ptab_st_scheme \<Rightarrow> 'a ptab_st_scheme" where
  "set_eax p v = upd_proc p (\<lambda>q. q\<lparr>p_tf := (p_tf q)\<lparr>tf_eax := v\<rparr>\<rparr>)"

definition syscall :: "'a sys_st_scheme \<Rightarrow> 'a sys_st_scheme stop + 'a sys_st_scheme" where
  "syscall s =
     seq (curproc s) (\<lambda>(p, s).
     let num = sint (tf_eax (p_tf (procs s ! p)))
     in case (if num > 0 then syscalls num else None) of
          Some f \<Rightarrow> seq (f s) (\<lambda>(r, s). Inr (set_eax p r s))
        | None \<Rightarrow>
            seq (cprintf (''%d %s: unknown sys call %d'' @ [CHR 0x0A])
              [PInt (of_int (p_pid (procs s ! p))), PStr (Some (p_name (procs s ! p))), PInt (of_int num)] s) (\<lambda>s.
            Inr (set_eax p (-1) s)))"

section \<open>Traps\<close>

abbreviation (input) T_SYSCALL :: u32 where "T_SYSCALL \<equiv> 64"
abbreviation (input) T_IRQ0 :: u32 where "T_IRQ0 \<equiv> 32"
abbreviation (input) IRQ_TIMER :: u32 where "IRQ_TIMER \<equiv> 0"
abbreviation (input) IRQ_KBD :: u32 where "IRQ_KBD \<equiv> 1"
abbreviation (input) IRQ_COM1 :: u32 where "IRQ_COM1 \<equiv> 4"
abbreviation (input) IRQ_IDE :: u32 where "IRQ_IDE \<equiv> 14"
abbreviation (input) IRQ_SPURIOUS :: u32 where "IRQ_SPURIOUS \<equiv> 31"

record trap_in =
  kbd_data :: "u8 list"
  uart_data :: "u8 list"
  cr2 :: u32
  ctx_ebp :: "nat \<Rightarrow> u32"

record trap_st = sys_st +
  kbd_shift :: u32

definition cpuid :: "'a kcpu_scheme \<Rightarrow> 'a kcpu_scheme stop + nat" where
  "cpuid s = mycpu s"

definition clock_tick :: "'a sys_st_scheme \<Rightarrow> 'a sys_st_scheme stop + 'a sys_st_scheme" where
  "clock_tick s =
     seq (acquire_at tickslock put_tickslock s) (\<lambda>s.
     seq (wakeup Ch_ticks (s\<lparr>ticks := ticks s + 1\<rparr>)) (release_at tickslock put_tickslock))"

text \<open>The return addresses on a kernel stack: at most \<open>n\<close> frames from the one \<open>ebp\<close> points to, padded with 0.\<close>

fun caller_frames :: "(u32 \<Rightarrow> u8) \<Rightarrow> nat \<Rightarrow> u32 \<Rightarrow> u32 list" where
  "caller_frames m 0 ebp = []"
| "caller_frames m (Suc n) ebp =
     (if ebp = 0 \<or> ebp < KERNBASE \<or> ebp = 0xffffffff then []
      else rd32 m (ebp + 4) # caller_frames m n (rd32 m ebp))"

definition getcallerpcs :: "(u32 \<Rightarrow> u8) \<Rightarrow> u32 \<Rightarrow> u32 list" where
  "getcallerpcs m v = (let pcs = caller_frames m 10 (v - 8) in pcs @ replicate (10 - length pcs) 0)"

definition state_name :: "procstate \<Rightarrow> string" where
  "state_name st = (case st of UNUSED \<Rightarrow> ''unused'' | EMBRYO \<Rightarrow> ''embryo'' | SLEEPING \<Rightarrow> ''sleep ''
     | RUNNABLE \<Rightarrow> ''runble'' | RUNNING \<Rightarrow> ''run   '' | ZOMBIE \<Rightarrow> ''zombie'')"

definition procdump_line :: "(nat \<Rightarrow> u32) \<Rightarrow> nat \<Rightarrow> 'a cons_st_scheme \<Rightarrow> 'a cons_st_scheme stop + 'a cons_st_scheme" where
  "procdump_line ebp i s =
     (let p = procs s ! i
      in if p_state p = UNUSED then Inr s
         else seq (cprintf ''%d %s %s'' [PInt (of_int (p_pid p)), PStr (Some (bytes (state_name (p_state p)))), PStr (Some (p_name p))] s) (\<lambda>s.
              seq (if p_state p = SLEEPING
                   then fold_st (\<lambda>pc. cprintf '' %p'' [PInt pc]) (takeWhile (\<lambda>pc. pc \<noteq> 0) (getcallerpcs (mem s) (ebp i + 8))) s
                   else Inr s)
                (cprintf [CHR 0x0A] [])))"

definition procdump :: "(nat \<Rightarrow> u32) \<Rightarrow> 'a cons_st_scheme \<Rightarrow> 'a cons_st_scheme stop + 'a cons_st_scheme" where
  "procdump ebp s = fold_st (procdump_line ebp) [0..<NPROC] s"

text \<open>The trap of a user program that is not an interrupt ends the process; in the kernel it is a panic.\<close>

definition trap_default :: "trap_in \<Rightarrow> trapframe \<Rightarrow> 'a cons_st_scheme \<Rightarrow> 'a cons_st_scheme stop + 'a cons_st_scheme" where
  "trap_default ti tf s =
     seq (myproc s) (\<lambda>(p, s). case (if tf_cs tf AND 3 = 0 then None else p) of
       None \<Rightarrow>
         seq (cpuid s) (\<lambda>c.
         seq (cprintf (''unexpected trap %d from cpu %d eip %x (cr2=0x%x)'' @ [CHR 0x0A])
           [PInt (tf_trapno tf), PInt (of_nat c), PInt (tf_eip tf), PInt (cr2 ti)] s) (\<lambda>_.
         Inl (Panic ''trap'')))
     | Some p \<Rightarrow>
         seq (cpuid s) (\<lambda>c.
         seq (cprintf (''pid %d %s: trap %d err %d on cpu %d eip 0x%x addr 0x%x--kill proc'' @ [CHR 0x0A])
           [PInt (of_int (p_pid (procs s ! p))), PStr (Some (p_name (procs s ! p))), PInt (tf_trapno tf), PInt (tf_err tf),
            PInt (of_nat c), PInt (tf_eip tf), PInt (cr2 ti)] s) (\<lambda>s.
         Inr (upd_proc p (\<lambda>q. q\<lparr>p_killed := 1\<rparr>) s))))"

definition trap_device :: "trap_in \<Rightarrow> trapframe \<Rightarrow> 'a trap_st_scheme \<Rightarrow> 'a trap_st_scheme stop + 'a trap_st_scheme" where
  "trap_device ti tf s =
     (let n = tf_trapno tf
      in if n = T_IRQ0 + IRQ_TIMER then seq (cpuid s) (\<lambda>c. if c = 0 then clock_tick s else Inr s)
         else if n = T_IRQ0 + IRQ_IDE \<or> n = T_IRQ0 + IRQ_IDE + 1 then Inr s
         else if n = T_IRQ0 + IRQ_KBD 
           then seq (kbdintr (kbd_data ti) (kbd_shift s) s) (\<lambda>(dump, shift, s).
                seq (if dump then procdump (ctx_ebp ti) s else Inr s) (\<lambda>s. Inr (s\<lparr>kbd_shift := shift\<rparr>)))
         else if n = T_IRQ0 + IRQ_COM1 
           then seq (uartintr (uart_data ti) s) (\<lambda>(dump, s). if dump then procdump (ctx_ebp ti) s else Inr s)
         else if n = T_IRQ0 + 7 \<or> n = T_IRQ0 + IRQ_SPURIOUS
         then seq (cpuid s) (\<lambda>c.
              cprintf (''cpu%d: spurious interrupt at %x:%x'' @ [CHR 0x0A])
                [PInt (of_nat c), PInt (ucast (tf_cs tf)), PInt (tf_eip tf)] s)
         else trap_default ti tf s)"

text \<open>exit if the process has been killed and the trap came from user space.\<close>

definition exit_if_killed :: "trapframe \<Rightarrow> 'a file_st_scheme \<Rightarrow> 'a file_st_scheme stop + 'a file_st_scheme" where
  "exit_if_killed tf s =
     seq (myproc s) (\<lambda>(p, s). case p of
       Some p \<Rightarrow> if p_killed (procs s ! p) \<noteq> 0 \<and> tf_cs tf AND 3 = 3 then exit s else Inr s
     | None \<Rightarrow> Inr s)"

definition trap :: "trap_in \<Rightarrow> trapframe \<Rightarrow> 'a trap_st_scheme \<Rightarrow> 'a trap_st_scheme stop + 'a trap_st_scheme" where
  "trap ti tf s =
     (if tf_trapno tf = T_SYSCALL
      then seq (curproc s) (\<lambda>(p, s).
           if p_killed (procs s ! p) \<noteq> 0 then exit s
           else seq (syscall (upd_proc p (\<lambda>q. q\<lparr>p_tf := tf\<rparr>) s)) (\<lambda>s.
                seq (curproc s) (\<lambda>(p, s).
                if p_killed (procs s ! p) \<noteq> 0 then exit s else Inr s)))
      else seq (trap_device ti tf s) (\<lambda>s.
           seq (exit_if_killed tf s) (\<lambda>s.
           seq (myproc s) (\<lambda>(p, s). case p of
             Some p \<Rightarrow> if p_state (procs s ! p) = RUNNING \<and> tf_trapno tf = T_IRQ0 + IRQ_TIMER
               then yield s else exit_if_killed tf s
           | None \<Rightarrow> exit_if_killed tf s))))"

text \<open>The end of trap for a process that yielded and runs again.\<close>

definition trap_resume :: "bool \<Rightarrow> trapframe \<Rightarrow> 'a file_st_scheme \<Rightarrow> 'a file_st_scheme stop + 'a file_st_scheme" where
  "trap_resume intena tf s = seq (yield_resume intena s) (exit_if_killed tf)"

definition tvinit :: "'a sys_st_scheme \<Rightarrow> 'a sys_st_scheme" where
  "tvinit s = s\<lparr>tickslock := initlock ''time''\<rparr>"

end
