(* ===== verification/Bio_List.thy ===== *)
theory Bio_List
  imports Bio
begin

text \<open>
  The doubly linked list of buffers: \<open>linked\<close> relates the \<open>prev\<close> and \<open>next\<close> fields to the list of indices, most
  recently used first. The searches of bget are searches in that list, and releasing a buffer moves it to the front.
\<close>

text \<open>A buffer that was never used.\<close>

definition zero_buf :: buf where
  "zero_buf = \<lparr>b_flags = 0, b_dev = 0, b_blockno = 0, b_lock = initsleeplock ''buffer'', b_refcnt = 0, b_prev = 0, b_next = 0,
     b_qnext = None, b_data = replicate 512 0\<rparr>"

fun linked :: "(nat \<Rightarrow> buf) \<Rightarrow> nat \<Rightarrow> nat list \<Rightarrow> bool" where
  "linked B p [] \<longleftrightarrow> True"
| "linked B p (x # xs) \<longleftrightarrow> b_next (B p) = x \<and> b_prev (B x) = p \<and> linked B x xs"

definition bc_order :: "(nat \<Rightarrow> buf) \<Rightarrow> nat list \<Rightarrow> bool" where
  "bc_order B xs \<longleftrightarrow> linked B HEAD (xs @ [HEAD]) \<and> distinct xs \<and> set xs = {0..<NBUF}"

lemma linked_cong:
  "(\<And>x. x \<in> set (butlast (p # xs)) \<Longrightarrow> b_next (B' x) = b_next (B x)) \<Longrightarrow>
   (\<And>x. x \<in> set xs \<Longrightarrow> b_prev (B' x) = b_prev (B x)) \<Longrightarrow> linked B' p xs = linked B p xs"
proof (induction xs arbitrary: p)
  case Nil
  then show ?case by simp
next
  case (Cons x xs)
  have "linked B' x xs = linked B x xs"
    using Cons.prems by (intro Cons.IH) simp_all
  with Cons.prems show ?case by simp
qed

lemma linked_append: "linked B p (xs @ ys) \<longleftrightarrow> linked B p xs \<and> linked B (last (p # xs)) ys"
  by (induction xs arbitrary: p) auto

text \<open>Fields other than the links do not matter.\<close>

lemma bc_order_cong:
  "(\<And>i. b_next (B' i) = b_next (B i) \<and> b_prev (B' i) = b_prev (B i)) \<Longrightarrow> bc_order B' xs = bc_order B xs"
  using linked_cong [of HEAD "xs @ [HEAD]" B' B] by (simp add: bc_order_def)

section \<open>The searches\<close>

lemma find_cached_walk:
  "linked B p (xs @ [HEAD]) \<Longrightarrow> HEAD \<notin> set xs \<Longrightarrow> length xs < n \<Longrightarrow>
   find_cached n dev blk (b_next (B p)) B = Inr (find (\<lambda>b. b_dev (B b) = dev \<and> b_blockno (B b) = blk) xs)"
proof (induction xs arbitrary: p n)
  case Nil
  then show ?case by (cases n) auto
next
  case (Cons x xs)
  then show ?case by (cases n) auto
qed

lemma find_recycle_walk:
  "linked B HEAD (xs @ [h]) \<Longrightarrow> HEAD \<notin> set xs \<Longrightarrow> length xs < n \<Longrightarrow>
   find_recycle n (b_prev (B h)) B = Inr (find (\<lambda>b. b_refcnt (B b) = 0 \<and> b_flags (B b) AND B_DIRTY = 0) (rev xs))"
proof (induction xs arbitrary: h n rule: rev_induct)
  case Nil
  then show ?case by (cases n) auto
next
  case (snoc y ys)
  then show ?case by (cases n) (auto simp: linked_append)
qed

lemma find_cached_order:
  assumes "bc_order B xs"
  shows "find_cached 31 dev blk (b_next (B HEAD)) B =
    Inr (find (\<lambda>b. b_dev (B b) = dev \<and> b_blockno (B b) = blk) xs)"
proof -
  have "length xs = 30"
    using assms distinct_card [of xs] by (simp add: bc_order_def)
  then show ?thesis
    using assms find_cached_walk [of B HEAD xs 31] by (simp add: bc_order_def del: find_cached.simps)
qed

lemma find_recycle_order:
  assumes "bc_order B xs"
  shows "find_recycle 31 (b_prev (B HEAD)) B =
    Inr (find (\<lambda>b. b_refcnt (B b) = 0 \<and> b_flags (B b) AND B_DIRTY = 0) (rev xs))"
proof -
  have "length xs = 30"
    using assms distinct_card [of xs] by (simp add: bc_order_def)
  then show ?thesis
    using assms find_recycle_walk [of B xs HEAD 31] by (simp add: bc_order_def del: find_recycle.simps)
qed

section \<open>Moving a buffer to the front\<close>

definition unlinked :: "nat \<Rightarrow> (nat \<Rightarrow> buf) \<Rightarrow> nat \<Rightarrow> buf" where
  "unlinked b B =
     (let B = B(b_next (B b) := (B (b_next (B b)))\<lparr>b_prev := b_prev (B b)\<rparr>)
      in B(b_prev (B b) := (B (b_prev (B b)))\<lparr>b_next := b_next (B b)\<rparr>))"

definition at_front :: "nat \<Rightarrow> (nat \<Rightarrow> buf) \<Rightarrow> nat \<Rightarrow> buf" where
  "at_front b B =
     (let B = B(b := (B b)\<lparr>b_next := b_next (B HEAD)\<rparr>); B = B(b := (B b)\<lparr>b_prev := HEAD\<rparr>);
          B = B(b_next (B HEAD) := (B (b_next (B HEAD)))\<lparr>b_prev := b\<rparr>)
      in B(HEAD := (B HEAD)\<lparr>b_next := b\<rparr>))"

lemma bufs_upd_buf [simp]: "bufs (upd_buf i f s) = (bufs s)(i := f (bufs s i))"
  by (simp add: upd_buf_def)

lemma bufs_unlink_buf: "bufs (unlink_buf b s) = unlinked b (bufs s)"
  by (simp add: unlink_buf_def unlinked_def Let_def)

lemma bufs_link_head: "bufs (link_head b s) = at_front b (bufs s)"
  by (simp add: link_head_def at_front_def Let_def)

lemma linked_unlinked:
  assumes l: "linked B HEAD (ys @ b # zs @ [HEAD])" and d: "distinct (ys @ b # zs)" "HEAD \<notin> set (ys @ b # zs)"
  shows "linked (unlinked b B) HEAD (ys @ zs @ [HEAD])"
proof -
  define c where "c = hd (zs @ [HEAD])"
  define rest where "rest = tl (zs @ [HEAD])"
  define a where "a = last (HEAD # ys)"
  have zs: "zs @ [HEAD] = c # rest"
    by (simp add: c_def rest_def)
  have parts: "linked B HEAD ys" "b_next (B a) = b" "b_prev (B b) = a" "b_next (B b) = c" "b_prev (B c) = b" "linked B c rest"
    using l unfolding zs by (simp_all add: linked_append a_def)
  have c: "c \<notin> set ys" "c \<noteq> b" "c \<notin> set rest" "b \<notin> set rest"
    using d by (cases zs; auto simp: c_def rest_def)+
  have a: "a \<notin> set zs" "a \<noteq> b" "a \<in> set (HEAD # ys)"
    using d by (cases ys rule: rev_cases; auto simp: a_def)+
  have B': "unlinked b B = B(c := (B c)\<lparr>b_prev := a\<rparr>, a := ((B(c := (B c)\<lparr>b_prev := a\<rparr>)) a)\<lparr>b_next := c\<rparr>)"
    using c(2) parts(3,4) by (simp add: unlinked_def Let_def)
  have "a \<notin> set (butlast (HEAD # ys))"
    using d by (cases ys rule: rev_cases) (auto simp: a_def butlast_append)
  then have "linked (unlinked b B) HEAD ys = linked B HEAD ys"
    using c(1) unfolding B' by (intro linked_cong) auto
  moreover have "a \<notin> set (butlast (c # rest))"
    using a(1) unfolding zs [symmetric] by simp
  then have "linked (unlinked b B) c rest = linked B c rest"
    using c(3) unfolding B' by (intro linked_cong) auto
  moreover have "b_next (unlinked b B a) = c" "b_prev (unlinked b B c) = a"
    unfolding B' by auto
  ultimately show ?thesis
    using parts unfolding zs by (simp add: linked_append a_def)
qed

lemma linked_at_front:
  assumes l: "linked B HEAD (ys @ [HEAD])" and d: "distinct (b # ys)" "HEAD \<notin> set (b # ys)"
  shows "linked (at_front b B) HEAD (b # ys @ [HEAD])"
proof -
  define c where "c = hd (ys @ [HEAD])"
  define rest where "rest = tl (ys @ [HEAD])"
  have ys: "ys @ [HEAD] = c # rest"
    by (simp add: c_def rest_def)
  have parts: "b_next (B HEAD) = c" "b_prev (B c) = HEAD" "linked B c rest"
    using l unfolding ys by simp_all
  have c: "c \<noteq> b" "c \<notin> set rest" "b \<notin> set rest" "b \<noteq> HEAD"
    using d by (cases ys; auto simp: c_def rest_def)+
  have B': "at_front b B = B(b := (B b)\<lparr>b_next := c, b_prev := HEAD\<rparr>, c := (B c)\<lparr>b_prev := b\<rparr>,
      HEAD := ((B(c := (B c)\<lparr>b_prev := b\<rparr>)) HEAD)\<lparr>b_next := b\<rparr>)"
    using c(1,4) parts(1) by (simp add: at_front_def Let_def fun_eq_iff)
  have "HEAD \<notin> set (butlast (c # rest))" "b \<notin> set (butlast (c # rest))"
    using d unfolding ys [symmetric] by simp_all
  then have "linked (at_front b B) c rest = linked B c rest"
    using c unfolding B' by (intro linked_cong) auto
  moreover have "b_next (at_front b B HEAD) = b" "b_prev (at_front b B b) = HEAD" "b_next (at_front b B b) = c"
      "b_prev (at_front b B c) = b"
    using c unfolding B' by auto
  ultimately show ?thesis
    using parts(3) unfolding ys by simp
qed

text \<open>Releasing a buffer that nobody else uses makes it the most recently used one.\<close>

lemma bc_order_front:
  assumes "bc_order B xs" "b < NBUF"
  shows "bc_order (at_front b (unlinked b B)) (b # remove1 b xs)"
proof -
  have xs: "linked B HEAD (xs @ [HEAD])" "distinct xs" "set xs = {0..<30}"
    using assms(1) by (simp_all add: bc_order_def)
  then obtain ys zs where split: "xs = ys @ b # zs"
    using assms(2) by (metis atLeastLessThan_iff le0 split_list)
  then have rem: "remove1 b xs = ys @ zs"
    using xs(2) by (simp add: remove1_append)
  have head: "HEAD \<notin> set xs"
    by (simp add: xs(3))
  have "linked (unlinked b B) HEAD (ys @ zs @ [HEAD])"
    using xs(1,2) head unfolding split by (intro linked_unlinked) simp_all
  then have "linked (at_front b (unlinked b B)) HEAD (b # (ys @ zs) @ [HEAD])"
    using xs(2) head unfolding split by (intro linked_at_front) auto
  moreover have "set (b # ys @ zs) = {0..<30}" "distinct (b # ys @ zs)"
    using xs(2,3) unfolding split by auto
  ultimately show ?thesis
    by (simp add: bc_order_def rem)
qed

text \<open>The fields of a buffer that the list does not use.\<close>

definition payload :: "buf \<Rightarrow> u32 \<times> u32 \<times> u32 \<times> sleeplock \<times> u32 \<times> u8 list" where
  "payload b = (b_flags b, b_dev b, b_blockno b, b_lock b, b_refcnt b, b_data b)"

lemma payload_link: "payload ((B(j := (B j)\<lparr>b_prev := p\<rparr>)) i) = payload (B i)" "payload ((B(j := (B j)\<lparr>b_next := n\<rparr>)) i) = payload (B i)"
  by (simp_all add: payload_def)

lemma front_payload: "payload (at_front b (unlinked b B) i) = payload (B i)"
  unfolding at_front_def unlinked_def Let_def by (simp only: payload_link)

lemma front_fields:
  "b_flags (at_front b (unlinked b B) i) = b_flags (B i)" "b_dev (at_front b (unlinked b B) i) = b_dev (B i)"
  "b_blockno (at_front b (unlinked b B) i) = b_blockno (B i)" "b_lock (at_front b (unlinked b B) i) = b_lock (B i)"
  "b_refcnt (at_front b (unlinked b B) i) = b_refcnt (B i)" "b_data (at_front b (unlinked b B) i) = b_data (B i)"
  using front_payload [of b B i] by (simp_all add: payload_def)

end
