(* ===== verification/Machine.thy ===== *)
theory Machine
  imports Trap Bio_List
begin

text \<open>
  A concrete machine: one CPU that runs process 0, everything unlocked, an empty disk of 1000 blocks and the
  buffer cache as binit links it. The properties use it, with parts replaced, as the input at which their hypotheses hold.
\<close>

definition first_proc :: proc where
  "first_proc = quiet_proc\<lparr>p_state := RUNNING, p_pid := 1, p_sz := PGSIZE\<rparr>"

definition free_lock :: spinlock where
  "free_lock = initlock ''''"

text \<open>The order binit leaves: buffer 29 is first, buffer 0 last.\<close>

definition linked_buf :: "nat \<Rightarrow> buf" where
  "linked_buf i = (if i = HEAD then zero_buf\<lparr>b_next := 29, b_prev := 0\<rparr>
     else zero_buf\<lparr>b_next := (if i = 0 then HEAD else i - 1), b_prev := i + 1\<rparr>)"

definition zero_inode :: inode where
  "zero_inode = \<lparr>i_dev = 0, i_inum = 0, i_ref = 0, i_lock = initsleeplock ''inode'', i_valid = 0, i_type = 0, i_major = 0,
     i_minor = 0, i_nlink = 0, i_size = 0, i_addrs = replicate 13 0\<rparr>"

definition zero_file :: kfile where
  "zero_file = \<lparr>f_type = FD_NONE, f_ref = 0, f_readable = 0, f_writable = 0, f_pipe = 0, f_ip = 0, f_off = 0\<rparr>"

definition new_pipe :: pipe where
  "new_pipe = \<lparr>pi_lock = initlock ''pipe'', pi_data = replicate 512 0, nread = 0, nwrite = 0, readopen = 1, writeopen = 1\<rparr>"

definition machine :: sys_st where
  "machine = \<lparr>cpus = [\<lparr>apicid = 0, cpu_ncli = 0, cpu_intena = False, cpu_proc = Some 0\<rparr>], lapic_id = 0, eflags_if = False,
     klog = \<lparr>kl_lock = free_lock, kl_entries = replicate 128 \<lparr>timestamp = 0, event_type = 0, le_pid = 0, extra = 0\<rparr>,
       kl_head = 0, kl_count = 0, kl_ticks = 0\<rparr>,
     ptable = \<lparr>pt_lock = free_lock, pt_proc = first_proc # replicate 63 quiet_proc, nextpid = 2, initproc = None\<rparr>,
     kmem = \<lparr>km_lock = free_lock, use_lock = 1, freelist = 0, km_end = 0x80115000\<rparr>, mem = (\<lambda>_. 0),
     vm = \<lparr>kpgdir = 0, cr3 = 0, ts_esp0 = 0, kdata = 0\<rparr>,
     bcache = \<lparr>bc_lock = free_lock, bc_buf = linked_buf\<rparr>, disksize = 1000, memdisk = (\<lambda>_. replicate 512 0), disk_trace = [],
     log = \<lparr>lg_lock = free_lock, lg_start = 2, lg_size = 30, lg_outstanding = 0, lg_committing = 0, lg_dev = 1,
       lg_lh = \<lparr>lh_n = 0, lh_block = replicate 30 0\<rparr>\<rparr>,
     icache = \<lparr>ic_lock = free_lock, ic_inode = (\<lambda>_. zero_inode)\<rparr>,
     sb = \<lparr>sb_size = 1000, sb_nblocks = 941, sb_ninodes = 200, sb_nlog = 30, sb_logstart = 2, sb_inodestart = 32, sb_bmapstart = 58\<rparr>,
     cons = \<lparr>co_lock = free_lock, co_locking = 1, co_panicked = 0\<rparr>,
     scr = \<lparr>crt = (\<lambda>_. 0), crt_pos = 0, uart = 1, uart_out = []\<rparr>,
     input = \<lparr>in_buf = replicate 128 0, in_r = 0, in_w = 0, in_e = 0\<rparr>,
     devsw = (\<lambda>_. \<lparr>dev_read = None, dev_write = None\<rparr>),
     pipes = (\<lambda>_. new_pipe), ftable = \<lparr>ft_lock = free_lock, ft_file = (\<lambda>_. zero_file)\<rparr>,
     tickslock = free_lock, ticks = 0, forkret_first = 0\<rparr>"

lemma lock_free_initlock [simp]: "lock_free (initlock n)" "lock_free free_lock"
  by (simp_all add: free_lock_def initlock_def lock_free_def)

lemma machine_cpu [simp]:
  "cpu_ok machine" "this_cpu machine = 0" "cpus machine = [\<lparr>apicid = 0, cpu_ncli = 0, cpu_intena = False, cpu_proc = Some 0\<rparr>]"
  "lock_free (pt_lock (ptable machine))" "procs machine = first_proc # replicate 63 quiet_proc"
  by (simp_all add: machine_def cpu_ok_def this_cpu_def)

lemma machine_ready [simp]: "running 0 machine" "sleep_ready 0 machine"
  by (simp_all add: running_def sleep_ready_def)

lemma machine_parts [simp]:
  "pipes machine = (\<lambda>_. new_pipe)" "files machine = (\<lambda>_. zero_file)" "ft_lock (ftable machine) = free_lock"
  "bufs machine = linked_buf" "bc_lock (bcache machine) = free_lock" "memdisk machine = (\<lambda>_. replicate 512 0)"
  "disksize machine = 1000" "disk_trace machine = []"
  "inodes machine = (\<lambda>_. zero_inode)" "ic_lock (icache machine) = free_lock" "ticks machine = 0" "tickslock machine = free_lock"
  "in_r (input machine) = 0" "in_w (input machine) = 0" "in_e (input machine) = 0" "in_buf (input machine) = replicate 128 0"
  by (simp_all add: machine_def)

end
