(* ===== verification/Ring.thy ===== *)
theory Ring
  imports Prelude
begin

text \<open>
  Ring buffers with free-running 32-bit indices, as pipes and the console input use them: the element of index \<open>i\<close>
  is in slot \<open>i mod N\<close>, where \<open>N\<close> divides \<open>2^32\<close>, so that the indices may wrap. The contract of a bounded
  queue is a locale; its one lemma is the history of puts and gets.
\<close>

section \<open>The elements between two indices\<close>

definition ring_view :: "nat \<Rightarrow> 'b list \<Rightarrow> u32 \<Rightarrow> u32 \<Rightarrow> 'b list" where
  "ring_view N d r w = map (\<lambda>i. d ! (unat (r + of_nat i) mod N)) [0..<unat (w - r)]"

lemma ring_view_same [simp]: "ring_view N d r r = []"
  by (simp add: ring_view_def)

lemma length_ring_view [simp]: "length (ring_view N d r w) = unat (w - r)"
  by (simp add: ring_view_def)

lemma ring_view_Nil_iff [simp]: "ring_view N d r w = [] \<longleftrightarrow> r = w"
  by (simp add: ring_view_def unsigned_eq_0_iff) (metis right_minus_eq)

lemma unat_add_mod_dvd: "N dvd 2 ^ 32 \<Longrightarrow> unat (a + b :: u32) mod N = (unat a + unat b) mod N"
  by (simp add: unat_word_ariths mod_mod_cancel)

lemma unat_diff_Suc: "unat (w - r) < 4294967295 \<Longrightarrow> unat (w + 1 - r) = Suc (unat (w - r))" for w r :: u32
proof -
  assume *: "unat (w - r) < 4294967295"
  have "w + 1 - r = (w - r) + 1" by simp
  also have "unat \<dots> = Suc (unat (w - r))"
    using * by (subst unat_plus_simple [THEN iffD1]) (simp_all add: word_le_nat_alt unat_word_ariths)
  finally show ?thesis .
qed

lemma unat_diff_pred: "r \<noteq> w \<Longrightarrow> unat (w - (r + 1)) = unat (w - r) - 1" for w r :: u32
proof -
  assume "r \<noteq> w"
  then have "w - r \<noteq> 0" by simp
  moreover have "w - (r + 1) = w - r - 1" by simp
  ultimately show ?thesis by (metis unat_minus_one)
qed

lemma of_nat_unat_diff: "r + of_nat (unat (w - r)) = (w :: u32)"
  by simp

text \<open>Distinct indices less than \<open>N\<close> apart are in distinct slots.\<close>

lemma ring_slot_neq:
  fixes w r :: u32
  assumes "N dvd 2 ^ 32" "i < unat (w - r)" "unat (w - r) < N"
  shows "unat (r + of_nat i) mod N \<noteq> unat w mod N"
proof
  assume eq: "unat (r + of_nat i) mod N = unat w mod N"
  let ?k = "unat (w - r)"
  have k: "?k < 2 ^ 32"
    using unat_less32 [of "w - r"] by simp
  have w: "unat w mod N = (unat r + ?k) mod N"
    using unat_add_mod_dvd [OF assms(1), of r "w - r"] by simp
  have "unat (of_nat i :: u32) = i"
    using assms(2) k by (simp add: unat_of_nat32)
  then have "(unat r + i) mod N = (unat r + ?k) mod N"
    using eq w unat_add_mod_dvd [OF assms(1), of r "of_nat i"] by simp
  then have "N dvd ?k - i"
    using mod_eq_dvd_iff_nat [of "unat r + i" "unat r + ?k" N] assms(2) by simp
  then show False
    using assms(2,3) by (auto dest!: dvd_imp_le)
qed

lemma ring_put:
  assumes "N dvd 2 ^ 32" "length d = N" "unat (w - r) < N" "N < 2 ^ 32"
  shows "ring_view N (d[unat w mod N := c]) r (w + 1) = ring_view N d r w @ [c]"
proof -
  have N: "0 < N" using assms(3) by simp
  have "d[unat w mod N := c] ! (unat (r + of_nat i) mod N) = d ! (unat (r + of_nat i) mod N)" if "i < unat (w - r)" for i
    using ring_slot_neq [OF assms(1) that assms(3)] by (simp add: nth_list_update)
  moreover have "unat (w + 1 - r) = Suc (unat (w - r))"
    using assms(3,4) by (intro unat_diff_Suc) simp
  ultimately show ?thesis
    using N assms(2) by (simp add: ring_view_def)
qed

lemma ring_get:
  assumes "r \<noteq> w"
  shows "ring_view N d r w = d ! (unat r mod N) # ring_view N d (r + 1) w"
proof -
  have "0 < unat (w - r)"
    using assms by (simp add: unat_gt_0)
  then obtain k where k: "unat (w - r) = Suc k"
    using gr0_conv_Suc by blast
  then have k1: "unat (w - (r + 1)) = k"
    unfolding unat_diff_pred [OF assms] by simp
  show ?thesis
    unfolding ring_view_def k k1 map_upt_Suc by (simp add: add.assoc)
qed

lemma ring_drop_last:
  assumes "r \<noteq> w"
  shows "ring_view N d r (w - 1) = butlast (ring_view N d r w)"
proof -
  have "w - r \<noteq> 0"
    using assms by simp
  then have "unat (w - 1 - r) = unat (w - r) - 1"
    unfolding diff_right_commute [of w 1 r] by (rule unat_minus_one)
  moreover have "butlast [0..<n] = [0..<n - 1]" for n
    by (cases n) simp_all
  ultimately show ?thesis
    by (simp add: ring_view_def map_butlast [symmetric])
qed

lemma ring_full_iff:
  "N < 2 ^ 32 \<Longrightarrow> w = r + of_nat N \<longleftrightarrow> unat (w - r) = N" for w r :: u32
  by (metis add_diff_cancel_left' of_nat_unat_diff unat_of_nat32)

section \<open>Bounded queues\<close>

text \<open>
  A history of a queue that is used by any number of threads, one operation at a time: a put of an element or a get. A put into a full queue and a get from an empty one
  wait, that is, leave the queue as it is. The result is the elements accepted, the elements delivered and the
  queue.
\<close>

fun fifo_run :: "('x \<Rightarrow> bool) \<Rightarrow> ('x \<Rightarrow> bool) \<Rightarrow> ('b \<Rightarrow> 'x \<Rightarrow> 'x) \<Rightarrow> ('x \<Rightarrow> 'b) \<Rightarrow> ('x \<Rightarrow> 'x) \<Rightarrow> 'b option list \<Rightarrow> 'x \<Rightarrow>
    'b list \<times> 'b list \<times> 'x" where
  "fifo_run full empt put get adv [] x = ([], [], x)"
| "fifo_run full empt put get adv (Some c # ops) x =
     (if full x then fifo_run full empt put get adv ops x
      else let (ws, gs, y) = fifo_run full empt put get adv ops (put c x) in (c # ws, gs, y))"
| "fifo_run full empt put get adv (None # ops) x =
     (if empt x then fifo_run full empt put get adv ops x
      else let (ws, gs, y) = fifo_run full empt put get adv ops (adv x) in (ws, get x # gs, y))"

locale fifo =
  fixes inv :: "'x \<Rightarrow> bool" and view :: "'x \<Rightarrow> 'b list" and full empt :: "'x \<Rightarrow> bool"
    and put :: "'b \<Rightarrow> 'x \<Rightarrow> 'x" and get :: "'x \<Rightarrow> 'b" and adv :: "'x \<Rightarrow> 'x" and cap :: nat
  assumes bound: "inv x \<Longrightarrow> length (view x) \<le> cap"
    and full_iff: "inv x \<Longrightarrow> full x \<longleftrightarrow> length (view x) = cap"
    and empt_iff: "inv x \<Longrightarrow> empt x \<longleftrightarrow> view x = []"
    and put_law: "inv x \<Longrightarrow> \<not> full x \<Longrightarrow> inv (put c x) \<and> view (put c x) = view x @ [c]"
    and get_law: "inv x \<Longrightarrow> \<not> empt x \<Longrightarrow> inv (adv x) \<and> view x = get x # view (adv x)"
begin

lemma history:
  "inv x \<Longrightarrow> fifo_run full empt put get adv ops x = (ws, gs, y) \<Longrightarrow>
   inv y \<and> view x @ ws = gs @ view y"
proof (induction ops arbitrary: x ws gs y)
  case Nil
  then show ?case by simp
next
  case (Cons opr ops)
  show ?case
  proof (cases opr)
    case None
    then show ?thesis
      using Cons.prems Cons.IH get_law [OF Cons.prems(1)] by (fastforce split: if_splits prod.splits)
  next
    case (Some c)
    then show ?thesis
      using Cons.prems Cons.IH put_law [OF Cons.prems(1)] by (fastforce split: if_splits prod.splits)
  qed
qed

text \<open>Putting a list: what fits, and the contents afterwards.\<close>

lemma puts:
  "inv x \<Longrightarrow> length (view x) + length cs \<le> cap \<Longrightarrow>
   inv (fold put cs x) \<and> view (fold put cs x) = view x @ cs"
proof (induction cs arbitrary: x)
  case Nil
  then show ?case by simp
next
  case (Cons c cs)
  then show ?case
    using put_law [of x c] full_iff [of x] by simp
qed

end

end
