(* ===== verification/Pipe_Props.thy ===== *)
theory Pipe_Props
  imports Machine Ring
begin

text \<open>
  Pipes are queues: the ring between \<open>nread\<close> and \<open>nwrite\<close> is read off as a list, the operations of the code are a
  bounded queue on it, and pipewrite and piperead are given exactly, on every branch.
\<close>

section \<open>The queue in a pipe\<close>

definition pipe_wf :: "pipe \<Rightarrow> bool" where
  "pipe_wf x \<longleftrightarrow> length (pi_data x) = 512 \<and> unat (nwrite x - nread x) \<le> 512"

definition pipe_queue :: "pipe \<Rightarrow> u8 list" where
  "pipe_queue x = ring_view 512 (pi_data x) (nread x) (nwrite x)"

definition pipe_full :: "pipe \<Rightarrow> bool" where
  "pipe_full x \<longleftrightarrow> nwrite x = nread x + 512"

definition pipe_empty :: "pipe \<Rightarrow> bool" where
  "pipe_empty x \<longleftrightarrow> nread x = nwrite x"

definition pipe_adv :: "pipe \<Rightarrow> pipe" where
  "pipe_adv x = x\<lparr>nread := nread x + 1\<rparr>"

lemma pipe_full_iff: "pipe_full x \<longleftrightarrow> unat (nwrite x - nread x) = 512"
  using ring_full_iff [of 512 "nwrite x" "nread x"] by (simp add: pipe_full_def)

lemma unat_mod_512: "unat (w mod 512 :: u32) = unat w mod 512"
  by (simp add: unat_mod)

lemma pipe_put_law:
  assumes "pipe_wf x" "\<not> pipe_full x"
  shows "pipe_wf (pipe_put c x) \<and> pipe_queue (pipe_put c x) = pipe_queue x @ [c]"
proof -
  have less: "unat (nwrite x - nread x) < 512"
    using assms by (simp add: pipe_wf_def pipe_full_iff)
  then have "unat (nwrite x + 1 - nread x) = Suc (unat (nwrite x - nread x))"
    by (intro unat_diff_Suc) simp
  moreover have "ring_view 512 ((pi_data x)[unat (nwrite x) mod 512 := c]) (nread x) (nwrite x + 1) =
      ring_view 512 (pi_data x) (nread x) (nwrite x) @ [c]"
    using assms(1) less by (intro ring_put) (simp_all add: pipe_wf_def)
  ultimately show ?thesis
    using assms(1) less by (simp add: pipe_wf_def pipe_queue_def pipe_put_def unat_mod_512)
qed

lemma pipe_get_law:
  assumes "pipe_wf x" "\<not> pipe_empty x"
  shows "pipe_wf (pipe_adv x) \<and> pipe_queue x = pipe_get x # pipe_queue (pipe_adv x)"
proof -
  have ne: "nread x \<noteq> nwrite x"
    using assms(2) by (simp add: pipe_empty_def)
  show ?thesis
    using assms(1) ring_get [OF ne, of 512 "pi_data x"] unat_diff_pred [OF ne]
    by (auto simp: pipe_wf_def pipe_queue_def pipe_adv_def pipe_get_def unat_mod_512)
qed

interpretation pq: fifo pipe_wf pipe_queue pipe_full pipe_empty pipe_put pipe_get pipe_adv 512
  by unfold_locales
    (use pipe_put_law pipe_get_law in \<open>auto simp: pipe_full_iff pipe_queue_def pipe_wf_def pipe_empty_def\<close>)

section \<open>The lock of a pipe\<close>

lemma upd_pipe_simps [simp]:
  "pipes (upd_pipe p f s) p = f (pipes s p)" "q \<noteq> p \<Longrightarrow> pipes (upd_pipe p f s) q = pipes s q"
  "upd_pipe p f (upd_pipe p g s) = upd_pipe p (\<lambda>x. f (g x)) s" "ptable (upd_pipe p f s) = ptable s"
  by (simp_all add: upd_pipe_def)

interpretation pil: kernel_lock "get_pilock p" "put_pilock p" for p
  by unfold_locales (auto simp: get_pilock_def put_pilock_def upd_pipe_def same_cpu_def)

lemma framed_upd_pipe:
  "(\<And>l x. h (x\<lparr>pi_lock := l\<rparr>) = (h x)\<lparr>pi_lock := l\<rparr>) \<Longrightarrow> pil.framed p (upd_pipe p h)"
  by (simp add: pil.framed_def put_pilock_def upd_pipe_def)

lemma pipes_opened: "pipes (pil.opened p s) p = (pipes s p)\<lparr>pi_lock := held_here (pi_lock (pipes s p)) s\<rparr>"
  by (simp add: pil.opened_def put_pilock_def get_pilock_def pushed_def upd_pipe_def)

lemma pipe_lock_irrelevant [simp]:
  "pipe_queue (x\<lparr>pi_lock := l\<rparr>) = pipe_queue x" "pipe_wf (x\<lparr>pi_lock := l\<rparr>) = pipe_wf x"
  "pipe_full (x\<lparr>pi_lock := l\<rparr>) = pipe_full x" "pipe_put c (x\<lparr>pi_lock := l\<rparr>) = (pipe_put c x)\<lparr>pi_lock := l\<rparr>"
  by (simp_all add: pipe_queue_def pipe_wf_def pipe_full_def pipe_put_def)

lemma puts_lock: "fold pipe_put cs (x\<lparr>pi_lock := l\<rparr>) = (fold pipe_put cs x)\<lparr>pi_lock := l\<rparr>"
  by (induction cs arbitrary: x) simp_all

lemma puts_fields [simp]:
  "readopen (fold pipe_put cs x) = readopen x" "pi_lock (fold pipe_put cs x) = pi_lock x" "nread (fold pipe_put cs x) = nread x"
  by (induction cs arbitrary: x) (simp_all add: pipe_put_def)

text \<open>The situation in which a process \<open>q\<close> calls a pipe operation, and the same after it went to sleep.\<close>

definition pipe_ready :: "nat \<Rightarrow> u32 \<Rightarrow> 'a pipe_st_scheme \<Rightarrow> bool" where
  "pipe_ready q p s \<longleftrightarrow> sleep_ready q s \<and> cpu_ncli (cpus s ! this_cpu s) = 0 \<and>
     lock_free (pi_lock (pipes s p)) \<and> pipe_wf (pipes s p)"

definition asleep :: "chan \<Rightarrow> nat \<Rightarrow> 'a ptab_st_scheme \<Rightarrow> 'a ptab_st_scheme" where
  "asleep ch q s = upd_proc q (\<lambda>x. x\<lparr>p_chan := Some ch, p_state := SLEEPING\<rparr>) (pt.opened s)"

lemma pipe_readyD:
  assumes "pipe_ready q p s"
  shows "sleep_ready q s" "running q s" "cpu_ok s" "lock_free (get_pilock p s)" "cpu_ncli (cpus s ! this_cpu s) = 0"
    "pipe_wf (pipes s p)"
  using assms by (auto simp: pipe_ready_def sleep_ready_def running_def get_pilock_def)

lemma killed_now_ok: "running q s \<Longrightarrow> killed_now s = Inr (p_killed (procs s ! q) \<noteq> 0, s)"
  by (simp add: killed_now_def running_def myproc_ok)

lemma running_same: "same_cpu t s \<Longrightarrow> ptable t = ptable s \<Longrightarrow> running q t = running q s"
  using same_cpu_cpu_ok [of t s] by (auto simp: running_def same_cpu_def this_cpu_def)

lemma upd_pipe_cpu [simp]: "running q (upd_pipe p f s) = running q s" "sleep_ready q (upd_pipe p f s) = sleep_ready q s"
  "pt_ok (upd_pipe p f s) = pt_ok s" "cpus (upd_pipe p f s) = cpus s" "this_cpu (upd_pipe p f s) = this_cpu s"
proof -
  have "same_cpu (upd_pipe p f s) s"
    by (simp add: upd_pipe_def same_cpu_def)
  then show "running q (upd_pipe p f s) = running q s" "sleep_ready q (upd_pipe p f s) = sleep_ready q s"
      "pt_ok (upd_pipe p f s) = pt_ok s"
    using same_cpu_cpu_ok by (auto simp: running_same sleep_ready_def pt_ok_def)
qed (simp_all add: upd_pipe_def this_cpu_def)

section \<open>Writing\<close>

text \<open>The loop stores what fits and continues with the rest.\<close>

lemma pipewrite_loop_puts:
  "pipe_wf (pipes s p) \<Longrightarrow> length cs \<le> 512 - length (pipe_queue (pipes s p)) \<Longrightarrow>
   pipewrite_loop p n (cs @ ds) s = pipewrite_loop p n ds (upd_pipe p (fold pipe_put cs) s)"
proof (induction cs arbitrary: s)
  case Nil
  then show ?case by (simp add: upd_pipe_def)
next
  case (Cons c cs)
  have nf: "\<not> pipe_full (pipes s p)"
    using Cons.prems pq.full_iff by auto
  then have "nwrite (pipes s p) \<noteq> nread (pipes s p) + 512"
    by (simp add: pipe_full_def)
  moreover have "pipewrite_loop p n (cs @ ds) (upd_pipe p (pipe_put c) s) =
      pipewrite_loop p n ds (upd_pipe p (fold pipe_put cs) (upd_pipe p (pipe_put c) s))"
    using Cons.prems pipe_put_law [OF _ nf] by (intro Cons.IH) simp_all
  ultimately show ?case
    by (simp add: o_def)
qed

lemma pipe_release:
  assumes "pipe_ready q p s" "pil.framed p f"
  shows "release_pipe p (f (pil.opened p s)) = Inr (f s)"
  using pil.release_at_ok [OF pipe_readyD(3,4) [OF assms(1)] assms(2)] .

lemma pipe_puts_fit:
  "pipe_wf x \<Longrightarrow> length cs \<le> 512 - length (pipe_queue x) \<Longrightarrow>
   pipe_wf (fold pipe_put cs x) \<and> pipe_queue (fold pipe_put cs x) = pipe_queue x @ cs"
  using pq.puts [of x cs] pq.bound [of x] by simp

lemma pipewrite_full:
  fixes s :: "'a pipe_st_scheme"
  assumes ready: "pipe_ready q p s" and fit: "length cs = 512 - length (pipe_queue (pipes s p))"
  defines "t \<equiv> upd_pipe p (fold pipe_put cs) s"
  shows "pipewrite_loop p n (d # ds) (upd_pipe p (fold pipe_put cs) (pil.opened p s)) =
    (if readopen (pipes s p) = 0 \<or> p_killed (procs s ! q) \<noteq> 0 then Inr (-1, t)
     else Inl (Switch (asleep (Ch_nwrite p) q (wakeup1 (Ch_nread p) t))))"
proof -
  note r = pipe_readyD [OF ready]
  let ?u = "upd_pipe p (fold pipe_put cs) (pil.opened p s)"
  have fr: "pil.framed p (upd_pipe p (fold pipe_put cs))"
    by (rule framed_upd_pipe) (rule puts_lock)
  have q: "pipe_wf (pipes t p)" "pipe_queue (pipes t p) = pipe_queue (pipes s p) @ cs"
    using pipe_puts_fit [OF r(6)] fit by (simp_all add: t_def)
  have "length (pipe_queue (pipes t p)) = 512"
    using q fit pq.bound [OF r(6)] by simp
  then have "pipe_full (pipes t p)"
    using pq.full_iff [OF q(1)] by simp
  then have full: "nwrite (pipes ?u p) = nread (pipes ?u p) + 512"
    by (simp add: t_def pipes_opened puts_lock pipe_full_def)
  have run: "running q ?u"
    using pil.running_opened [OF r(2)] by simp
  have rel: "release_pipe p ?u = Inr t"
    unfolding t_def by (rule pipe_release [OF ready fr])
  have "pt_ok ?u"
    using sleep_ready_pt_ok [OF pil.sleep_ready_opened [OF r(1)]] by simp
  then have wake: "wakeup (Ch_nread p) ?u = Inr (wakeup1 (Ch_nread p) ?u)"
    by (rule wakeup_ok)
  have "sleep (Ch_nwrite p) (Some (get_pilock p, put_pilock p)) (wakeup1 (Ch_nread p) ?u) =
      (Inl (Switch (asleep (Ch_nwrite p) q (wakeup1 (Ch_nread p) t))) :: 'a pipe_st_scheme stop + int \<times> 'a pipe_st_scheme)"
    unfolding asleep_def t_def using r
    by (intro pil.sleep_in_section pil.framed_comp [OF pil.framed_wakeup1 fr]) (simp_all add: wakeup1_def)
  then show ?thesis
    using full rel wake by (simp add: killed_now_ok [OF run] pil.ptable_opened pipes_opened)
qed

text \<open>
  C21. pipewrite appends to the queue. It stores the bytes that fit, in order, behind the bytes in the pipe and never
  overwrites an unread byte, also when the 32-bit indices have wrapped. If all bytes fit it returns \<open>n\<close> and wakes
  the readers; otherwise, with the pipe full, it returns -1 if the read end is closed or the process was killed,
  and else wakes the readers and puts the process to sleep on \<open>&p->nwrite\<close> with the pipe unlocked.
\<close>

theorem pipewrite_appends:
  assumes ready: "pipe_ready q p s"
  shows "let bs = take (nat n) addr; room = 512 - length (pipe_queue (pipes s p));
             t = upd_pipe p (fold pipe_put (take room bs)) s
    in pipe_wf (pipes t p) \<and> pipe_queue (pipes t p) = pipe_queue (pipes s p) @ take room bs \<and>
       pipewrite p addr n s =
         (if length bs \<le> room then Inr (n, wakeup1 (Ch_nread p) t)
          else if readopen (pipes s p) = 0 \<or> p_killed (procs s ! q) \<noteq> 0 then Inr (-1, t)
          else Inl (Switch (asleep (Ch_nwrite p) q (wakeup1 (Ch_nread p) t))))"
proof -
  note r = pipe_readyD [OF ready]
  define bs where "bs = take (nat n) addr"
  define room where "room = 512 - length (pipe_queue (pipes s p))"
  define t where "t = upd_pipe p (fold pipe_put (take room bs)) s"
  let ?o = "pil.opened p s"
  have wf: "pipe_wf (pipes t p)" "pipe_queue (pipes t p) = pipe_queue (pipes s p) @ take room bs"
    using pipe_puts_fit [OF r(6), of "take room bs"] by (simp_all add: t_def room_def)
  have "pipewrite_loop p n (take room bs @ drop room bs) ?o =
      pipewrite_loop p n (drop room bs) (upd_pipe p (fold pipe_put (take room bs)) ?o)"
    using r(6) by (intro pipewrite_loop_puts) (simp_all add: pipes_opened room_def)
  then have run: "pipewrite p addr n s = pipewrite_loop p n (drop room bs) (upd_pipe p (fold pipe_put (take room bs)) ?o)"
    by (simp add: pipewrite_def pil.acquire_at_ok [OF r(3,4)] bs_def [symmetric])
  have "pipewrite p addr n s =
         (if length bs \<le> room then Inr (n, wakeup1 (Ch_nread p) t)
          else if readopen (pipes s p) = 0 \<or> p_killed (procs s ! q) \<noteq> 0 then Inr (-1, t)
          else Inl (Switch (asleep (Ch_nwrite p) q (wakeup1 (Ch_nread p) t))))"
  proof (cases "length bs \<le> room")
    case True
    have fr: "pil.framed p (\<lambda>s. wakeup1 (Ch_nread p) (upd_pipe p (fold pipe_put bs) s))"
      by (intro pil.framed_comp [OF pil.framed_wakeup1] framed_upd_pipe puts_lock)
    have "pt_ok (upd_pipe p (fold pipe_put bs) ?o)"
      using sleep_ready_pt_ok [OF pil.sleep_ready_opened [OF r(1)]] by simp
    then show ?thesis
      using True pipe_release [OF ready fr] by (simp add: run wakeup_ok t_def)
  next
    case False
    then obtain d ds where d: "drop room bs = d # ds"
      by (cases "drop room bs") auto
    then show ?thesis
      using False pipewrite_full [OF ready, of "take room bs" n d ds] by (simp add: run t_def room_def)
  qed
  with wf show ?thesis
    by (simp add: Let_def bs_def room_def t_def)
qed

text \<open>Three bytes into a new pipe, and two bytes into a pipe whose indices wrap and that has room for one.\<close>

lemma machine_pipe_ready: "pipe_wf x \<Longrightarrow> lock_free (pi_lock x) \<Longrightarrow> pipe_ready 0 p (upd_pipe p (\<lambda>_. x) machine)"
  by (simp add: pipe_ready_def)

lemma new_pipe_wf [simp]: "pipe_wf new_pipe" "pipe_queue new_pipe = []" "lock_free (pi_lock new_pipe)"
  by (simp_all add: new_pipe_def pipe_wf_def pipe_queue_def)

definition almost_full :: pipe where
  "almost_full = new_pipe\<lparr>nread := -10, nwrite := 501\<rparr>"

lemma almost_full_wf: "pipe_wf almost_full" "length (pipe_queue almost_full) = 511" "lock_free (pi_lock almost_full)"
  "readopen almost_full = 1"
  by (simp_all add: almost_full_def new_pipe_def pipe_wf_def pipe_queue_def)

theorem pipewrite_appends_witness:
  "(\<exists>t. pipewrite 0 [7, 8, 9] 3 (upd_pipe 0 (\<lambda>_. new_pipe) machine) = Inr (3, t)) \<and>
   (\<exists>t. pipewrite 0 [7, 8] 2 (upd_pipe 0 (\<lambda>_. almost_full) machine) = Inl (Switch t))"
proof -
  let ?n = "upd_pipe 0 (\<lambda>_. new_pipe) machine" and ?f = "upd_pipe 0 (\<lambda>_. almost_full) machine"
  have "pipe_ready 0 0 ?n" "pipe_ready 0 0 ?f"
    by (rule machine_pipe_ready; simp add: almost_full_wf)+
  then show ?thesis
    using pipewrite_appends [of 0 0 ?n 3 "[7, 8, 9]"] pipewrite_appends [of 0 0 ?f 2 "[7, 8]"] almost_full_wf(2,4)
    by (simp add: Let_def first_proc_def quiet_proc_def)
qed

section \<open>Reading\<close>

lemma piperead_copy_takes:
  "pipe_wf (pipes s p) \<Longrightarrow>
   piperead_copy p n out s = (out @ take n (pipe_queue (pipes s p)),
     upd_pipe p (\<lambda>x. x\<lparr>nread := nread x + of_nat (length (take n (pipe_queue (pipes s p))))\<rparr>) s)"
proof (induction n arbitrary: out s)
  case 0
  then show ?case by (simp add: upd_pipe_def)
next
  case (Suc n)
  show ?case
  proof (cases "pipe_empty (pipes s p)")
    case True
    then show ?thesis
      using Suc.prems pq.empt_iff by (auto simp: pipe_empty_def upd_pipe_def)
  next
    case False
    let ?s = "upd_pipe p pipe_adv s"
    have law: "pipe_wf (pipes ?s p)" "pipe_queue (pipes s p) = pipe_get (pipes s p) # pipe_queue (pipes ?s p)"
      using pipe_get_law [OF Suc.prems False] by simp_all
    have "piperead_copy p (Suc n) out s = piperead_copy p n (out @ [pipe_get (pipes s p)]) ?s"
      using False by (simp add: pipe_empty_def pipe_adv_def [abs_def])
    then show ?thesis
      using Suc.IH [OF law(1)] by (simp add: law(2) pipe_adv_def add.assoc)
  qed
qed

lemma pipe_advance:
  assumes "pipe_wf x" "k \<le> length (pipe_queue x)"
  shows "pipe_wf (x\<lparr>nread := nread x + of_nat k\<rparr>) \<and> pipe_queue (x\<lparr>nread := nread x + of_nat k\<rparr>) = drop k (pipe_queue x)"
  using assms
proof (induction k arbitrary: x)
  case 0
  then show ?case by simp
next
  case (Suc k)
  have ne: "\<not> pipe_empty x"
    using Suc.prems pq.empt_iff by auto
  note law = pipe_get_law [OF Suc.prems(1) ne]
  have "pipe_wf ((pipe_adv x)\<lparr>nread := nread (pipe_adv x) + of_nat k\<rparr>) \<and>
      pipe_queue ((pipe_adv x)\<lparr>nread := nread (pipe_adv x) + of_nat k\<rparr>) = drop k (pipe_queue (pipe_adv x))"
    using law Suc.prems(2) by (intro Suc.IH) auto
  moreover have "(pipe_adv x)\<lparr>nread := nread (pipe_adv x) + of_nat k\<rparr> = x\<lparr>nread := nread x + of_nat (Suc k)\<rparr>"
    by (simp add: pipe_adv_def add.assoc)
  moreover have "drop k (pipe_queue (pipe_adv x)) = drop (Suc k) (pipe_queue x)"
    using law by (metis drop_Suc_Cons)
  ultimately show ?case
    by simp
qed

text \<open>
  C22. piperead takes from the front of the queue. If the pipe is empty and a writer is left, it returns -1 for a
  killed process and otherwise puts the process to sleep on \<open>&p->nread\<close>; else it returns the first \<open>n\<close> bytes of the
  queue, or all of them if there are fewer, leaves the rest in order, and wakes the writers.
\<close>

theorem piperead_takes:
  fixes s :: "'a pipe_st_scheme"
  assumes ready: "pipe_ready q p s"
  shows "let x = pipes s p; out = take (nat n) (pipe_queue x);
             t = upd_pipe p (\<lambda>x. x\<lparr>nread := nread x + of_nat (length out)\<rparr>) s
    in pipe_wf (pipes t p) \<and> pipe_queue (pipes t p) = drop (nat n) (pipe_queue x) \<and>
       piperead p n s =
         (if pipe_queue x = [] \<and> writeopen x \<noteq> 0
          then if p_killed (procs s ! q) \<noteq> 0 then Inr ((-1, []), s) else Inl (Switch (asleep (Ch_nread p) q s))
          else Inr ((int (length out), out), wakeup1 (Ch_nwrite p) t))"
proof -
  note r = pipe_readyD [OF ready]
  define x where "x = pipes s p"
  define out where "out = take (nat n) (pipe_queue x)"
  define f :: "'a pipe_st_scheme \<Rightarrow> 'a pipe_st_scheme" where "f = upd_pipe p (\<lambda>x. x\<lparr>nread := nread x + of_nat (length out)\<rparr>)"
  let ?o = "pil.opened p s"
  have adv: "pipe_wf (pipes (f s) p)" "pipe_queue (pipes (f s) p) = drop (nat n) (pipe_queue x)"
    using pipe_advance [OF r(6), of "length out"] by (auto simp: f_def x_def out_def min_def)
  have run: "running q ?o" "procs ?o = procs s"
    using pil.running_opened [OF r(2)] by (simp_all add: pil.ptable_opened)
  have empty: "nread (pipes ?o p) = nwrite (pipes ?o p) \<longleftrightarrow> pipe_queue x = []"
    using pq.empt_iff [OF r(6)] by (simp add: pipes_opened pipe_empty_def x_def)
  have copy: "piperead_copy p (nat n) [] ?o = (out, f ?o)"
    using piperead_copy_takes [of ?o p "nat n" "[]"] r(6) by (simp add: pipes_opened out_def f_def x_def)
  have fr: "pil.framed p f"
    unfolding f_def by (rule framed_upd_pipe) simp
  have "pt_ok (f ?o)"
    using sleep_ready_pt_ok [OF pil.sleep_ready_opened [OF r(1)]] by (simp add: f_def)
  then have fin: "wakeup (Ch_nwrite p) (f ?o) = Inr (wakeup1 (Ch_nwrite p) (f ?o))"
    "release_pipe p (wakeup1 (Ch_nwrite p) (f ?o)) = Inr (wakeup1 (Ch_nwrite p) (f s))"
    using pipe_release [OF ready pil.framed_comp [OF pil.framed_wakeup1 fr]] by (simp_all add: wakeup_ok)
  have blocked: "release_pipe p ?o = Inr s"
    "sleep (Ch_nread p) (Some (get_pilock p, put_pilock p)) ?o =
      (Inl (Switch (asleep (Ch_nread p) q s)) :: 'a pipe_st_scheme stop + (int \<times> u8 list) \<times> 'a pipe_st_scheme)"
    using pipe_release [OF ready pil.framed_id] pil.sleep_in_section [OF r(1,4,5) pil.framed_id]
    by (simp_all add: asleep_def)
  have "piperead p n s =
         (if pipe_queue x = [] \<and> writeopen x \<noteq> 0
          then if p_killed (procs s ! q) \<noteq> 0 then Inr ((-1, []), s) else Inl (Switch (asleep (Ch_nread p) q s))
          else Inr ((int (length out), out), wakeup1 (Ch_nwrite p) (f s)))"
    by (simp add: piperead_def pil.acquire_at_ok [OF r(3,4)] piperead_loop_def empty killed_now_ok [OF run(1)] run(2)
        copy fin blocked) (simp add: pipes_opened x_def)
  with adv show ?thesis
    by (simp add: Let_def x_def out_def f_def)
qed

theorem piperead_takes_witness:
  "\<exists>t. piperead 0 5 (upd_pipe 0 (\<lambda>_. almost_full) machine) = Inr ((5, [0, 0, 0, 0, 0]), t)"
proof -
  let ?f = "upd_pipe 0 (\<lambda>_. almost_full) machine"
  have "pipe_ready 0 0 ?f"
    by (rule machine_pipe_ready) (simp_all add: almost_full_wf)
  moreover have "take 5 (pipe_queue almost_full) = [0, 0, 0, 0, 0]"
    by (simp add: pipe_queue_def ring_view_def almost_full_def new_pipe_def take_map upt_conv_Cons)
  moreover have "pipe_queue almost_full \<noteq> []"
    using almost_full_wf(2) by auto
  ultimately show ?thesis
    using piperead_takes [of 0 0 ?f 5] by (simp add: Let_def)
qed

section \<open>The stream through a pipe\<close>

text \<open>
  C23. Bytes pass through a pipe in order, none lost, none repeated. For every history of byte stores (the store
  of pipewrite, which waits while \<open>nwrite == nread + PIPESIZE\<close>) and byte fetches (the fetch of
  piperead, which stops while \<open>nread == nwrite\<close>) in any interleaving, from an empty pipe with any index
  values: the bytes fetched followed by the bytes in the pipe are the bytes stored.
\<close>

theorem pipe_stream:
  assumes "pipe_wf x" and "nread x = nwrite x"
    and "fifo_run (\<lambda>x. nwrite x = nread x + 512) (\<lambda>x. nread x = nwrite x) pipe_put pipe_get
           (\<lambda>x. x\<lparr>nread := nread x + 1\<rparr>) ops x = (written, fetched, y)"
  shows "written = fetched @ pipe_queue y \<and> length (pipe_queue y) \<le> 512"
proof -
  have "fifo_run pipe_full pipe_empty pipe_put pipe_get pipe_adv ops x = (written, fetched, y)"
    using assms(3) by (simp add: pipe_full_def [abs_def] pipe_empty_def [abs_def] pipe_adv_def [abs_def])
  moreover have "pipe_queue x = []"
    using assms(2) by (simp add: pipe_queue_def)
  ultimately show ?thesis
    using pq.history [OF assms(1)] pq.bound by fastforce
qed

theorem pipe_stream_witness:
  "\<exists>y. fifo_run (\<lambda>x. nwrite x = nread x + 512) (\<lambda>x. nread x = nwrite x) pipe_put pipe_get
     (\<lambda>x. x\<lparr>nread := nread x + 1\<rparr>) [Some 5, Some 6, None, None, None] (new_pipe\<lparr>nread := -1, nwrite := -1\<rparr>) = ([5, 6], [5, 6], y) \<and>
     pipe_queue y = []"
proof -
  let ?x = "new_pipe\<lparr>nread := -1, nwrite := -1\<rparr>"
  have "pipe_wf ?x" "nread ?x = nwrite ?x"
    by (simp_all add: pipe_wf_def new_pipe_def)
  moreover obtain ws gs y where run: "fifo_run (\<lambda>x. nwrite x = nread x + 512) (\<lambda>x. nread x = nwrite x) pipe_put pipe_get
     (\<lambda>x. x\<lparr>nread := nread x + 1\<rparr>) [Some 5, Some 6, None, None, None] ?x = (ws, gs, y)"
    using prod_cases3 by blast
  moreover have "ws = [5, 6] \<and> gs = [5, 6]"
    using run by (auto simp: pipe_put_def pipe_get_def new_pipe_def)
  ultimately show ?thesis
    using pipe_stream [of ?x "[Some 5, Some 6, None, None, None]" ws gs y] by simp
qed

end
