(* ===== verification/Bio_Cache.thy ===== *)
theory Bio_Cache
  imports Bio_List
begin

text \<open>
  What the buffer cache promises to its clients: \<open>blk\<close> is the current contents of a disk block, in the cache or on
  disk; bread returns it in a locked buffer, bwrite puts the buffer's bytes on disk, brelse gives the buffer back,
  and the invariant \<open>bio_inv\<close> is kept. \<open>H\<close> is the set of buffers that the running process holds.
\<close>

section \<open>Flags\<close>

definition valid_b :: "buf \<Rightarrow> bool" where "valid_b b \<longleftrightarrow> bit (b_flags b) 1"
definition dirty_b :: "buf \<Rightarrow> bool" where "dirty_b b \<longleftrightarrow> bit (b_flags b) 2"

lemma flag_bits: "f AND 2 = 0 \<longleftrightarrow> \<not> bit f 1" "f AND 4 = 0 \<longleftrightarrow> \<not> bit f 2" for f :: u32
  using and_exp_eq_0_iff_not_bit [of f 1] and_exp_eq_0_iff_not_bit [of f 2] by simp_all

lemma flag_6: "f AND 6 = 2 \<longleftrightarrow> bit f 1 \<and> \<not> bit f 2" for f :: u32
proof -
  have "f AND 6 = (f AND 2) OR (f AND 4)"
    by (simp add: bit.conj_disj_distrib [symmetric])
  moreover have "f AND 2 ^ k = (if bit f k then 2 ^ k else 0)" for k
    by (rule bit_word_eqI) (auto simp: bit_simps)
  from this [of 1] this [of 2] have "f AND 2 = (if bit f 1 then 2 else 0)" "f AND 4 = (if bit f 2 then 4 else 0)"
    by simp_all
  ultimately show ?thesis
    by (simp split: if_splits)
qed

lemma flag_updates [simp]:
  "bit (f OR 2 :: u32) 1" "bit (f OR 2 :: u32) 2 = bit f 2" "bit (f OR 4 :: u32) 2" "bit (f OR 4 :: u32) 1 = bit f 1"
  "\<not> bit (f AND NOT 4 :: u32) 2" "bit (f AND NOT 4 :: u32) 1 = bit f 1"
  by (simp_all add: bit_simps)

section \<open>Locks\<close>

lemma upd_buf_simps [simp]:
  "ptable (upd_buf i f s) = ptable s" "memdisk (upd_buf i f s) = memdisk s" "disksize (upd_buf i f s) = disksize s"
  "disk_trace (upd_buf i f s) = disk_trace s" "bc_lock (bcache (upd_buf i f s)) = bc_lock (bcache s)"
  "upd_buf i f (upd_buf i g s) = upd_buf i (\<lambda>b. f (g b)) s"
  by (simp_all add: upd_buf_def)

interpretation bcl: kernel_lock "\<lambda>s :: 'a bio_st_scheme. bc_lock (bcache s)" put_bclock
  by unfold_locales (auto simp: put_bclock_def same_cpu_def)

interpretation bl: sleeplock_field "get_buflock i" "put_buflock i" for i
  by unfold_locales (auto simp: put_buflock_def get_buflock_def upd_buf_def same_cpu_def)

lemma framed_upd_buf: "bcl.framed (upd_buf i f)"
  by (simp add: bcl.framed_def put_bclock_def upd_buf_def)

lemma bufs_opened [simp]: "bufs (bcl.opened s) = bufs s"
  by (simp add: bcl.opened_def put_bclock_def pushed_def)

lemma upd_buf_cpu [simp]:
  "running p (upd_buf i f s) = running p s" "sleep_ready p (upd_buf i f s) = sleep_ready p s" "cpu_ok (upd_buf i f s) = cpu_ok s"
proof -
  have same: "same_cpu (upd_buf i f s) s"
    by (simp add: upd_buf_def same_cpu_def)
  then show "cpu_ok (upd_buf i f s) = cpu_ok s"
    by (rule same_cpu_cpu_ok)
  with same show "running p (upd_buf i f s) = running p s" "sleep_ready p (upd_buf i f s) = sleep_ready p s"
    by (auto simp: sleep_ready_def running_def same_cpu_def this_cpu_def)
qed

section \<open>The invariant\<close>

definition buf_ok :: "int \<Rightarrow> (u32 \<Rightarrow> u8 list) \<Rightarrow> u32 \<Rightarrow> bool \<Rightarrow> buf \<Rightarrow> bool" where
  "buf_ok pid disk sz h b \<longleftrightarrow> lock_free (sl_lk (b_lock b)) \<and>
     (if h then b_refcnt b = 1 \<and> sl_locked (b_lock b) \<noteq> 0 \<and> sl_pid (b_lock b) = pid \<and> valid_b b
      else b_refcnt b = 0 \<and> sl_locked (b_lock b) = 0 \<and> (valid_b b \<and> \<not> dirty_b b \<longrightarrow> b_data b = disk (b_blockno b))) \<and>
     (dirty_b b \<longrightarrow> valid_b b) \<and>
     (valid_b b \<longrightarrow> b_dev b = 1 \<and> b_blockno b < sz \<and> length (b_data b) = BSIZE)"

definition bio_inv :: "nat \<Rightarrow> nat set \<Rightarrow> 'a bio_st_scheme \<Rightarrow> bool" where
  "bio_inv p H s \<longleftrightarrow> sleep_ready p s \<and> lock_free (bc_lock (bcache s)) \<and> (\<exists>xs. bc_order (bufs s) xs) \<and> H \<subseteq> {0..<NBUF} \<and>
     (\<forall>i < NBUF. buf_ok (p_pid (procs s ! p)) (memdisk s) (disksize s) (i \<in> H) (bufs s i)) \<and>
     (\<forall>i < NBUF. \<forall>j < NBUF. b_dev (bufs s i) = 1 \<longrightarrow> b_dev (bufs s j) = 1 \<longrightarrow> b_blockno (bufs s i) = b_blockno (bufs s j) \<longrightarrow> i = j) \<and>
     (\<forall>n. length (memdisk s n) = BSIZE)"

text \<open>The current contents of a block.\<close>

definition holds :: "u32 \<Rightarrow> buf \<Rightarrow> bool" where
  "holds n b \<longleftrightarrow> b_dev b = 1 \<and> b_blockno b = n \<and> valid_b b"

definition blk :: "'a bio_st_scheme \<Rightarrow> u32 \<Rightarrow> u8 list" where
  "blk s n = (case find (\<lambda>i. holds n (bufs s i)) [0..<NBUF] of Some i \<Rightarrow> b_data (bufs s i) | None \<Rightarrow> memdisk s n)"

lemma bio_invD:
  assumes "bio_inv p H s"
  shows "sleep_ready p s" "running p s" "cpu_ok s" "lock_free (bc_lock (bcache s))" "\<exists>xs. bc_order (bufs s) xs"
    "i < NBUF \<Longrightarrow> buf_ok (p_pid (procs s ! p)) (memdisk s) (disksize s) (i \<in> H) (bufs s i)"
    "i \<in> H \<Longrightarrow> i < NBUF" "length (memdisk s n) = BSIZE"
  using assms by (auto simp: bio_inv_def sleep_ready_def running_def)

lemma bio_invI:
  assumes "sleep_ready p s" "lock_free (bc_lock (bcache s))" "\<exists>xs. bc_order (bufs s) xs" "H \<subseteq> {0..<NBUF}"
    "\<And>i. i < NBUF \<Longrightarrow> buf_ok (p_pid (procs s ! p)) (memdisk s) (disksize s) (i \<in> H) (bufs s i)"
    "\<And>i j. i < NBUF \<Longrightarrow> j < NBUF \<Longrightarrow> b_dev (bufs s i) = 1 \<Longrightarrow> b_dev (bufs s j) = 1 \<Longrightarrow>
      b_blockno (bufs s i) = b_blockno (bufs s j) \<Longrightarrow> i = j"
    "\<And>n. length (memdisk s n) = BSIZE"
  shows "bio_inv p H s"
  unfolding bio_inv_def by (intro conjI allI impI) (rule assms; assumption)+

lemma bio_inv_unique:
  "bio_inv p H s \<Longrightarrow> i < NBUF \<Longrightarrow> j < NBUF \<Longrightarrow> b_dev (bufs s i) = 1 \<Longrightarrow> b_dev (bufs s j) = 1 \<Longrightarrow>
   b_blockno (bufs s i) = b_blockno (bufs s j) \<Longrightarrow> i = j"
  unfolding bio_inv_def by blast

lemma find_ex: "i \<in> set xs \<Longrightarrow> P i \<Longrightarrow> \<exists>j. find P xs = Some j \<and> j \<in> set xs \<and> P j"
  by (induction xs) auto

lemma find_unique:
  assumes "i \<in> set xs" "P i" "\<And>j. j \<in> set xs \<Longrightarrow> P j \<Longrightarrow> j = i"
  shows "find P xs = Some i"
  using find_ex [of i xs P] assms by metis

lemma blk_cached:
  assumes "bio_inv p H s" "i < NBUF" "holds n (bufs s i)"
  shows "blk s n = b_data (bufs s i)"
proof -
  have "find (\<lambda>i. holds n (bufs s i)) [0..<30] = Some i"
  proof (rule find_unique)
    fix j assume "j \<in> set [0..<30]" "holds n (bufs s j)"
    then show "j = i"
      using assms by (intro bio_inv_unique [OF assms(1)]) (simp_all add: holds_def)
  qed (use assms in simp_all)
  then show ?thesis
    by (simp add: blk_def)
qed

lemma blk_disk: "(\<And>i. i < NBUF \<Longrightarrow> \<not> holds n (bufs s i)) \<Longrightarrow> blk s n = memdisk s n"
proof -
  assume "\<And>i. i < NBUF \<Longrightarrow> \<not> holds n (bufs s i)"
  then have "find (\<lambda>i. holds n (bufs s i)) [0..<30] = None"
    by (auto simp: find_None_iff)
  then show ?thesis
    by (simp add: blk_def)
qed

lemma blk_cong:
  "(\<And>i. i < NBUF \<Longrightarrow> holds n (bufs t i) = holds n (bufs s i) \<and> (holds n (bufs s i) \<longrightarrow> b_data (bufs t i) = b_data (bufs s i))) \<Longrightarrow>
   memdisk t n = memdisk s n \<Longrightarrow> blk t n = blk s n"
proof -
  assume *: "\<And>i. i < NBUF \<Longrightarrow> holds n (bufs t i) = holds n (bufs s i) \<and> (holds n (bufs s i) \<longrightarrow> b_data (bufs t i) = b_data (bufs s i))"
    and d: "memdisk t n = memdisk s n"
  have "find (\<lambda>i. holds n (bufs t i)) [0..<30] = find (\<lambda>i. holds n (bufs s i)) [0..<30]"
    using * by (intro find_cong) auto
  moreover have "i < 30 \<and> holds n (bufs s i)" if "find (\<lambda>i. holds n (bufs s i)) [0..<30] = Some i" for i
    using that by (auto simp: find_Some_iff)
  ultimately show ?thesis
    using * d by (auto simp: blk_def split: option.split)
qed

section \<open>Getting a buffer\<close>

definition grabbed :: "int \<Rightarrow> buf \<Rightarrow> buf" where
  "grabbed pid b = b\<lparr>b_refcnt := 1, b_lock := (b_lock b)\<lparr>sl_locked := 1, sl_pid := pid\<rparr>\<rparr>"

lemma release_bcache_ok:
  assumes "cpu_ok s" "lock_free (bc_lock (bcache s))" "bcl.framed f"
  shows "release_bcache (f (bcl.opened s)) = Inr (f s)"
  using assms by (rule bcl.release_at_ok)

lemma acquire_buf_ok:
  assumes "running p s" "lock_free (sl_lk (b_lock (bufs s i)))" "sl_locked (b_lock (bufs s i)) = 0"
  shows "acquiresleep ch (get_buflock i) (put_buflock i) s =
    Inr (upd_buf i (\<lambda>b. b\<lparr>b_lock := (b_lock b)\<lparr>sl_locked := 1, sl_pid := p_pid (procs s ! p)\<rparr>\<rparr>) s)"
proof -
  have "bl.sl_free i s"
    using assms by (simp add: bl.sl_free_def get_buflock_def)
  then show ?thesis
    using bl.acquiresleep_ok [OF assms(1)] by (simp add: put_buflock_def get_buflock_def upd_buf_def)
qed

text \<open>A block that is cached, and one that is not.\<close>

lemma bget_hit:
  assumes inv: "bio_inv p H s" and i: "i < NBUF" "i \<notin> H" "b_dev (bufs s i) = 1" "b_blockno (bufs s i) = n"
  shows "bget 1 n s = Inr (i, upd_buf i (grabbed (p_pid (procs s ! p))) s)"
proof -
  note D = bio_invD [OF inv]
  obtain xs where xs: "bc_order (bufs s) xs"
    using D(5) by blast
  have "find (\<lambda>b. b_dev (bufs s b) = 1 \<and> b_blockno (bufs s b) = n) xs = Some i"
  proof (rule find_unique)
    fix j assume "j \<in> set xs" "b_dev (bufs s j) = 1 \<and> b_blockno (bufs s j) = n"
    then show "j = i"
      using i xs by (intro bio_inv_unique [OF inv]) (simp_all add: bc_order_def)
  qed (use i xs in \<open>simp_all add: bc_order_def\<close>)
  moreover have ok: "b_refcnt (bufs s i) = 0" "lock_free (sl_lk (b_lock (bufs s i)))" "sl_locked (b_lock (bufs s i)) = 0"
    using D(6) [OF i(1)] i(2) by (simp_all add: buf_ok_def)
  moreover have "release_bcache (upd_buf i (\<lambda>x. x\<lparr>b_refcnt := b_refcnt x + 1\<rparr>) (bcl.opened s)) =
      Inr (upd_buf i (\<lambda>x. x\<lparr>b_refcnt := b_refcnt x + 1\<rparr>) s)"
    by (rule release_bcache_ok [OF D(3,4) framed_upd_buf])
  ultimately show ?thesis
    unfolding bget_def
    by (simp add: bcl.acquire_at_ok [OF D(3,4)] find_cached_order [OF xs] acquire_buf_ok [of p] D(2) del: find_cached.simps)
      (simp add: upd_buf_def grabbed_def)
qed

definition recycled :: "u32 \<Rightarrow> buf \<Rightarrow> buf" where
  "recycled n b = b\<lparr>b_dev := 1, b_blockno := n, b_flags := 0\<rparr>"

lemma bget_miss:
  assumes inv: "bio_inv p H s" and miss: "\<And>i. i < NBUF \<Longrightarrow> b_dev (bufs s i) = 1 \<Longrightarrow> b_blockno (bufs s i) \<noteq> n"
    and free: "i0 < NBUF" "i0 \<notin> H" "\<not> dirty_b (bufs s i0)"
  shows "\<exists>i < NBUF. i \<notin> H \<and> \<not> dirty_b (bufs s i) \<and>
    bget 1 n s = Inr (i, upd_buf i (\<lambda>b. grabbed (p_pid (procs s ! p)) (recycled n b)) s)"
proof -
  note D = bio_invD [OF inv]
  obtain xs where xs: "bc_order (bufs s) xs"
    using D(5) by blast
  then have set: "set xs = {0..<30}"
    by (simp add: bc_order_def)
  have none: "find (\<lambda>b. b_dev (bufs s b) = 1 \<and> b_blockno (bufs s b) = n) xs = None"
    using miss by (auto simp: find_None_iff set)
  let ?P = "\<lambda>b. b_refcnt (bufs s b) = 0 \<and> b_flags (bufs s b) AND 4 = 0"
  have "?P i0"
    using D(6) [OF free(1)] free by (simp add: buf_ok_def dirty_b_def flag_bits)
  then obtain i where i: "find ?P (rev xs) = Some i" and P: "?P i" "i < 30"
    using find_ex [of i0 "rev xs" ?P] free(1) set by auto
  then have notH: "i \<notin> H"
    using D(6) [of i] by (auto simp: buf_ok_def)
  have ok: "lock_free (sl_lk (b_lock (bufs s i)))" "sl_locked (b_lock (bufs s i)) = 0"
    using D(6) [OF P(2)] notH by (simp_all add: buf_ok_def)
  let ?f = "upd_buf i (\<lambda>x. x\<lparr>b_dev := 1, b_blockno := n, b_flags := 0, b_refcnt := 1\<rparr>)"
  have "release_bcache (?f (bcl.opened s)) = Inr (?f s)"
    by (rule release_bcache_ok [OF D(3,4) framed_upd_buf])
  then have "bget 1 n s = Inr (i, upd_buf i (\<lambda>b. grabbed (p_pid (procs s ! p)) (recycled n b)) s)"
    unfolding bget_def using ok
    by (simp add: bcl.acquire_at_ok [OF D(3,4)] find_cached_order [OF xs] find_recycle_order [OF xs] none i acquire_buf_ok [of p]
        D(2) del: find_cached.simps find_recycle.simps) (simp add: upd_buf_def grabbed_def recycled_def)
  moreover have "\<not> dirty_b (bufs s i)"
    using P(1) by (simp add: dirty_b_def flag_bits)
  ultimately show ?thesis
    using P(2) notH by blast
qed

section \<open>What the operations leave alone\<close>

text \<open>
  The cache operations change the cache, the disk and, when they wake a process, its state in the process
  table; everything else stays.
\<close>

definition proc_core :: "proc \<Rightarrow> proc" where
  "proc_core q = q\<lparr>p_state := UNUSED\<rparr>"

definition shell :: "'a bio_st_scheme \<Rightarrow> 'a bio_st_scheme" where
  "shell s = s\<lparr>ptable := (ptable s)\<lparr>pt_proc := map proc_core (procs s)\<rparr>, bcache := \<lparr>bc_lock = initlock [], bc_buf = (\<lambda>_. zero_buf)\<rparr>,
     memdisk := (\<lambda>_. []), disk_trace := []\<rparr>"

definition kept :: "'a bio_st_scheme \<Rightarrow> 'a bio_st_scheme \<Rightarrow> bool" where
  "kept s t \<longleftrightarrow> shell t = shell s"

lemma kept_refl [simp, intro]: "kept s s"
  by (simp add: kept_def)

lemma kept_trans [trans]: "kept s t \<Longrightarrow> kept t u \<Longrightarrow> kept s u"
  by (simp add: kept_def)

lemma map_core_wakeup: "map proc_core (procs (wakeup1 ch s)) = map proc_core (procs s)"
  by (simp add: wakeup1_def proc_core_def)

lemma kept_upd_buf [simp, intro]: "kept s (upd_buf i f s)"
  by (simp add: kept_def shell_def upd_buf_def)

lemma kept_disk [simp, intro]: "kept s (s\<lparr>memdisk := m, disk_trace := tr\<rparr>)"
  by (simp add: kept_def shell_def)

lemma kept_wakeup1 [simp, intro]: "kept s (wakeup1 ch s)"
  using map_core_wakeup [of ch s] by (simp add: kept_def shell_def wakeup1_def upd_procs_def)

lemma kept_core: "kept s t \<Longrightarrow> map proc_core (procs t) = map proc_core (procs s)"
  unfolding kept_def by (drule arg_cong [of _ _ procs]) (simp add: shell_def)

lemma kept_fields:
  assumes "kept s t"
  shows "same_cpu t s" "pt_lock (ptable t) = pt_lock (ptable s)" "disksize t = disksize s" "mem t = mem s" "kmem t = kmem s"
proof -
  have *: "shell t = shell s"
    using assms by (simp add: kept_def)
  show "same_cpu t s"
    using arg_cong [OF *, of cpus] arg_cong [OF *, of lapic_id] arg_cong [OF *, of eflags_if]
    by (simp add: shell_def same_cpu_def)
  show "pt_lock (ptable t) = pt_lock (ptable s)"
    using arg_cong [OF *, of "\<lambda>s. pt_lock (ptable s)"] by (simp add: shell_def)
  show "disksize t = disksize s" "mem t = mem s" "kmem t = kmem s"
    using arg_cong [OF *, of disksize] arg_cong [OF *, of mem] arg_cong [OF *, of kmem] by (simp_all add: shell_def)
qed

lemma core_proc: "proc_core a = proc_core b \<Longrightarrow> p_pid a = p_pid b \<and> p_killed a = p_killed b \<and> p_cwd a = p_cwd b \<and>
    p_ofile a = p_ofile b \<and> p_pgdir a = p_pgdir b \<and> p_sz a = p_sz b"
  by (cases a, cases b) (simp add: proc_core_def)

lemma kept_proc:
  assumes "kept s t" "p < length (procs s)"
  shows "p_pid (procs t ! p) = p_pid (procs s ! p)" "p_cwd (procs t ! p) = p_cwd (procs s ! p)"
proof -
  have "length (procs t) = length (procs s)"
    using kept_core [OF assms(1)] by (metis length_map)
  then have "proc_core (procs t ! p) = proc_core (procs s ! p)"
    using kept_core [OF assms(1)] assms(2) by (metis nth_map)
  then show "p_pid (procs t ! p) = p_pid (procs s ! p)" "p_cwd (procs t ! p) = p_cwd (procs s ! p)"
    using core_proc by blast+
qed

lemma kept_ready: "kept s t \<Longrightarrow> sleep_ready p s \<Longrightarrow> sleep_ready p t"
proof -
  assume k: "kept s t" and r: "sleep_ready p s"
  have len: "length (procs t) = length (procs s)"
    using kept_core [OF k] by (metis length_map)
  note kept_fields(1,2) [OF k]
  then show ?thesis
    using r len same_cpu_cpu_ok [of t s] by (auto simp: sleep_ready_def running_def same_cpu_def this_cpu_def)
qed

section \<open>Changing one buffer\<close>

lemma bio_inv_upd:
  assumes inv: "bio_inv p H s" and i: "i < NBUF"
    and links: "\<And>b. b_next (f b) = b_next b \<and> b_prev (f b) = b_prev b"
    and ok: "buf_ok (p_pid (procs s ! p)) md (disksize s) h (f (bufs s i))"
    and key: "\<And>j. b_dev (f (bufs s i)) = 1 \<Longrightarrow> j < NBUF \<Longrightarrow> j \<noteq> i \<Longrightarrow> b_dev (bufs s j) = 1 \<Longrightarrow>
      b_blockno (bufs s j) \<noteq> b_blockno (f (bufs s i))"
    and md: "\<And>n. length (md n) = BSIZE"
      "\<And>j. j < NBUF \<Longrightarrow> j \<noteq> i \<Longrightarrow> b_dev (bufs s j) = 1 \<Longrightarrow> md (b_blockno (bufs s j)) = memdisk s (b_blockno (bufs s j))"
  shows "bio_inv p (if h then insert i H else H - {i}) ((upd_buf i f s)\<lparr>memdisk := md, disk_trace := tr\<rparr>)"
proof -
  let ?t = "(upd_buf i f s)\<lparr>memdisk := md, disk_trace := tr\<rparr>"
  note D = bio_invD [OF inv]
  have B: "bufs ?t = (bufs s)(i := f (bufs s i))" "procs ?t = procs s"
    by simp_all
  have "kept s ?t"
    using kept_trans [OF kept_upd_buf kept_disk] .
  then have ready: "sleep_ready p ?t"
    using kept_ready D(1) by blast
  have order: "\<exists>xs. bc_order (bufs ?t) xs"
    unfolding B using D(5) links bc_order_cong [of "(bufs s)(i := f (bufs s i))" "bufs s"] by auto
  have bufs: "buf_ok (p_pid (procs s ! p)) md (disksize s) (j \<in> (if h then insert i H else H - {i})) (bufs ?t j)" if "j < 30" for j
  proof (cases "j = i")
    case True
    then show ?thesis using ok by (cases h) simp_all
  next
    case False
    have "b_data (bufs s j) = md (b_blockno (bufs s j))" if "valid_b (bufs s j)" "\<not> dirty_b (bufs s j)" "j \<notin> H"
      using D(6) [OF \<open>j < 30\<close>] that md(2) [OF \<open>j < 30\<close> False] by (simp add: buf_ok_def)
    then show ?thesis
      using D(6) [OF that] False by (cases h) (auto simp: buf_ok_def)
  qed
  have unique: "a = b" if "a < 30" "b < 30" "b_dev (bufs ?t a) = 1" "b_dev (bufs ?t b) = 1"
      "b_blockno (bufs ?t a) = b_blockno (bufs ?t b)" for a b
  proof (rule ccontr)
    assume "a \<noteq> b"
    then consider "a = i" "b \<noteq> i" | "b = i" "a \<noteq> i" | "a \<noteq> i" "b \<noteq> i" by blast
    then show False
      using that key [of a] key [of b] bio_inv_unique [OF inv, of a b] \<open>a \<noteq> b\<close> unfolding B by cases simp_all
  qed
  have sub: "(if h then insert i H else H - {i}) \<subseteq> {0..<30}"
    using D(7) i by auto
  have same: "bc_lock (bcache ?t) = bc_lock (bcache s)" "p_pid (procs ?t ! p) = p_pid (procs s ! p)" "memdisk ?t = md"
      "disksize ?t = disksize s"
    by simp_all
  show ?thesis
  proof (rule bio_invI [OF ready _ order sub])
    show "lock_free (bc_lock (bcache ?t))"
      unfolding same by (rule D(4))
    show "buf_ok (p_pid (procs ?t ! p)) (memdisk ?t) (disksize ?t) (j \<in> (if h then insert i H else H - {i})) (bufs ?t j)" if "j < 30" for j
      unfolding same by (rule bufs [OF that])
    show "length (memdisk ?t n) = 512" for n
      unfolding same by (rule md(1))
  qed (rule unique)
qed

lemma bio_inv_upd_buf:
  assumes "bio_inv p H s" "i < NBUF" "\<And>b. b_next (f b) = b_next b \<and> b_prev (f b) = b_prev b"
    "buf_ok (p_pid (procs s ! p)) (memdisk s) (disksize s) h (f (bufs s i))"
    "\<And>j. b_dev (f (bufs s i)) = 1 \<Longrightarrow> j < NBUF \<Longrightarrow> j \<noteq> i \<Longrightarrow> b_dev (bufs s j) = 1 \<Longrightarrow>
      b_blockno (bufs s j) \<noteq> b_blockno (f (bufs s i))"
  shows "bio_inv p (if h then insert i H else H - {i}) (upd_buf i f s)"
proof -
  have *: "(upd_buf i f s)\<lparr>memdisk := memdisk s, disk_trace := disk_trace s\<rparr> = upd_buf i f s"
    by (simp add: upd_buf_def)
  show ?thesis
    using bio_inv_upd [where md = "memdisk s" and tr = "disk_trace s", OF assms bio_invD(8) [OF assms(1)] refl]
    unfolding * .
qed

end
