(* ===== verification/Bio_Ops.thy ===== *)
theory Bio_Ops
  imports Bio_Cache Log
begin

text \<open>
  The contract of the buffer cache. A client sees the current contents of the blocks (\<open>blk\<close>), the disk
  (\<open>memdisk\<close>), the blocks pinned in the cache because they are dirty (\<open>pinned\<close>), and the map \<open>h\<close> from
  the buffers it holds to their block numbers.
\<close>

lemmas flag_updates_Suc [simp] = flag_updates [unfolded One_nat_def]

lemma flag_clear [simp]: "\<not> bit (f AND - 5 :: u32) 2" "bit (f AND - 5 :: u32) (Suc 0) = bit f (Suc 0)"
  using flag_updates(5) [of f] flag_updates(6) [of f] by (simp_all del: flag_updates)

section \<open>The client's view\<close>

definition pinned :: "'a bio_st_scheme \<Rightarrow> u32 set" where
  "pinned s = {b_blockno (bufs s i) | i. i < NBUF \<and> dirty_b (bufs s i)}"

definition bio_view :: "nat \<Rightarrow> (nat \<rightharpoonup> u32) \<Rightarrow> 'a bio_st_scheme \<Rightarrow> bool" where
  "bio_view p h s \<longleftrightarrow> bio_inv p (dom h) s \<and> (\<forall>i n. h i = Some n \<longrightarrow> b_blockno (bufs s i) = n)"

definition same_view :: "'a bio_st_scheme \<Rightarrow> 'a bio_st_scheme \<Rightarrow> bool" where
  "same_view s t \<longleftrightarrow> kept s t \<and> blk t = blk s \<and> memdisk t = memdisk s \<and> disk_trace t = disk_trace s \<and> pinned t = pinned s"

lemma same_viewD:
  assumes "same_view s t"
  shows "kept s t" "blk t = blk s" "memdisk t = memdisk s" "disk_trace t = disk_trace s" "pinned t = pinned s" "disksize t = disksize s"
  using assms kept_fields(3) [of s t] by (simp_all add: same_view_def)

lemma held_buf:
  assumes "bio_view p h s" "h i = Some n"
  shows "i < NBUF" "b_blockno (bufs s i) = n" "holds n (bufs s i)" "b_data (bufs s i) = blk s n"
    "buf_ok (p_pid (procs s ! p)) (memdisk s) (disksize s) True (bufs s i)" "n < disksize s"
proof -
  have inv: "bio_inv p (dom h) s" and *: "b_blockno (bufs s i) = n" "i \<in> dom h"
    using assms by (auto simp: bio_view_def)
  note D = bio_invD [OF inv]
  show i: "i < 30" and "b_blockno (bufs s i) = n"
    using D(7) * by auto
  show ok: "buf_ok (p_pid (procs s ! p)) (memdisk s) (disksize s) True (bufs s i)"
    using D(6) [OF i] *(2) by simp
  then show holds: "holds n (bufs s i)" and "n < disksize s"
    using * by (auto simp: holds_def buf_ok_def)
  show "b_data (bufs s i) = blk s n"
    using blk_cached [OF inv i holds] by simp
qed

lemma free_buf:
  assumes "bio_view p h s" "i < NBUF" "h i = None"
  shows "buf_ok (p_pid (procs s ! p)) (memdisk s) (disksize s) False (bufs s i)"
  using assms bio_invD(6) [of p "dom h" s i] by (auto simp: bio_view_def domIff)

lemma dirty_holds: "bio_view p h s \<Longrightarrow> i < NBUF \<Longrightarrow> dirty_b (bufs s i) \<Longrightarrow> holds (b_blockno (bufs s i)) (bufs s i)"
  using bio_invD(6) [of p "dom h" s i] by (auto simp: bio_view_def buf_ok_def holds_def)

lemma view_unique:
  "bio_view p h s \<Longrightarrow> i < NBUF \<Longrightarrow> j < NBUF \<Longrightarrow> b_dev (bufs s i) = 1 \<Longrightarrow> b_dev (bufs s j) = 1 \<Longrightarrow>
   b_blockno (bufs s i) = b_blockno (bufs s j) \<Longrightarrow> i = j"
  unfolding bio_view_def using bio_inv_unique by blast

lemma pinned_iff:
  assumes "bio_view p h s" "i < NBUF" "holds n (bufs s i)"
  shows "n \<in> pinned s \<longleftrightarrow> dirty_b (bufs s i)"
proof
  assume "n \<in> pinned s"
  then obtain j where j: "j < 30" "dirty_b (bufs s j)" "n = b_blockno (bufs s j)"
    by (auto simp: pinned_def)
  then have "j = i"
    using assms dirty_holds [OF assms(1) j(1,2)] by (intro view_unique [OF assms(1)]) (auto simp: holds_def)
  with j show "dirty_b (bufs s i)" by simp
qed (use assms in \<open>auto simp: pinned_def holds_def\<close>)

text \<open>A block that is neither pinned nor held reads as on disk.\<close>

lemma blk_clean:
  assumes view: "bio_view p h s" and n: "n \<notin> pinned s" "n \<notin> ran h"
  shows "blk s n = memdisk s n"
proof (cases "\<exists>i < 30. holds n (bufs s i)")
  case True
  then obtain i where i: "i < 30" "holds n (bufs s i)" by blast
  have "h i = None"
    using i n(2) view by (cases "h i") (auto simp: bio_view_def holds_def ran_def)
  then have ok: "buf_ok (p_pid (procs s ! p)) (memdisk s) (disksize s) False (bufs s i)"
    by (rule free_buf [OF view i(1)])
  have "\<not> dirty_b (bufs s i)"
    using pinned_iff [OF view i] n(1) by simp
  then show ?thesis
    using ok i blk_cached [of p "dom h" s i n] view by (auto simp: buf_ok_def holds_def bio_view_def)
qed (use blk_disk in blast)

lemma blk_length: "bio_view p h s \<Longrightarrow> length (blk s n) = BSIZE"
proof -
  assume view: "bio_view p h s"
  then have inv: "bio_inv p (dom h) s"
    by (simp add: bio_view_def)
  show ?thesis
  proof (cases "\<exists>i < 30. holds n (bufs s i)")
    case True
    then obtain i where i: "i < 30" "holds n (bufs s i)" by blast
    then show ?thesis
      using blk_cached [OF inv i] bio_invD(6) [OF inv i(1)] by (simp add: buf_ok_def holds_def)
  qed (use blk_disk [of n s] bio_invD(8) [OF inv] in auto)
qed

text \<open>There is a buffer to recycle as long as held and pinned buffers do not fill the cache.\<close>

lemma room:
  assumes view: "bio_view p h s" and count: "card (dom h) + card (pinned s) < NBUF"
  shows "\<exists>i < NBUF. h i = None \<and> \<not> dirty_b (bufs s i)"
proof (rule ccontr)
  assume none: "\<not> ?thesis"
  let ?d = "{i. i < 30 \<and> dirty_b (bufs s i)}"
  have "inj_on (\<lambda>i. b_blockno (bufs s i)) ?d"
    using dirty_holds [OF view] view_unique [OF view] by (intro inj_onI) (auto simp: holds_def)
  moreover have "pinned s = (\<lambda>i. b_blockno (bufs s i)) ` ?d"
    by (auto simp: pinned_def)
  ultimately have "card (pinned s) = card ?d"
    by (simp add: card_image)
  moreover have "{0..<30} \<subseteq> dom h \<union> ?d"
    using none by (auto simp: dom_def)
  then have "card {0..<30::nat} \<le> card (dom h \<union> ?d)"
    using finite_subset [of "dom h" "{0..<30}"] view by (intro card_mono) (auto simp: bio_view_def bio_inv_def)
  moreover have "card (dom h \<union> ?d) \<le> card (dom h) + card ?d"
    by (rule card_Un_le)
  ultimately show False
    using count by simp
qed

section \<open>Reading a block\<close>

lemma holding_buf:
  assumes "running p s" "lock_free (sl_lk (b_lock (bufs s i)))" "sl_locked (b_lock (bufs s i)) \<noteq> 0"
    "sl_pid (b_lock (bufs s i)) = p_pid (procs s ! p)"
  shows "holdingsleep (get_buflock i) (put_buflock i) s = Inr (True, s)"
  using assms bl.holdingsleep_ok [of p s i] by (simp add: get_buflock_def)

lemma iderw_read:
  assumes "running p s" "lock_free (sl_lk (b_lock (bufs s i)))" "sl_locked (b_lock (bufs s i)) \<noteq> 0"
    "sl_pid (b_lock (bufs s i)) = p_pid (procs s ! p)"
    and "\<not> valid_b (bufs s i)" "\<not> dirty_b (bufs s i)" "b_dev (bufs s i) = 1" "b_blockno (bufs s i) < disksize s"
  shows "iderw i s = Inr (upd_buf i (\<lambda>x. x\<lparr>b_data := memdisk s (b_blockno x), b_flags := b_flags x OR B_VALID\<rparr>) s)"
  using assms(5-) unfolding iderw_def holding_buf [OF assms(1-4)]
  by (simp add: flag_bits flag_6 valid_b_def dirty_b_def) (simp add: upd_buf_def)

lemma iderw_write:
  assumes "running p s" "lock_free (sl_lk (b_lock (bufs s i)))" "sl_locked (b_lock (bufs s i)) \<noteq> 0"
    "sl_pid (b_lock (bufs s i)) = p_pid (procs s ! p)"
    and "dirty_b (bufs s i)" "b_dev (bufs s i) = 1" "b_blockno (bufs s i) < disksize s"
  shows "iderw i s = Inr ((upd_buf i (\<lambda>x. x\<lparr>b_flags := (b_flags x AND NOT B_DIRTY) OR B_VALID\<rparr>) s)
    \<lparr>memdisk := (memdisk s)(b_blockno (bufs s i) := b_data (bufs s i)),
     disk_trace := disk_trace s @ [(b_blockno (bufs s i), b_data (bufs s i))]\<rparr>)"
  using assms(5-) unfolding iderw_def holding_buf [OF assms(1-4)]
  by (simp add: flag_bits flag_6 valid_b_def dirty_b_def) (simp add: upd_buf_def Let_def not_le)

text \<open>
  Taking a buffer \<open>i\<close> that nobody holds for block \<open>n\<close>: whatever the change \<open>f\<close> of the buffer is, if the
  buffer ends up held with the current contents of \<open>n\<close>, the client sees no change but the new buffer.
\<close>

lemma grab_view:
  assumes view: "bio_view p h s" and i: "i < NBUF" "h i = None"
    and links: "\<And>b. b_next (f b) = b_next b \<and> b_prev (f b) = b_prev b"
    and ok: "buf_ok (p_pid (procs s ! p)) (memdisk s) (disksize s) True (f (bufs s i))"
    and n: "b_blockno (f (bufs s i)) = n" "b_data (f (bufs s i)) = blk s n"
    and other: "\<And>j. j < NBUF \<Longrightarrow> j \<noteq> i \<Longrightarrow> b_dev (bufs s j) = 1 \<Longrightarrow> b_blockno (bufs s j) \<noteq> n"
    and old: "if b_dev (bufs s i) = 1 \<and> b_blockno (bufs s i) = n then dirty_b (f (bufs s i)) = dirty_b (bufs s i)
      else \<not> dirty_b (bufs s i) \<and> \<not> dirty_b (f (bufs s i))"
  shows "bio_view p (h(i \<mapsto> n)) (upd_buf i f s)" "same_view s (upd_buf i f s)"
proof -
  let ?t = "upd_buf i f s"
  have inv: "bio_inv p (dom h) s"
    using view by (simp add: bio_view_def)
  have "bio_inv p (if True then insert i (dom h) else dom h - {i}) ?t"
    using inv i(1) links ok by (rule bio_inv_upd_buf) (use other n in auto)
  then have inv': "bio_inv p (insert i (dom h)) ?t" by simp
  then show view': "bio_view p (h(i \<mapsto> n)) ?t"
    using view n i(2) by (auto simp: bio_view_def)
  have new: "holds n (bufs ?t i)"
    using ok n by (simp add: holds_def buf_ok_def)
  have blk: "blk ?t m = blk s m" for m
  proof (cases "m = n")
    case True
    then show ?thesis
      using blk_cached [OF inv' i(1) new] n by simp
  next
    case False
    show ?thesis
    proof (cases "holds m (bufs s i)")
      case True
      then have "\<not> dirty_b (bufs s i)"
        using old False by (auto simp: holds_def)
      then have "blk s m = memdisk s m"
        using blk_cached [OF inv i(1) True] free_buf [OF view i] True by (auto simp: buf_ok_def holds_def)
      moreover have "blk ?t m = memdisk ?t m"
      proof (rule blk_disk)
        fix j :: nat assume "j < 30"
        show "\<not> holds m (bufs ?t j)"
        proof (cases "j = i")
          case False
          then have "\<not> holds m (bufs s j)"
            using True view_unique [OF view \<open>j < 30\<close> i(1)] unfolding holds_def by metis
          with False show ?thesis by simp
        qed (use \<open>m \<noteq> n\<close> n(1) in \<open>simp add: holds_def\<close>)
      qed
      ultimately show ?thesis by simp
    qed (rule blk_cong; use False n(1) in \<open>auto simp: holds_def\<close>)
  qed
  have "pinned ?t = pinned s"
  proof (rule set_eqI)
    fix m
    have "m \<in> pinned u \<longleftrightarrow> (dirty_b (bufs u i) \<and> b_blockno (bufs u i) = m) \<or> (\<exists>j < 30. j \<noteq> i \<and> dirty_b (bufs u j) \<and> b_blockno (bufs u j) = m)"
      for u :: "'a bio_st_scheme"
      using i(1) by (auto simp: pinned_def)
    moreover have "(dirty_b (f (bufs s i)) \<and> b_blockno (f (bufs s i)) = m) = (dirty_b (bufs s i) \<and> b_blockno (bufs s i) = m)"
      using old n(1) by (auto split: if_splits)
    ultimately show "m \<in> pinned ?t \<longleftrightarrow> m \<in> pinned s"
      by (simp; blast)
  qed
  then show "same_view s ?t"
    using blk by (auto simp: same_view_def)
qed

lemma bread_cached:
  assumes view: "bio_view p h s" and i: "i < NBUF" "h i = None" "b_dev (bufs s i) = 1" "b_blockno (bufs s i) = n"
    and n: "n < disksize s"
  shows "\<exists>t. bread 1 n s = Inr (i, t) \<and> bio_view p (h(i \<mapsto> n)) t \<and> same_view s t"
proof -
  let ?pid = "p_pid (procs s ! p)"
  have inv: "bio_inv p (dom h) s"
    using view by (simp add: bio_view_def)
  note D = bio_invD [OF inv]
  note ok = free_buf [OF view i(1,2)]
  have get: "bget 1 n s = Inr (i, upd_buf i (grabbed ?pid) s)"
    using inv i by (intro bget_hit) auto
  have other: "b_blockno (bufs s j) \<noteq> n" if "j < 30" "j \<noteq> i" "b_dev (bufs s j) = 1" for j
    using view_unique [OF view that(1) i(1) that(3) i(3)] that(2) i(4) by metis
  show ?thesis
  proof (cases "valid_b (bufs s i)")
    case True
    have "bread 1 n s = Inr (i, upd_buf i (grabbed ?pid) s)"
      using True by (simp add: bread_def get grabbed_def flag_bits valid_b_def)
    moreover have "b_data (bufs s i) = blk s n"
      using blk_cached [OF inv i(1)] True i by (simp add: holds_def)
    ultimately show ?thesis
      using grab_view [OF view i(1,2), of "grabbed ?pid" n] ok True i other
      by (auto simp: grabbed_def buf_ok_def valid_b_def dirty_b_def)
  next
    case False
    let ?f = "\<lambda>x. (grabbed ?pid x)\<lparr>b_data := memdisk s (b_blockno x), b_flags := b_flags x OR 2\<rparr>"
    have "iderw i (upd_buf i (grabbed ?pid) s) = Inr (upd_buf i ?f s)"
      using False ok i n D(2) by (subst iderw_read) (auto simp: grabbed_def buf_ok_def valid_b_def dirty_b_def)
    then have "bread 1 n s = Inr (i, upd_buf i ?f s)"
      using False by (simp add: bread_def get grabbed_def flag_bits valid_b_def)
    moreover have "blk s n = memdisk s n"
    proof (rule blk_disk)
      fix j :: nat assume "j < 30"
      then show "\<not> holds n (bufs s j)"
        using other [of j] False by (cases "j = i") (auto simp: holds_def)
    qed
    ultimately show ?thesis
      using grab_view [OF view i(1,2), of ?f n] ok False i n other D(8)
      by (auto simp: grabbed_def buf_ok_def valid_b_def dirty_b_def)
  qed
qed

lemma bread_recycled:
  assumes view: "bio_view p h s" and n: "n < disksize s"
    and miss: "\<And>i. i < NBUF \<Longrightarrow> b_dev (bufs s i) = 1 \<Longrightarrow> b_blockno (bufs s i) \<noteq> n"
    and count: "card (dom h) + card (pinned s) < NBUF"
  shows "\<exists>i t. bread 1 n s = Inr (i, t) \<and> h i = None \<and> bio_view p (h(i \<mapsto> n)) t \<and> same_view s t"
proof -
  let ?pid = "p_pid (procs s ! p)"
  have inv: "bio_inv p (dom h) s"
    using view by (simp add: bio_view_def)
  note D = bio_invD [OF inv]
  obtain i0 where i0: "i0 < 30" "h i0 = None" "\<not> dirty_b (bufs s i0)"
    using room [OF view count] by blast
  obtain i where i: "i < 30" "h i = None" "\<not> dirty_b (bufs s i)"
    and get: "bget 1 n s = Inr (i, upd_buf i (\<lambda>b. grabbed ?pid (recycled n b)) s)"
    using bget_miss [OF inv, of n i0] miss i0 by (auto simp: domIff)
  note ok = free_buf [OF view i(1,2)]
  let ?f = "\<lambda>x. (grabbed ?pid (recycled n x))\<lparr>b_data := memdisk s n, b_flags := 2\<rparr>"
  have "iderw i (upd_buf i (\<lambda>b. grabbed ?pid (recycled n b)) s) = Inr (upd_buf i ?f s)"
    using ok n D(2) by (subst iderw_read) (auto simp: grabbed_def recycled_def buf_ok_def valid_b_def dirty_b_def)
  then have "bread 1 n s = Inr (i, upd_buf i ?f s)"
    by (simp add: bread_def get grabbed_def recycled_def)
  moreover have "blk s n = memdisk s n"
    using miss by (intro blk_disk) (auto simp: holds_def)
  ultimately show ?thesis
    using grab_view [OF view i(1,2), of ?f n] ok i miss n D(8)
    by (auto simp: grabbed_def recycled_def buf_ok_def valid_b_def dirty_b_def bit_simps)
qed

lemma bread_ok:
  assumes view: "bio_view p h s" and n: "n < disksize s" "n \<notin> ran h"
    and count: "n \<in> pinned s \<or> card (dom h) + card (pinned s) < NBUF"
  shows "\<exists>i t. bread 1 n s = Inr (i, t) \<and> h i = None \<and> bio_view p (h(i \<mapsto> n)) t \<and> same_view s t"
proof (cases "\<exists>i < 30. b_dev (bufs s i) = 1 \<and> b_blockno (bufs s i) = n")
  case True
  then obtain i where i: "i < 30" "b_dev (bufs s i) = 1" "b_blockno (bufs s i) = n" by blast
  moreover have "h i = None"
    using view i(3) n(2) by (cases "h i") (auto simp: bio_view_def ran_def)
  ultimately show ?thesis
    using bread_cached [OF view, of i n] n(1) by blast
next
  case False
  moreover have "n \<notin> pinned s"
    using False dirty_holds [OF view] by (auto simp: pinned_def holds_def)
  ultimately show ?thesis
    using bread_recycled [OF view n(1)] count by blast
qed

section \<open>Changing a held buffer\<close>

lemma held_upd:
  fixes s :: "'a bio_st_scheme" and tr :: "(u32 \<times> u8 list) list"
  assumes view: "bio_view p h s" and i: "h i = Some n"
    and links: "\<And>b. b_next (f b) = b_next b \<and> b_prev (f b) = b_prev b"
    and ok: "buf_ok (p_pid (procs s ! p)) md (disksize s) True (f (bufs s i))"
    and n: "b_blockno (f (bufs s i)) = n"
    and md: "\<And>m. m \<noteq> n \<Longrightarrow> md m = memdisk s m" "length (md n) = BSIZE"
  defines "t \<equiv> (upd_buf i f s)\<lparr>memdisk := md, disk_trace := tr\<rparr>"
  shows "bio_view p h t" "blk t = (blk s)(n := b_data (f (bufs s i)))"
    "pinned t = (if dirty_b (f (bufs s i)) then insert n (pinned s) else pinned s - {n})" "kept s t"
proof -
  have inv: "bio_inv p (dom h) s"
    using view by (simp add: bio_view_def)
  note D = bio_invD [OF inv] and B = held_buf [OF view i]
  have B': "bufs t = (bufs s)(i := f (bufs s i))" "memdisk t = md"
    by (simp_all add: t_def)
  have other: "b_blockno (bufs s j) \<noteq> n" if "j < 30" "j \<noteq> i" "b_dev (bufs s j) = 1" for j
    using view_unique [OF view that(1) B(1) that(3)] that(2) B(2,3) unfolding holds_def by metis
  have "bio_inv p (if True then insert i (dom h) else dom h - {i}) t"
    unfolding t_def by (rule bio_inv_upd [OF inv B(1) links ok]) (use other n md D(8) in \<open>auto, metis\<close>)
  then have inv': "bio_inv p (dom h) t"
    using i by (simp add: insert_absorb domI)
  then show "bio_view p h t"
    using view n i by (auto simp: bio_view_def B')
  have new: "holds n (bufs t i)"
    using ok n by (simp add: holds_def buf_ok_def B')
  show "blk t = (blk s)(n := b_data (f (bufs s i)))"
  proof
    fix m
    show "blk t m = ((blk s)(n := b_data (f (bufs s i)))) m"
    proof (cases "m = n")
      case True
      then show ?thesis using blk_cached [OF inv' B(1) new] by (simp add: B')
    next
      case False
      then have "blk t m = blk s m"
        using n B(2) md(1) by (intro blk_cong) (auto simp: holds_def B')
      with False show ?thesis by simp
    qed
  qed
  show "kept s t"
    unfolding t_def using kept_trans [OF kept_upd_buf kept_disk] .
  have "m \<in> pinned t \<longleftrightarrow> (m = n \<and> dirty_b (f (bufs s i))) \<or> (m \<noteq> n \<and> m \<in> pinned s)" for m
  proof -
    have "m \<in> pinned u \<longleftrightarrow> (dirty_b (bufs u i) \<and> b_blockno (bufs u i) = m) \<or> (\<exists>j < 30. j \<noteq> i \<and> dirty_b (bufs u j) \<and> b_blockno (bufs u j) = m)"
      for u :: "'a bio_st_scheme"
      using B(1) by (auto simp: pinned_def)
    moreover have "b_blockno (bufs s j) \<noteq> n" if "j < 30" "j \<noteq> i" "dirty_b (bufs s j)" for j
      using other [OF that(1,2)] dirty_holds [OF view that(1,3)] by (simp add: holds_def)
    ultimately show ?thesis
      using n B(2) by (auto simp: B')
  qed
  then show "pinned t = (if dirty_b (f (bufs s i)) then insert n (pinned s) else pinned s - {n})"
    by auto
qed

lemma held_upd_buf:
  assumes "bio_view p h s" "h i = Some n" "\<And>b. b_next (f b) = b_next b \<and> b_prev (f b) = b_prev b"
    "buf_ok (p_pid (procs s ! p)) (memdisk s) (disksize s) True (f (bufs s i))" "b_blockno (f (bufs s i)) = n"
  shows "bio_view p h (upd_buf i f s)" "blk (upd_buf i f s) = (blk s)(n := b_data (f (bufs s i)))"
    "pinned (upd_buf i f s) = (if dirty_b (f (bufs s i)) then insert n (pinned s) else pinned s - {n})"
proof -
  have *: "(upd_buf i f s)\<lparr>memdisk := memdisk s, disk_trace := disk_trace s\<rparr> = upd_buf i f s"
    by (simp add: upd_buf_def)
  have len: "length (memdisk s n) = 512"
    using assms(1) bio_invD(8) by (auto simp: bio_view_def)
  show "bio_view p h (upd_buf i f s)" "blk (upd_buf i f s) = (blk s)(n := b_data (f (bufs s i)))"
    "pinned (upd_buf i f s) = (if dirty_b (f (bufs s i)) then insert n (pinned s) else pinned s - {n})"
    using held_upd(1-3) [where md = "memdisk s" and tr = "disk_trace s", OF assms refl len] unfolding * .
qed

text \<open>Storing new bytes in a held buffer, pinning it, and writing it to disk.\<close>

lemma set_data_ok:
  assumes "bio_view p h s" "h i = Some n" "length d = BSIZE"
  shows "bio_view p h (set_data i d s)" "blk (set_data i d s) = (blk s)(n := d)" "pinned (set_data i d s) = pinned s"
    "memdisk (set_data i d s) = memdisk s" "disk_trace (set_data i d s) = disk_trace s" "kept s (set_data i d s)"
proof -
  note B = held_buf [OF assms(1,2)]
  have ok: "buf_ok (p_pid (procs s ! p)) (memdisk s) (disksize s) True ((bufs s i)\<lparr>b_data := d\<rparr>)"
    using B(5) assms(3) by (auto simp: buf_ok_def valid_b_def dirty_b_def)
  note U = held_upd_buf [OF assms(1,2), of "\<lambda>b. b\<lparr>b_data := d\<rparr>", OF _ ok]
  show "bio_view p h (set_data i d s)" "blk (set_data i d s) = (blk s)(n := d)"
    using U(1,2) B(2) by (simp_all add: set_data_def)
  show "pinned (set_data i d s) = pinned s"
    using U(3) B(2) pinned_iff [OF assms(1) B(1,3)] by (auto simp: set_data_def dirty_b_def split: if_splits)
qed (simp_all add: set_data_def)

lemma mark_dirty_ok:
  assumes "bio_view p h s" "h i = Some n"
  defines "t \<equiv> upd_buf i (\<lambda>x. x\<lparr>b_flags := b_flags x OR B_DIRTY\<rparr>) s"
  shows "bio_view p h t" "blk t = blk s" "pinned t = insert n (pinned s)" "memdisk t = memdisk s"
    "disk_trace t = disk_trace s" "kept s t"
proof -
  note B = held_buf [OF assms(1,2)]
  have ok: "buf_ok (p_pid (procs s ! p)) (memdisk s) (disksize s) True ((bufs s i)\<lparr>b_flags := b_flags (bufs s i) OR 4\<rparr>)"
    using B(5) by (auto simp: buf_ok_def valid_b_def dirty_b_def)
  note U = held_upd_buf [OF assms(1,2), of "\<lambda>x. x\<lparr>b_flags := b_flags x OR 4\<rparr>", OF _ ok]
  show "bio_view p h t" "blk t = blk s" "pinned t = insert n (pinned s)"
    using U B(2,4) by (auto simp: t_def dirty_b_def)
qed (simp_all add: t_def)

lemma bwrite_ok:
  assumes view: "bio_view p h s" and i: "h i = Some n"
  shows "\<exists>t. bwrite i s = Inr t \<and> bio_view p h t \<and> kept s t \<and> blk t = blk s \<and> memdisk t = (memdisk s)(n := blk s n) \<and>
    disk_trace t = disk_trace s @ [(n, blk s n)] \<and> pinned t = pinned s - {n}"
proof -
  note B = held_buf [OF view i]
  have run: "running p s"
    using view bio_invD(2) by (auto simp: bio_view_def)
  let ?md = "(memdisk s)(n := blk s n)" and ?tr = "disk_trace s @ [(n, blk s n)]"
  let ?f = "\<lambda>x. x\<lparr>b_flags := ((b_flags x OR 4) AND NOT 4) OR 2\<rparr>"
  let ?t = "(upd_buf i ?f s)\<lparr>memdisk := ?md, disk_trace := ?tr\<rparr>"
  have "bwrite i s = iderw i (upd_buf i (\<lambda>x. x\<lparr>b_flags := b_flags x OR 4\<rparr>) s)"
    unfolding bwrite_def using B(5) run by (subst holding_buf [of p]) (auto simp: buf_ok_def)
  also have "\<dots> = Inr ?t"
    using B run by (subst iderw_write [of p]) (auto simp: buf_ok_def dirty_b_def holds_def)
  finally have w: "bwrite i s = Inr ?t" .
  have len: "length (?md n) = 512"
    using blk_length [OF view] by simp
  have ok: "buf_ok (p_pid (procs s ! p)) ?md (disksize s) True (?f (bufs s i))"
    using B(5) by (auto simp: buf_ok_def valid_b_def dirty_b_def)
  note U = held_upd [OF view i, of ?f ?md ?tr, OF _ ok _ _ len]
  have "blk ?t = blk s"
    using U(2) B(2,4) by auto
  then show ?thesis
    using w U(1,3,4) B(2) by (auto simp: dirty_b_def)
qed

section \<open>Releasing a buffer\<close>

lemma buf_ok_payload: "payload a = payload b \<Longrightarrow> buf_ok pid md sz h a = buf_ok pid md sz h b"
  by (simp add: payload_def buf_ok_def valid_b_def dirty_b_def)

lemma holds_payload: "payload a = payload b \<Longrightarrow> holds n a = holds n b \<and> dirty_b a = dirty_b b \<and> b_data a = b_data b \<and>
    b_blockno a = b_blockno b \<and> b_dev a = b_dev b"
  by (simp add: payload_def holds_def valid_b_def dirty_b_def)

text \<open>Reordering the list, and waking processes, changes nothing a client sees.\<close>

lemma reorder_view:
  assumes view: "bio_view p h s" and k: "kept s t" and load: "\<And>i. payload (bufs t i) = payload (bufs s i)"
    and order: "\<exists>xs. bc_order (bufs t) xs" and lock: "bc_lock (bcache t) = bc_lock (bcache s)"
    and md: "memdisk t = memdisk s" "disk_trace t = disk_trace s"
  shows "bio_view p h t" "same_view s t"
proof -
  have inv: "bio_inv p (dom h) s"
    using view by (simp add: bio_view_def)
  note D = bio_invD [OF inv] and L = holds_payload [OF load]
  have pid: "p_pid (procs t ! p) = p_pid (procs s ! p)"
    using D(2) by (intro kept_proc [OF k]) (simp add: running_def)
  have "bio_inv p (dom h) t"
  proof (rule bio_invI)
    show "sleep_ready p t"
      using kept_ready [OF k D(1)] .
    show "lock_free (bc_lock (bcache t))" "dom h \<subseteq> {0..<30}" "\<And>n. length (memdisk t n) = 512"
      using D inv by (simp_all add: lock md bio_inv_def)
    show "buf_ok (p_pid (procs t ! p)) (memdisk t) (disksize t) (i \<in> dom h) (bufs t i)" if "i < 30" for i
      using D(6) [OF that] by (simp add: pid md kept_fields(3) [OF k] buf_ok_payload [OF load])
    show "i = j" if "i < 30" "j < 30" "b_dev (bufs t i) = 1" "b_dev (bufs t j) = 1" "b_blockno (bufs t i) = b_blockno (bufs t j)" for i j
      using that L by (intro bio_inv_unique [OF inv]) auto
  qed (rule order)
  then show "bio_view p h t"
    using view L by (auto simp: bio_view_def)
  have "blk t n = blk s n" for n
    by (rule blk_cong) (use L md in auto)
  moreover have "pinned t = pinned s"
    using L by (simp add: pinned_def)
  ultimately show "same_view s t"
    using k md by (auto simp: same_view_def)
qed

definition set_bufs :: "(nat \<Rightarrow> buf) \<Rightarrow> 'a bio_st_scheme \<Rightarrow> 'a bio_st_scheme" where
  "set_bufs B s = s\<lparr>bcache := (bcache s)\<lparr>bc_buf := B\<rparr>\<rparr>"

lemma set_bufs_simps:
  "upd_buf i f s = set_bufs ((bufs s)(i := f (bufs s i))) s" "set_bufs B (set_bufs C s) = set_bufs B s" "bufs (set_bufs B s) = B"
  by (simp_all add: upd_buf_def set_bufs_def)

lemma relink: "link_head i (unlink_buf i s) = set_bufs (at_front i (unlinked i (bufs s))) s"
  unfolding link_head_def unlink_buf_def at_front_def unlinked_def Let_def by (simp only: set_bufs_simps)

lemma kept_set_bufs [simp]: "kept s (set_bufs B s)"
  by (simp add: kept_def shell_def set_bufs_def)

lemma set_bufs_fields [simp]: "bc_lock (bcache (set_bufs B s)) = bc_lock (bcache s)" "bufs (set_bufs B s) = B"
  "memdisk (set_bufs B s) = memdisk s" "disk_trace (set_bufs B s) = disk_trace s"
  by (simp_all add: set_bufs_def)

lemma framed_relink: "bcl.framed (\<lambda>s. link_head i (unlink_buf i s))"
  unfolding relink by (simp add: bcl.framed_def put_bclock_def set_bufs_def)

lemma wakeup1_bio [simp]: "bcache (wakeup1 ch s) = bcache s" "memdisk (wakeup1 ch s) = memdisk s" "disk_trace (wakeup1 ch s) = disk_trace s"
  by (simp_all add: wakeup1_def upd_procs_def)

lemma wakeup1_upd_buf: "upd_buf i f (wakeup1 ch s) = wakeup1 ch (upd_buf i f s)"
  by (simp add: wakeup1_def upd_procs_def upd_buf_def)

text \<open>Unlocking a held buffer whose bytes are on disk or pinned, and dropping its reference.\<close>

lemma drop_view:
  assumes view: "bio_view p h s" and i: "h i = Some n" and clean: "n \<in> pinned s \<or> blk s n = memdisk s n"
  defines "t \<equiv> upd_buf i (\<lambda>b. b\<lparr>b_lock := (b_lock b)\<lparr>sl_locked := 0, sl_pid := 0\<rparr>, b_refcnt := b_refcnt b - 1\<rparr>) s"
  shows "bio_view p (h(i := None)) t" "same_view s t"
proof -
  have inv: "bio_inv p (dom h) s"
    using view by (simp add: bio_view_def)
  note B = held_buf [OF view i]
  let ?f = "\<lambda>b. b\<lparr>b_lock := (b_lock b)\<lparr>sl_locked := 0, sl_pid := 0\<rparr>, b_refcnt := b_refcnt b - 1\<rparr>"
  have ok: "buf_ok (p_pid (procs s ! p)) (memdisk s) (disksize s) False (?f (bufs s i))"
    using B(5) B(2,4) clean pinned_iff [OF view B(1,3)] by (auto simp: buf_ok_def valid_b_def dirty_b_def)
  have other: "b_blockno (bufs s j) \<noteq> n" if "j < 30" "j \<noteq> i" "b_dev (bufs s j) = 1" for j
    using view_unique [OF view that(1) B(1) that(3)] that(2) B(2,3) unfolding holds_def by metis
  have "bio_inv p (if False then insert i (dom h) else dom h - {i}) t"
    unfolding t_def by (rule bio_inv_upd_buf [where f = ?f and h = False, OF inv B(1) _ ok]) (use other B(2) in auto)
  then show "bio_view p (h(i := None)) t"
    using view by (auto simp: bio_view_def t_def)
  have L: "holds m (bufs t j) = holds m (bufs s j) \<and> dirty_b (bufs t j) = dirty_b (bufs s j) \<and> b_data (bufs t j) = b_data (bufs s j) \<and>
      b_blockno (bufs t j) = b_blockno (bufs s j)" for j m
    by (simp add: t_def holds_def dirty_b_def valid_b_def)
  have "blk t m = blk s m" for m
    by (rule blk_cong) (use L in \<open>auto simp: t_def\<close>)
  moreover have "pinned t = pinned s"
    using L by (simp add: pinned_def)
  ultimately show "same_view s t"
    by (auto simp: same_view_def t_def)
qed

lemma same_view_trans: "same_view s t \<Longrightarrow> same_view t u \<Longrightarrow> same_view s u"
  using kept_trans by (auto simp: same_view_def)

lemma brelse_ok:
  assumes view: "bio_view p h s" and i: "h i = Some n" and clean: "n \<in> pinned s \<or> blk s n = memdisk s n"
  shows "\<exists>t. brelse i s = Inr t \<and> bio_view p (h(i := None)) t \<and> same_view s t"
proof -
  note B = held_buf [OF view i]
  have inv: "bio_inv p (dom h) s"
    using view by (simp add: bio_view_def)
  note D = bio_invD [OF inv]
  let ?unlock = "\<lambda>b. b\<lparr>b_lock := (b_lock b)\<lparr>sl_locked := 0, sl_pid := 0\<rparr>\<rparr>"
  let ?drop = "\<lambda>b. b\<lparr>b_refcnt := b_refcnt b - 1\<rparr>"
  let ?w = "wakeup1 (Ch_buflock i) (upd_buf i ?unlock s)"
  let ?u = "upd_buf i (\<lambda>b. ?drop (?unlock b)) s"
  let ?t = "link_head i (unlink_buf i (upd_buf i ?drop ?w))"
  have rel: "releasesleep (Ch_buflock i) (get_buflock i) (put_buflock i) s = Inr ?w"
    using bl.releasesleep_ok [OF D(1), of i "Ch_buflock i"] B(5)
    by (simp add: buf_ok_def get_buflock_def put_buflock_def upd_buf_def)
  have w: "cpu_ok ?w" "lock_free (bc_lock (bcache ?w))"
    using D(3,4) by simp_all
  have one: "b_refcnt (bufs s i) = 1"
    using B(5) by (simp add: buf_ok_def)
  have "bcl.framed (\<lambda>s. link_head i (unlink_buf i (upd_buf i ?drop s)))"
    by (rule bcl.framed_comp [OF framed_relink framed_upd_buf])
  then have "release_bcache (link_head i (unlink_buf i (upd_buf i ?drop (bcl.opened ?w)))) = Inr ?t"
    by (rule release_bcache_ok [OF w])
  then have "brelse i s = Inr ?t"
    unfolding brelse_def using B(5) D(2) one
    by (subst holding_buf [of p]) (auto simp: buf_ok_def rel bcl.acquire_at_ok [OF w])
  moreover have u: "bio_view p (h(i := None)) ?u" "same_view s ?u"
    using drop_view [OF view i clean] by simp_all
  have bufs_t: "bufs ?t = at_front i (unlinked i (bufs ?u))"
    by (simp add: relink)
  have k: "kept ?u ?t"
    unfolding relink wakeup1_upd_buf upd_buf_simps by (rule kept_trans [OF kept_wakeup1 kept_set_bufs])
  obtain xs where "bc_order (bufs ?u) xs"
    using u(1) bio_invD(5) unfolding bio_view_def by blast
  then have order: "\<exists>xs. bc_order (bufs ?t) xs"
    unfolding bufs_t using bc_order_front B(1) by blast
  have load: "payload (bufs ?t j) = payload (bufs ?u j)" for j
    unfolding bufs_t by (rule front_payload)
  note R = reorder_view [OF u(1) k load order]
  ultimately show ?thesis
    using R same_view_trans [OF u(2)] by (auto simp: relink)
qed

end
