(* ===== verification/Log_Ops.thy ===== *)
theory Log_Ops
  imports Bio_Ops
begin

text \<open>
  The routines of the redo log in terms of the contract of the buffer cache: what each writes to the disk, in order,
  and what it leaves in the cache.
\<close>

section \<open>Frame\<close>

lemma upd_log_simps [simp]:
  "ptable (upd_log f s) = ptable s" "bcache (upd_log f s) = bcache s" "memdisk (upd_log f s) = memdisk s"
  "disksize (upd_log f s) = disksize s" "disk_trace (upd_log f s) = disk_trace s" "log (upd_log f s) = f (log s)"
  "cpus (upd_log f s) = cpus s" "lapic_id (upd_log f s) = lapic_id s" "eflags_if (upd_log f s) = eflags_if s"
  by (simp_all add: upd_log_def)

lemma running_upd_log [simp]: "running p (upd_log f s) = running p s" "sleep_ready p (upd_log f s) = sleep_ready p s"
proof -
  have "same_cpu (upd_log f s) s"
    by (simp add: same_cpu_def)
  then show "running p (upd_log f s) = running p s" "sleep_ready p (upd_log f s) = sleep_ready p s"
    using same_cpu_cpu_ok [of "upd_log f s" s] by (auto simp: sleep_ready_def running_def this_cpu_def)
qed

lemma view_upd_log [simp]:
  "bio_view p h (upd_log f s) = bio_view p h s" "blk (upd_log f s) = blk s" "pinned (upd_log f s) = pinned s"
  by (simp_all add: bio_view_def bio_inv_def blk_def fun_eq_iff pinned_def split: option.split)

lemma shell_upd_log: "shell (upd_log f s) = upd_log f (shell s)"
  by (simp add: shell_def upd_log_def)

lemma log_shell: "log (shell s) = log s"
  by (simp add: shell_def)

lemma kept_log: "kept s t \<Longrightarrow> log t = log s" for s t :: "'a log_st_scheme"
  unfolding kept_def by (metis log_shell)

text \<open>The log operations change, beside the cache and the disk, the log.\<close>

definition lkept :: "'a log_st_scheme \<Rightarrow> 'a log_st_scheme \<Rightarrow> bool" where
  "lkept s t \<longleftrightarrow> kept (upd_log (\<lambda>_. log t) s) t"

lemma lkept_trans [trans]: "lkept s t \<Longrightarrow> lkept t u \<Longrightarrow> lkept s u"
  by (simp add: lkept_def kept_def shell_upd_log) (simp add: upd_log_def)

lemma lkept_kept [intro]: "kept s t \<Longrightarrow> lkept s t"
  using kept_log [of s t] by (simp add: lkept_def kept_def shell_upd_log) (simp add: upd_log_def log_shell)

lemma lkept_upd_log [simp, intro]: "lkept s (upd_log f s)"
  by (simp add: lkept_def kept_def shell_upd_log) (simp add: upd_log_def log_shell)

lemma lkept_refl [simp, intro]: "lkept s s"
  by (rule lkept_kept) simp

lemma lkept_disksize: "lkept s t \<Longrightarrow> disksize t = disksize s"
  using kept_fields(3) [of "upd_log (\<lambda>_. log t) s" t] by (simp add: lkept_def)

section \<open>Copying a block\<close>

lemma dom_empty_upd [simp]: "dom [i \<mapsto> a] = {i}"
  by auto

lemma single_gone: "[i \<mapsto> a](i := None) = Map.empty"
  by auto

text \<open>Both loops of the log hold two buffers, \<open>a\<close> read first, and write one with the bytes of the other.\<close>

lemma read_two:
  assumes view: "bio_view p Map.empty s" and a: "a < disksize s" "b < disksize s" "a \<noteq> b"
    and room: "card (pinned s) < NBUF" "b \<in> pinned s \<or> card (pinned s) < NBUF - 1"
  shows "\<exists>i j t u. bread 1 a s = Inr (i, t) \<and> bread 1 b t = Inr (j, u) \<and> i \<noteq> j \<and> bio_view p [i \<mapsto> a, j \<mapsto> b] u \<and>
    same_view s t \<and> same_view s u"
proof -
  obtain i t where t: "bread 1 a s = Inr (i, t)" "bio_view p [i \<mapsto> a] t" "same_view s t"
    using bread_ok [OF view, of a] a(1) room(1) by auto
  note S = same_viewD [OF t(3)]
  have "b \<notin> ran [i \<mapsto> a]"
    using a(3) by simp
  moreover have "b \<in> pinned t \<or> card (dom [i \<mapsto> a]) + card (pinned t) < 30"
    using room(2) S(5) by auto
  ultimately obtain j u where u: "bread 1 b t = Inr (j, u)" "[i \<mapsto> a] j = None" "bio_view p [i \<mapsto> a, j \<mapsto> b] u" "same_view t u"
    using bread_ok [OF t(2), of b] a(2) S(6) by auto
  then show ?thesis
    using t same_view_trans by (auto split: if_splits)
qed

text \<open>The second half: store the bytes of block \<open>src\<close> in the buffer of block \<open>dst\<close>, write it, release \<open>i\<close> then \<open>j\<close>.\<close>

lemma copy_two:
  assumes view: "bio_view p h s" and h: "h d = Some dst" "h c = Some src" "c \<noteq> d" "src \<noteq> dst"
    and src: "src \<in> pinned s \<or> blk s src = memdisk s src"
  shows "\<exists>t. bwrite d (set_data d (b_data (bufs s c)) s) = Inr t \<and> bio_view p h t \<and> kept s t \<and> blk t = (blk s)(dst := blk s src) \<and>
    memdisk t = (memdisk s)(dst := blk s src) \<and> disk_trace t = disk_trace s @ [(dst, blk s src)] \<and> pinned t = pinned s - {dst} \<and>
    (src \<in> pinned t \<or> blk t src = memdisk t src) \<and> (dst \<in> pinned t \<or> blk t dst = memdisk t dst)"
proof -
  have c: "b_data (bufs s c) = blk s src"
    by (rule held_buf(4) [OF view h(2)])
  note U = set_data_ok [OF view h(1) blk_length [OF view, of src]]
  obtain t where "bwrite d (set_data d (blk s src) s) = Inr t" "bio_view p h t" "kept (set_data d (blk s src) s) t"
    "blk t = blk (set_data d (blk s src) s)"
    "memdisk t = (memdisk (set_data d (blk s src) s))(dst := blk (set_data d (blk s src) s) dst)"
    "disk_trace t = disk_trace (set_data d (blk s src) s) @ [(dst, blk (set_data d (blk s src) s) dst)]"
    "pinned t = pinned (set_data d (blk s src) s) - {dst}"
    using bwrite_ok [OF U(1) h(1)] by blast
  then show ?thesis
    unfolding c using U kept_trans [OF U(6)] h(4) src by (intro exI [of _ t]) simp
qed

text \<open>Releasing both buffers of a pair.\<close>

lemma release_two:
  assumes view: "bio_view p [i \<mapsto> a, j \<mapsto> b] s" and ij: "i \<noteq> j"
    and clean: "a \<in> pinned s \<or> blk s a = memdisk s a" "b \<in> pinned s \<or> blk s b = memdisk s b"
  shows "\<exists>t. seq (brelse i s) (brelse j) = Inr t \<and> bio_view p Map.empty t \<and> same_view s t"
proof -
  obtain t where t: "brelse i s = Inr t" "bio_view p ([i \<mapsto> a, j \<mapsto> b](i := None)) t" "same_view s t"
    using brelse_ok [OF view, of i a] ij clean(1) by auto
  note S = same_viewD [OF t(3)]
  have "[i \<mapsto> a, j \<mapsto> b](i := None) = [j \<mapsto> b]"
    using ij by auto
  then have view': "bio_view p [j \<mapsto> b] t"
    using t(2) by simp
  obtain u where u: "brelse j t = Inr u" "bio_view p ([j \<mapsto> b](j := None)) u" "same_view t u"
    using brelse_ok [OF view', of j b] clean(2) S by auto
  then show ?thesis
    using t same_view_trans unfolding single_gone by auto
qed

section \<open>The area of the log\<close>

text \<open>
  Block \<open>start\<close> is the header, \<open>log_blk start i\<close> the copy of the block in slot \<open>i\<close>. A log of 30 blocks has room for
  29 copies.
\<close>

definition log_blk :: "int \<Rightarrow> nat \<Rightarrow> u32" where
  "log_blk st i = of_int (st + int i + 1)"

definition log_area :: "int \<Rightarrow> u32 set" where
  "log_area st = insert (of_int st) (log_blk st ` {0..<LOGSIZE - 1})"

definition log_cfg :: "int \<Rightarrow> 'a log_st_scheme \<Rightarrow> bool" where
  "log_cfg st s \<longleftrightarrow> lg_dev (log s) = 1 \<and> lg_start (log s) = st \<and> 0 \<le> st \<and> st + 30 \<le> uint (disksize s) \<and> length (lh_blocks s) = LOGSIZE"

lemma log_cfgD:
  assumes "log_cfg st s"
  shows "lg_dev (log s) = 1" "lg_start (log s) = st" "length (lh_blocks s) = 30" "0 \<le> st" "st + 30 \<le> uint (disksize s)"
  using assms by (simp_all add: log_cfg_def)

lemma log_area_nums:
  assumes "0 \<le> st" "st + 30 \<le> uint (sz :: u32)"
  shows "i < 29 \<Longrightarrow> uint (log_blk st i) = st + int i + 1" "uint (of_int st :: u32) = st"
proof -
  have "uint sz < 2 ^ 32"
    using uint_lt2p [of sz] by simp
  then have *: "uint (of_int x :: u32) = x" if "0 \<le> x" "x \<le> st + 30" for x
    using that assms by (simp add: uint_word_of_int)
  show "i < 29 \<Longrightarrow> uint (log_blk st i) = st + int i + 1" "uint (of_int st :: u32) = st"
    unfolding log_blk_def using assms * [of "st + int i + 1"] * [of st] by auto
qed

lemma log_area_bounds:
  assumes cfg: "log_cfg st s"
  shows "i < 29 \<Longrightarrow> log_blk st i < disksize s" "of_int st < disksize s"
  using log_area_nums [OF log_cfgD(4,5) [OF cfg]] log_cfgD(5) [OF cfg] by (auto simp: word_less_def)

lemma log_area_distinct:
  assumes cfg: "log_cfg st s"
  shows "i < 29 \<Longrightarrow> j < 29 \<Longrightarrow> log_blk st i = log_blk st j \<longleftrightarrow> i = j" "i < 29 \<Longrightarrow> log_blk st i \<noteq> of_int st"
  using log_area_nums [OF log_cfgD(4,5) [OF cfg]] by (auto simp: word_uint_eq_iff)

lemma log_area_blk: "i < 29 \<Longrightarrow> log_blk st i \<in> log_area st" "of_int st \<in> log_area st"
  by (auto simp: log_area_def)

lemma log_cfg_kept: "kept s t \<Longrightarrow> log_cfg st s \<Longrightarrow> log_cfg st t"
  using kept_log [of s t] kept_fields(3) [of s t] by (simp add: log_cfg_def)

section \<open>Writing and installing the log\<close>

lemma lh_at_ok: "i < length (lh_blocks s) \<Longrightarrow> lh_at i s = Inr (lh_blocks s ! i)"
  by (simp add: lh_at_def)

text \<open>A sequence of block writes as an update of a map of blocks.\<close>

primrec overlay :: "(u32 \<times> 'd) list \<Rightarrow> (u32 \<Rightarrow> 'd) \<Rightarrow> u32 \<Rightarrow> 'd" where
  "overlay [] f = f"
| "overlay (w # ws) f = overlay ws (f(fst w := snd w))"

lemma overlay_append [simp]: "overlay (ws @ vs) f = overlay vs (overlay ws f)"
  by (induction ws arbitrary: f) simp_all

lemma overlay_other: "k \<notin> fst ` set ws \<Longrightarrow> overlay ws f k = f k"
  by (induction ws arbitrary: f) auto

lemma overlay_at: "distinct (map fst ws) \<Longrightarrow> (k, v) \<in> set ws \<Longrightarrow> overlay ws f k = v"
  by (induction ws arbitrary: f) (auto simp: overlay_other image_iff)

text \<open>The effect of block writes on what a client sees: they reach the disk in order and unpin the blocks.\<close>

definition wrote :: "(u32 \<times> u8 list) list \<Rightarrow> 'a log_st_scheme \<Rightarrow> 'a log_st_scheme \<Rightarrow> bool" where
  "wrote ws s t \<longleftrightarrow> kept s t \<and> blk t = overlay ws (blk s) \<and> memdisk t = overlay ws (memdisk s) \<and>
     disk_trace t = disk_trace s @ ws \<and> pinned t = pinned s - fst ` set ws"

lemma wroteD:
  assumes "wrote ws s t"
  shows "kept s t" "blk t = overlay ws (blk s)" "memdisk t = overlay ws (memdisk s)" "disk_trace t = disk_trace s @ ws"
    "pinned t = pinned s - fst ` set ws" "log t = log s" "disksize t = disksize s"
  using assms kept_log [of s t] kept_fields(3) [of s t] by (simp_all add: wrote_def)

lemma wrote_nil [simp]: "wrote [] s s"
  by (simp add: wrote_def)

lemma wrote_append: "wrote ws s t \<Longrightarrow> wrote vs t u \<Longrightarrow> wrote (ws @ vs) s u"
  using kept_trans by (auto simp: wrote_def)

lemma wrote_same': "wrote ws s t \<Longrightarrow> same_view t u \<Longrightarrow> wrote ws s u"
  using kept_trans by (auto simp: wrote_def same_view_def)

lemma install_one_ok:
  assumes view: "bio_view p Map.empty s" and cfg: "log_cfg st s" and i: "i < 29"
    and dst: "lh_blocks s ! i = dst" "dst < disksize s" "dst \<notin> log_area st"
    and room: "card (pinned s) < NBUF" "dst \<in> pinned s \<or> card (pinned s) < NBUF - 1"
  shows "\<exists>t. install_one i s = Inr t \<and> bio_view p Map.empty t \<and> wrote [(dst, blk s (log_blk st i))] s t"
proof -
  have ne: "log_blk st i \<noteq> dst"
    using dst(3) log_area_blk(1) [OF i] by auto
  obtain l d t u where r: "bread 1 (log_blk st i) s = Inr (l, t)" "bread 1 dst t = Inr (d, u)" "l \<noteq> d"
    "bio_view p [l \<mapsto> log_blk st i, d \<mapsto> dst] u" and same: "same_view s t" "same_view s u"
    using read_two [OF view log_area_bounds(1) [OF cfg i] dst(2) ne room] by blast
  note S = same_viewD [OF same(1)] same_viewD [OF same(2)]
  have src: "log_blk st i \<in> pinned s \<or> blk s (log_blk st i) = memdisk s (log_blk st i)"
    using blk_clean [OF view] by auto
  obtain v where v: "bwrite d (set_data d (b_data (bufs u l)) u) = Inr v" "bio_view p [l \<mapsto> log_blk st i, d \<mapsto> dst] v" "kept u v"
    "blk v = (blk s)(dst := blk s (log_blk st i))" "memdisk v = (memdisk s)(dst := blk s (log_blk st i))"
    "disk_trace v = disk_trace s @ [(dst, blk s (log_blk st i))]" "pinned v = pinned s - {dst}"
    "log_blk st i \<in> pinned v \<or> blk v (log_blk st i) = memdisk v (log_blk st i)" "dst \<in> pinned v \<or> blk v dst = memdisk v dst"
    using copy_two [OF r(4), of d dst l "log_blk st i"] r(3) ne src S by auto
  obtain w where w: "seq (brelse l v) (brelse d) = Inr w" "bio_view p Map.empty w" "same_view v w"
    using release_two [OF v(2) r(3) v(8,9)] by blast
  have "wrote [(dst, blk s (log_blk st i))] s v"
    using v S(7) kept_trans [OF S(7) v(3)] by (auto simp: wrote_def)
  moreover have "i < length (lh_blocks t)" "lh_blocks t ! i = dst"
    using kept_log [OF S(1)] log_cfgD(3) [OF cfg] i dst(1) by simp_all
  then have "install_one i s = Inr w"
    using r v(1) w(1) log_cfgD(1,2) [OF cfg] kept_log [OF S(1)] by (simp add: install_one_def log_blk_def lh_at_ok)
  ultimately show ?thesis
    using w wrote_same' by blast
qed

lemma write_log_one_ok:
  assumes view: "bio_view p Map.empty s" and cfg: "log_cfg st s" and i: "i < 29"
    and src: "lh_blocks s ! i = src" "src < disksize s" "src \<notin> log_area st"
    and room: "card (pinned s) < NBUF" "src \<in> pinned s"
  shows "\<exists>t. write_log_one i s = Inr t \<and> bio_view p Map.empty t \<and> wrote [(log_blk st i, blk s src)] s t"
proof -
  have ne: "log_blk st i \<noteq> src"
    using src(3) log_area_blk(1) [OF i] by auto
  obtain l d t u where r: "bread 1 (log_blk st i) s = Inr (l, t)" "bread 1 src t = Inr (d, u)" "l \<noteq> d"
    "bio_view p [l \<mapsto> log_blk st i, d \<mapsto> src] u" and same: "same_view s t" "same_view s u"
    using read_two [OF view log_area_bounds(1) [OF cfg i] src(2) ne room(1)] room(2) by blast
  note S = same_viewD [OF same(1)] same_viewD [OF same(2)]
  obtain v where v: "bwrite l (set_data l (b_data (bufs u d)) u) = Inr v" "bio_view p [l \<mapsto> log_blk st i, d \<mapsto> src] v" "kept u v"
    "blk v = (blk s)(log_blk st i := blk s src)" "memdisk v = (memdisk s)(log_blk st i := blk s src)"
    "disk_trace v = disk_trace s @ [(log_blk st i, blk s src)]" "pinned v = pinned s - {log_blk st i}"
    "src \<in> pinned v \<or> blk v src = memdisk v src" "log_blk st i \<in> pinned v \<or> blk v (log_blk st i) = memdisk v (log_blk st i)"
    using copy_two [OF r(4), of l "log_blk st i" d src] r(3) ne room(2) S by auto
  have swap: "[l \<mapsto> log_blk st i, d \<mapsto> src] = [d \<mapsto> src, l \<mapsto> log_blk st i]"
    using r(3) by (rule fun_upd_twist)
  obtain w where w: "seq (brelse d v) (brelse l) = Inr w" "bio_view p Map.empty w" "same_view v w"
    using release_two [OF v(2) [unfolded swap] _ v(8,9)] r(3) by blast
  have "wrote [(log_blk st i, blk s src)] s v"
    using v S(7) kept_trans [OF S(7) v(3)] by (auto simp: wrote_def)
  moreover have "i < length (lh_blocks t)" "lh_blocks t ! i = src"
    using kept_log [OF S(1)] log_cfgD(3) [OF cfg] i src(1) by simp_all
  then have "write_log_one i s = Inr w"
    using r v(1) w(1) log_cfgD(1,2) [OF cfg] kept_log [OF S(1)] by (simp add: write_log_one_def log_blk_def lh_at_ok)
  ultimately show ?thesis
    using w wrote_same' by blast
qed

lemma install_loop:
  assumes "bio_view p Map.empty s" "log_cfg st s"
    and "\<And>i. i \<in> set xs \<Longrightarrow> i < 29 \<and> lh_blocks s ! i < disksize s \<and> lh_blocks s ! i \<notin> log_area st"
    and "card (pinned s) < 29 \<or> card (pinned s) < 30 \<and> distinct (map ((!) (lh_blocks s)) xs) \<and> (!) (lh_blocks s) ` set xs \<subseteq> pinned s"
  shows "\<exists>t. fold_st install_one xs s = Inr t \<and> bio_view p Map.empty t \<and>
    wrote (map (\<lambda>i. (lh_blocks s ! i, blk s (log_blk st i))) xs) s t"
  using assms
proof (induction xs arbitrary: s)
  case (Cons i xs)
  let ?b = "lh_blocks s ! i"
  have i: "i < 29" "?b < disksize s" "?b \<notin> log_area st"
    using Cons.prems(3) by auto
  obtain t where t: "install_one i s = Inr t" "bio_view p Map.empty t" "wrote [(?b, blk s (log_blk st i))] s t"
    using install_one_ok [OF Cons.prems(1,2) i(1) refl i(2,3)] Cons.prems(4) by auto
  note W = wroteD [OF t(3)]
  have card: "card (pinned t) \<le> card (pinned s)"
    using card_Diff1_le [of "pinned s" ?b] by (simp add: W(5))
  have "blk t (log_blk st j) = blk s (log_blk st j)" if "j \<in> set xs" for j
    using that Cons.prems(3) [of j] i(3) log_area_blk(1) [of j st] by (auto simp: W(2))
  then have same: "map (\<lambda>i. (lh_blocks t ! i, blk t (log_blk st i))) xs = map (\<lambda>i. (lh_blocks s ! i, blk s (log_blk st i))) xs"
    by (simp add: W(6))
  have "card (pinned t) < 29 \<or> card (pinned t) < 30 \<and> distinct (map ((!) (lh_blocks t)) xs) \<and> (!) (lh_blocks t) ` set xs \<subseteq> pinned t"
    using Cons.prems(4) card unfolding W(6) W(5) by auto
  moreover have "j < 29 \<and> lh_blocks t ! j < disksize t \<and> lh_blocks t ! j \<notin> log_area st" if "j \<in> set xs" for j
    using that Cons.prems(3) [of j] by (simp add: W)
  ultimately obtain u where "fold_st install_one xs t = Inr u" "bio_view p Map.empty u"
    "wrote (map (\<lambda>i. (lh_blocks s ! i, blk s (log_blk st i))) xs) t u"
    using Cons.IH [OF t(2) log_cfg_kept [OF W(1) Cons.prems(2)]] unfolding same by auto
  then show ?case
    using t(1) wrote_append [OF t(3)] by (auto simp: seq_def)
qed simp

lemma write_log_loop:
  assumes "bio_view p Map.empty s" "log_cfg st s"
    and "\<And>i. i \<in> set xs \<Longrightarrow> i < 29 \<and> lh_blocks s ! i < disksize s \<and> lh_blocks s ! i \<notin> log_area st \<and> lh_blocks s ! i \<in> pinned s"
    and "card (pinned s) < 30"
  shows "\<exists>t. fold_st write_log_one xs s = Inr t \<and> bio_view p Map.empty t \<and>
    wrote (map (\<lambda>i. (log_blk st i, blk s (lh_blocks s ! i))) xs) s t"
  using assms
proof (induction xs arbitrary: s)
  case (Cons i xs)
  have i: "i < 29" "lh_blocks s ! i < disksize s" "lh_blocks s ! i \<notin> log_area st" "lh_blocks s ! i \<in> pinned s"
    using Cons.prems(3) by auto
  obtain t where t: "write_log_one i s = Inr t" "bio_view p Map.empty t" "wrote [(log_blk st i, blk s (lh_blocks s ! i))] s t"
    using write_log_one_ok [OF Cons.prems(1,2) i(1) refl i(2,3) Cons.prems(4) i(4)] by blast
  note W = wroteD [OF t(3)]
  have card: "card (pinned t) < 30"
    using card_Diff1_le [of "pinned s" "log_blk st i"] Cons.prems(4) by (simp add: W(5))
  have ne: "lh_blocks s ! j \<noteq> log_blk st i" if "j \<in> set xs" for j
    using that Cons.prems(3) [of j] log_area_blk(1) [OF i(1)] by auto
  then have same: "map (\<lambda>i. (log_blk st i, blk t (lh_blocks t ! i))) xs = map (\<lambda>i. (log_blk st i, blk s (lh_blocks s ! i))) xs"
    by (simp add: W(2,6))
  have "j < 29 \<and> lh_blocks t ! j < disksize t \<and> lh_blocks t ! j \<notin> log_area st \<and> lh_blocks t ! j \<in> pinned t" if "j \<in> set xs" for j
    using that Cons.prems(3) [of j] ne [of j] by (simp add: W)
  then obtain u where "fold_st write_log_one xs t = Inr u" "bio_view p Map.empty u"
    "wrote (map (\<lambda>i. (log_blk st i, blk s (lh_blocks s ! i))) xs) t u"
    using Cons.IH [OF t(2) log_cfg_kept [OF W(1) Cons.prems(2)]] card unfolding same by auto
  then show ?case
    using t(1) wrote_append [OF t(3)] by (auto simp: seq_def)
qed simp

section \<open>The header\<close>

definition hdr :: "u8 list \<Rightarrow> nat \<Rightarrow> u32 list \<Rightarrow> u8 list" where
  "hdr d n bs = fold (\<lambda>i d. st32 d (4 + 4 * i) (bs ! i)) [0..<n] (st32 d 0 (of_nat n))"

lemma fold_st32_length [simp]: "length (fold (\<lambda>i d. st32 d (f i) (g i)) is d) = length d"
  by (induction "is" arbitrary: d) simp_all

lemma fold_st32_other: "(\<And>i. i \<in> set is \<Longrightarrow> k + 4 \<le> f i \<or> f i + 4 \<le> k) \<Longrightarrow> ld32 (fold (\<lambda>i d. st32 d (f i) (g i)) is d) k = ld32 d k"
  by (induction "is" arbitrary: d) (simp_all add: ld32_st32_other)

lemma length_hdr [simp]: "length (hdr d n bs) = length d"
  by (simp add: hdr_def)

lemma hdr_count: "length d = BSIZE \<Longrightarrow> ld32 (hdr d n bs) 0 = of_nat n"
  unfolding hdr_def by (subst fold_st32_other) auto

lemma fold_st32_at:
  "distinct is \<Longrightarrow> i \<in> set is \<Longrightarrow> 4 * i + 7 < length d \<Longrightarrow> ld32 (fold (\<lambda>i d. st32 d (4 + 4 * i) (g i)) is d) (4 + 4 * i) = g i"
proof (induction "is" arbitrary: d)
  case (Cons j js)
  show ?case
  proof (cases "j = i")
    case True
    then have "k + 1 \<le> i \<or> i + 1 \<le> k" if "k \<in> set js" for k
      using that Cons.prems(1) by (cases "k = i") auto
    then have "ld32 (fold (\<lambda>i d. st32 d (4 + 4 * i) (g i)) js (st32 d (4 + 4 * i) (g i))) (4 + 4 * i) = ld32 (st32 d (4 + 4 * i) (g i)) (4 + 4 * i)"
      by (intro fold_st32_other) force
    with True Cons.prems(3) show ?thesis by simp
  qed (use Cons in auto)
qed simp

lemma hdr_block: "length d = BSIZE \<Longrightarrow> n \<le> LOGSIZE \<Longrightarrow> i < n \<Longrightarrow> ld32 (hdr d n bs) (4 + 4 * i) = bs ! i"
  unfolding hdr_def by (rule fold_st32_at) auto

lemma set_data_simps [simp]: "set_data b d (set_data b d' s) = set_data b d s" "set_data b (b_data (bufs s b)) s = s"
  "b_data (bufs (set_data b d s) b) = d" "log (set_data b d s) = log s"
  by (simp_all add: set_data_def upd_buf_def)

lemma write_head_slots:
  assumes "\<And>i. i \<in> set xs \<Longrightarrow> i < length (lh_blocks s)"
  shows "fold_st (write_head_slot b) xs (set_data b d s) = Inr (set_data b (fold (\<lambda>i d. st32 d (4 + 4 * i) (lh_blocks s ! i)) xs d) s)"
  using assms by (induction xs arbitrary: d) (simp_all add: write_head_slot_def lh_at_ok)

lemma write_head_ok:
  assumes view: "bio_view p Map.empty s" and cfg: "log_cfg st s" and n: "lh_count s = int n" "n \<le> 29" and room: "card (pinned s) < NBUF"
  shows "\<exists>t. write_head s = Inr t \<and> bio_view p Map.empty t \<and> wrote [(of_int st, hdr (blk s (of_int st)) n (lh_blocks s))] s t"
proof -
  let ?st = "of_int st :: u32"
  obtain b t where t: "bread 1 ?st s = Inr (b, t)" "bio_view p [b \<mapsto> ?st] t" and same: "same_view s t"
    using bread_ok [OF view log_area_bounds(2) [OF cfg]] room by auto
  note S = same_viewD [OF same] and lg = kept_log [OF same_viewD(1) [OF same]]
  have d: "b_data (bufs t b) = blk s ?st"
    using held_buf(4) [OF t(2)] S(2) by simp
  let ?d = "hdr (blk s ?st) n (lh_blocks s)"
  have slots: "fold_st (write_head_slot b) [0..<n] (set_data b (st32 (blk s ?st) 0 (of_nat n)) t) = Inr (set_data b ?d t)"
    using write_head_slots [of "[0..<n]" t b] n(2) log_cfgD(3) [OF cfg] lg by (simp add: hdr_def)
  have bt: "[b \<mapsto> ?st] b = Some ?st" by simp
  have len: "length ?d = 512"
    using blk_length [OF view] by simp
  note U = set_data_ok [OF t(2) bt len]
  obtain u where u: "bwrite b (set_data b ?d t) = Inr u" "bio_view p [b \<mapsto> ?st] u" "kept (set_data b ?d t) u" "blk u = blk (set_data b ?d t)"
    "memdisk u = (memdisk (set_data b ?d t))(?st := blk (set_data b ?d t) ?st)"
    "disk_trace u = disk_trace (set_data b ?d t) @ [(?st, blk (set_data b ?d t) ?st)]"
    "pinned u = pinned (set_data b ?d t) - {?st}"
    using bwrite_ok [OF U(1) bt] by blast
  have wr: "wrote [(?st, ?d)] s u"
    unfolding wrote_def using u U S kept_trans [OF S(1) kept_trans [OF U(6) u(3)]] by simp
  have clean: "?st \<in> pinned u \<or> blk u ?st = memdisk u ?st"
    by (simp add: u(4,5))
  obtain v where v: "brelse b u = Inr v" "bio_view p Map.empty v" "same_view u v"
    using brelse_ok [OF u(2) bt clean] unfolding single_gone by blast
  have "write_head s = Inr v"
    using t(1) v(1) u(1) slots log_cfgD(1,2) [OF cfg] lg n(1) by (simp add: write_head_def d)
  then show ?thesis
    using v wrote_same' [OF wr v(3)] by blast
qed

lemma read_head_slots:
  assumes "\<And>i. i \<in> set xs \<Longrightarrow> i < 30"
  shows "fold_st (read_head_slot d) xs s =
    Inr (set_lh (\<lambda>h. h\<lparr>lh_block := fold (\<lambda>i bs. bs[i := ld32 d (4 + 4 * i)]) xs (lh_block h)\<rparr>) s)"
  using assms by (induction xs arbitrary: s) (simp_all add: read_head_slot_def set_lh_def upd_log_def)

lemma fold_list_update:
  "length (fold (\<lambda>i bs. bs[i := f i]) xs bs) = length bs"
  "distinct xs \<Longrightarrow> i \<in> set xs \<Longrightarrow> i < length bs \<Longrightarrow> fold (\<lambda>i bs. bs[i := f i]) xs bs ! i = f i"
proof -
  show "length (fold (\<lambda>i bs. bs[i := f i]) xs bs) = length bs"
    by (induction xs arbitrary: bs) simp_all
  have other: "i \<notin> set xs \<Longrightarrow> fold (\<lambda>i bs. bs[i := f i]) xs bs ! i = bs ! i" for bs and xs :: "nat list" and i
    by (induction xs arbitrary: bs) simp_all
  show "distinct xs \<Longrightarrow> i \<in> set xs \<Longrightarrow> i < length bs \<Longrightarrow> fold (\<lambda>i bs. bs[i := f i]) xs bs ! i = f i"
    by (induction xs arbitrary: bs) (auto simp: other)
qed

text \<open>The header in memory after reading the header block \<open>d\<close>.\<close>

definition lh_from :: "u8 list \<Rightarrow> logheader \<Rightarrow> logheader" where
  "lh_from d h = h\<lparr>lh_n := sint (ld32 d 0), lh_block := fold (\<lambda>i bs. bs[i := ld32 d (4 + 4 * i)]) [0..<nat (sint (ld32 d 0))] (lh_block h)\<rparr>"

lemma read_head_ok:
  assumes view: "bio_view p Map.empty s" and cfg: "log_cfg st s" and n: "sint (ld32 (blk s (of_int st)) 0) \<le> 29" and room: "card (pinned s) < NBUF"
  shows "\<exists>t. read_head s = Inr t \<and> bio_view p Map.empty t \<and> same_view (set_lh (lh_from (blk s (of_int st))) s) t"
proof -
  let ?st = "of_int st :: u32"
  let ?f = "set_lh (lh_from (blk s ?st))"
  obtain b t where t: "bread 1 ?st s = Inr (b, t)" "bio_view p [b \<mapsto> ?st] t" and same: "same_view s t"
    using bread_ok [OF view log_area_bounds(2) [OF cfg]] room by auto
  note S = same_viewD [OF same]
  have d: "b_data (bufs t b) = blk s ?st"
    using held_buf(4) [OF t(2)] S(2) by simp
  have slots: "fold_st (read_head_slot (blk s ?st)) [0..<nat (sint (ld32 (blk s ?st) 0))]
      (set_lh (\<lambda>h. h\<lparr>lh_n := sint (ld32 (blk s ?st) 0)\<rparr>) t) = Inr (?f t)"
    using n by (subst read_head_slots) (auto simp: set_lh_def upd_log_def lh_from_def)
  have view': "bio_view p [b \<mapsto> ?st] (?f t)"
    using t(2) by (simp add: set_lh_def)
  have clean: "?st \<in> pinned (?f t) \<or> blk (?f t) ?st = memdisk (?f t) ?st"
    using blk_clean [OF view] S by (auto simp: set_lh_def)
  obtain v where v: "brelse b (?f t) = Inr v" "bio_view p Map.empty v" "same_view (?f t) v"
    using brelse_ok [where i = b, OF view' _ clean] unfolding single_gone by auto
  have "same_view (?f s) (?f t)"
    using S same by (simp add: same_view_def kept_def set_lh_def shell_upd_log)
  moreover have "read_head s = Inr v"
    using t(1) v(1) slots log_cfgD(1,2) [OF cfg] by (simp add: read_head_def d) (simp add: set_lh_def upd_log_def)
  ultimately show ?thesis
    using v same_view_trans by blast
qed

section \<open>Recovery\<close>

text \<open>The block numbers that the header block \<open>d\<close> lists, and the writes of recovery on a disk.\<close>

definition hdr_list :: "u8 list \<Rightarrow> u32 list" where
  "hdr_list d = map (\<lambda>i. ld32 d (4 + 4 * i)) [0..<nat (sint (ld32 d 0))]"

definition installs :: "int \<Rightarrow> u32 list \<Rightarrow> (u32 \<Rightarrow> u8 list) \<Rightarrow> (u32 \<times> u8 list) list" where
  "installs st bs f = map (\<lambda>i. (bs ! i, f (log_blk st i))) [0..<length bs]"

definition recovery_writes :: "int \<Rightarrow> (u32 \<Rightarrow> u8 list) \<Rightarrow> (u32 \<times> u8 list) list" where
  "recovery_writes st d = installs st (hdr_list (d (of_int st))) d @ [(of_int st, st32 (d (of_int st)) 0 0)]"

text \<open>A header that the log could have written on a disk of \<open>sz\<close> blocks; block 1 is the superblock.\<close>

definition hdr_ok :: "u32 \<Rightarrow> int \<Rightarrow> u8 list \<Rightarrow> bool" where
  "hdr_ok sz st d \<longleftrightarrow> 0 \<le> sint (ld32 d 0) \<and> sint (ld32 d 0) \<le> 29 \<and> (\<forall>b \<in> set (hdr_list d). b < sz \<and> b \<notin> log_area st \<and> b \<noteq> 1)"

lemma set_lh_simps [simp]:
  "bio_view p h (set_lh f s) = bio_view p h s" "blk (set_lh f s) = blk s" "pinned (set_lh f s) = pinned s"
  "memdisk (set_lh f s) = memdisk s" "disk_trace (set_lh f s) = disk_trace s" "disksize (set_lh f s) = disksize s"
  "lg_lh (log (set_lh f s)) = f (lg_lh (log s))" "lg_dev (log (set_lh f s)) = lg_dev (log s)" "lg_start (log (set_lh f s)) = lg_start (log s)"
  by (simp_all add: set_lh_def)

lemma lkept_set_lh [simp, intro]: "lkept s (set_lh f s)"
  by (simp add: set_lh_def)

lemma log_cfg_set_lh: "(\<And>h. length (lh_block (f h)) = length (lh_block h)) \<Longrightarrow> log_cfg st (set_lh f s) = log_cfg st s"
  by (simp add: log_cfg_def)

lemma hdr_zero: "hdr d 0 bs = st32 d 0 0"
  by (simp add: hdr_def)

lemma overlay_header:
  "of_int st \<notin> fst ` set ws \<Longrightarrow> overlay ws d (of_int st) = d (of_int st)"
  by (rule overlay_other)

lemma recover_ok:
  assumes view: "bio_view p Map.empty s" and cfg: "log_cfg st s" and clean: "pinned s = {}"
    and hdr: "hdr_ok (disksize s) st (memdisk s (of_int st))"
  shows "\<exists>t. recover_from_log s = Inr t \<and> bio_view p Map.empty t \<and> lkept s t \<and> log_cfg st t \<and> lh_count t = 0 \<and> pinned t = {} \<and>
    disk_trace t = disk_trace s @ recovery_writes st (memdisk s) \<and> memdisk t = overlay (recovery_writes st (memdisk s)) (memdisk s)"
proof -
  let ?st = "of_int st :: u32" and ?d = "memdisk s (of_int st)"
  let ?bs = "hdr_list ?d" and ?n = "nat (sint (ld32 (memdisk s (of_int st)) 0))"
  have blk: "blk s = memdisk s"
    using blk_clean [OF view] clean by auto
  let ?s1 = "set_lh (lh_from ?d) s"
  obtain s2 where s2: "read_head s = Inr s2" "bio_view p Map.empty s2" "same_view ?s1 s2"
    using read_head_ok [OF view cfg] hdr clean unfolding blk by (auto simp: hdr_ok_def)
  note S = same_viewD [OF s2(3), simplified]
  have lg: "lg_lh (log s2) = lh_from ?d (lg_lh (log s))"
    using kept_log [OF S(1)] by simp
  have cfg2: "log_cfg st s2"
    using log_cfg_kept [OF S(1)] cfg by (simp add: log_cfg_set_lh lh_from_def fold_list_update(1))
  have n: "nat (lh_count s2) = ?n" "?n \<le> 29"
    using hdr by (simp_all add: lg lh_from_def hdr_ok_def nat_le_iff)
  have slot: "lh_blocks s2 ! i = ?bs ! i" if "i < ?n" for i
    using that n(2) log_cfgD(3) [OF cfg] by (simp add: lg lh_from_def hdr_list_def fold_list_update(2))
  have "i < 29 \<and> lh_blocks s2 ! i < disksize s2 \<and> lh_blocks s2 ! i \<notin> log_area st" if "i \<in> set [0..<?n]" for i
    using that hdr n(2) slot [of i] nth_mem [of i ?bs] by (auto simp: hdr_ok_def S(6)) (auto simp: hdr_list_def)
  then obtain s3 where s3: "install_trans s2 = Inr s3" "bio_view p Map.empty s3"
    "wrote (map (\<lambda>i. (lh_blocks s2 ! i, blk s2 (log_blk st i))) [0..<?n]) s2 s3"
    using install_loop [OF s2(2) cfg2, of "[0..<?n]"] clean unfolding install_trans_def n(1) S(5) by auto
  have "map (\<lambda>i. (lh_blocks s2 ! i, blk s2 (log_blk st i))) [0..<?n] = installs st ?bs (memdisk s)"
    unfolding installs_def by (auto simp: hdr_list_def slot S(2) blk)
  note W = wroteD [OF s3(3) [unfolded this]]
  have notst: "?st \<notin> fst ` set (installs st ?bs (memdisk s))"
    using hdr log_area_blk(2) [of st] nth_mem by (fastforce simp: installs_def hdr_ok_def)
  let ?s4 = "set_lh (\<lambda>h. h\<lparr>lh_n := 0\<rparr>) s3"
  have cfg4: "log_cfg st ?s4"
    using log_cfg_kept [OF W(1) cfg2] by (simp add: log_cfg_set_lh)
  have "blk ?s4 ?st = ?d"
    using overlay_header [OF notst] by (simp add: W(2) S(2) blk)
  then obtain s5 where s5: "write_head ?s4 = Inr s5" "bio_view p Map.empty s5" "wrote [(?st, st32 ?d 0 0)] ?s4 s5"
    using write_head_ok [OF _ cfg4, of p 0] s3(2) W(5) S(5) clean by (auto simp: hdr_zero)
  note X = wroteD [OF s5(3)]
  have "lkept s s5"
    using lkept_set_lh lkept_kept [OF S(1)] lkept_kept [OF W(1)] lkept_kept [OF X(1)] by (meson lkept_trans)
  moreover have "recover_from_log s = Inr s5"
    using s2(1) s3(1) s5(1) by (simp add: recover_from_log_def)
  moreover have "disk_trace s5 = disk_trace s @ recovery_writes st (memdisk s)" "memdisk s5 = overlay (recovery_writes st (memdisk s)) (memdisk s)"
    using X(3,4) W(3,4) S(3,4) by (simp_all add: recovery_writes_def)
  ultimately show ?thesis
    using s5(2) X W(5) S(5) clean log_cfg_kept [OF X(1) cfg4] by auto
qed

section \<open>Commit\<close>

text \<open>
  The invariant of the log in memory: the blocks of the open transaction are listed once each, they are pinned in
  the cache, none is in the area of the log, and the header on disk says that nothing is committed.
\<close>

definition tx_blocks :: "'a log_st_scheme \<Rightarrow> u32 list" where
  "tx_blocks s = take (nat (lh_count s)) (lh_blocks s)"

definition log_inv :: "int \<Rightarrow> 'a log_st_scheme \<Rightarrow> bool" where
  "log_inv st s \<longleftrightarrow> log_cfg st s \<and> 0 \<le> lh_count s \<and> lh_count s < int LOGSIZE \<and> distinct (tx_blocks s) \<and> pinned s = set (tx_blocks s) \<and>
     (\<forall>b \<in> pinned s. b < disksize s \<and> b \<notin> log_area st) \<and> ld32 (memdisk s (of_int st)) 0 = 0"

definition log_writes :: "int \<Rightarrow> u32 list \<Rightarrow> (u32 \<Rightarrow> u8 list) \<Rightarrow> (u32 \<times> u8 list) list" where
  "log_writes st bs f = map (\<lambda>i. (log_blk st i, f (bs ! i))) [0..<length bs]"

definition home_writes :: "u32 list \<Rightarrow> (u32 \<Rightarrow> u8 list) \<Rightarrow> (u32 \<times> u8 list) list" where
  "home_writes bs f = map (\<lambda>b. (b, f b)) bs"

text \<open>All disk writes of a commit, in order: the log, the header, the blocks at home, the cleared header.\<close>

definition commit_writes :: "int \<Rightarrow> u32 list \<Rightarrow> (u32 \<Rightarrow> u8 list) \<Rightarrow> u8 list \<Rightarrow> (u32 \<times> u8 list) list" where
  "commit_writes st bs f d = (if bs = [] then [] else
     log_writes st bs f @ [(of_int st, hdr d (length bs) bs)] @ home_writes bs f @ [(of_int st, st32 (hdr d (length bs) bs) 0 0)])"

lemma tx_blocks_nth: "log_inv st s \<Longrightarrow> length (tx_blocks s) = nat (lh_count s) \<and> (\<forall>i < nat (lh_count s). tx_blocks s ! i = lh_blocks s ! i)"
  by (auto simp: log_inv_def log_cfg_def tx_blocks_def)

lemma hdr_cong: "(\<And>i. i < n \<Longrightarrow> bs ! i = cs ! i) \<Longrightarrow> hdr d n bs = hdr d n cs"
  unfolding hdr_def by (rule fold_cong) auto

lemma log_writes_area: "length bs \<le> 29 \<Longrightarrow> fst ` set (log_writes st bs f) \<subseteq> log_area st - {of_int st}" if "log_cfg st s"
  using log_area_distinct(2) [OF that] log_area_blk(1) by (auto simp: log_writes_def)

lemma log_writes_at:
  assumes "log_cfg st s" "length bs \<le> 29" "i < length bs"
  shows "overlay (log_writes st bs f) g (log_blk st i) = f (bs ! i)"
proof (rule overlay_at)
  show "distinct (map fst (log_writes st bs f))"
    using log_area_distinct(1) [OF assms(1)] assms(2) by (auto simp: log_writes_def distinct_map inj_on_def comp_def)
  show "(log_blk st i, f (bs ! i)) \<in> set (log_writes st bs f)"
    using assms(3) by (auto simp: log_writes_def)
qed

lemma installs_home:
  assumes "\<And>i. i < length bs \<Longrightarrow> g (log_blk st i) = f (bs ! i)"
  shows "installs st bs g = home_writes bs f"
  by (rule nth_equalityI) (simp_all add: installs_def home_writes_def assms)

text \<open>What the invariant says of the transaction \<open>bs\<close>.\<close>

lemma log_invD:
  assumes inv: "log_inv st s"
  defines "bs \<equiv> tx_blocks s"
  shows "log_cfg st s" "pinned s = set bs" "b \<in> set bs \<Longrightarrow> b < disksize s \<and> b \<notin> log_area st" "distinct bs"
    "length bs = nat (lh_count s)" "length bs < 30" "i < length bs \<Longrightarrow> lh_blocks s ! i = bs ! i" "card (pinned s) < 30" "0 \<le> lh_count s"
    "ld32 (memdisk s (of_int st)) 0 = 0"
proof -
  have l: "length bs = nat (lh_count s) \<and> (\<forall>i < nat (lh_count s). bs ! i = lh_blocks s ! i)"
    unfolding bs_def by (rule tx_blocks_nth [OF inv])
  show "log_cfg st s" and pin: "pinned s = set bs" and "b \<in> set bs \<Longrightarrow> b < disksize s \<and> b \<notin> log_area st" and "distinct bs"
    and "0 \<le> lh_count s" and "ld32 (memdisk s (of_int st)) 0 = 0"
    using inv by (auto simp: log_inv_def bs_def)
  show "length bs = nat (lh_count s)" and "i < length bs \<Longrightarrow> lh_blocks s ! i = bs ! i" and "length bs < 30"
    using l inv by (auto simp: log_inv_def)
  then show "card (pinned s) < 30"
    using card_length [of bs] by (simp add: pin)
qed

lemma commit_log_ok:
  assumes view: "bio_view p Map.empty s" and inv: "log_inv st s"
  defines "bs \<equiv> tx_blocks s"
  shows "\<exists>t. seq (write_log s) write_head = Inr t \<and> bio_view p Map.empty t \<and> pinned t = pinned s \<and>
    wrote (log_writes st bs (blk s) @ [(of_int st, hdr (memdisk s (of_int st)) (length bs) bs)]) s t"
proof -
  let ?st = "of_int st :: u32" and ?n = "length bs"
  note I = log_invD [OF inv, folded bs_def]
  have slot: "i < 29 \<and> lh_blocks s ! i < disksize s \<and> lh_blocks s ! i \<notin> log_area st \<and> lh_blocks s ! i \<in> pinned s" if "i \<in> set [0..<?n]" for i
    using that I(3) [of "bs ! i"] I(7) [of i] I(6) by (simp add: I(2))
  have lw: "map (\<lambda>i. (log_blk st i, blk s (lh_blocks s ! i))) [0..<?n] = log_writes st bs (blk s)"
    by (simp add: log_writes_def I(7))
  obtain s1 where s1: "write_log s = Inr s1" "bio_view p Map.empty s1" "wrote (log_writes st bs (blk s)) s s1"
    using write_log_loop [where xs = "[0..<?n]", OF view I(1) slot I(8)] unfolding write_log_def lw I(5) [symmetric] by blast
  note W = wroteD [OF s1(3)]
  have area: "fst ` set (log_writes st bs (blk s)) \<subseteq> log_area st - {?st}"
    using I(6) by (intro log_writes_area [OF I(1)]) simp
  have st: "blk s1 ?st = memdisk s ?st"
    using area blk_clean [OF view, of ?st] I(3) log_area_blk(2) [of st] unfolding W(2) I(2)
    by (subst overlay_header) auto
  have pin1: "pinned s1 = pinned s"
    using area I(3) unfolding W(5) I(2) by blast
  have "hdr (blk s1 ?st) ?n (lh_blocks s1) = hdr (memdisk s ?st) ?n bs"
    unfolding st W(6) by (rule hdr_cong) (rule I(7))
  moreover have "lh_count s1 = int ?n"
    using I(5,9) by (simp add: W(6))
  ultimately obtain s2 where s2: "write_head s1 = Inr s2" "bio_view p Map.empty s2" "wrote [(?st, hdr (memdisk s ?st) ?n bs)] s1 s2"
    using write_head_ok [OF s1(2) log_cfg_kept [OF W(1) I(1)], of ?n] I(6,8) pin1 by auto
  have "pinned s2 = pinned s"
    using I(3) log_area_blk(2) [of st] unfolding wroteD(5) [OF s2(3)] pin1 I(2) by auto
  then show ?thesis
    using s1(1) s2 wrote_append [OF s1(3) s2(3)] by auto
qed

lemma commit_home_ok:
  assumes view: "bio_view p Map.empty t" and cfg: "log_cfg st t" and bs: "lh_count t = int (length bs)" "\<And>i. i < length bs \<Longrightarrow> lh_blocks t ! i = bs ! i"
    and pin: "pinned t = set bs" "\<And>b. b \<in> set bs \<Longrightarrow> b < disksize t \<and> b \<notin> log_area st" "distinct bs" "length bs < 30"
    and f: "\<And>i. i < length bs \<Longrightarrow> blk t (log_blk st i) = f (bs ! i)"
  shows "\<exists>u v. install_trans t = Inr u \<and> write_head (set_lh (\<lambda>h. h\<lparr>lh_n := 0\<rparr>) u) = Inr v \<and> bio_view p Map.empty v \<and> pinned v = {} \<and>
    wrote (home_writes bs f @ [(of_int st, st32 (blk t (of_int st)) 0 0)]) (set_lh (\<lambda>h. h\<lparr>lh_n := 0\<rparr>) t) v"
proof -
  let ?st = "of_int st :: u32" and ?n = "length bs" and ?clear = "set_lh (\<lambda>h. h\<lparr>lh_n := 0\<rparr>)"
  have iw: "map (\<lambda>i. (lh_blocks t ! i, blk t (log_blk st i))) [0..<?n] = home_writes bs f"
    by (rule nth_equalityI) (simp_all add: home_writes_def bs(2) f)
  have map_bs: "map ((!) (lh_blocks t)) [0..<?n] = bs"
    by (rule nth_equalityI) (simp_all add: bs(2))
  have "(!) (lh_blocks t) ` set [0..<?n] = set bs"
    using map_bs by (metis list.set_map)
  moreover have "card (pinned t) < 30"
    using card_length [of bs] pin(1,4) by simp
  moreover have "i < 29 \<and> lh_blocks t ! i < disksize t \<and> lh_blocks t ! i \<notin> log_area st" if "i \<in> set [0..<?n]" for i
    using that pin(2) [of "bs ! i"] bs(2) [of i] pin(4) by simp
  ultimately obtain u where u: "install_trans t = Inr u" "bio_view p Map.empty u" "wrote (home_writes bs f) t u"
    using install_loop [OF view cfg, of "[0..<?n]"] pin(3) unfolding install_trans_def bs(1) nat_int iw map_bs pin(1) by blast
  note W = wroteD [OF u(3)]
  have home: "fst ` set (home_writes bs f) = set bs"
    by (force simp: home_writes_def)
  have st: "blk u ?st = blk t ?st" and none: "pinned u = {}"
    using overlay_header [of st "home_writes bs f"] pin(1,2) log_area_blk(2) [of st] unfolding W(2,5) home by auto
  have "log_cfg st (?clear u)"
    using log_cfg_kept [OF W(1) cfg] by (simp add: log_cfg_set_lh)
  then obtain v where v: "write_head (?clear u) = Inr v" "bio_view p Map.empty v" "wrote [(?st, st32 (blk t ?st) 0 0)] (?clear u) v"
    using write_head_ok [of p "?clear u" st 0] u(2) none st by (auto simp: hdr_zero)
  have "kept (?clear t) (?clear u)"
    using W(1) by (simp add: kept_def set_lh_def shell_upd_log)
  then have "wrote (home_writes bs f) (?clear t) (?clear u)"
    using W by (simp add: wrote_def)
  then show ?thesis
    using u(1) v wrote_append wroteD(5) [OF v(3)] none by auto
qed

lemma commit_ok:
  assumes view: "bio_view p Map.empty s" and inv: "log_inv st s"
  defines "ws \<equiv> commit_writes st (tx_blocks s) (blk s) (memdisk s (of_int st))"
  shows "\<exists>t. commit s = Inr t \<and> bio_view p Map.empty t \<and> pinned t = {} \<and> kept (set_lh (\<lambda>h. h\<lparr>lh_n := 0\<rparr>) s) t \<and>
    disk_trace t = disk_trace s @ ws \<and> memdisk t = overlay ws (memdisk s)"
proof (cases "lh_count s > 0")
  case False
  then have "ws = []" "commit s = Inr s" "set_lh (\<lambda>h. h\<lparr>lh_n := 0\<rparr>) s = s" "pinned s = {}"
    using inv by (simp_all add: ws_def commit_writes_def tx_blocks_def commit_def log_inv_def set_lh_def upd_log_def)
  then show ?thesis
    using view by simp
next
  case True
  let ?bs = "tx_blocks s" and ?st = "of_int st :: u32" and ?clear = "set_lh (\<lambda>h. h\<lparr>lh_n := 0\<rparr>)"
  note I = log_invD [OF inv]
  obtain t where t: "seq (write_log s) write_head = Inr t" "bio_view p Map.empty t" "pinned t = pinned s"
    "wrote (log_writes st ?bs (blk s) @ [(?st, hdr (memdisk s ?st) (length ?bs) ?bs)]) s t"
    using commit_log_ok [OF view inv] by blast
  note W = wroteD [OF t(4)]
  have "blk t (log_blk st i) = blk s (?bs ! i)" if "i < length ?bs" for i
    using log_writes_at [OF I(1) _ that, of "blk s" "blk s"] that I(6) log_area_distinct(2) [OF I(1), of i] by (simp add: W(2))
  then obtain u v where u: "install_trans t = Inr u" "write_head (?clear u) = Inr v" "bio_view p Map.empty v" "pinned v = {}"
    "wrote (home_writes ?bs (blk s) @ [(?st, st32 (blk t ?st) 0 0)]) (?clear t) v"
    using commit_home_ok [where bs = ?bs and f = "blk s" and p = p, OF t(2) log_cfg_kept [OF W(1) I(1)]] I t(3) by (auto simp: W(6,7))
  note X = wroteD [OF u(5)]
  have st: "blk t ?st = hdr (memdisk s ?st) (length ?bs) ?bs"
    by (simp add: W(2))
  have ne: "?bs \<noteq> []"
    using True I(5) by auto
  have "kept (?clear s) (?clear t)"
    using W(1) by (simp add: kept_def set_lh_def shell_upd_log)
  moreover have "commit s = Inr v"
    using True t(1) u(1,2) unfolding commit_def by (cases "write_log s") (simp_all)
  ultimately show ?thesis
    using u(3,4) X W ne kept_trans unfolding ws_def commit_writes_def st by auto
qed

end
