(* ===== verification/Log_Crash.thy ===== *)
theory Log_Crash
  imports Log_Ops
begin

text \<open>
  What recovery makes of a disk left by a crash: the disk after any prefix of the writes of a commit recovers to the old
  or to the new contents, and the disk after any prefix of the writes of a recovery recovers to the same contents.
\<close>

section \<open>Overlays\<close>

lemma overlay_cover: "(\<And>k. k \<notin> fst ` set ws \<Longrightarrow> f k = g k) \<Longrightarrow> overlay ws f = overlay ws g"
proof (induction ws arbitrary: f g)
  case Nil
  then have "f = g" by (intro ext) simp
  then show ?case by simp
next
  case (Cons w ws)
  have "overlay ws (f(fst w := snd w)) = overlay ws (g(fst w := snd w))"
  proof (rule Cons.IH)
    fix k assume "k \<notin> fst ` set ws"
    then show "(f(fst w := snd w)) k = (g(fst w := snd w)) k"
      using Cons.prems [of k] by (cases "k = fst w") simp_all
  qed
  then show ?case by simp
qed

text \<open>Redoing a sequence of writes after a prefix of it gives what doing it once gives.\<close>

lemma overlay_redo: "overlay ws (overlay (take j ws) f) = overlay ws f"
proof (rule overlay_cover)
  fix k assume "k \<notin> fst ` set ws"
  then have "k \<notin> fst ` set (take j ws)"
    using set_take_subset [of j ws] by blast
  then show "overlay (take j ws) f k = f k"
    by (rule overlay_other)
qed

lemma overlay_length: "(\<And>w. w \<in> set ws \<Longrightarrow> length (snd w) = BSIZE) \<Longrightarrow> (\<And>n. length (f n) = BSIZE) \<Longrightarrow> length (overlay ws f n) = BSIZE"
  by (induction ws arbitrary: f) auto

section \<open>Recovery on a disk\<close>

definition recovers_to :: "u32 \<Rightarrow> int \<Rightarrow> (u32 \<Rightarrow> u8 list) \<Rightarrow> (u32 \<Rightarrow> u8 list) \<Rightarrow> bool" where
  "recovers_to sz st d good \<longleftrightarrow> (\<forall>n. length (d n) = BSIZE) \<and> hdr_ok sz st (d (of_int st)) \<and>
     (\<forall>b. b \<notin> log_area st \<longrightarrow> overlay (recovery_writes st d) d b = good b)"

lemma hdr_list_zero: "ld32 d 0 = 0 \<Longrightarrow> hdr_list d = []"
  by (simp add: hdr_list_def)

text \<open>A disk whose header says that nothing is committed recovers to itself.\<close>

lemma recovers_clear:
  assumes "\<And>n. length (d n) = BSIZE" "ld32 (d (of_int st)) 0 = 0" "\<And>b. b \<notin> log_area st \<Longrightarrow> d b = good b"
  shows "recovers_to sz st d good"
  using assms log_area_blk(2) [of st]
  by (auto simp: recovers_to_def hdr_ok_def hdr_list_zero recovery_writes_def installs_def)

lemma installs_keys: "fst ` set (installs st bs f) = set bs"
  by (force simp: installs_def in_set_conv_nth)

text \<open>A disk with a committed header recovers to the disk with the logged blocks at home.\<close>

lemma recovers_installed:
  assumes "\<And>n. length (d n) = BSIZE" "hdr_ok sz st (d (of_int st))" "hdr_list (d (of_int st)) = bs"
    "\<And>b. b \<notin> log_area st \<Longrightarrow> overlay (installs st bs d) d b = good b"
  shows "recovers_to sz st d good"
  using assms log_area_blk(2) [of st] by (auto simp: recovers_to_def recovery_writes_def)

text \<open>A crash in the middle of a recovery does no harm.\<close>

lemma recovers_again:
  assumes rec: "recovers_to sz st d good"
  shows "recovers_to sz st (overlay (take j (recovery_writes st d)) d) good"
proof -
  let ?st = "of_int st :: u32" and ?bs = "hdr_list (d (of_int st))"
  let ?in = "installs st ?bs d" and ?e = "overlay (take j (recovery_writes st d)) d"
  have len: "\<And>n. length (d n) = 512" and hdr: "hdr_ok sz st (d ?st)"
    and good: "\<And>b. b \<notin> log_area st \<Longrightarrow> overlay (recovery_writes st d) d b = good b"
    using rec by (auto simp: recovers_to_def)
  have home: "b \<notin> log_area st" if "b \<in> fst ` set (take i ?in)" for b i
    using that hdr set_take_subset [of i ?in] installs_keys [of st ?bs d] by (auto simp: hdr_ok_def)
  have "length (snd w) = 512" if "w \<in> set (recovery_writes st d)" for w
    using that len by (auto simp: recovery_writes_def installs_def)
  then have len': "length (?e n) = 512" for n
    using len by (intro overlay_length) (auto dest: in_set_takeD)
  show ?thesis
  proof (cases "j \<le> length ?in")
    case True
    then have e: "?e = overlay (take j ?in) d"
      by (simp add: recovery_writes_def)
    have log: "?e b = d b" if "b \<in> log_area st" for b
      unfolding e using home [of b j] that by (intro overlay_other) blast
    have same: "installs st ?bs ?e = ?in"
      using hdr by (auto simp: installs_def hdr_ok_def hdr_list_def log_area_blk(1) log)
    show ?thesis
    proof (rule recovers_installed)
      show "hdr_ok sz st (?e ?st)" "hdr_list (?e ?st) = ?bs"
        using hdr log_area_blk(2) [of st] by (simp_all add: log)
      show "overlay (installs st ?bs ?e) ?e b = good b" if "b \<notin> log_area st" for b
        unfolding same unfolding e overlay_redo using good [OF that] that log_area_blk(2) [of st] by (auto simp: recovery_writes_def split: if_splits)
    qed (rule len')
  next
    case False
    then have e: "?e = overlay (recovery_writes st d) d"
      by (simp add: recovery_writes_def)
    show ?thesis
    proof (rule recovers_clear)
      show "ld32 (?e ?st) 0 = 0"
        unfolding e using len by (simp add: recovery_writes_def)
      show "?e b = good b" if "b \<notin> log_area st" for b
        unfolding e by (rule good [OF that])
    qed (rule len')
  qed
qed

section \<open>A crash during a commit\<close>

lemma overlay_pt: "f b = g b \<Longrightarrow> overlay ws f b = overlay ws g b"
proof (induction ws arbitrary: f g)
  case (Cons w ws)
  show ?case
    unfolding overlay.simps by (rule Cons.IH) (simp add: Cons.prems)
qed simp

lemma home_keys: "fst ` set (home_writes bs f) = set bs"
  by (force simp: home_writes_def)

lemma home_distinct: "distinct bs \<Longrightarrow> b \<in> set bs \<Longrightarrow> overlay (home_writes bs f) d b = f b"
  by (rule overlay_at) (auto simp: home_writes_def comp_def)

lemma sint_small: "n \<le> 30 \<Longrightarrow> sint (of_nat n :: u32) = int n"
  by (simp add: signed_of_nat signed_take_bit_int_eq_self)

lemma hdr_list_hdr: "length d = BSIZE \<Longrightarrow> length bs \<le> LOGSIZE \<Longrightarrow> hdr_list (hdr d (length bs) bs) = bs"
proof -
  assume d: "length d = 512" and n: "length bs \<le> 30"
  have "sint (of_nat (length bs) :: u32) = int (length bs)"
    using n by (rule sint_small)
  then show ?thesis
    unfolding hdr_list_def hdr_count [OF d] using hdr_block [OF d n] by (intro nth_equalityI) simp_all
qed

text \<open>The transaction \<open>bs\<close> with contents \<open>f\<close> on the disk \<open>d\<close>: what the commit needs of them.\<close>

definition tx_ok :: "u32 \<Rightarrow> int \<Rightarrow> u32 list \<Rightarrow> (u32 \<Rightarrow> u8 list) \<Rightarrow> (u32 \<Rightarrow> u8 list) \<Rightarrow> bool" where
  "tx_ok sz st bs f d \<longleftrightarrow> length bs < 30 \<and> distinct bs \<and> (\<forall>b \<in> set bs. b < sz \<and> b \<notin> log_area st \<and> b \<noteq> 1) \<and>
     (\<forall>n. length (f n) = BSIZE) \<and> (\<forall>n. length (d n) = BSIZE) \<and> ld32 (d (of_int st)) 0 = 0"

lemma tx_okD:
  assumes "tx_ok sz st bs f d"
  shows "length bs < 30" "distinct bs" "b \<in> set bs \<Longrightarrow> b < sz" "b \<in> set bs \<Longrightarrow> b \<notin> log_area st" "length (f n) = BSIZE"
    "length (d n) = BSIZE" "ld32 (d (of_int st)) 0 = 0" "1 \<notin> set bs"
  using assms by (auto simp: tx_ok_def)

lemma commit_writes_length:
  assumes "tx_ok sz st bs f d" "w \<in> set (commit_writes st bs f (d (of_int st)))"
  shows "length (snd w) = BSIZE"
  using assms by (auto simp: commit_writes_def log_writes_def home_writes_def tx_ok_def split: if_splits)

lemma crash_before:
  assumes cfg: "log_cfg st s" and tx: "tx_ok sz st bs f d" and k: "k \<le> length bs"
  shows "recovers_to sz st (overlay (take k (commit_writes st bs f (d (of_int st)))) d) d"
proof -
  let ?ws = "take k (commit_writes st bs f (d (of_int st)))"
  have ws: "?ws = take k (log_writes st bs f)"
    using k by (simp add: commit_writes_def log_writes_def)
  have "fst ` set (log_writes st bs f) \<subseteq> log_area st - {of_int st}"
    using tx_okD(1) [OF tx] by (intro log_writes_area [OF cfg]) simp
  then have keys: "fst ` set ?ws \<subseteq> log_area st - {of_int st}"
    unfolding ws using set_take_subset [of k "log_writes st bs f"] by blast
  show ?thesis
  proof (rule recovers_clear)
    show "length (overlay ?ws d n) = 512" for n
      by (rule overlay_length) (use commit_writes_length [OF tx] tx_okD(6) [OF tx] in \<open>auto dest: in_set_takeD\<close>)
    show "ld32 (overlay ?ws d (of_int st)) 0 = 0"
      using keys tx_okD(7) [OF tx] by (subst overlay_other) auto
    show "overlay ?ws d b = d b" if "b \<notin> log_area st" for b
      using keys that by (intro overlay_other) auto
  qed
qed

text \<open>The disk once the log and the header are written.\<close>

definition sealed :: "int \<Rightarrow> u32 list \<Rightarrow> (u32 \<Rightarrow> u8 list) \<Rightarrow> (u32 \<Rightarrow> u8 list) \<Rightarrow> u32 \<Rightarrow> u8 list" where
  "sealed st bs f d = (overlay (log_writes st bs f) d)(of_int st := hdr (d (of_int st)) (length bs) bs)"

lemma sealed_at:
  assumes cfg: "log_cfg st s" and tx: "tx_ok sz st bs f d"
  shows "i < length bs \<Longrightarrow> sealed st bs f d (log_blk st i) = f (bs ! i)" "b \<notin> log_area st \<Longrightarrow> sealed st bs f d b = d b"
proof -
  have n: "length bs \<le> 29"
    using tx_okD(1) [OF tx] by simp
  show "i < length bs \<Longrightarrow> sealed st bs f d (log_blk st i) = f (bs ! i)"
    using log_writes_at [OF cfg n, of i f d] log_area_distinct(2) [OF cfg, of i] n by (simp add: sealed_def)
  show "b \<notin> log_area st \<Longrightarrow> sealed st bs f d b = d b"
    using log_writes_area [OF cfg n, of f] log_area_blk(2) [of st] unfolding sealed_def
    by (cases "b = of_int st") (auto intro!: overlay_other)
qed

lemma crash_after:
  assumes cfg: "log_cfg st s" and tx: "tx_ok sz st bs f d" and k: "length bs < k" and ne: "bs \<noteq> []"
  shows "recovers_to sz st (overlay (take k (commit_writes st bs f (d (of_int st)))) d) (overlay (home_writes bs f) d)"
proof -
  let ?st = "of_int st :: u32"
  let ?ws = "take k (commit_writes st bs f (d ?st))" and ?j = "k - Suc (length bs)" and ?X = "sealed st bs f d"
  let ?e = "overlay ?ws d" and ?home = "home_writes bs f"
  have len: "length (?e n) = 512" for n
    by (rule overlay_length) (use commit_writes_length [OF tx] tx_okD(6) [OF tx] in \<open>auto dest: in_set_takeD\<close>)
  have st: "?st \<notin> fst ` set (take i ?home)" for i
    using set_take_subset [of i ?home] home_keys [of bs f] tx_okD(4) [OF tx, of ?st] log_area_blk(2) [of st] by auto
  have good: "overlay ?home ?X b = overlay ?home d b" if "b \<notin> log_area st" for b
    using sealed_at(2) [OF cfg tx that] by (rule overlay_pt)
  have ws: "?ws = log_writes st bs f @ [(?st, hdr (d ?st) (length bs) bs)] @ take ?j (?home @ [(?st, st32 (hdr (d ?st) (length bs) bs) 0 0)])"
    using k ne by (simp add: commit_writes_def log_writes_def home_writes_def take_Cons' Suc_diff_Suc)
  have e: "?e = overlay (take ?j (?home @ [(?st, st32 (hdr (d ?st) (length bs) bs) 0 0)])) ?X"
    unfolding ws by (simp add: sealed_def)
  show ?thesis
  proof (cases "?j \<le> length bs")
    case True
    then have e': "?e = overlay (take ?j ?home) ?X"
      unfolding e by (simp add: home_writes_def)
    have log: "?e b = ?X b" if "b \<in> log_area st" for b
      unfolding e' using that set_take_subset [of ?j ?home] home_keys [of bs f] tx_okD(4) [OF tx] by (intro overlay_other) blast
    have hd: "?e ?st = hdr (d ?st) (length bs) bs"
      using log [OF log_area_blk(2)] by (simp add: sealed_def)
    have list: "hdr_list (hdr (d ?st) (length bs) bs) = bs"
      using tx_okD(1,6) [OF tx] by (intro hdr_list_hdr) simp_all
    have "sint (of_nat (length bs) :: u32) = int (length bs)"
      using tx_okD(1) [OF tx] by (intro sint_small) simp
    then have ok: "hdr_ok sz st (?e ?st)"
      unfolding hd hdr_ok_def list using tx_okD(1,3,4,8) [OF tx] hdr_count [OF tx_okD(6) [OF tx]] by auto
    have "installs st bs ?e = ?home"
      using log sealed_at(1) [OF cfg tx] tx_okD(1) [OF tx] log_area_blk(1) [of _ st] by (intro installs_home) simp
    then show ?thesis
      using len ok by (intro recovers_installed [where bs = bs]) (simp_all add: hd list, simp add: e' overlay_redo good)
  next
    case False
    then have e': "?e = (overlay ?home ?X)(?st := st32 (hdr (d ?st) (length bs) bs) 0 0)"
      unfolding e by (simp add: home_writes_def)
    show ?thesis
    proof (rule recovers_clear [OF len])
      show "ld32 (?e ?st) 0 = 0"
        unfolding e' using tx_okD(6) [OF tx] by simp
      show "?e b = overlay ?home d b" if "b \<notin> log_area st" for b
        unfolding e' using good [OF that] that log_area_blk(2) [of st] by auto
    qed
  qed
qed

end
