(* ===== verification/Log_Tx.thy ===== *)
theory Log_Tx
  imports Log_Crash Machine
begin

text \<open>
  Transactions: begin_op reserves space in the log, log_write pins a block for the commit, end_op commits.
  The file system calls wrap their block updates in begin_op and end_op; here the updates are a list of blocks with
  their new contents, each done the way fs.c does it (bread, change, log_write, brelse).
\<close>

section \<open>The log lock\<close>

interpretation lgl: kernel_lock "\<lambda>s :: 'a log_st_scheme. lg_lock (log s)" put_loglock
  by unfold_locales (auto simp: put_loglock_def upd_log_def same_cpu_def)

lemma log_opened [simp]:
  "lg_committing (log (lgl.opened s)) = lg_committing (log s)" "lg_outstanding (log (lgl.opened s)) = lg_outstanding (log s)"
  "lg_lh (log (lgl.opened s)) = lg_lh (log s)" "bcache (lgl.opened s) = bcache s"
  by (simp_all add: lgl.opened_def put_loglock_def upd_log_def pushed_def)

lemma framed_upd_log: "(\<And>l g. f (g\<lparr>lg_lock := l\<rparr>) = (f g)\<lparr>lg_lock := l\<rparr>) \<Longrightarrow> lgl.framed (upd_log f)"
  by (simp add: lgl.framed_def put_loglock_def upd_log_def)

lemma framed_set_lh: "lgl.framed (set_lh f)"
  unfolding set_lh_def by (rule framed_upd_log) simp

lemma framed_log_buf: "lgl.framed (upd_buf i f)"
  by (simp add: lgl.framed_def put_loglock_def upd_log_def upd_buf_def)

text \<open>The situation of a process at the entry of a log routine.\<close>

definition log_ready :: "nat \<Rightarrow> 'a log_st_scheme \<Rightarrow> bool" where
  "log_ready p s \<longleftrightarrow> sleep_ready p s \<and> lock_free (lg_lock (log s))"

lemma log_readyD: "log_ready p s \<Longrightarrow> cpu_ok s \<and> lock_free (lg_lock (log s)) \<and> sleep_ready p s"
  by (auto simp: log_ready_def sleep_ready_def running_def)

lemma wakeup1_view:
  assumes "bio_view p h s"
  shows "bio_view p h (wakeup1 ch s)" "same_view s (wakeup1 ch s)"
proof -
  have "\<exists>xs. bc_order (bufs (wakeup1 ch s)) xs"
    using assms bio_invD(5) by (auto simp: bio_view_def)
  from reorder_view [OF assms kept_wakeup1 _ this] show "bio_view p h (wakeup1 ch s)" "same_view s (wakeup1 ch s)"
    by simp_all
qed

section \<open>begin_op\<close>

definition reserved :: "'a log_st_scheme \<Rightarrow> 'a log_st_scheme" where
  "reserved = upd_log (\<lambda>g. g\<lparr>lg_outstanding := lg_outstanding g + 1\<rparr>)"

definition log_space :: "'a log_st_scheme \<Rightarrow> bool" where
  "log_space s \<longleftrightarrow> lg_committing (log s) = 0 \<and> lh_count s + (lg_outstanding (log s) + 1) * 10 \<le> 30"

lemma begin_op_ok:
  assumes "log_ready p s" "log_space s"
  shows "begin_op s = Inr (reserved s)"
proof -
  have ok: "cpu_ok s" "lock_free (lg_lock (log s))"
    using log_readyD [OF assms(1)] by auto
  have "release_log (upd_log (\<lambda>g. g\<lparr>lg_outstanding := lg_outstanding g + 1\<rparr>) (lgl.opened s)) = Inr (reserved s)"
    unfolding reserved_def by (rule lgl.release_at_ok [OF ok framed_upd_log]) simp
  then show ?thesis
    using assms(2) by (simp add: begin_op_def begin_op_loop_def lgl.acquire_at_ok [OF ok] log_space_def)
qed

text \<open>Without space the process sleeps on the log, which it unlocks.\<close>

lemma begin_op_sleeps:
  assumes "log_ready p s" "\<not> log_space s" "cpu_ncli (cpus s ! this_cpu s) = 0"
  shows "begin_op s = Inl (Switch (upd_proc p (\<lambda>q. q\<lparr>p_chan := Some Ch_log, p_state := SLEEPING\<rparr>) (pt.opened s)))"
proof -
  have ok: "cpu_ok s" "lock_free (lg_lock (log s))" "sleep_ready p s"
    using log_readyD [OF assms(1)] by auto
  have sl: "(sleep Ch_log (Some (\<lambda>s. lg_lock (log s), put_loglock)) (lgl.opened s) :: 'a log_st_scheme stop + 'a log_st_scheme) =
      Inl (Switch (upd_proc p (\<lambda>q. q\<lparr>p_chan := Some Ch_log, p_state := SLEEPING\<rparr>) (pt.opened s)))"
    using lgl.sleep_in_section [OF ok(3,2) assms(3) lgl.framed_id] by simp
  show ?thesis
    using assms(2) unfolding begin_op_def lgl.acquire_at_ok [OF ok(1,2)]
    by (auto simp: begin_op_loop_def log_space_def sl)
qed

section \<open>log_write\<close>

lemma log_slot_found: "k \<le> length bs \<Longrightarrow> n \<in> set (take k bs) \<Longrightarrow> log_slot bs k n < k \<and> bs ! log_slot bs k n = n"
  by (induction bs k n rule: log_slot.induct) auto

lemma log_slot_new: "k \<le> length bs \<Longrightarrow> n \<notin> set (take k bs) \<Longrightarrow> log_slot bs k n = k"
  by (induction bs k n rule: log_slot.induct) auto

text \<open>The header in memory after log_write of block \<open>n\<close>: absorbed if it is already there, else appended.\<close>

definition lh_add :: "u32 \<Rightarrow> logheader \<Rightarrow> logheader" where
  "lh_add n h = (if n \<in> set (take (nat (lh_n h)) (lh_block h)) then h else h\<lparr>lh_block := (lh_block h)[nat (lh_n h) := n], lh_n := lh_n h + 1\<rparr>)"

lemma log_write_eq:
  assumes ready: "log_ready p s" and n: "lh_count s < 29" "lg_size (log s) = 30" "lg_outstanding (log s) \<ge> 1" "0 \<le> lh_count s"
    "length (lh_blocks s) = 30"
  shows "log_write b s = Inr (upd_buf b (\<lambda>x. x\<lparr>b_flags := b_flags x OR B_DIRTY\<rparr>) (set_lh (lh_add (b_blockno (bufs s b))) s))"
proof -
  have ok: "cpu_ok s" "lock_free (lg_lock (log s))"
    using log_readyD [OF ready] by auto
  let ?n = "b_blockno (bufs s b)" and ?k = "nat (lh_count s)"
  let ?i = "log_slot (lh_blocks s) ?k ?n"
  let ?G = "\<lambda>h. (if int ?i = lh_count s then (\<lambda>h. h\<lparr>lh_n := lh_n h + 1\<rparr>) else id) (h\<lparr>lh_block := (lh_block h)[?i := ?n]\<rparr>)"
  let ?d = "upd_buf b (\<lambda>x. x\<lparr>b_flags := b_flags x OR 4\<rparr>)"
  have rel: "release_log (?d (set_lh ?G (lgl.opened s))) = Inr (?d (set_lh ?G s))"
    by (rule lgl.release_at_ok [OF ok lgl.framed_comp [OF framed_log_buf framed_set_lh]])
  have comp: "set_lh f (set_lh g t) = set_lh (\<lambda>h. f (g h)) t" for f g and t :: "'a log_st_scheme"
    by (simp add: set_lh_def upd_log_def)
  have "log_write b s = release_log (?d (set_lh ?G (lgl.opened s)))"
    using n unfolding log_write_def lgl.acquire_at_ok [OF ok] by (simp add: Let_def comp id_def)
  moreover have "?G (lg_lh (log s)) = lh_add ?n (lg_lh (log s))"
  proof (cases "?n \<in> set (take ?k (lh_blocks s))")
    case True
    then have "?i < ?k" "lh_blocks s ! ?i = ?n"
      using log_slot_found [of ?k "lh_blocks s" ?n] n by auto
    then have "(lh_blocks s)[?i := ?n] = lh_blocks s"
      by (metis list_update_id)
    then show ?thesis
      using True \<open>?i < ?k\<close> by (simp add: lh_add_def)
  next
    case False
    then show ?thesis
      using log_slot_new [of ?k "lh_blocks s" ?n] n by (simp add: lh_add_def)
  qed
  then have "set_lh ?G s = set_lh (lh_add ?n) s"
    by (simp add: set_lh_def upd_log_def)
  ultimately show ?thesis
    using rel by simp
qed

text \<open>The block is in the transaction afterwards, once, and pinned; nothing reaches the disk.\<close>

definition tx_add :: "u32 \<Rightarrow> u32 list \<Rightarrow> u32 list" where
  "tx_add n bs = (if n \<in> set bs then bs else bs @ [n])"

lemma lh_add_take:
  assumes "0 \<le> lh_n h" "lh_n h < 30" "length (lh_block h) = 30"
  shows "take (nat (lh_n (lh_add n h))) (lh_block (lh_add n h)) = tx_add n (take (nat (lh_n h)) (lh_block h))"
    "lh_n h \<le> lh_n (lh_add n h)" "lh_n (lh_add n h) \<le> lh_n h + 1" "length (lh_block (lh_add n h)) = 30"
proof -
  have "take (Suc k) (bs[k := n]) = take k bs @ [n]" if "k < length bs" for k and bs :: "u32 list"
    using that by (simp add: take_Suc_conv_app_nth)
  from this [of "nat (lh_n h)" "lh_block h"] assms
  show "take (nat (lh_n (lh_add n h))) (lh_block (lh_add n h)) = tx_add n (take (nat (lh_n h)) (lh_block h))"
    by (auto simp: lh_add_def tx_add_def nat_add_distrib)
qed (use assms in \<open>auto simp: lh_add_def\<close>)

lemma log_write_ok:
  assumes view: "bio_view p h s" and inv: "log_inv st s" and ready: "log_ready p s" and i: "h i = Some n" "n \<notin> log_area st"
    and room: "lh_count s < 29" "lg_size (log s) = 30" "lg_outstanding (log s) \<ge> 1"
  defines "t \<equiv> upd_buf i (\<lambda>x. x\<lparr>b_flags := b_flags x OR B_DIRTY\<rparr>) (set_lh (lh_add n) s)"
  shows "log_write i s = Inr t" "bio_view p h t" "log_inv st t" "log_ready p t" "blk t = blk s" "memdisk t = memdisk s"
    "disk_trace t = disk_trace s" "tx_blocks t = tx_add n (tx_blocks s)" "lkept s t" "lh_count t \<le> lh_count s + 1"
proof -
  note B = held_buf [OF view i(1)] and I = log_invD [OF inv] and C = log_cfgD [OF log_invD(1) [OF inv]]
  let ?u = "set_lh (lh_add n) s"
  have view': "bio_view p h ?u"
    using view by simp
  note M = mark_dirty_ok [OF view' i(1), folded t_def]
  have log: "log t = log ?u"
    by (simp add: t_def upd_buf_def)
  have lh: "0 \<le> lh_count s" "lh_count s < 30"
    using I(9) room(1) by auto
  note T = lh_add_take [OF lh C(3), of n]
  show "log_write i s = Inr t"
    using log_write_eq [OF ready room I(9) C(3), of i] unfolding B(2) t_def .
  show "bio_view p h t" "blk t = blk s" "memdisk t = memdisk s" "disk_trace t = disk_trace s"
    using M by simp_all
  show tx: "tx_blocks t = tx_add n (tx_blocks s)"
    using T(1) by (simp add: tx_blocks_def log)
  show "lh_count t \<le> lh_count s + 1"
    using T(3) by (simp add: log)
  show "log_ready p t"
    using ready by (simp add: log_ready_def t_def set_lh_def) (simp add: upd_buf_def upd_log_def)
  show "lkept s t"
    using lkept_trans [OF lkept_set_lh lkept_kept [OF M(6)]] .
  have "log_cfg st t"
    using I(1) T(4) log_cfg_kept [OF M(6)] by (simp add: log_cfg_def)
  moreover have "pinned t = set (tx_blocks t)"
    using M(3) I(2) by (auto simp: tx tx_add_def)
  moreover have "distinct (tx_blocks t)"
    using I(4) by (simp add: tx tx_add_def)
  moreover have "0 \<le> lh_count t" "lh_count t < 30" "disksize t = disksize s"
    using T(2,3) lh room(1) by (simp_all add: log, simp add: t_def)
  moreover have "\<forall>b \<in> pinned t. b < disksize s \<and> b \<notin> log_area st"
    using M(3) I(2,3) i(2) B(6) by simp
  ultimately show "log_inv st t"
    using M(4) I(10) by (simp add: log_inv_def)
qed

section \<open>A transaction\<close>

definition update_block :: "u32 \<times> u8 list \<Rightarrow> 'a log_st_scheme \<Rightarrow> 'a log_st_scheme stop + 'a log_st_scheme" where
  "update_block w s =
     seq (bread 1 (fst w) s) (\<lambda>(b, s).
     seq (log_write b (set_data b (snd w) s)) (brelse b))"

definition log_tx :: "(u32 \<times> u8 list) list \<Rightarrow> 'a log_st_scheme \<Rightarrow> 'a log_st_scheme stop + 'a log_st_scheme" where
  "log_tx ws s = seq (begin_op s) (\<lambda>s. seq (fold_st update_block ws s) end_op)"

definition tx_state :: "nat \<Rightarrow> int \<Rightarrow> 'a log_st_scheme \<Rightarrow> bool" where
  "tx_state p st s \<longleftrightarrow> bio_view p Map.empty s \<and> log_inv st s \<and> log_ready p s \<and> lg_size (log s) = 30"

lemma kept_log_ready: "kept s t \<Longrightarrow> log_ready p s \<Longrightarrow> log_ready p t"
  using kept_ready [of s t p] kept_log [of s t] by (simp add: log_ready_def)

lemma log_inv_kept:
  assumes "kept s t" "pinned t = pinned s" "memdisk t = memdisk s" "log_inv st s"
  shows "log_inv st t"
  using assms(2-) log_cfg_kept [OF assms(1), of st] unfolding log_inv_def tx_blocks_def kept_log [OF assms(1)] kept_fields(3) [OF assms(1)]
  by simp

lemma log_inv_same: "same_view s t \<Longrightarrow> log_inv st s \<Longrightarrow> log_inv st t"
  using same_viewD [of s t] log_inv_kept by blast

lemma update_block_ok:
  assumes s: "tx_state p st s" and room: "lh_count s < 29" "lg_outstanding (log s) \<ge> 1"
    and w: "fst w < disksize s" "fst w \<notin> log_area st" "length (snd w) = BSIZE"
  shows "\<exists>t. update_block w s = Inr t \<and> tx_state p st t \<and> blk t = (blk s)(fst w := snd w) \<and> memdisk t = memdisk s \<and>
    disk_trace t = disk_trace s \<and> tx_blocks t = tx_add (fst w) (tx_blocks s) \<and> lh_count t \<le> lh_count s + 1 \<and>
    lg_outstanding (log t) = lg_outstanding (log s) \<and> lg_committing (log t) = lg_committing (log s) \<and> disksize t = disksize s \<and> lkept s t"
proof -
  obtain n d where w': "w = (n, d)" by (cases w)
  have view: "bio_view p Map.empty s" and inv: "log_inv st s" and ready: "log_ready p s" and sz: "lg_size (log s) = 30"
    using s by (auto simp: tx_state_def)
  obtain i a where a: "bread 1 n s = Inr (i, a)" "bio_view p [i \<mapsto> n] a" "same_view s a"
    using bread_ok [OF view, of n] w(1) log_invD(8) [OF inv] by (auto simp: w')
  note S = same_viewD [OF a(3)]
  have i: "[i \<mapsto> n] i = Some n" by simp
  have d: "length d = 512" using w(3) by (simp add: w')
  note U = set_data_ok [OF a(2) i d]
  let ?b = "set_data i d a"
  have k: "kept s ?b"
    using kept_trans [OF S(1) U(6)] .
  have lg: "log ?b = log s"
    using kept_log [OF k] .
  have inv': "log_inv st ?b"
    using log_inv_kept [OF k _ _ inv] U S by simp
  define c where "c = upd_buf i (\<lambda>x. x\<lparr>b_flags := b_flags x OR 4\<rparr>) (set_lh (lh_add n) ?b)"
  have "n \<notin> log_area st" "lh_count ?b < 29" "lg_size (log ?b) = 30" "1 \<le> lg_outstanding (log ?b)"
    using w(2) room sz lg by (simp_all add: w')
  note c = log_write_ok [OF U(1) inv' kept_log_ready [OF k ready] i this, folded c_def]
  have cl: "log c = log (set_lh (lh_add n) ?b)"
    by (simp add: c_def upd_buf_def)
  have "n \<in> pinned c"
    using log_invD(2) [OF c(3)] c(8) by (auto simp: tx_add_def)
  then obtain t where t: "brelse i c = Inr t" "bio_view p Map.empty t" "same_view c t"
    using brelse_ok [OF c(2) i] unfolding single_gone by blast
  note T = same_viewD [OF t(3)] and tl = kept_log [OF same_viewD(1) [OF t(3)]]
  have lk: "lkept s t"
    using lkept_trans [OF lkept_kept [OF k] lkept_trans [OF c(9) lkept_kept [OF T(1)]]] .
  have "tx_state p st t"
    using t(2) log_inv_same [OF t(3) c(3)] kept_log_ready [OF T(1) c(4)] sz lg by (simp add: tx_state_def tl cl set_lh_def)
  moreover have "update_block w s = Inr t"
    using a(1) c(1) t(1) by (simp add: update_block_def w')
  moreover have "tx_blocks t = tx_add n (tx_blocks s)" "lh_count t \<le> lh_count s + 1"
    using c(8,10) unfolding tx_blocks_def tl lg by simp_all
  ultimately show ?thesis
    using T c U S room lg lkept_disksize [OF lk] lk by (auto simp: w' tl cl set_lh_def)
qed

lemma updates_ok:
  assumes "tx_state p st s" "lg_outstanding (log s) \<ge> 1" "lh_count s + int (length ws) \<le> 29"
    and "\<And>w. w \<in> set ws \<Longrightarrow> fst w < disksize s \<and> fst w \<notin> log_area st \<and> length (snd w) = BSIZE"
  shows "\<exists>t. fold_st update_block ws s = Inr t \<and> tx_state p st t \<and> blk t = overlay ws (blk s) \<and> memdisk t = memdisk s \<and>
    disk_trace t = disk_trace s \<and> set (tx_blocks t) = set (tx_blocks s) \<union> fst ` set ws \<and>
    lg_outstanding (log t) = lg_outstanding (log s) \<and> lg_committing (log t) = lg_committing (log s) \<and> disksize t = disksize s \<and> lkept s t"
  using assms
proof (induction ws arbitrary: s)
  case (Cons w ws)
  have w: "lh_count s < 29" "fst w < disksize s" "fst w \<notin> log_area st" "length (snd w) = 512"
    using Cons.prems(3,4) by simp_all
  obtain t where t: "update_block w s = Inr t" "tx_state p st t" "blk t = (blk s)(fst w := snd w)" "memdisk t = memdisk s"
    "disk_trace t = disk_trace s" "tx_blocks t = tx_add (fst w) (tx_blocks s)" "lh_count t \<le> lh_count s + 1" "lg_outstanding (log t) = lg_outstanding (log s)"
    "lg_committing (log t) = lg_committing (log s)" "disksize t = disksize s" "lkept s t"
    using update_block_ok [OF Cons.prems(1) w(1) Cons.prems(2) w(2-)] by blast
  have ws: "lh_count t + int (length ws) \<le> 29" "\<And>w. w \<in> set ws \<Longrightarrow> fst w < disksize t \<and> fst w \<notin> log_area st \<and> length (snd w) = 512"
    using Cons.prems(3,4) t(7,10) by simp_all
  obtain u where u: "fold_st update_block ws t = Inr u" "tx_state p st u" "blk u = overlay ws (blk t)" "memdisk u = memdisk t"
    "disk_trace u = disk_trace t" "set (tx_blocks u) = set (tx_blocks t) \<union> fst ` set ws" "lg_outstanding (log u) = lg_outstanding (log t)"
    "lg_committing (log u) = lg_committing (log t)" "disksize u = disksize t" "lkept t u"
    using Cons.IH [OF t(2) _ ws] t(8) Cons.prems(2) by auto
  have "set (tx_blocks u) = set (tx_blocks s) \<union> fst ` set (w # ws)"
    by (auto simp: u(6) t(6) tx_add_def)
  then show ?case
    using t u lkept_trans [OF t(11) u(10)] by (intro exI [of _ u]) simp
qed auto

text \<open>
  end_op of the last open transaction commits: the disk gets exactly the writes of \<open>commit_writes\<close>, in that order,
  and the log is empty and open afterwards.
\<close>

lemma end_op_ok:
  assumes s: "tx_state p st s" and o1: "lg_outstanding (log s) = 1" and nc: "lg_committing (log s) = 0"
  defines "ws \<equiv> commit_writes st (tx_blocks s) (blk s) (memdisk s (of_int st))"
  shows "\<exists>t. end_op s = Inr t \<and> bio_view p Map.empty t \<and> log_cfg st t \<and> log_ready p t \<and> pinned t = {} \<and> lh_count t = 0 \<and>
    lg_outstanding (log t) = 0 \<and> lg_committing (log t) = 0 \<and> disk_trace t = disk_trace s @ ws \<and> memdisk t = overlay ws (memdisk s) \<and>
    lg_size (log t) = 30 \<and> lkept s t"
proof -
  have view: "bio_view p Map.empty s" and inv: "log_inv st s" and ready: "log_ready p s" and sz: "lg_size (log s) = 30"
    using s by (auto simp: tx_state_def)
  have ok: "cpu_ok s" "lock_free (lg_lock (log s))"
    using log_readyD [OF ready] by auto
  let ?f = "\<lambda>g. g\<lparr>lg_outstanding := lg_outstanding g - 1, lg_committing := 1\<rparr>"
  let ?a = "upd_log ?f s"
  have rel: "release_log (upd_log ?f (lgl.opened s)) = Inr ?a"
    by (rule lgl.release_at_ok [OF ok framed_upd_log]) simp
  have inva: "log_inv st ?a" and viewa: "bio_view p Map.empty ?a"
    using inv view by (simp_all add: log_inv_def tx_blocks_def log_cfg_def)
  have wsa: "commit_writes st (tx_blocks ?a) (blk ?a) (memdisk ?a (of_int st)) = ws"
    by (simp add: ws_def tx_blocks_def)
  obtain b where b: "commit ?a = Inr b" "bio_view p Map.empty b" "pinned b = {}" "kept (set_lh (\<lambda>h. h\<lparr>lh_n := 0\<rparr>) ?a) b"
    "disk_trace b = disk_trace s @ ws" "memdisk b = overlay ws (memdisk s)"
    using commit_ok [OF viewa inva] unfolding wsa by auto
  have lgb: "log b = (?f (log s))\<lparr>lg_lh := (lg_lh (log s))\<lparr>lh_n := 0\<rparr>\<rparr>"
    using kept_log [OF b(4)] by (simp add: set_lh_def)
  have readyb: "log_ready p b"
    using ready by (intro kept_log_ready [OF b(4)]) (simp add: log_ready_def set_lh_def)
  have okb: "cpu_ok b" "lock_free (lg_lock (log b))"
    using log_readyD [OF readyb] by auto
  let ?g = "\<lambda>g :: log. g\<lparr>lg_committing := 0\<rparr>"
  let ?t = "wakeup1 Ch_log (upd_log ?g b)"
  have "pt_ok (upd_log ?g (lgl.opened b))"
    using lgl.sleep_ready_opened [of p b] readyb by (intro sleep_ready_pt_ok [of p]) (simp add: log_ready_def)
  then have wake: "wakeup Ch_log (upd_log ?g (lgl.opened b)) = Inr (wakeup1 Ch_log (upd_log ?g (lgl.opened b)))"
    by (rule wakeup_ok)
  have rel2: "release_log (wakeup1 Ch_log (upd_log ?g (lgl.opened b))) = Inr ?t"
    by (rule lgl.release_at_ok [OF okb lgl.framed_comp [OF lgl.framed_wakeup1 framed_upd_log]]) simp
  have "end_op s = Inr ?t"
    using o1 nc rel b(1) rel2 wake
    by (simp add: end_op_def lgl.acquire_at_ok [OF ok] lgl.acquire_at_ok [OF okb])
      (simp add: upd_log_def lgl.acquire_at_ok [OF okb])
  moreover have same: "same_view (upd_log ?g b) ?t" and viewt: "bio_view p Map.empty ?t"
    using wakeup1_view [of p Map.empty "upd_log ?g b"] b(2) by auto
  note S = same_viewD [OF same] and lgt = kept_log [OF same_viewD(1) [OF same]]
  have "log_cfg st b"
    using log_cfg_kept [OF b(4)] log_invD(1) [OF inva] by (simp add: log_cfg_set_lh)
  then have "log_cfg st ?t"
    using log_cfg_kept [OF S(1)] by (simp add: log_cfg_def)
  moreover have "log_ready p ?t"
    using readyb by (intro kept_log_ready [OF S(1)]) (simp add: log_ready_def)
  moreover have "lkept s ?t"
    using lkept_upd_log lkept_set_lh lkept_kept [OF b(4)] lkept_kept [OF S(1)] by (meson lkept_trans)
  ultimately show ?thesis
    using viewt S b o1 sz by (auto simp: lgt lgb)
qed

end
