(* ===== verification/Bio_Props.thy ===== *)
theory Bio_Props
  imports Bio_Ops Machine
begin

text \<open>
  The buffer cache refines a disk of blocks: a client session of reads, stores, writes and releases gets the
  bytes that the same session gets from a plain map of blocks, and leaves the same disk.
\<close>

section \<open>Sessions\<close>

datatype blk_op = Rd u32 | St u32 "u8 list" | Wr u32 | Rl u32

text \<open>
  The client keeps the buffers it got by block number (its \<open>struct buf*\<close> variables): bread, a store
  through \<open>b->data\<close>, bwrite and brelse.
\<close>

fun cache_op :: "blk_op \<Rightarrow> (u32 \<rightharpoonup> nat) \<times> 'a bio_st_scheme \<Rightarrow> 'a bio_st_scheme stop + u8 list \<times> (u32 \<rightharpoonup> nat) \<times> 'a bio_st_scheme" where
  "cache_op (Rd n) (m, s) = seq (bread 1 n s) (\<lambda>(i, s). Inr (b_data (bufs s i), m(n \<mapsto> i), s))"
| "cache_op (St n d) (m, s) = Inr ([], m, set_data (the (m n)) d s)"
| "cache_op (Wr n) (m, s) = seq (bwrite (the (m n)) s) (\<lambda>s. Inr ([], m, s))"
| "cache_op (Rl n) (m, s) = seq (brelse (the (m n)) s) (\<lambda>s. Inr ([], m(n := None), s))"

fun cache_run :: "blk_op list \<Rightarrow> (u32 \<rightharpoonup> nat) \<times> 'a bio_st_scheme \<Rightarrow>
    'a bio_st_scheme stop + u8 list list \<times> (u32 \<rightharpoonup> nat) \<times> 'a bio_st_scheme" where
  "cache_run [] x = Inr ([], x)"
| "cache_run (op # ops) x = seq (cache_op op x) (\<lambda>(r, x). seq (cache_run ops x) (\<lambda>(rs, x). Inr (r # rs, x)))"

text \<open>The specification: the blocks held, the current contents of the blocks, and the disk.\<close>

type_synonym blocks = "u32 set \<times> (u32 \<Rightarrow> u8 list) \<times> (u32 \<Rightarrow> u8 list)"

fun spec_op :: "blk_op \<Rightarrow> blocks \<Rightarrow> u8 list \<times> blocks" where
  "spec_op (Rd n) (held, cur, disk) = (cur n, insert n held, cur, disk)"
| "spec_op (St n d) (held, cur, disk) = ([], held, cur(n := d), disk)"
| "spec_op (Wr n) (held, cur, disk) = ([], held, cur, disk(n := cur n))"
| "spec_op (Rl n) (held, cur, disk) = ([], held - {n}, cur, disk)"

fun spec_run :: "blk_op list \<Rightarrow> blocks \<Rightarrow> u8 list list \<times> blocks" where
  "spec_run [] b = ([], b)"
| "spec_run (op # ops) b = (let (r, b) = spec_op op b; (rs, b) = spec_run ops b in (r # rs, b))"

text \<open>
  The protocol of the client: it reads blocks of the disk that it does not hold, holds fewer than \<open>NBUF\<close>, changes,
  writes and releases only what it holds, and writes what it changed before it releases it.
\<close>

fun legal_op :: "u32 \<Rightarrow> blk_op \<Rightarrow> blocks \<Rightarrow> bool" where
  "legal_op sz (Rd n) (held, cur, disk) \<longleftrightarrow> n < sz \<and> n \<notin> held \<and> card held < NBUF"
| "legal_op sz (St n d) (held, cur, disk) \<longleftrightarrow> n \<in> held \<and> length d = BSIZE"
| "legal_op sz (Wr n) (held, cur, disk) \<longleftrightarrow> n \<in> held"
| "legal_op sz (Rl n) (held, cur, disk) \<longleftrightarrow> n \<in> held \<and> cur n = disk n"

fun legal :: "u32 \<Rightarrow> blk_op list \<Rightarrow> blocks \<Rightarrow> bool" where
  "legal sz [] b \<longleftrightarrow> True"
| "legal sz (op # ops) b \<longleftrightarrow> legal_op sz op b \<and> legal sz ops (snd (spec_op op b))"

section \<open>The simulation\<close>

definition cache_sim :: "nat \<Rightarrow> u32 \<Rightarrow> (u32 \<rightharpoonup> nat) \<times> 'a bio_st_scheme \<Rightarrow> blocks \<Rightarrow> bool" where
  "cache_sim p sz x b \<longleftrightarrow> (\<exists>h. bio_view p h (snd x) \<and> pinned (snd x) = {} \<and> disksize (snd x) = sz \<and>
     (\<forall>n i. fst x n = Some i \<longleftrightarrow> h i = Some n) \<and> b = (dom (fst x), blk (snd x), memdisk (snd x)))"

lemma map_inverse_ran: "(\<And>n i. m n = Some i \<longleftrightarrow> h i = Some n) \<Longrightarrow> ran h = dom m" for h :: "'a \<rightharpoonup> 'b" and m
  by (auto simp: ran_def dom_def)

lemma map_inverse_card:
  assumes "\<And>n i. m n = Some i \<longleftrightarrow> h i = Some n"
  shows "card (dom h) = card (dom m)"
proof (rule bij_betw_same_card)
  have h: "\<exists>n. h i = Some n \<and> m n = Some i" if "i \<in> dom h" for i
    using that assms by blast
  have m: "\<exists>i. m n = Some i \<and> h i = Some n" if "n \<in> dom m" for n
    using that assms by blast
  show "bij_betw (\<lambda>i. the (h i)) (dom h) (dom m)"
    by (rule bij_betw_byWitness [where f' = "\<lambda>n. the (m n)"]) (use h m in \<open>force+\<close>)
qed

lemma sim_read:
  assumes view: "bio_view p h s" "pinned s = {}" and m: "\<And>n i. m n = Some i \<longleftrightarrow> h i = Some n"
    and n: "n < disksize s" "n \<notin> dom m" "card (dom m) < NBUF"
  shows "\<exists>m' t. cache_op (Rd n) (m, s) = Inr (blk s n, m', t) \<and> cache_sim p (disksize s) (m', t) (insert n (dom m), blk s, memdisk s)"
proof -
  obtain i t where r: "bread 1 n s = Inr (i, t)" "h i = None" "bio_view p (h(i \<mapsto> n)) t" and same: "same_view s t"
    using bread_ok [OF view(1), of n] n m map_inverse_ran [OF m] map_inverse_card [OF m] view(2) by auto
  note S = same_viewD [OF same]
  have "b_data (bufs t i) = blk s n"
    using held_buf(4) [OF r(3)] S(2) by simp
  then have "cache_op (Rd n) (m, s) = Inr (blk s n, m(n \<mapsto> i), t)"
    by (simp add: r(1))
  moreover have "(m(n \<mapsto> i)) k = Some j \<longleftrightarrow> (h(i \<mapsto> n)) j = Some k" for k j
    using m [of k j] m [of n i] m [of n j] m [of k i] r(2) n(2) by (auto simp: domIff)
  ultimately show ?thesis
    using r(3) S view(2) by (intro exI [of _ "m(n \<mapsto> i)"] exI [of _ t]) (auto simp: cache_sim_def)
qed

lemma sim_step:
  assumes sim: "cache_sim p sz x b" and legal: "legal_op sz op b"
  shows "\<exists>x'. cache_op op x = Inr (fst (spec_op op b), x') \<and> cache_sim p sz x' (snd (spec_op op b))"
proof -
  obtain m s where x: "x = (m, s)" by (cases x)
  obtain h where view: "bio_view p h s" "pinned s = {}" and sz: "disksize s = sz" and m: "\<And>n i. m n = Some i \<longleftrightarrow> h i = Some n"
    and b: "b = (dom m, blk s, memdisk s)"
    using sim by (auto simp: cache_sim_def x)
  have held: "\<exists>i. m n = Some i \<and> h i = Some n" if "n \<in> dom m" for n
    using that m by blast
  show ?thesis
  proof (cases op)
    case (Rd n)
    then show ?thesis
      using sim_read [OF view m, of n] legal sz by (auto simp: b x)
  next
    case (St n d)
    then obtain i where i: "m n = Some i" "h i = Some n" and d: "length d = 512"
      using legal held by (auto simp: b)
    note U = set_data_ok [OF view(1) i(2) d]
    have "cache_sim p sz (m, set_data i d s) (dom m, (blk s)(n := d), memdisk s)"
      unfolding cache_sim_def using U view(2) sz m by (auto simp: set_data_def)
    then show ?thesis
      using i by (simp add: St b x)
  next
    case (Wr n)
    then obtain i where i: "m n = Some i" "h i = Some n"
      using legal held by (auto simp: b)
    obtain t where t: "bwrite i s = Inr t" "bio_view p h t" "kept s t" "blk t = blk s" "memdisk t = (memdisk s)(n := blk s n)"
      "pinned t = pinned s - {n}"
      using bwrite_ok [OF view(1) i(2)] by blast
    have "cache_sim p sz (m, t) (dom m, blk s, (memdisk s)(n := blk s n))"
      unfolding cache_sim_def using t view(2) sz m kept_fields(3) [OF t(3)] by auto
    then show ?thesis
      using i t(1) by (simp add: Wr b x)
  next
    case (Rl n)
    then obtain i where i: "m n = Some i" "h i = Some n" and clean: "blk s n = memdisk s n"
      using legal held by (auto simp: b)
    obtain t where t: "brelse i s = Inr t" "bio_view p (h(i := None)) t" and same: "same_view s t"
      using brelse_ok [OF view(1) i(2)] clean by blast
    note S = same_viewD [OF same]
    have "(m(n := None)) k = Some j \<longleftrightarrow> (h(i := None)) j = Some k" for k j
      using m [of k j] m [of n j] m [of k i] i by auto
    then have "cache_sim p sz (m(n := None), t) (dom m - {n}, blk s, memdisk s)"
      unfolding cache_sim_def using t S view(2) sz by auto
    then show ?thesis
      using i t(1) by (simp add: Rl b x)
  qed
qed

lemma sim_run:
  "cache_sim p sz x b \<Longrightarrow> legal sz ops b \<Longrightarrow>
   \<exists>x'. cache_run ops x = Inr (fst (spec_run ops b), x') \<and> cache_sim p sz x' (snd (spec_run ops b))"
proof (induction ops arbitrary: x b)
  case (Cons op ops)
  obtain x1 where x1: "cache_op op x = Inr (fst (spec_op op b), x1)" "cache_sim p sz x1 (snd (spec_op op b))"
    using sim_step Cons.prems by fastforce
  then obtain x2 where "cache_run ops x1 = Inr (fst (spec_run ops (snd (spec_op op b))), x2)"
    "cache_sim p sz x2 (snd (spec_run ops (snd (spec_op op b))))"
    using Cons.IH Cons.prems(2) by fastforce
  then show ?case
    using x1(1) by (auto simp: Let_def split: prod.splits)
qed simp

text \<open>
  C6. The buffer cache is transparent. From any state of the cache with nothing held or pinned, a session that keeps the
  protocol runs through bread, bwrite and brelse without panicking, sleeping or running out of buffers, every bread
  returns the bytes that a plain map of blocks has at that point, and at the end the disk and the current contents of
  every block are those of the map.
\<close>

theorem cache_refines_blocks:
  assumes "bio_view p Map.empty s" and "pinned s = {}" and "legal (disksize s) ops ({}, memdisk s, memdisk s)"
  shows "\<exists>m t. let (out, held, cur, disk) = spec_run ops ({}, memdisk s, memdisk s)
    in cache_run ops (Map.empty, s) = Inr (out, m, t) \<and> dom m = held \<and> blk t = cur \<and> memdisk t = disk"
proof -
  have "blk s = memdisk s"
    using blk_clean [OF assms(1)] assms(2) by auto
  then have "cache_sim p (disksize s) (Map.empty, s) ({}, memdisk s, memdisk s)"
    unfolding cache_sim_def using assms(1,2) by (intro exI [of _ Map.empty]) simp
  then obtain x where x: "cache_run ops (Map.empty, s) = Inr (fst (spec_run ops ({}, memdisk s, memdisk s)), x)"
    "cache_sim p (disksize s) x (snd (spec_run ops ({}, memdisk s, memdisk s)))"
    using sim_run assms(3) by blast
  then have "snd (spec_run ops ({}, memdisk s, memdisk s)) = (dom (fst x), blk (snd x), memdisk (snd x))"
    unfolding cache_sim_def by blast
  then show ?thesis
    using x(1) by (intro exI [of _ "fst x"] exI [of _ "snd x"]) (simp add: case_prod_beta)
qed

lemma linked_down: "n \<le> 30 \<Longrightarrow> linked linked_buf n (rev [0..<n] @ [30])"
  by (induction n) (auto simp: linked_buf_def)

lemma linked_machine: "\<exists>xs. bc_order linked_buf xs"
  using linked_down [of 30] by (intro exI [of _ "rev [0..<30]"]) (simp add: bc_order_def del: upt_rec_numeral upt_Suc)

lemma machine_view: "bio_view 0 Map.empty machine" "pinned machine = {}"
proof -
  have "bio_inv 0 {} machine"
    by (rule bio_invI) (auto simp: buf_ok_def linked_buf_def zero_buf_def valid_b_def dirty_b_def initsleeplock_def linked_machine)
  then show "bio_view 0 Map.empty machine"
    by (simp add: bio_view_def)
  show "pinned machine = {}"
    by (auto simp: pinned_def linked_buf_def zero_buf_def dirty_b_def)
qed

theorem cache_refines_blocks_witness:
  "\<exists>m t. cache_run [Rd 7, St 7 (replicate 512 1), Wr 7, Rl 7, Rd 8, Rd 7] (Map.empty, machine) =
      Inr ([replicate 512 0, [], [], [], replicate 512 0, replicate 512 1], m, t) \<and> memdisk t 7 = replicate 512 1"
proof -
  let ?ops = "[Rd 7, St 7 (replicate 512 1), Wr 7, Rl 7, Rd 8, Rd 7]"
  have "legal (disksize machine) ?ops ({}, memdisk machine, memdisk machine)"
    by simp
  then show ?thesis
    using cache_refines_blocks [OF machine_view, of ?ops] by (auto simp: Let_def)
qed

end
