(* ===== verification/Log_Props.thy ===== *)
theory Log_Props
  imports Log_Tx Bio_Props
begin

text \<open>
  What the redo log is for: a transaction is on the disk completely or not at all, whenever the machine stops, also
  when it stops again while it recovers; and a system call does not start without space in the log.
\<close>

section \<open>Booting\<close>

lemma readsb_ok:
  assumes view: "bio_view p Map.empty s" and clean: "pinned s = {}" and "1 < disksize s"
  shows "\<exists>t. readsb 1 s = Inr (superblock_of (memdisk s 1), t) \<and> bio_view p Map.empty t \<and> same_view s t"
proof -
  obtain b t where t: "bread 1 1 s = Inr (b, t)" "bio_view p [b \<mapsto> 1] t" "same_view s t"
    using bread_ok [OF view assms(3)] clean by auto
  note S = same_viewD [OF t(3)]
  have blk: "blk s = memdisk s"
    using blk_clean [OF view] clean by auto
  have data: "b_data (bufs t b) = memdisk s 1"
    using held_buf(4) [OF t(2)] by (simp add: S(2) blk)
  have "blk t 1 = memdisk t 1"
    by (simp add: S blk)
  then obtain u where u: "brelse b t = Inr u" "bio_view p Map.empty u" "same_view t u"
    using brelse_ok [where i = b and n = 1, OF t(2)] unfolding single_gone by auto
  then show ?thesis
    using t(1) same_view_trans [OF t(3) u(3)] by (auto simp: readsb_def data)
qed

text \<open>A kernel that has just started: an empty cache, over a disk of \<open>sz\<close> blocks.\<close>

definition booted :: "nat \<Rightarrow> u32 \<Rightarrow> 'a log_st_scheme \<Rightarrow> bool" where
  "booted p sz u \<longleftrightarrow> bio_view p Map.empty u \<and> pinned u = {} \<and> length (lh_blocks u) = LOGSIZE \<and> disksize u = sz"

definition sb_ok :: "u32 \<Rightarrow> int \<Rightarrow> u8 list \<Rightarrow> bool" where
  "sb_ok sz st d \<longleftrightarrow> sint (sb_logstart (superblock_of d)) = st \<and> 0 \<le> st \<and> st + 30 \<le> uint sz \<and> 1 < sz \<and> 1 \<notin> log_area st"

lemma initlog_ok:
  assumes u: "booted p sz u" and sb: "sb_ok sz st (memdisk u 1)" and hdr: "hdr_ok sz st (memdisk u (of_int st))"
  shows "\<exists>v. initlog 1 u = Inr v \<and> disk_trace v = disk_trace u @ recovery_writes st (memdisk u) \<and>
    memdisk v = overlay (recovery_writes st (memdisk u)) (memdisk u)"
proof -
  let ?u = "put_loglock (initlock ''log'') u" and ?sb = "superblock_of (memdisk u 1)"
  let ?f = "\<lambda>g. g\<lparr>lg_start := sint (sb_logstart ?sb), lg_size := sint (sb_nlog ?sb), lg_dev := 1\<rparr>"
  have view: "bio_view p Map.empty ?u" "pinned ?u = {}" "1 < disksize ?u"
    using u sb by (simp_all add: booted_def sb_ok_def put_loglock_def)
  obtain t where t: "readsb 1 ?u = Inr (?sb, t)" "bio_view p Map.empty t" "same_view ?u t"
    using readsb_ok [OF view] by (auto simp: put_loglock_def)
  note S = same_viewD [OF t(3)] and lg = kept_log [OF same_viewD(1) [OF t(3)]]
  have "log_cfg st (upd_log ?f t)"
    using u sb S(6) by (simp add: log_cfg_def lg booted_def sb_ok_def put_loglock_def)
  moreover have "hdr_ok (disksize (upd_log ?f t)) st (memdisk (upd_log ?f t) (of_int st))"
    using hdr u S by (simp add: booted_def put_loglock_def)
  ultimately obtain v where "recover_from_log (upd_log ?f t) = Inr v"
    "disk_trace v = disk_trace u @ recovery_writes st (memdisk u)" "memdisk v = overlay (recovery_writes st (memdisk u)) (memdisk u)"
    using recover_ok [of p "upd_log ?f t" st] t(2) S u by (auto simp: booted_def put_loglock_def)
  then show ?thesis
    using t(1) by (simp add: initlog_def)
qed

text \<open>
  The disks that a machine can find after it stopped with disk \<open>d\<close>: that disk, or what is left when it starts,
  begins to recover with initlog, and stops again after the first \<open>j\<close> block writes.
\<close>

inductive rebooted :: "nat \<Rightarrow> u32 \<Rightarrow> (u32 \<Rightarrow> u8 list) \<Rightarrow> (u32 \<Rightarrow> u8 list) \<Rightarrow> bool" for p sz d where
  crash: "rebooted p sz d d"
| crash_again: "rebooted p sz d (memdisk u) \<Longrightarrow> booted p sz (u :: log_st) \<Longrightarrow> initlog 1 u = Inr v \<Longrightarrow>
    disk_trace v = disk_trace u @ ws \<Longrightarrow> rebooted p sz d (overlay (take j ws) (memdisk u))"

lemma recovers_sb:
  assumes "recovers_to sz st d good" "1 \<notin> log_area st"
  shows "d 1 = good 1"
proof -
  have "1 \<notin> fst ` set (recovery_writes st d)"
    using assms log_area_blk(2) [of st] by (auto simp: recovers_to_def recovery_writes_def hdr_ok_def installs_keys image_Un)
  then show ?thesis
    using assms overlay_other [of 1 "recovery_writes st d" d] by (simp add: recovers_to_def)
qed

lemma rebooted_recovers:
  assumes "rebooted p sz d e" "recovers_to sz st d good" "sb_ok sz st (good 1)"
  shows "recovers_to sz st e good"
  using assms
proof (induction rule: rebooted.induct)
  case (crash_again u v ws j)
  have rec: "recovers_to sz st (memdisk u) good"
    using crash_again by blast
  have "memdisk u 1 = good 1"
    using recovers_sb [OF rec] crash_again.prems(2) by (simp add: sb_ok_def)
  then have "ws = recovery_writes st (memdisk u)"
    using initlog_ok [OF crash_again.hyps(2), of st] crash_again.hyps(3,4) crash_again.prems(2) rec by (auto simp: recovers_to_def)
  then show ?case
    using recovers_again [OF rec] by simp
qed

lemma recovers_boot:
  assumes rec: "recovers_to sz st (memdisk u) good" and sb: "sb_ok sz st (good 1)" and u: "booted p sz u"
  shows "\<exists>v. initlog 1 u = Inr v \<and> (\<forall>b. b \<notin> log_area st \<longrightarrow> memdisk v b = good b)"
proof -
  have "memdisk u 1 = good 1"
    using recovers_sb [OF rec] sb by (simp add: sb_ok_def)
  then show ?thesis
    using initlog_ok [OF u, of st] sb rec by (auto simp: recovers_to_def)
qed

section \<open>Transactions survive crashes\<close>

lemma commit_disk:
  assumes cfg: "log_cfg st s" and tx: "tx_ok sz st bs f d" and b: "b \<notin> log_area st"
  shows "overlay (commit_writes st bs f (d (of_int st))) d b = overlay (home_writes bs f) d b"
proof (cases "bs = []")
  case False
  have "overlay (home_writes bs f) (sealed st bs f d) b = overlay (home_writes bs f) d b"
    using sealed_at(2) [OF cfg tx b] by (rule overlay_pt)
  then show ?thesis
    using False b log_area_blk(2) [of st] by (auto simp: commit_writes_def sealed_def)
qed (simp add: commit_writes_def home_writes_def)

lemma home_overlay:
  assumes "distinct bs" "set bs = fst ` set ws"
  shows "overlay (home_writes bs (overlay ws d)) d = overlay ws d"
proof
  fix b
  show "overlay (home_writes bs (overlay ws d)) d b = overlay ws d b"
    using home_distinct [OF assms(1)] overlay_other [of b "home_writes bs (overlay ws d)" d] overlay_other [of b ws d] home_keys assms(2)
    by (cases "b \<in> set bs") auto
qed

lemma crash_recovers:
  assumes "log_cfg st s" "tx_ok sz st bs f d"
  shows "recovers_to sz st (overlay (take k (commit_writes st bs f (d (of_int st)))) d) (if k \<le> length bs then d else overlay (home_writes bs f) d)"
proof (cases "bs = []")
  case True
  then show ?thesis
    using crash_before [OF assms, of 0] by (simp add: commit_writes_def home_writes_def)
qed (use crash_before [OF assms] crash_after [OF assms] in auto)

text \<open>The run of a transaction, with its commit.\<close>

lemma log_tx_ok:
  assumes s: "tx_state p st s" "lh_count s = 0" "lg_outstanding (log s) = 0" "lg_committing (log s) = 0"
    and ws: "length ws \<le> 29" "\<And>w. w \<in> set ws \<Longrightarrow> fst w < disksize s \<and> fst w \<notin> log_area st \<and> fst w \<noteq> 1 \<and> length (snd w) = BSIZE"
  shows "\<exists>t bs. log_tx ws s = Inr t \<and> set bs = fst ` set ws \<and> tx_ok (disksize s) st bs (overlay ws (memdisk s)) (memdisk s) \<and>
    disk_trace t = disk_trace s @ commit_writes st bs (overlay ws (memdisk s)) (memdisk s (of_int st)) \<and>
    memdisk t = overlay (commit_writes st bs (overlay ws (memdisk s)) (memdisk s (of_int st))) (memdisk s)"
proof -
  let ?r = "reserved s"
  have st: "tx_state p st ?r" "lg_outstanding (log ?r) = 1" "lh_count ?r = 0" "lg_committing (log ?r) = 0" "log_ready p s"
    using s by (simp_all add: tx_state_def reserved_def log_inv_def tx_blocks_def log_cfg_def log_ready_def)
  have empty: "tx_blocks s = []" "pinned s = {}" "blk s = memdisk s" and len: "length (memdisk s n) = 512" for n
    using s(1,2) log_invD(2) [of st s] blk_clean [of p Map.empty s] bio_invD(8) [of p "{}" s]
    by (auto simp: tx_state_def tx_blocks_def bio_view_def)
  have op: "begin_op s = Inr ?r"
    using begin_op_ok [OF st(5)] s by (simp add: log_space_def)
  have "lh_count ?r + int (length ws) \<le> 29" "\<And>w. w \<in> set ws \<Longrightarrow> fst w < disksize ?r \<and> fst w \<notin> log_area st \<and> length (snd w) = 512"
    using ws st(3) by (simp_all add: reserved_def)
  then obtain u where u: "fold_st update_block ws ?r = Inr u" "tx_state p st u" "blk u = overlay ws (blk ?r)" "memdisk u = memdisk ?r"
    "disk_trace u = disk_trace ?r" "set (tx_blocks u) = set (tx_blocks ?r) \<union> fst ` set ws" "lg_outstanding (log u) = 1"
    "lg_committing (log u) = lg_committing (log ?r)"
    using updates_ok [OF st(1), of ws] st(2) by auto
  obtain t where t: "end_op u = Inr t" "disk_trace t = disk_trace u @ commit_writes st (tx_blocks u) (blk u) (memdisk u (of_int st))"
    "memdisk t = overlay (commit_writes st (tx_blocks u) (blk u) (memdisk u (of_int st))) (memdisk u)"
    using end_op_ok [OF u(2,7)] u(8) st(4) by auto
  have eq: "blk u = overlay ws (memdisk s)" "memdisk u = memdisk s" "disk_trace u = disk_trace s"
    using u(3-5) empty by (simp_all add: reserved_def)
  have bs: "set (tx_blocks u) = fst ` set ws"
    using u(6) empty(1) by (simp add: reserved_def tx_blocks_def del: take_eq_Nil)
  have inv: "log_inv st u"
    using u(2) by (simp add: tx_state_def)
  have "length (overlay ws (memdisk s) n) = 512" for n
    using ws(2) len by (intro overlay_length) auto
  then have "tx_ok (disksize s) st (tx_blocks u) (overlay ws (memdisk s)) (memdisk s)"
    using log_invD(4,6,10) [OF inv] ws(2) len by (auto simp: tx_ok_def bs eq)
  then show ?thesis
    using op u(1) t bs by (intro exI [of _ t] exI [of _ "tx_blocks u"]) (simp add: log_tx_def eq)
qed

text \<open>
  C2. Transactions are atomic with respect to crashes. A transaction of at most 29 block updates (bread, change, log_write,
  brelse) between begin_op and end_op returns, and leaves exactly the updated blocks on the disk. Let the machine stop after
  any number \<open>k\<close> of the block writes that the transaction makes, and then any number of times again, at any point, while
  it recovers. The next boot that gets through initlog returns, and outside the area of the log the disk has
  the contents from before the transaction if at most \<open>c\<close> writes were made, and from after it otherwise: never a mixture.
\<close>

theorem transaction_survives_crash:
  fixes s :: "'a log_st_scheme"
  assumes s: "tx_state p st s" "lh_count s = 0" "lg_outstanding (log s) = 0" "lg_committing (log s) = 0"
    and sb: "sb_ok (disksize s) st (memdisk s 1)"
    and ws: "length ws \<le> 29" "\<And>w. w \<in> set ws \<Longrightarrow> fst w < disksize s \<and> fst w \<notin> log_area st \<and> fst w \<noteq> 1 \<and> length (snd w) = 512"
  shows "\<exists>t tr c. log_tx ws s = Inr t \<and> disk_trace t = disk_trace s @ tr \<and>
    (\<forall>b. b \<notin> log_area st \<longrightarrow> memdisk t b = overlay ws (memdisk s) b) \<and>
    (\<forall>k d. \<forall>u :: log_st. rebooted p (disksize s) (overlay (take k tr) (memdisk s)) d \<longrightarrow> booted p (disksize s) u \<longrightarrow> memdisk u = d \<longrightarrow>
      (\<exists>v. initlog 1 u = Inr v \<and> (\<forall>b. b \<notin> log_area st \<longrightarrow> memdisk v b = (if k \<le> c then memdisk s b else overlay ws (memdisk s) b))))"
proof -
  let ?d = "memdisk s" and ?f = "overlay ws (memdisk s)" and ?sz = "disksize s"
  obtain t bs where t: "log_tx ws s = Inr t" "set bs = fst ` set ws" "tx_ok ?sz st bs ?f ?d"
    "disk_trace t = disk_trace s @ commit_writes st bs ?f (?d (of_int st))" "memdisk t = overlay (commit_writes st bs ?f (?d (of_int st))) ?d"
    using log_tx_ok [OF s ws] by blast
  have cfg: "log_cfg st s"
    using s(1) by (auto simp: tx_state_def log_inv_def)
  have new: "overlay (home_writes bs ?f) ?d = ?f"
    using home_overlay [OF tx_okD(2) [OF t(3)] t(2)] .
  have good: "sb_ok ?sz st ((if k \<le> length bs then ?d else ?f) 1)" for k
    using sb ws(2) overlay_other [of 1 ws ?d] by (cases "k \<le> length bs") force+
  have "\<exists>v. initlog 1 u = Inr v \<and> (\<forall>b. b \<notin> log_area st \<longrightarrow> memdisk v b = (if k \<le> length bs then ?d else ?f) b)"
    if "rebooted p ?sz (overlay (take k (commit_writes st bs ?f (?d (of_int st)))) ?d) (memdisk u)" "booted p ?sz u" for k and u :: log_st
    using recovers_boot [OF rebooted_recovers [OF that(1) crash_recovers [OF cfg t(3), of k, unfolded new] good] good that(2)] .
  then show ?thesis
    using t(1,4,5) commit_disk [OF cfg t(3)] unfolding new
    by (intro exI [of _ t] exI [of _ "commit_writes st bs ?f (?d (of_int st))"] exI [of _ "length bs"]) fastforce
qed

text \<open>A machine whose disk has a superblock with the log at block 2.\<close>

definition fs_disk :: "u32 \<Rightarrow> u8 list" where
  "fs_disk = (\<lambda>_. replicate 512 0)(1 := st32 (replicate 512 0) 16 2)"

lemma log_area_iff:
  assumes "0 \<le> st" "st + 30 \<le> uint (sz :: u32)"
  shows "b \<in> log_area st \<longleftrightarrow> st \<le> uint b \<and> uint b \<le> st + 29"
proof
  assume "b \<in> log_area st"
  then show "st \<le> uint b \<and> uint b \<le> st + 29"
    using log_area_nums [OF assms] by (auto simp: log_area_def)
next
  assume b: "st \<le> uint b \<and> uint b \<le> st + 29"
  show "b \<in> log_area st"
  proof (cases "uint b = st")
    case True
    then show ?thesis
      using log_area_nums(2) [OF assms] by (simp add: log_area_def word_uint_eq_iff)
  next
    case False
    then have "nat (uint b - st - 1) < 29" "uint (log_blk st (nat (uint b - st - 1))) = uint b"
      using b log_area_nums(1) [OF assms, of "nat (uint b - st - 1)"] by auto
    then show ?thesis
      using log_area_blk(1) [of "nat (uint b - st - 1)" st] by (metis word_uint_eq_iff)
  qed
qed

lemma disk_machine_view:
  assumes "\<And>n. length (md n) = 512"
  shows "bio_view 0 Map.empty (machine\<lparr>memdisk := md\<rparr>)" "pinned (machine\<lparr>memdisk := md\<rparr>) = {}"
proof -
  have "bio_inv 0 {} (machine\<lparr>memdisk := md\<rparr>)"
    by (rule bio_invI) (use assms in \<open>auto simp: buf_ok_def linked_buf_def zero_buf_def valid_b_def dirty_b_def initsleeplock_def linked_machine
      sleep_ready_def running_def cpu_ok_def this_cpu_def machine_def\<close>)
  then show "bio_view 0 Map.empty (machine\<lparr>memdisk := md\<rparr>)"
    by (simp add: bio_view_def)
  show "pinned (machine\<lparr>memdisk := md\<rparr>) = {}"
    by (auto simp: pinned_def linked_buf_def zero_buf_def dirty_b_def)
qed

lemma fs_disk_ok: "sb_ok 1000 2 (fs_disk 1)" "length (fs_disk n) = 512" "ld32 (fs_disk (of_int 2)) 0 = 0"
proof -
  have "sb_logstart (superblock_of (fs_disk 1)) = 2"
    by (simp add: superblock_of_def fs_disk_def)
  then show "sb_ok 1000 2 (fs_disk 1)"
    by (simp add: sb_ok_def log_area_iff [of 2 1000])
  show "length (fs_disk n) = 512"
    by (simp add: fs_disk_def)
  show "ld32 (fs_disk (of_int 2)) 0 = 0"
    by (simp add: fs_disk_def ld32_def)
qed

definition fs_machine :: sys_st where
  "fs_machine = machine\<lparr>memdisk := fs_disk\<rparr>"

lemma fs_machine_tx: "tx_state 0 2 fs_machine" "lh_count fs_machine = 0" "lg_outstanding (log fs_machine) = 0" "lg_committing (log fs_machine) = 0"
  "disksize fs_machine = 1000" "memdisk fs_machine = fs_disk"
proof -
  have log: "log fs_machine = \<lparr>lg_lock = free_lock, lg_start = 2, lg_size = 30, lg_outstanding = 0, lg_committing = 0, lg_dev = 1,
      lg_lh = \<lparr>lh_n = 0, lh_block = replicate 30 0\<rparr>\<rparr>" and ready: "sleep_ready 0 fs_machine"
    by (simp_all add: fs_machine_def machine_def sleep_ready_def running_def cpu_ok_def this_cpu_def)
  show "disksize fs_machine = 1000" "memdisk fs_machine = fs_disk"
    by (simp_all add: fs_machine_def)
  then show "tx_state 0 2 fs_machine"
    using disk_machine_view [OF fs_disk_ok(2)] fs_disk_ok(3) ready
    by (simp add: tx_state_def log log_inv_def log_cfg_def tx_blocks_def log_ready_def) (simp add: fs_machine_def)
qed (simp_all add: fs_machine_def machine_def)

theorem transaction_survives_crash_witness:
  "\<exists>t. log_tx [(100, replicate 512 7), (101, replicate 512 8)] fs_machine = Inr t \<and>
     memdisk t 100 = replicate 512 7 \<and> memdisk t 101 = replicate 512 8"
proof -
  let ?ws = "[(100, replicate 512 7), (101, replicate 512 8)] :: (u32 \<times> u8 list) list"
  have "\<And>w. w \<in> set ?ws \<Longrightarrow> fst w < disksize fs_machine \<and> fst w \<notin> log_area 2 \<and> fst w \<noteq> 1 \<and> length (snd w) = 512"
    by (auto simp: log_area_iff [of 2 1000] fs_machine_tx)
  then show ?thesis
    using transaction_survives_crash [OF fs_machine_tx(1-4), of ?ws] fs_disk_ok(1) log_area_iff [of 2 1000 100] log_area_iff [of 2 1000 101]
    by (fastforce simp: fs_machine_tx)
qed

section \<open>Space in the log\<close>

text \<open>
  C24. begin_op admits a system call exactly when no commit is in progress and the log has \<open>MAXOPBLOCKS\<close> slots for it beside
  those of the calls already admitted: it then returns with one more call outstanding and the bound
  \<open>n + outstanding * MAXOPBLOCKS <= LOGSIZE\<close> kept; otherwise the process sleeps on the log with
  \<open>log.lock\<close> free and nothing reserved.
\<close>

theorem begin_op_reserves:
  fixes s :: "'a log_st_scheme"
  assumes ready: "log_ready p s" and ncli: "cpu_ncli (cpus s ! this_cpu s) = 0"
  shows "if lg_committing (log s) = 0 \<and> lh_count s + (lg_outstanding (log s) + 1) * MAXOPBLOCKS \<le> int LOGSIZE
    then \<exists>t. begin_op s = Inr t \<and> t = s\<lparr>log := (log s)\<lparr>lg_outstanding := lg_outstanding (log s) + 1\<rparr>\<rparr> \<and>
      lh_count t + lg_outstanding (log t) * MAXOPBLOCKS \<le> int LOGSIZE
    else \<exists>t. begin_op s = Inl (Switch t) \<and> lock_free (lg_lock (log t)) \<and> log t = log s \<and>
      procs t = (procs s)[p := (procs s ! p)\<lparr>p_chan := Some Ch_log, p_state := SLEEPING\<rparr>]"
proof (cases "log_space s")
  case True
  then have "begin_op s = Inr (reserved s)"
    by (rule begin_op_ok [OF ready])
  with True show ?thesis
    by (simp add: log_space_def reserved_def upd_log_def)
next
  case False
  let ?t = "upd_proc p (\<lambda>q. q\<lparr>p_chan := Some Ch_log, p_state := SLEEPING\<rparr>) (pt.opened s)"
  have "begin_op s = Inl (Switch ?t)"
    by (rule begin_op_sleeps [OF ready False ncli])
  moreover have "log ?t = log s" "procs ?t = (procs s)[p := (procs s ! p)\<lparr>p_chan := Some Ch_log, p_state := SLEEPING\<rparr>]"
    by (simp_all add: upd_proc_def upd_procs_def pt.opened_def put_ptlock_def pushed_def)
  ultimately show ?thesis
    using False log_readyD [OF ready] by (auto simp: log_space_def)
qed

theorem begin_op_reserves_witness:
  "(\<exists>t. begin_op machine = Inr t \<and> lg_outstanding (log t) = 1) \<and>
   (\<exists>t. begin_op (machine\<lparr>log := (log machine)\<lparr>lg_outstanding := 3\<rparr>\<rparr>) = Inl (Switch t))"
proof -
  let ?f = "machine\<lparr>log := (log machine)\<lparr>lg_outstanding := 3\<rparr>\<rparr>"
  have log: "lock_free (lg_lock (log machine))" "lg_committing (log machine) = 0" "lg_outstanding (log machine) = 0" "lh_count machine = 0"
    by (simp_all add: machine_def)
  have ready: "log_ready 0 machine" "log_ready 0 ?f" "cpu_ncli (cpus ?f ! this_cpu ?f) = 0"
    using log(1) by (simp_all add: log_ready_def sleep_ready_def running_def cpu_ok_def this_cpu_def) (simp_all add: machine_def)
  show ?thesis
    using begin_op_reserves [OF ready(1)] begin_op_reserves [OF ready(2,3)] by (auto simp: log)
qed

text \<open>The bound of begin_op is one block too generous for the log that mkfs makes.\<close>

lemma three_begins:
  assumes s: "tx_state p st s" "lh_count s = 0" "lg_outstanding (log s) = 0" "lg_committing (log s) = 0"
  shows "\<exists>t. seq (begin_op s) (\<lambda>s. seq (begin_op s) begin_op) = Inr t \<and> tx_state p st t \<and> lh_count t = 0 \<and> lg_outstanding (log t) = 3 \<and>
    disksize t = disksize s"
proof -
  have ready: "log_ready p s" "log_ready p (reserved s)" "log_ready p (reserved (reserved s))"
    using s(1) by (simp_all add: tx_state_def log_ready_def reserved_def)
  have "begin_op s = Inr (reserved s)" "begin_op (reserved s) = Inr (reserved (reserved s))"
    "begin_op (reserved (reserved s)) = Inr (reserved (reserved (reserved s)))"
    by (rule begin_op_ok [OF ready(1)] begin_op_ok [OF ready(2)] begin_op_ok [OF ready(3)]; use s in \<open>simp add: log_space_def reserved_def\<close>)+
  then show ?thesis
    using s by (intro exI [of _ "reserved (reserved (reserved s))"])
      (simp add: reserved_def tx_state_def log_inv_def log_cfg_def tx_blocks_def log_ready_def)
qed

lemma update_block_full:
  assumes s: "tx_state p st s" "lh_count s = 29" and w: "fst w < disksize s" "length (snd w) = BSIZE"
  shows "update_block w s = Inl (Panic ''too big a transaction'')"
proof -
  have view: "bio_view p Map.empty s" and inv: "log_inv st s" and sz: "lg_size (log s) = 30"
    using s by (auto simp: tx_state_def)
  obtain i a where a: "bread 1 (fst w) s = Inr (i, a)" "same_view s a"
    using bread_ok [OF view w(1)] log_invD(8) [OF inv] by auto
  have "log a = log s"
    by (rule kept_log [OF same_viewD(1) [OF a(2)]])
  then show ?thesis
    using a(1) s(2) sz by (simp add: update_block_def log_write_def)
qed

text \<open>
  C25. Three system calls that each keep to their \<open>MAXOPBLOCKS\<close> blocks can panic the kernel. From an empty log of
  \<open>LOGSIZE\<close> blocks, begin_op admits three calls at once; when together they update thirty different blocks, all within
  the space begin_op reserved, log_write of the thirtieth panics, because one block of the log is its header.
\<close>

theorem reserved_log_overflows:
  fixes s :: "'a log_st_scheme"
  assumes s: "tx_state p st s" "lh_count s = 0" "lg_outstanding (log s) = 0" "lg_committing (log s) = 0"
    and ws: "length ws = 3 * 10" "distinct (map fst ws)" "\<And>w. w \<in> set ws \<Longrightarrow> fst w < disksize s \<and> fst w \<notin> log_area st \<and> length (snd w) = 512"
  shows "\<exists>t. seq (begin_op s) (\<lambda>s. seq (begin_op s) begin_op) = Inr t \<and>
    fold_st update_block ws t = Inl (Panic ''too big a transaction'')"
proof -
  obtain t where t: "seq (begin_op s) (\<lambda>s. seq (begin_op s) begin_op) = Inr t" "tx_state p st t" "lh_count t = 0" "lg_outstanding (log t) = 3"
    "disksize t = disksize s"
    using three_begins [OF s] by blast
  obtain vs w where split: "ws = vs @ [w]"
    using ws(1) by (cases ws rule: rev_cases) auto
  have vs: "lh_count t + int (length vs) \<le> 29" "\<And>v. v \<in> set vs \<Longrightarrow> fst v < disksize t \<and> fst v \<notin> log_area st \<and> length (snd v) = 512"
    using ws t(3,5) by (auto simp: split)
  obtain u where u: "fold_st update_block vs t = Inr u" "tx_state p st u" "set (tx_blocks u) = set (tx_blocks t) \<union> fst ` set vs" "disksize u = disksize t"
    using updates_ok [OF t(2) _ vs] t(4) by auto
  have inv: "log_inv st u"
    using u(2) by (simp add: tx_state_def)
  have "tx_blocks t = []"
    using t(3) by (simp add: tx_blocks_def)
  then have "card (set (tx_blocks u)) = length vs"
    using ws(2) u(3) distinct_card [of "map fst vs"] by (simp add: split)
  then have "lh_count u = 29"
    using distinct_card [OF log_invD(4) [OF inv]] log_invD(5,9) [OF inv] ws(1) by (simp add: split)
  then have "update_block w u = Inl (Panic ''too big a transaction'')"
    using ws(3) [of w] t(5) u(4) by (intro update_block_full [OF u(2)]) (simp_all add: split)
  then show ?thesis
    using t(1) u(1) by (intro exI [of _ t]) (simp add: split fold_st_append)
qed

theorem reserved_log_overflows_witness:
  "\<exists>t. seq (begin_op fs_machine) (\<lambda>s. seq (begin_op s) begin_op) = Inr t \<and>
     fold_st update_block (map (\<lambda>i. (of_nat i, replicate 512 1)) [100..<130]) t = Inl (Panic ''too big a transaction'')"
proof (rule reserved_log_overflows [OF fs_machine_tx(1-4)])
  show "distinct (map fst (map (\<lambda>i. (of_nat i :: u32, replicate 512 (1 :: u8))) [100..<130]))"
    by (simp add: upt_conv_Cons)
  show "fst w < disksize fs_machine \<and> fst w \<notin> log_area 2 \<and> length (snd w) = 512"
    if "w \<in> set (map (\<lambda>i. (of_nat i, replicate 512 1)) [100..<130])" for w :: "u32 \<times> u8 list"
    using that by (auto simp: log_area_iff [of 2 1000] fs_machine_tx upt_conv_Cons)
qed simp

end
