(* ===== verification/Ucalls.thy ===== *)
theory Ucalls
  imports Digits
begin

text \<open>
  The system calls as a user program sees them (user.h): functions on a world \<open>'w\<close>. A user program is a function of
  these calls, so what is proved of it holds for every kernel that behaves as the statement assumes.
  Buffers are byte lists. read returns the bytes it stored, or \<open>None\<close> for -1.
\<close>

record 'w calls =
  u_read :: "int \<Rightarrow> nat \<Rightarrow> 'w \<Rightarrow> u8 list option \<times> 'w"
  u_write :: "int \<Rightarrow> u8 list \<Rightarrow> 'w \<Rightarrow> int \<times> 'w"
  u_open :: "u8 list \<Rightarrow> int \<Rightarrow> 'w \<Rightarrow> int \<times> 'w"
  u_close :: "int \<Rightarrow> 'w \<Rightarrow> int \<times> 'w"
  u_fstat :: "int \<Rightarrow> 'w \<Rightarrow> u8 list option \<times> 'w"
  u_name :: "string \<Rightarrow> u8 list list \<Rightarrow> 'w \<Rightarrow> int \<times> 'w"
  u_num :: "string \<Rightarrow> int list \<Rightarrow> 'w \<Rightarrow> int \<times> 'w"
  u_exec :: "u8 list \<Rightarrow> u8 list list \<Rightarrow> 'w \<Rightarrow> bool \<times> 'w"
  u_pipe :: "'w \<Rightarrow> (int \<times> int) option \<times> 'w"

text \<open>
  \<open>u_fstat\<close> gives the 20 bytes of the struct stat. \<open>u_name\<close> is a call with path arguments only (link, unlink, mkdir, chdir),
  \<open>u_num\<close> one with numbers only (kill, dup, sleep, wait, fork), given by its name in user.h. fork returns in
  the parent and in the child; a run of a program is the run of one process, for which the world decides which of the
  two it is. \<open>u_exec\<close> says whether the image was replaced; if it was, the caller's code is gone.
  \<open>u_pipe\<close> gives the two descriptors it stores.
\<close>

text \<open>The calls of a program that reads one file and writes to its output: the world is what is left of the file, and the output.\<close>

definition file_calls :: "(u8 list \<times> u8 list) calls" where
  "file_calls = \<lparr>u_read = (\<lambda>fd n (c, out). (Some (take n c), (drop n c, out))),
     u_write = (\<lambda>fd bs (c, out). (int (length bs), (c, out @ bs))),
     u_open = (\<lambda>name mode w. (3, w)), u_close = (\<lambda>fd w. (0, w)), u_fstat = (\<lambda>fd w. (None, w)),
     u_name = (\<lambda>call names w. (0, w)), u_num = (\<lambda>call args w. (0, w)), u_exec = (\<lambda>path argv w. (False, w)),
     u_pipe = (\<lambda>w. (None, w))\<rparr>"

text \<open>The same for a pipe or a terminal, where one read returns what one write or one line put there.\<close>

definition chunk_calls :: "(u8 list list \<times> u8 list) calls" where
  "chunk_calls = \<lparr>u_read = (\<lambda>fd n (cs, out). case cs of [] \<Rightarrow> (Some [], ([], out))
       | c # cs \<Rightarrow> (Some (take n c), (if n < length c then drop n c # cs else cs, out))),
     u_write = (\<lambda>fd bs (cs, out). (int (length bs), (cs, out @ bs))),
     u_open = (\<lambda>name mode w. (3, w)), u_close = (\<lambda>fd w. (0, w)), u_fstat = (\<lambda>fd w. (None, w)),
     u_name = (\<lambda>call names w. (0, w)), u_num = (\<lambda>call args w. (0, w)), u_exec = (\<lambda>path argv w. (False, w)),
     u_pipe = (\<lambda>w. (None, w))\<rparr>"

lemma file_calls_simps [simp]:
  "u_read file_calls fd n (c, out) = (Some (take n c), (drop n c, out))"
  "u_write file_calls fd bs (c, out) = (int (length bs), (c, out @ bs))"
  "u_open file_calls name mode w = (3, w)" "u_close file_calls fd w = (0, w)"
  by (simp_all add: file_calls_def)

lemma chunk_calls_simps [simp]:
  "u_read chunk_calls fd n ([], out) = (Some [], ([], out))"
  "u_read chunk_calls fd n (c # cs, out) = (Some (take n c), (if n < length c then drop n c # cs else cs, out))"
  "u_write chunk_calls fd bs (cs, out) = (int (length bs), (cs, out @ bs))"
  by (simp_all add: chunk_calls_def)

section \<open>Formatted output\<close>

text \<open>printf of printf.c: every character is a write of one byte.\<close>

definition putc :: "'w calls \<Rightarrow> int \<Rightarrow> u8 \<Rightarrow> 'w \<Rightarrow> 'w" where
  "putc os fd c w = snd (u_write os fd [c] w)"

definition uprintint :: "'w calls \<Rightarrow> int \<Rightarrow> u32 \<Rightarrow> nat \<Rightarrow> bool \<Rightarrow> 'w \<Rightarrow> 'w" where
  "uprintint os fd xx base signed_p w = fold (putc os fd) (rev (printint_buf ''0123456789ABCDEF'' xx base signed_p)) w"

text \<open>
  The loop over the format; \<open>state\<close> is true after a percent sign. \<open>None\<close>: an argument the format asks for is not there, or
  is not a string.
\<close>

fun uprintf_loop :: "'w calls \<Rightarrow> int \<Rightarrow> bool \<Rightarrow> u8 list \<Rightarrow> parg list \<Rightarrow> 'w \<Rightarrow> 'w option" where
  "uprintf_loop os fd state [] args w = Some w"
| "uprintf_loop os fd False (c # fmt) args w =
     (if c = 0x25 then uprintf_loop os fd True fmt args w else uprintf_loop os fd False fmt args (putc os fd c w))"
| "uprintf_loop os fd True (c # fmt) args w =
     (if c = of_char CHR ''d'' then
        (case args of PInt n # args \<Rightarrow> uprintf_loop os fd False fmt args (uprintint os fd n 10 True w) | _ \<Rightarrow> None)
      else if c = of_char CHR ''x'' \<or> c = of_char CHR ''p'' then
        (case args of PInt n # args \<Rightarrow> uprintf_loop os fd False fmt args (uprintint os fd n 16 False w) | _ \<Rightarrow> None)
      else if c = of_char CHR ''s'' then
        (case args of PStr p # args \<Rightarrow>
           uprintf_loop os fd False fmt args (fold (putc os fd) (case p of None \<Rightarrow> bytes ''(null)'' | Some str \<Rightarrow> str) w) | _ \<Rightarrow> None)
      else if c = of_char CHR ''c'' then
        (case args of PInt n # args \<Rightarrow> uprintf_loop os fd False fmt args (putc os fd (ucast n) w) | _ \<Rightarrow> None)
      else if c = 0x25 then uprintf_loop os fd False fmt args (putc os fd c w)
      else uprintf_loop os fd False fmt args (putc os fd c (putc os fd 0x25 w)))"

definition uprintf :: "'w calls \<Rightarrow> int \<Rightarrow> string \<Rightarrow> parg list \<Rightarrow> 'w \<Rightarrow> 'w option" where
  "uprintf os fd fmt args w = uprintf_loop os fd False (bytes fmt) args w"

end
