(* ===== verification/Grep.thy ===== *)
theory Grep
  imports Ucalls
begin

text \<open>
  The grep program (grep.c). A C string is the list of its bytes up to the NUL. The matcher is compared with a declarative
  meaning of the patterns; the reading loop is compared with the lines of the file.
\<close>

section \<open>The matcher\<close>

function (sequential) matchhere :: "u8 list \<Rightarrow> u8 list \<Rightarrow> bool" and matchstar :: "u8 \<Rightarrow> u8 list \<Rightarrow> u8 list \<Rightarrow> bool" where
  "matchhere [] text = True"
| "matchhere (c # re) text =
     (if re \<noteq> [] \<and> hd re = 42 then matchstar c (tl re) text
      else if c = 36 \<and> re = [] then text = []
      else if text \<noteq> [] \<and> (c = 46 \<or> c = hd text) then matchhere re (tl text)
      else False)"
| "matchstar c re text =
     (if matchhere re text then True
      else if text \<noteq> [] \<and> (hd text = c \<or> c = 46) then matchstar c re (tl text)
      else False)"
  by pat_completeness auto
termination
  by (relation "measures [\<lambda>x. case x of Inl (re, text) \<Rightarrow> length re | Inr (c, re, text) \<Rightarrow> length re,
      \<lambda>x. case x of Inl _ \<Rightarrow> 0 | Inr _ \<Rightarrow> 1, \<lambda>x. case x of Inl (re, text) \<Rightarrow> length text | Inr (c, re, text) \<Rightarrow> length text]") auto

declare matchstar.simps [simp del]

text \<open>The loop of match tries every suffix of the text, the empty one included.\<close>

fun match_loop :: "u8 list \<Rightarrow> u8 list \<Rightarrow> bool" where
  "match_loop re [] = matchhere re []"
| "match_loop re (c # text) = (if matchhere re (c # text) then True else match_loop re text)"

definition match :: "u8 list \<Rightarrow> u8 list \<Rightarrow> bool" where
  "match re text = (if re \<noteq> [] \<and> hd re = 94 then matchhere (tl re) text else match_loop re text)"

section \<open>The reading loop\<close>

text \<open>
  strchr for a newline in a string that starts at \<open>p\<close>: the bytes before the newline and those after it. The search ends at a NUL.
\<close>

definition split_nl :: "u8 list \<Rightarrow> (u8 list \<times> u8 list) option" where
  "split_nl p = (case dropWhile (\<lambda>c. c \<noteq> 0 \<and> c \<noteq> 10) p of
       [] \<Rightarrow> None
     | c # r \<Rightarrow> if c = 10 then Some (takeWhile (\<lambda>c. c \<noteq> 0 \<and> c \<noteq> 10) p, r) else None)"

lemma split_nl_shorter: "split_nl p = Some (line, r) \<Longrightarrow> length r < length p"
  using length_dropWhile_le [of "\<lambda>c. c \<noteq> 0 \<and> c \<noteq> 10" p] by (auto simp: split_nl_def split: list.splits if_splits)

text \<open>The inner loop over the lines in the buffer; it returns what is left from \<open>p\<close> on.\<close>

function grep_scan :: "'w calls \<Rightarrow> u8 list \<Rightarrow> u8 list \<Rightarrow> 'w \<Rightarrow> u8 list \<times> 'w" where
  "grep_scan os pattern p w =
     (case split_nl p of None \<Rightarrow> (p, w)
      | Some (line, r) \<Rightarrow> grep_scan os pattern r (if match pattern line then snd (u_write os 1 (line @ [10]) w) else w))"
  by pat_completeness auto
termination
  by (relation "measure (\<lambda>(os, pattern, p, w). length p)") (auto dest: split_nl_shorter)

declare grep_scan.simps [simp del]

text \<open>
  The outer loop; \<open>b\<close> is \<open>buf[0..m)\<close>. It ends when read returns 0 or -1, which need not happen.
\<close>

partial_function (option) grep :: "'w calls \<Rightarrow> u8 list \<Rightarrow> int \<Rightarrow> u8 list \<Rightarrow> 'w \<Rightarrow> 'w option" where
  "grep os pattern fd b w =
     (case u_read os fd (1024 - length b - 1) w of (r, w) \<Rightarrow>
      (case r of None \<Rightarrow> Some w | Some bs \<Rightarrow>
        if bs = [] then Some w
        else (case grep_scan os pattern (b @ bs) w of (p, w) \<Rightarrow>
          grep os pattern fd (if length p = length (b @ bs) then [] else p) w)))"

text \<open>main: the usage message, standard input without file arguments, else one file after the other.\<close>

fun grep_files :: "'w calls \<Rightarrow> u8 list \<Rightarrow> u8 list list \<Rightarrow> 'w \<Rightarrow> 'w option" where
  "grep_files os pattern [] w = Some w"
| "grep_files os pattern (name # names) w =
     (case u_open os name 0 w of (fd, w) \<Rightarrow>
      if fd < 0 then uprintf os 1 (''grep: cannot open %s'' @ [CHR 0x0A]) [PStr (Some name)] w
      else Option.bind (grep os pattern fd [] w) (\<lambda>w. grep_files os pattern names (snd (u_close os fd w))))"

definition grep_main :: "'w calls \<Rightarrow> u8 list list \<Rightarrow> 'w \<Rightarrow> 'w option" where
  "grep_main os argv w =
     (if length argv \<le> 1 then uprintf os 2 (''usage: grep pattern [file ...]'' @ [CHR 0x0A]) [] w
      else if length argv \<le> 2 then grep os (argv ! 1) 0 [] w
      else grep_files os (argv ! 1) (drop 2 argv) w)"

section \<open>What the patterns mean\<close>

text \<open>
  The elements of a pattern: one character (a dot stands for any), any number of repetitions of a character, and the
  end of the text, which only a final dollar sign means.
\<close>

datatype elem = One u8 | Many u8 | End

fun elems :: "u8 list \<Rightarrow> elem list" where
  "elems [] = []"
| "elems [c] = (if c = 36 then [End] else [One c])"
| "elems (c # d # re) = (if d = 42 then Many c # elems re else One c # elems (d # re))"

definition fits :: "u8 \<Rightarrow> u8 \<Rightarrow> bool" where
  "fits c x \<longleftrightarrow> c = 46 \<or> c = x"

text \<open>The texts that a list of elements describes, and whether it is tied to the end.\<close>

fun lang :: "elem list \<Rightarrow> u8 list set" where
  "lang [] = {[]}"
| "lang (One c # es) = {x # v | x v. fits c x \<and> v \<in> lang es}"
| "lang (Many c # es) = {u @ v | u v. (\<forall>x \<in> set u. fits c x) \<and> v \<in> lang es}"
| "lang (End # es) = lang es"

definition matches_at :: "u8 list \<Rightarrow> u8 list \<Rightarrow> bool" where
  "matches_at re text \<longleftrightarrow> (\<exists>u v. text = u @ v \<and> u \<in> lang (elems re) \<and> (End \<in> set (elems re) \<longrightarrow> v = []))"

lemma matches_at_simps:
  "matches_at [] tx"
  "matches_at [36] tx \<longleftrightarrow> tx = []"
  "matches_at (c # 42 # re) tx \<longleftrightarrow> (\<exists>u v. tx = u @ v \<and> (\<forall>x \<in> set u. fits c x) \<and> matches_at re v)"
proof -
  show "matches_at [] tx" "matches_at [36] tx \<longleftrightarrow> tx = []"
    by (auto simp: matches_at_def)
  have e: "lang (elems (c # 42 # re)) = {u @ v | u v. (\<forall>x \<in> set u. fits c x) \<and> v \<in> lang (elems re)}"
    "End \<in> set (elems (c # 42 # re)) \<longleftrightarrow> End \<in> set (elems re)"
    by simp_all
  show "matches_at (c # 42 # re) tx \<longleftrightarrow> (\<exists>u v. tx = u @ v \<and> (\<forall>x \<in> set u. fits c x) \<and> matches_at re v)" (is "?l = ?r")
  proof
    assume ?l
    then obtain u w v where "tx = (u @ w) @ v" "\<forall>x \<in> set u. fits c x" "w \<in> lang (elems re)" "End \<in> set (elems re) \<longrightarrow> v = []"
      unfolding matches_at_def e by blast
    then show ?r
      unfolding matches_at_def by (intro exI [of _ u] exI [of _ "w @ v"]) auto
  next
    assume ?r
    then obtain u w v where "tx = u @ w @ v" "\<forall>x \<in> set u. fits c x" "w \<in> lang (elems re)" "End \<in> set (elems re) \<longrightarrow> v = []"
      unfolding matches_at_def by blast
    then show ?l
      unfolding matches_at_def e by (intro exI [of _ "u @ w"] exI [of _ v]) auto
  qed
qed

lemma matches_at_One:
  assumes "\<not> (re \<noteq> [] \<and> hd re = 42)" "\<not> (c = 36 \<and> re = [])"
  shows "matches_at (c # re) tx \<longleftrightarrow> (\<exists>x t. tx = x # t \<and> fits c x \<and> matches_at re t)"
proof -
  have "elems (c # re) = One c # elems re"
    using assms by (cases re) auto
  then have e: "lang (elems (c # re)) = {x # v | x v. fits c x \<and> v \<in> lang (elems re)}" "End \<in> set (elems (c # re)) \<longleftrightarrow> End \<in> set (elems re)"
    by auto
  show ?thesis
  proof
    assume "matches_at (c # re) tx"
    then obtain x w v where "tx = (x # w) @ v" "fits c x" "w \<in> lang (elems re)" "End \<in> set (elems re) \<longrightarrow> v = []"
      unfolding matches_at_def e by blast
    then show "\<exists>x t. tx = x # t \<and> fits c x \<and> matches_at re t"
      unfolding matches_at_def by auto
  next
    assume "\<exists>x t. tx = x # t \<and> fits c x \<and> matches_at re t"
    then obtain x w v where "tx = x # w @ v" "fits c x" "w \<in> lang (elems re)" "End \<in> set (elems re) \<longrightarrow> v = []"
      unfolding matches_at_def by blast
    then have "tx = (x # w) @ v" "x # w \<in> lang (elems (c # re))" "End \<in> set (elems re) \<longrightarrow> v = []"
      unfolding e by simp_all
    then show "matches_at (c # re) tx"
      unfolding matches_at_def e by blast
  qed
qed

lemma matcher_correct:
  "matchhere re tx \<longleftrightarrow> matches_at re tx"
  "matchstar c re tx \<longleftrightarrow> (\<exists>u v. tx = u @ v \<and> (\<forall>x \<in> set u. fits c x) \<and> matches_at re v)"
proof (induction re tx and c re tx rule: matchhere_matchstar.induct)
  case (1 tx)
  then show ?case by (simp add: matches_at_simps)
next
  case (2 c re tx)
  show ?case
  proof (cases "re \<noteq> [] \<and> hd re = 42")
    case True
    then obtain re' where "re = 42 # re'" by (cases re) auto
    then show ?thesis
      using 2(1) [OF True] by (simp add: matches_at_simps)
  next
    case star: False
    show ?thesis
    proof (cases "c = 36 \<and> re = []")
      case True
      then show ?thesis by (simp add: matches_at_simps)
    next
      case False
      then show ?thesis
        using 2(2) [OF star False] matches_at_One [OF star False] star by (cases tx) (auto simp: fits_def)
    qed
  qed
next
  case (3 c re tx)
  show ?case
  proof (cases "matchhere re tx")
    case True
    then have "matchstar c re tx"
      by (subst matchstar.simps) simp
    moreover have "tx = [] @ tx" "matches_at re tx"
      using True 3(1) by simp_all
    ultimately show ?thesis
      by fastforce
  next
    case no: False
    have stop: "\<not> matches_at re tx"
      using no 3(1) by simp
    show ?thesis
    proof (cases "tx \<noteq> [] \<and> (hd tx = c \<or> c = 46)")
      case True
      then obtain x t where tx: "tx = x # t" "fits c x"
        by (cases tx) (auto simp: fits_def)
      then have "matchstar c re tx = matchstar c re t"
        using no True by (subst matchstar.simps) simp
      moreover have "(\<exists>u v. tx = u @ v \<and> (\<forall>x \<in> set u. fits c x) \<and> matches_at re v) =
          (\<exists>u v. t = u @ v \<and> (\<forall>x \<in> set u. fits c x) \<and> matches_at re v)" (is "?l = ?r")
      proof
        assume ?l
        then obtain u v where uv: "tx = u @ v" "\<forall>x \<in> set u. fits c x" "matches_at re v" by blast
        then show ?r
          using stop tx by (cases u) auto
      next
        assume ?r
        then obtain u v where "t = u @ v" "\<forall>x \<in> set u. fits c x" "matches_at re v" by blast
        then show ?l
          using tx by (intro exI [of _ "x # u"] exI [of _ v]) simp
      qed
      ultimately show ?thesis
        using 3(2) [OF no True] tx by simp
    next
      case False
      have "matches_at re v \<Longrightarrow> tx = u @ v \<Longrightarrow> \<forall>x \<in> set u. fits c x \<Longrightarrow> False" for u v
        using stop False by (cases u) (auto simp: fits_def)
      then show ?thesis
        using no False by (subst matchstar.simps) auto
    qed
  qed
qed

lemma match_loop_iff: "match_loop re tx \<longleftrightarrow> (\<exists>u v. tx = u @ v \<and> matches_at re v)"
proof (induction tx)
  case (Cons c tx)
  have "(\<exists>u v. c # tx = u @ v \<and> matches_at re v) \<longleftrightarrow> matches_at re (c # tx) \<or> (\<exists>u v. tx = u @ v \<and> matches_at re v)"
    by (auto simp: Cons_eq_append_conv)
  then show ?case
    using Cons by (simp add: matcher_correct(1) del: matchhere.simps)
qed (simp add: matcher_correct(1) del: matchhere.simps)

text \<open>
  C28. The matcher of grep decides the meaning of the pattern: for every pattern and every text, match answers whether the text
  contains a piece that the elements of the pattern describe, at the start of the text if the pattern begins with a
  circumflex, up to its end if it ends with a dollar sign.
\<close>

theorem match_decides_pattern:
  "match re tx \<longleftrightarrow>
    (if re \<noteq> [] \<and> hd re = 94 then matches_at (tl re) tx else \<exists>u v. tx = u @ v \<and> matches_at re v)"
  by (simp add: match_def match_loop_iff matcher_correct(1))

section \<open>The lines of a file\<close>

text \<open>The complete lines of a text, without their newlines, and what follows the last newline.\<close>

primrec split_lines :: "u8 list \<Rightarrow> u8 list list \<times> u8 list" where
  "split_lines [] = ([], [])"
| "split_lines (c # cs) = (case split_lines cs of (ls, r) \<Rightarrow>
     if c = 10 then ([] # ls, r) else (case ls of [] \<Rightarrow> ([], c # r) | l # ls \<Rightarrow> ((c # l) # ls, r)))"

abbreviation full_lines :: "u8 list \<Rightarrow> u8 list list" where "full_lines cs \<equiv> fst (split_lines cs)"
abbreviation rest_line :: "u8 list \<Rightarrow> u8 list" where "rest_line cs \<equiv> snd (split_lines cs)"

lemma split_lines_none: "10 \<notin> set p \<Longrightarrow> split_lines p = ([], p)"
  by (induction p) auto

lemma split_lines_line: "10 \<notin> set l \<Longrightarrow> split_lines (l @ 10 # r) = (l # full_lines r, rest_line r)"
  by (induction l) (auto split: prod.splits)

lemma rest_line_free: "10 \<notin> set (rest_line p)"
  by (induction p) (auto split: prod.splits list.splits)

lemma rest_line_length: "length (rest_line p) \<le> length p"
  by (induction p) (auto split: prod.splits list.splits)

lemma rest_line_subset: "set (rest_line p) \<subseteq> set p"
  by (induction p) (auto split: prod.splits list.splits)

lemma rest_line_shorter: "10 \<in> set p \<Longrightarrow> length (rest_line p) < length p"
proof -
  assume "10 \<in> set p"
  then obtain l r where "p = l @ 10 # r" "10 \<notin> set l"
    by (metis split_list_first)
  then show ?thesis
    using split_lines_line [of l r] rest_line_length [of r] by simp
qed

lemma split_lines_append: "split_lines (p @ q) = (full_lines p @ full_lines (rest_line p @ q), rest_line (rest_line p @ q))"
proof (induction p)
  case (Cons c p)
  show ?case
  proof (cases "c = 10")
    case False
    have free: "10 \<notin> set (rest_line p)"
      by (rule rest_line_free)
    show ?thesis
      using Cons False by (cases "full_lines p") (auto split: prod.splits list.splits)
  qed (use Cons in \<open>auto split: prod.splits\<close>)
qed simp

lemma split_nl_cases:
  assumes "0 \<notin> set p"
  shows "split_nl p = (if 10 \<in> set p then Some (takeWhile (\<lambda>c. c \<noteq> 10) p, tl (dropWhile (\<lambda>c. c \<noteq> 10) p)) else None)"
    and "10 \<in> set p \<Longrightarrow> p = takeWhile (\<lambda>c. c \<noteq> 10) p @ 10 # tl (dropWhile (\<lambda>c. c \<noteq> 10) p)"
proof -
  have same: "takeWhile (\<lambda>c. c \<noteq> 0 \<and> c \<noteq> 10) p = takeWhile (\<lambda>c. c \<noteq> 10) p" "dropWhile (\<lambda>c. c \<noteq> 0 \<and> c \<noteq> 10) p = dropWhile (\<lambda>c. c \<noteq> 10) p"
    using assms by (auto intro: takeWhile_cong dropWhile_cong)
  have drop: "10 \<in> set p \<Longrightarrow> \<exists>r. dropWhile (\<lambda>c. c \<noteq> 10) p = 10 # r" "10 \<notin> set p \<Longrightarrow> dropWhile (\<lambda>c. c \<noteq> 10) p = []"
    by (induction p) auto
  show "split_nl p = (if 10 \<in> set p then Some (takeWhile (\<lambda>c. c \<noteq> 10) p, tl (dropWhile (\<lambda>c. c \<noteq> 10) p)) else None)"
  proof (cases "10 \<in> set p")
    case True
    then show ?thesis using drop(1) by (auto simp: split_nl_def same)
  next
    case False
    then show ?thesis unfolding split_nl_def same drop(2) [OF False] by simp
  qed
  show "10 \<in> set p \<Longrightarrow> p = takeWhile (\<lambda>c. c \<noteq> 10) p @ 10 # tl (dropWhile (\<lambda>c. c \<noteq> 10) p)"
    using drop(1) takeWhile_dropWhile_id [of "\<lambda>c. c \<noteq> 10" p] by (metis list.sel(3))
qed

definition show_lines :: "u8 list \<Rightarrow> u8 list list \<Rightarrow> u8 list" where
  "show_lines pattern ls = concat (map (\<lambda>l. l @ [10]) (filter (match pattern) ls))"

lemma grep_scan_lines:
  "0 \<notin> set p \<Longrightarrow> grep_scan file_calls pattern p (c, out) = (rest_line p, (c, out @ show_lines pattern (full_lines p)))"
proof (induction p arbitrary: out rule: length_induct)
  case (1 p)
  show ?case
  proof (cases "10 \<in> set p")
    case False
    then show ?thesis
      using split_nl_cases(1) [OF 1(2)] by (subst grep_scan.simps) (simp add: split_lines_none show_lines_def)
  next
    case True
    define l r where "l = takeWhile (\<lambda>c. c \<noteq> 10) p" and "r = tl (dropWhile (\<lambda>c. c \<noteq> 10) p)"
    have p: "p = l @ 10 # r"
      unfolding l_def r_def by (rule split_nl_cases(2) [OF 1(2) True])
    have "10 \<notin> set l"
      unfolding l_def by (auto dest: set_takeWhileD)
    then have split: "split_lines p = (l # full_lines r, rest_line r)"
      unfolding p by (rule split_lines_line)
    have nl: "split_nl p = Some (l, r)"
      using split_nl_cases(1) [OF 1(2)] True by (simp add: l_def r_def)
    have IH: "grep_scan file_calls pattern r (c, out') = (rest_line r, (c, out' @ show_lines pattern (full_lines r)))" for out'
      using 1 by (simp add: p)
    show ?thesis
      by (subst grep_scan.simps) (simp add: nl split IH show_lines_def)
  qed
qed

lemma long_line:
  assumes "10 \<notin> set p"
  shows "(\<exists>l \<in> set (full_lines (p @ q)). length p \<le> length l) \<or> length p \<le> length (rest_line (p @ q))"
proof (cases "10 \<in> set q")
  case True
  then obtain l r where "q = l @ 10 # r" "10 \<notin> set l"
    by (metis split_list_first)
  then show ?thesis
    using split_lines_line [of "p @ l" r] assms by simp
qed (use assms split_lines_none [of "p @ q"] in simp)

lemma grep_reads_file:
  assumes "0 \<notin> set (b @ c)" "10 \<notin> set b" "length b \<le> 1022"
    and "\<And>l. l \<in> set (full_lines (b @ c)) \<Longrightarrow> length l \<le> 1022" "length (rest_line (b @ c)) \<le> 1022"
  shows "grep file_calls pattern fd b (c, out) = Some ([], out @ show_lines pattern (full_lines (b @ c)))"
  using assms
proof (induction c arbitrary: b out rule: length_induct)
  case (1 c)
  let ?n = "1024 - length b - 1"
  let ?bs = "take ?n c" and ?c = "drop ?n c"
  let ?p = "rest_line (b @ ?bs)"
  show ?case
  proof (cases "c = []")
    case True
    then show ?thesis
      using 1(3) by (subst grep.simps) (simp add: split_lines_none show_lines_def)
  next
    case False
    then have bs: "?bs \<noteq> []"
      using 1(4) by simp
    have scan: "grep_scan file_calls pattern (b @ ?bs) (?c, out) = (?p, (?c, out @ show_lines pattern (full_lines (b @ ?bs))))"
      using 1(2) by (intro grep_scan_lines) (auto dest: in_set_takeD)
    have lines: "split_lines (b @ c) = (full_lines (b @ ?bs) @ full_lines (?p @ ?c), rest_line (?p @ ?c))"
      using split_lines_append [of "b @ ?bs" ?c] by simp
    have step: "grep file_calls pattern fd b (c, out) =
        grep file_calls pattern fd (if length ?p = length (b @ ?bs) then [] else ?p) (?c, out @ show_lines pattern (full_lines (b @ ?bs)))"
      using bs scan by (subst grep.simps) simp
    show ?thesis
    proof (cases "10 \<in> set (b @ ?bs)")
      case True
      then have p: "length ?p < length (b @ ?bs)"
        by (rule rest_line_shorter)
      moreover have "length (b @ ?bs) \<le> 1023"
        using 1(4) by simp
      moreover have "0 < length c"
        using False by simp
      then have "length ?c < length c"
        using 1(4) unfolding length_drop by linarith
      ultimately have "length ?p \<le> 1022" "length ?c < length c"
        by simp_all
      moreover have "set ?p \<subseteq> set (b @ ?bs)"
        by (rule rest_line_subset)
      then have "0 \<notin> set (?p @ ?c)"
        using 1(2) by (auto dest: in_set_takeD in_set_dropD)
      ultimately have "grep file_calls pattern fd ?p (?c, out') = Some ([], out' @ show_lines pattern (full_lines (?p @ ?c)))" for out'
        using 1(1,5,6) rest_line_free [of "b @ ?bs"] lines by auto
      then show ?thesis
        unfolding step using p lines by (simp add: show_lines_def)
    next
      case no: False
      then have p: "?p = b @ ?bs" "full_lines (b @ ?bs) = []"
        by (simp_all add: split_lines_none)
      have "length (b @ ?bs) \<le> 1022"
        using long_line [OF no, of ?c] 1(5,6) by fastforce
      then have c: "?c = []"
        using 1(4) by auto
      have "grep file_calls pattern fd [] ([], out) = Some ([], out)"
        by (subst grep.simps) simp
      then show ?thesis
        unfolding step using p lines c no by (simp add: show_lines_def split_lines_none)
    qed
  qed
qed

text \<open>
  C29. grep on a file prints exactly the matching lines. For every pattern and every file without NUL bytes whose lines
  have at most 1022 characters, the loop over read ends, and it writes the complete lines that match, each with
  its newline, in order, and nothing else.
\<close>

theorem grep_prints_matching_lines:
  assumes "0 \<notin> set c" and "\<And>l. l \<in> set (full_lines c) \<Longrightarrow> length l \<le> 1022" and "length (rest_line c) \<le> 1022"
  shows "grep file_calls pattern fd [] (c, out) = Some ([], out @ concat (map (\<lambda>l. l @ [10]) (filter (match pattern) (full_lines c))))"
  using grep_reads_file [of "[]" c] assms by (simp add: show_lines_def)

theorem grep_prints_matching_lines_witness:
  "grep file_calls (bytes ''b$'') 3 [] (bytes ''ab'' @ [10] @ bytes ''ba'' @ [10] @ bytes ''b'', []) = Some ([], bytes ''ab'' @ [10])"
proof -
  let ?c = "bytes ''ab'' @ [10] @ bytes ''ba'' @ [10] @ bytes ''b''"
  have m: "match (bytes ''b$'') (bytes ''ab'')" "\<not> match (bytes ''b$'') (bytes ''ba'')"
    by (simp_all add: match_def bytes_def of_char_def)
  have lines: "split_lines ?c = ([bytes ''ab'', bytes ''ba''], bytes ''b'')"
    by (simp add: bytes_def of_char_def)
  have short: "length l \<le> 1022" if "l \<in> set (full_lines ?c)" for l
    using that unfolding lines by (auto simp: bytes_def)
  have "0 \<notin> set ?c" "length (rest_line ?c) \<le> 1022"
    unfolding lines by (simp_all add: bytes_def of_char_def)
  from grep_prints_matching_lines [OF this(1) short this(2), of "bytes ''b$''" 3 "[]"] show ?thesis
    unfolding lines by (simp add: m)
qed

text \<open>
  C30. grep loses a line that arrives in pieces. When a read returns bytes without a newline, as a pipe or a slow terminal
  may, the loop throws them away, whatever follows: the output is the same as if they had never been there.
\<close>

theorem grep_drops_partial_line:
  assumes "c \<noteq> []" and "length c \<le> 1023" and "10 \<notin> set c"
  shows "grep chunk_calls pattern fd [] (c # cs, out) = grep chunk_calls pattern fd [] (cs, out)"
proof -
  have "split_nl c = None"
  proof (cases "dropWhile (\<lambda>c. c \<noteq> 0 \<and> c \<noteq> 10) c")
    case (Cons h r)
    then have "h \<in> set c"
      by (metis list.set_intros(1) set_dropWhileD)
    then have "h \<noteq> 10"
      using assms(3) by blast
    then show ?thesis
      by (simp add: split_nl_def Cons)
  next
    case Nil
    show ?thesis unfolding split_nl_def Nil by simp
  qed
  then have "grep_scan chunk_calls pattern c (cs, out) = (c, (cs, out))"
    by (subst grep_scan.simps) simp
  then show ?thesis
    using assms by (subst grep.simps) simp
qed

theorem grep_drops_partial_line_witness:
  "match (bytes ''a'') (bytes ''ab'') \<and> grep chunk_calls (bytes ''a'') 0 [] ([bytes ''a'', bytes ''b'' @ [10]], []) = Some ([], [])"
proof -
  have "grep chunk_calls (bytes ''a'') 0 [] ([bytes ''b'' @ [10]], []) = Some ([], [])"
    by (subst grep.simps, subst grep_scan.simps, simp add: split_nl_def bytes_def of_char_def match_def)
      (subst grep_scan.simps, simp add: split_nl_def, subst grep.simps, simp)
  then show ?thesis
    using grep_drops_partial_line [of "bytes ''a''" "bytes ''a''" 0 "[bytes ''b'' @ [10]]" "[]"]
    by (simp add: bytes_def of_char_def match_def)
qed

end
