(* ===== verification/Ulib.thy ===== *)
theory Ulib
  imports Ucalls Kstring
begin

text \<open>
  The user library (ulib.c): the string routines on the memory of the process, with fuel where a loop
  stops at a NUL byte, and the routines that read or convert, on byte lists.
\<close>

section \<open>Strings in memory\<close>

fun ustrcpy :: "nat \<Rightarrow> mem \<Rightarrow> u32 \<Rightarrow> u32 \<Rightarrow> mem option" where
  "ustrcpy 0 m s t = None"
| "ustrcpy (Suc fuel) m s t = (let m' = m(s := m t) in if m' s \<noteq> 0 then ustrcpy fuel m' (s + 1) (t + 1) else Some m')"

fun ustrcmp :: "nat \<Rightarrow> mem \<Rightarrow> u32 \<Rightarrow> u32 \<Rightarrow> int option" where
  "ustrcmp 0 m p q = None"
| "ustrcmp (Suc fuel) m p q = (if m p \<noteq> 0 \<and> m p = m q then ustrcmp fuel m (p + 1) (q + 1) else Some (uint (m p) - uint (m q)))"

fun ustrlen :: "nat \<Rightarrow> mem \<Rightarrow> u32 \<Rightarrow> nat option" where
  "ustrlen 0 m s = None"
| "ustrlen (Suc fuel) m s = (if m s \<noteq> 0 then map_option Suc (ustrlen fuel m (s + 1)) else Some 0)"

definition umemset :: "mem \<Rightarrow> u32 \<Rightarrow> u32 \<Rightarrow> u32 \<Rightarrow> mem" where
  "umemset m dst c n = stosb m dst c (unat n)"

fun ustrchr :: "nat \<Rightarrow> mem \<Rightarrow> u32 \<Rightarrow> u8 \<Rightarrow> u32 option" where
  "ustrchr 0 m s c = None"
| "ustrchr (Suc fuel) m s c = (if m s = 0 then Some 0 else if m s = c then Some s else ustrchr fuel m (s + 1) c)"

text \<open>memmove of the user library copies upwards whatever the overlap.\<close>

definition umemmove :: "mem \<Rightarrow> u32 \<Rightarrow> u32 \<Rightarrow> int \<Rightarrow> mem" where
  "umemmove m dst src n = move_up m dst src (nat n)"

section \<open>Reading and converting\<close>

fun gets_loop :: "'w calls \<Rightarrow> nat \<Rightarrow> u8 list \<Rightarrow> 'w \<Rightarrow> u8 list \<times> 'w" where
  "gets_loop os 0 buf w = (buf, w)"
| "gets_loop os (Suc n) buf w =
     (case u_read os 0 1 w of (r, w) \<Rightarrow>
      (case r of Some (c # _) \<Rightarrow> if c = 10 \<or> c = 13 then (buf @ [c], w) else gets_loop os n (buf @ [c]) w
       | _ \<Rightarrow> (buf, w)))"

definition gets :: "'w calls \<Rightarrow> int \<Rightarrow> 'w \<Rightarrow> u8 list \<times> 'w" where
  "gets os n w = gets_loop os (nat (n - 1)) [] w"

definition ustat :: "'w calls \<Rightarrow> u8 list \<Rightarrow> 'w \<Rightarrow> u8 list option \<times> 'w" where
  "ustat os n w =
     (case u_open os n 0 w of (fd, w) \<Rightarrow>
      if fd < 0 then (None, w)
      else case u_fstat os fd w of (r, w) \<Rightarrow> (r, snd (u_close os fd w)))"

text \<open>atoi; the arithmetic is that of 32-bit integers.\<close>

fun atoi_loop :: "u32 \<Rightarrow> u8 list \<Rightarrow> u32" where
  "atoi_loop n [] = n"
| "atoi_loop n (c # s) = (if 48 \<le> c \<and> c \<le> 57 then atoi_loop (n * 10 + ucast c - 48) s else n)"

definition atoi :: "u8 list \<Rightarrow> u32" where
  "atoi s = atoi_loop 0 s"

section \<open>Numbers survive being printed and read\<close>

lemma decimal_digit: "k < 10 \<Longrightarrow> (48 :: u8) \<le> of_char (udigits ! k) \<and> of_char (udigits ! k) \<le> (57 :: u8) \<and>
    ucast (of_char (udigits ! k) :: u8) - 48 = (of_nat k :: u32)"
proof -
  assume "k < 10"
  moreover have "\<forall>k \<in> set [0..<10]. (48 :: u8) \<le> of_char (udigits ! k) \<and> of_char (udigits ! k) \<le> (57 :: u8) \<and>
    ucast (of_char (udigits ! k) :: u8) - 48 = (of_nat k :: u32)"
    by (simp add: upt_conv_Cons of_char_def)
  ultimately show ?thesis by simp
qed

lemma atoi_snoc: "(\<And>c. c \<in> set s \<Longrightarrow> 48 \<le> c \<and> c \<le> 57) \<Longrightarrow> 48 \<le> c \<Longrightarrow> c \<le> 57 \<Longrightarrow>
    atoi_loop n (s @ [c]) = atoi_loop n s * 10 + ucast c - 48"
  by (induction s arbitrary: n) auto

lemma atoi_digits: "atoi_loop 0 (rev (digits_rev udigits 10 x)) = of_nat x"
proof (induction x rule: less_induct)
  case (less x)
  have d: "(48 :: u8) \<le> of_char (udigits ! (x mod 10))" "of_char (udigits ! (x mod 10)) \<le> (57 :: u8)"
    "ucast (of_char (udigits ! (x mod 10)) :: u8) - 48 = (of_nat (x mod 10) :: u32)"
    using decimal_digit [of "x mod 10"] by simp_all
  have chars: "48 \<le> c \<and> c \<le> 57" if "c \<in> set (digits_rev udigits 10 y)" for c y
    using digits_rev_chars [OF that] decimal_digit by auto
  show ?case
  proof (cases "x div 10 = 0")
    case True
    then show ?thesis
      using d by (subst digits_rev.simps) (simp add: div_eq_0_iff)
  next
    case False
    have "of_nat x = (of_nat (x div 10) * 10 + of_nat (x mod 10) :: u32)"
      by (metis div_mult_mod_eq of_nat_add of_nat_mult of_nat_numeral)
    moreover have "atoi_loop 0 (rev (digits_rev udigits 10 (x div 10))) = of_nat (x div 10)"
      using less.IH False by simp
    moreover have "atoi_loop 0 (rev (digits_rev udigits 10 (x div 10)) @ [of_char (udigits ! (x mod 10))]) =
        atoi_loop 0 (rev (digits_rev udigits 10 (x div 10))) * 10 + (ucast (of_char (udigits ! (x mod 10)) :: u8) - 48)"
      unfolding add_diff_eq by (rule atoi_snoc [OF _ d(1,2)]) (simp add: chars)
    ultimately show ?thesis
      using False by (subst digits_rev.simps) (simp add: d(3))
  qed
qed

text \<open>
  C31. A number printed with \<open>%d\<close> and read with atoi is the same number: for every non-negative 32-bit value, atoi of the
  characters that printf prints gives the value back, as \<open>kill\<close> relies on for process ids.
\<close>

theorem atoi_reads_printint:
  assumes "0 \<le> sint xx"
  shows "atoi (rev (printint_buf udigits xx 10 True)) = xx"
  using assms atoi_digits [of "unat xx"] by (simp add: printint_buf_def atoi_def)

theorem atoi_reads_printint_witness: "atoi (rev (printint_buf udigits 2025 10 True)) = 2025"
proof -
  have "(0::int) \<le> sint (2025 :: u32)" by simp
  then show ?thesis by (rule atoi_reads_printint)
qed

end
