(* ===== verification/Uprogs.thy ===== *)
theory Uprogs
  imports Ulib Klog "HOL-Library.Monad_Syntax"
begin

text \<open>
  The small user programs: cat, wc, echo, kill, ln, mkdir, rm, ls, zombie, init, and the clients of the
  flight recorder and of the process statistics, klogs and sysdash. A routine that may call exit returns
  \<open>Inl\<close> of the world it exits in, else \<open>Inr\<close>; \<open>None\<close> is a run that does not end.
\<close>

abbreviation (input) nl :: string where "nl \<equiv> [CHR 0x0A]"

definition print_exit :: "'w calls \<Rightarrow> int \<Rightarrow> string \<Rightarrow> parg list \<Rightarrow> 'w \<Rightarrow> ('w + 'w) option" where
  "print_exit os fd fmt args w = map_option Inl (uprintf os fd fmt args w)"

text \<open>A loop over the file arguments of a program, which ends early when the body exits.\<close>

fun each_arg :: "('i \<Rightarrow> 'w \<Rightarrow> ('w + 'w) option) \<Rightarrow> 'i list \<Rightarrow> 'w \<Rightarrow> 'w option" where
  "each_arg f [] w = Some w"
| "each_arg f (a # as) w = do { r \<leftarrow> f a w; case r of Inl w \<Rightarrow> Some w | Inr w \<Rightarrow> each_arg f as w }"

definition exited :: "('w + 'w) option \<Rightarrow> 'w option" where
  "exited r = map_option (case_sum id id) r"

section \<open>cat\<close>

partial_function (option) cat :: "'w calls \<Rightarrow> int \<Rightarrow> 'w \<Rightarrow> ('w + 'w) option" where
  "cat os fd w =
     (case u_read os fd 512 w of (r, w) \<Rightarrow>
      (case r of None \<Rightarrow> print_exit os 1 (''cat: read error'' @ nl) [] w
       | Some bs \<Rightarrow>
         if bs = [] then Some (Inr w)
         else (case u_write os 1 bs w of (k, w) \<Rightarrow>
           if k \<noteq> int (length bs) then print_exit os 1 (''cat: write error'' @ nl) [] w else cat os fd w)))"

definition cat_main :: "'w calls \<Rightarrow> u8 list list \<Rightarrow> 'w \<Rightarrow> 'w option" where
  "cat_main os argv w =
     (if length argv \<le> 1 then exited (cat os 0 w)
      else each_arg (\<lambda>name w. case u_open os name 0 w of (fd, w) \<Rightarrow>
        if fd < 0 then print_exit os 1 (''cat: cannot open %s'' @ nl) [PStr (Some name)] w
        else do { r \<leftarrow> cat os fd w; Some (case r of Inl w \<Rightarrow> Inl w | Inr w \<Rightarrow> Inr (snd (u_close os fd w))) }) (tl argv) w)"

section \<open>wc\<close>

record wc_counts =
  wc_l :: u32
  wc_w :: u32
  wc_c :: u32
  inword :: bool

text \<open>strchr in the string of blanks, which ends at its NUL.\<close>

definition blank :: "u8 \<Rightarrow> bool" where
  "blank c \<longleftrightarrow> c \<in> {32, 13, 9, 10, 11}"

definition wc_byte :: "u8 \<Rightarrow> wc_counts \<Rightarrow> wc_counts" where
  "wc_byte b k =
     (let k = k\<lparr>wc_c := wc_c k + 1\<rparr>;
          k = (if b = 10 then k\<lparr>wc_l := wc_l k + 1\<rparr> else k)
      in if blank b then k\<lparr>inword := False\<rparr>
         else if \<not> inword k then k\<lparr>wc_w := wc_w k + 1, inword := True\<rparr> else k)"

partial_function (option) wc_loop :: "'w calls \<Rightarrow> int \<Rightarrow> wc_counts \<Rightarrow> 'w \<Rightarrow> (wc_counts option \<times> 'w) option" where
  "wc_loop os fd k w =
     (case u_read os fd 512 w of (r, w) \<Rightarrow>
      (case r of None \<Rightarrow> Some (None, w)
       | Some bs \<Rightarrow> if bs = [] then Some (Some k, w) else wc_loop os fd (fold wc_byte bs k) w))"

definition wc :: "'w calls \<Rightarrow> int \<Rightarrow> u8 list \<Rightarrow> 'w \<Rightarrow> ('w + 'w) option" where
  "wc os fd name w = do {
     (r, w) \<leftarrow> wc_loop os fd \<lparr>wc_l = 0, wc_w = 0, wc_c = 0, inword = False\<rparr> w;
     case r of None \<Rightarrow> print_exit os 1 (''wc: read error'' @ nl) [] w
     | Some k \<Rightarrow> map_option Inr (uprintf os 1 (''%d %d %d %s'' @ nl) [PInt (wc_l k), PInt (wc_w k), PInt (wc_c k), PStr (Some name)] w) }"

definition wc_main :: "'w calls \<Rightarrow> u8 list list \<Rightarrow> 'w \<Rightarrow> 'w option" where
  "wc_main os argv w =
     (if length argv \<le> 1 then exited (wc os 0 [] w)
      else each_arg (\<lambda>name w. case u_open os name 0 w of (fd, w) \<Rightarrow>
        if fd < 0 then print_exit os 1 (''wc: cannot open %s'' @ nl) [PStr (Some name)] w
        else do { r \<leftarrow> wc os fd name w; Some (case r of Inl w \<Rightarrow> Inl w | Inr w \<Rightarrow> Inr (snd (u_close os fd w))) }) (tl argv) w)"

section \<open>Programs of one call per argument\<close>

fun echo_args :: "'w calls \<Rightarrow> u8 list list \<Rightarrow> 'w \<Rightarrow> 'w option" where
  "echo_args os [] w = Some w"
| "echo_args os (a # as) w = do {
     w \<leftarrow> uprintf os 1 ''%s%s'' [PStr (Some a), PStr (Some (if as \<noteq> [] then [32] else [10]))] w;
     echo_args os as w }"

definition echo_main :: "'w calls \<Rightarrow> u8 list list \<Rightarrow> 'w \<Rightarrow> 'w option" where
  "echo_main os argv w = echo_args os (tl argv) w"

definition kill_main :: "'w calls \<Rightarrow> u8 list list \<Rightarrow> 'w \<Rightarrow> 'w option" where
  "kill_main os argv w =
     (if length argv < 2 then uprintf os 2 (''usage: kill pid...'' @ nl) [] w
      else Some (fold (\<lambda>a w. snd (u_num os ''kill'' [sint (atoi a)] w)) (tl argv) w))"

definition ln_main :: "'w calls \<Rightarrow> u8 list list \<Rightarrow> 'w \<Rightarrow> 'w option" where
  "ln_main os argv w =
     (if length argv \<noteq> 3 then uprintf os 2 (''Usage: ln old new'' @ nl) [] w
      else case u_name os ''link'' [argv ! 1, argv ! 2] w of (r, w) \<Rightarrow>
        if r < 0 then uprintf os 2 (''link %s %s: failed'' @ nl) [PStr (Some (argv ! 1)), PStr (Some (argv ! 2))] w else Some w)"

text \<open>mkdir and rm stop at the first argument that fails.\<close>

definition mkdir_main :: "'w calls \<Rightarrow> u8 list list \<Rightarrow> 'w \<Rightarrow> 'w option" where
  "mkdir_main os argv w =
     (if length argv < 2 then uprintf os 2 (''Usage: mkdir files...'' @ nl) [] w
      else each_arg (\<lambda>a w. case u_name os ''mkdir'' [a] w of (r, w) \<Rightarrow>
        if r < 0 then print_exit os 2 (''mkdir: %s failed to create'' @ nl) [PStr (Some a)] w else Some (Inr w)) (tl argv) w)"

definition rm_main :: "'w calls \<Rightarrow> u8 list list \<Rightarrow> 'w \<Rightarrow> 'w option" where
  "rm_main os argv w =
     (if length argv < 2 then uprintf os 2 (''Usage: rm files...'' @ nl) [] w
      else each_arg (\<lambda>a w. case u_name os ''unlink'' [a] w of (r, w) \<Rightarrow>
        if r < 0 then print_exit os 2 (''rm: %s failed to delete'' @ nl) [PStr (Some a)] w else Some (Inr w)) (tl argv) w)"

section \<open>ls\<close>

text \<open>The last component of a path, padded with blanks to \<open>DIRSIZ\<close> if it is shorter.\<close>

definition fmtname :: "u8 list \<Rightarrow> u8 list" where
  "fmtname path =
     (let p = rev (takeWhile (\<lambda>c. c \<noteq> 47) (rev path))
      in if length p \<ge> 14 then p else p @ replicate (14 - length p) 32)"

definition ls_line :: "'w calls \<Rightarrow> u8 list \<Rightarrow> u8 list \<Rightarrow> 'w \<Rightarrow> 'w option" where
  "ls_line os path st w =
     uprintf os 1 (''%s %d %d %d'' @ nl) [PStr (Some (fmtname path)), PInt (scast (ld16 st 0)), PInt (ld32 st 8), PInt (ld32 st 16)] w"

partial_function (option) ls_dir :: "'w calls \<Rightarrow> u8 list \<Rightarrow> int \<Rightarrow> 'w \<Rightarrow> 'w option" where
  "ls_dir os path fd w =
     (case u_read os fd 16 w of (r, w) \<Rightarrow>
      (case r of None \<Rightarrow> Some w
       | Some de \<Rightarrow>
         if length de \<noteq> 16 then Some w
         else if ld16 de 0 = 0 then ls_dir os path fd w
         else let buf = path @ [47] @ takeWhile (\<lambda>c. c \<noteq> 0) (drop 2 de)
         in (case ustat os buf w of (st, w) \<Rightarrow>
           (case st of
              None \<Rightarrow> do { w \<leftarrow> uprintf os 1 (''ls: cannot stat %s'' @ nl) [PStr (Some buf)] w; ls_dir os path fd w }
            | Some st \<Rightarrow> do { w \<leftarrow> ls_line os buf st w; ls_dir os path fd w }))))"

definition ls :: "'w calls \<Rightarrow> u8 list \<Rightarrow> 'w \<Rightarrow> 'w option" where
  "ls os path w =
     (case u_open os path 0 w of (fd, w) \<Rightarrow>
      if fd < 0 then uprintf os 2 (''ls: cannot open %s'' @ nl) [PStr (Some path)] w
      else case u_fstat os fd w of (st, w) \<Rightarrow>
        (case st of
           None \<Rightarrow> map_option (\<lambda>w. snd (u_close os fd w)) (uprintf os 2 (''ls: cannot stat %s'' @ nl) [PStr (Some path)] w)
         | Some st \<Rightarrow> map_option (\<lambda>w. snd (u_close os fd w))
             (if ld16 st 0 = 2 then ls_line os path st w
              else if ld16 st 0 = 1 then
                (if length path + 1 + 14 + 1 > 512 then uprintf os 1 (''ls: path too long'' @ nl) [] w else ls_dir os path fd w)
              else Some w)))"

definition ls_main :: "'w calls \<Rightarrow> u8 list list \<Rightarrow> 'w \<Rightarrow> 'w option" where
  "ls_main os argv w =
     (if length argv < 2 then ls os [46] w else each_arg (\<lambda>a w. map_option Inr (ls os a w)) (tl argv) w)"

section \<open>zombie and init\<close>

definition zombie_main :: "'w calls \<Rightarrow> 'w \<Rightarrow> 'w" where
  "zombie_main os w = (case u_num os ''fork'' [] w of (pid, w) \<Rightarrow> if pid > 0 then snd (u_num os ''sleep'' [5] w) else w)"

text \<open>Wait for the shell; any other child that ends is a zombie that was handed to init.\<close>

partial_function (option) init_wait :: "'w calls \<Rightarrow> int \<Rightarrow> 'w \<Rightarrow> 'w option" where
  "init_wait os pid w =
     (case u_num os ''wait'' [] w of (wpid, w) \<Rightarrow>
      if wpid \<ge> 0 \<and> wpid \<noteq> pid then do { w \<leftarrow> uprintf os 1 (''zombie!'' @ nl) [] w; init_wait os pid w } else Some w)"

partial_function (option) init_loop :: "'w calls \<Rightarrow> 'w \<Rightarrow> 'w option" where
  "init_loop os w = do {
     w \<leftarrow> uprintf os 1 (''init: starting sh'' @ nl) [] w;
     (case u_num os ''fork'' [] w of (pid, w) \<Rightarrow>
      if pid < 0 then uprintf os 1 (''init: fork failed'' @ nl) [] w
      else if pid = 0 then
        (case u_exec os (bytes ''sh'') [bytes ''sh''] w of (replaced, w) \<Rightarrow>
         if replaced then Some w else uprintf os 1 (''init: exec sh failed'' @ nl) [] w)
      else do { w \<leftarrow> init_wait os pid w; init_loop os w }) }"

definition init_main :: "'w calls \<Rightarrow> 'w \<Rightarrow> 'w option" where
  "init_main os w =
     (case u_open os (bytes ''console'') 2 w of (fd, w) \<Rightarrow>
      let w = (if fd < 0 then snd (u_open os (bytes ''console'') 2 (snd (u_num os ''mknod console'' [1, 1] w))) else w)
      in init_loop os (snd (u_num os ''dup'' [0] (snd (u_num os ''dup'' [0] w)))))"

section \<open>klogs and sysdash\<close>

text \<open>
  The calls getklogs, getkernelstats and getprocstats are declared nowhere in the sources, so they are arguments:
  the entries or records they store, or \<open>None\<close> for -1. \<open>entries\<close> says whether malloc gave memory.
\<close>

definition event_name :: "int \<Rightarrow> string" where
  "event_name ty = (if 0 \<le> ty \<and> ty < 5 then [''SYSCALL'', ''TRAP'', ''FORK'', ''EXIT'', ''SCHED''] ! nat ty else ''UNKNOWN'')"

definition klogs_line :: "'w calls \<Rightarrow> logentry \<Rightarrow> 'w \<Rightarrow> ('w + 'w) option" where
  "klogs_line os e w = map_option Inr (uprintf os 1 (''%d | %s | %d | %d'' @ nl)
     [PInt (timestamp e), PStr (Some (bytes (event_name (event_type e)))), PInt (of_int (le_pid e)), PInt (of_int (extra e))] w)"

definition klogs_main :: "'w calls \<Rightarrow> bool \<Rightarrow> (nat \<Rightarrow> 'w \<Rightarrow> logentry list option \<times> 'w) \<Rightarrow> 'w \<Rightarrow> 'w option" where
  "klogs_main os entries getklogs w =
     (if \<not> entries then uprintf os 1 (''klogs: out of memory'' @ nl) [] w
      else case getklogs 256 w of (r, w) \<Rightarrow>
        (case r of None \<Rightarrow> uprintf os 1 (''klogs: failed to get kernel logs'' @ nl) [] w
         | Some es \<Rightarrow> do {
             w \<leftarrow> uprintf os 1 (nl @ ''========== Kernel Flight Recorder =========='' @ nl) [] w;
             w \<leftarrow> uprintf os 1 (''Total entries: %d'' @ nl @ nl) [PInt (of_nat (length es))] w;
             w \<leftarrow> uprintf os 1 (''Time  | Event      | PID  | Info'' @ nl) [] w;
             w \<leftarrow> uprintf os 1 (''------|------------|------|-----'' @ nl) [] w;
             each_arg (klogs_line os) es w }))"

record kstat =
  ks_uptime :: u32
  ks_cputemp :: u32
  ks_cpuload :: u32
  ks_numproc :: u32

record pstat =
  ps_pid :: u32
  ps_name :: "u8 list"
  ps_state :: "u8 list"
  ps_sz :: u32

definition sysdash_line :: "'w calls \<Rightarrow> pstat \<Rightarrow> 'w \<Rightarrow> ('w + 'w) option" where
  "sysdash_line os p w = map_option Inr (uprintf os 1 (''%d | %s | %s | %d'' @ nl)
     [PInt (ps_pid p), PStr (Some (ps_name p)), PStr (Some (ps_state p)), PInt (ps_sz p)] w)"

definition sysdash_main :: "'w calls \<Rightarrow> ('w \<Rightarrow> kstat option \<times> 'w) \<Rightarrow> (nat \<Rightarrow> 'w \<Rightarrow> pstat list option \<times> 'w) \<Rightarrow> 'w \<Rightarrow> 'w option" where
  "sysdash_main os getkernelstats getprocstats w =
     (case getkernelstats w of (k, w) \<Rightarrow>
      (case k of None \<Rightarrow> uprintf os 2 (''Error getting kernel stats'' @ nl) [] w
       | Some ks \<Rightarrow> (case getprocstats 64 w of (r, w) \<Rightarrow>
         (case r of None \<Rightarrow> uprintf os 2 (''Error getting process stats'' @ nl) [] w
          | Some ps \<Rightarrow> do {
              w \<leftarrow> uprintf os 1 (nl @ ''========== xv6 System Dashboard =========='' @ nl) [] w;
              w \<leftarrow> uprintf os 1 (''Uptime: %d ticks | CPU Temp: %d C | CPU Load: %d%%'' @ nl) [PInt (ks_uptime ks), PInt (ks_cputemp ks), PInt (ks_cpuload ks)] w;
              w \<leftarrow> uprintf os 1 (''Active Processes: %d'' @ nl) [PInt (ks_numproc ks)] w;
              w \<leftarrow> uprintf os 1 (''=========================================='' @ nl @ nl) [] w;
              w \<leftarrow> uprintf os 1 (''PID | Name       | State     | Memory'' @ nl) [] w;
              w \<leftarrow> uprintf os 1 (''----+------------+-----------+--------'' @ nl) [] w;
              w \<leftarrow> each_arg (sysdash_line os) ps w;
              w \<leftarrow> uprintf os 1 nl [] w;
              if sint (ks_cputemp ks) > 80 then uprintf os 1 (''WARNING: CPU temperature high!'' @ nl) [] w else Some w }))))"

section \<open>What cat and wc do to a file\<close>

lemma putc_file [simp]: "putc file_calls fd b (c, out) = (c, out @ [b])"
  by (simp add: putc_def)

lemma fold_putc_file [simp]: "fold (putc file_calls fd) bs (c, out) = (c, out @ bs)"
  by (induction bs arbitrary: out) simp_all

lemma uprintint_file [simp]: "uprintint file_calls fd n base b (c, out) = (c, out @ rev (printint_buf udigits n base b))"
  by (simp add: uprintint_def)

lemma cat_file: "cat file_calls fd (c, out) = Some (Inr ([], out @ c))"
proof (induction c arbitrary: out rule: length_induct)
  case (1 c)
  show ?case
  proof (cases "c = []")
    case False
    then have "cat file_calls fd (drop 512 c, out @ take 512 c) = Some (Inr ([], (out @ take 512 c) @ drop 512 c))"
      using 1 by (metis diff_less length_drop length_greater_0_conv zero_less_numeral)
    then show ?thesis
      using False by (subst cat.simps) simp
  qed (subst cat.simps, simp)
qed

text \<open>The counts of wc, said without its loop.\<close>

definition word_starts :: "u8 list \<Rightarrow> nat" where
  "word_starts c = length (filter (\<lambda>i. \<not> blank (c ! i) \<and> (i = 0 \<or> blank (c ! (i - 1)))) [0..<length c])"

definition newlines :: "u8 list \<Rightarrow> nat" where
  "newlines c = length (filter (\<lambda>b. b = 10) c)"

definition wc_of :: "u8 list \<Rightarrow> wc_counts" where
  "wc_of c = \<lparr>wc_l = of_nat (newlines c), wc_w = of_nat (word_starts c), wc_c = of_nat (length c), inword = (c \<noteq> [] \<and> \<not> blank (last c))\<rparr>"

lemma word_starts_snoc: "word_starts (c @ [b]) = word_starts c + (if \<not> blank b \<and> (c = [] \<or> blank (last c)) then 1 else 0)"
proof -
  have "filter (\<lambda>i. \<not> blank ((c @ [b]) ! i) \<and> (i = 0 \<or> blank ((c @ [b]) ! (i - 1)))) [0..<length c] =
      filter (\<lambda>i. \<not> blank (c ! i) \<and> (i = 0 \<or> blank (c ! (i - 1)))) [0..<length c]"
    by (rule filter_cong) (auto simp: nth_append)
  moreover have "c \<noteq> [] \<Longrightarrow> (c @ [b]) ! (length c - 1) = last c"
    by (simp add: nth_append last_conv_nth)
  ultimately show ?thesis
    unfolding word_starts_def by (cases "c = []") simp_all
qed

lemma wc_byte_snoc: "wc_byte b (wc_of c) = wc_of (c @ [b])"
proof -
  have "blank 10" by (simp add: blank_def)
  then show ?thesis
    using word_starts_snoc [of "[]" b] by (cases "b = 10"; cases "c = []"; cases "blank b") (simp_all add: wc_byte_def wc_of_def word_starts_snoc newlines_def Let_def)
qed

lemma fold_wc_byte: "fold wc_byte bs (wc_of c) = wc_of (c @ bs)"
  by (induction bs arbitrary: c) (simp_all add: wc_byte_snoc)

lemma wc_loop_file: "wc_loop file_calls fd (wc_of d) (c, out) = Some (Some (wc_of (d @ c)), ([], out))"
proof (induction c arbitrary: d rule: length_induct)
  case (1 c)
  show ?case
  proof (cases "c = []")
    case False
    then have "wc_loop file_calls fd (wc_of (d @ take 512 c)) (drop 512 c, out) = Some (Some (wc_of ((d @ take 512 c) @ drop 512 c)), ([], out))"
      using 1 by (metis diff_less length_drop length_greater_0_conv zero_less_numeral)
    then show ?thesis
      using False by (subst wc_loop.simps) (simp add: fold_wc_byte)
  qed (subst wc_loop.simps, simp)
qed

text \<open>
  C34. cat copies a file to its output, byte for byte, whatever its size, and ends.
\<close>

theorem cat_copies_file: "cat_main file_calls [prog, name] (c, out) = Some ([], out @ c)"
  by (simp add: cat_main_def cat_file)

text \<open>
  C33. wc prints the number of newlines, of words and of bytes of a file, in this order: a word is counted where a byte that is
  not blank follows a blank or begins the file.
\<close>

theorem wc_counts_file:
  "wc_main file_calls [prog, name] (c, out) = Some ([], out @
     rev (printint_buf udigits (of_nat (newlines c)) 10 True) @ [32] @ rev (printint_buf udigits (of_nat (word_starts c)) 10 True) @ [32] @
     rev (printint_buf udigits (of_nat (length c)) 10 True) @ [32] @ name @ [10])"
proof -
  have start: "\<lparr>wc_l = 0, wc_w = 0, wc_c = 0, inword = False\<rparr> = wc_of []"
    by (simp add: wc_of_def newlines_def word_starts_def)
  have "wc file_calls 3 name (c, out) = Some (Inr ([], out @
     rev (printint_buf udigits (of_nat (newlines c)) 10 True) @ [32] @ rev (printint_buf udigits (of_nat (word_starts c)) 10 True) @ [32] @
     rev (printint_buf udigits (of_nat (length c)) 10 True) @ [32] @ name @ [10]))"
    unfolding wc_def start wc_loop_file by (simp add: uprintf_def bytes_def of_char_def wc_of_def)
  then show ?thesis
    by (simp add: wc_main_def)
qed

end
