(* ===== verification/Sh.thy ===== *)
theory Sh
  imports Ulib "HOL-Library.Monad_Syntax"
begin

text \<open>
  The shell (sh.c): the parser, which builds a tree over the text of the line, and runcmd, which runs the tree. A pointer into
  the line is its index. A parser routine takes the rest of the line from \<open>*ps\<close> to \<open>es\<close>, which holds no NUL, and the
  length \<open>n\<close> of the line, from which the indices follow; it returns the rest that is left in \<open>*ps\<close>. panic is
  \<open>Inl (Failed msg)\<close>. The recursion of the grammar has fuel; \<open>Inl No_fuel\<close> never happens with the fuel of parsecmd.
  A node of the tree is never missing: malloc is taken to succeed, as in the code, which does not check it.
\<close>

section \<open>Commands\<close>

datatype 'a cmd =
    EXEC "'a list"
  | REDIR "'a cmd" 'a int int
  | PIPE "'a cmd" "'a cmd"
  | LIST "'a cmd" "'a cmd"
  | BACK "'a cmd"

abbreviation (input) MAXARGS :: nat where "MAXARGS \<equiv> 10"
abbreviation (input) O_RDONLY :: int where "O_RDONLY \<equiv> 0"
abbreviation (input) O_WRONLY_CREATE :: int where "O_WRONLY_CREATE \<equiv> 0x201"

datatype sherr = No_fuel | Failed string

section \<open>Tokens\<close>

definition whitespace :: "u8 list" where
  "whitespace = [32, 9, 13, 10, 11]"

definition symbols :: "u8 list" where
  "symbols = bytes ''<|>&;()''"

definition skip_ws :: "u8 list \<Rightarrow> u8 list" where
  "skip_ws s = dropWhile (\<lambda>c. c \<in> set whitespace) s"

text \<open>
  gettoken gives the kind of the token, a for a word, + for two greater signs, 0 at the end, and the indices where it
  begins and ends. \<open>scan_token\<close> is its switch.
\<close>

definition in_word :: "u8 \<Rightarrow> bool" where
  "in_word c \<longleftrightarrow> c \<notin> set whitespace \<and> c \<notin> set symbols"

fun scan_token :: "u8 list \<Rightarrow> u8 \<times> u8 list" where
  "scan_token [] = (0, [])"
| "scan_token (c # s) =
     (if c \<in> set (bytes ''|();&<'') then (c, s)
      else if c = 62 then (if s \<noteq> [] \<and> hd s = 62 then (43, tl s) else (62, s))
      else (97, dropWhile in_word (c # s)))"

definition gettoken :: "nat \<Rightarrow> u8 list \<Rightarrow> (u8 \<times> (nat \<times> nat)) \<times> u8 list" where
  "gettoken n s =
     (let s = skip_ws s; q = n - length s; (ret, s) = scan_token s; eq = n - length s
      in ((ret, (q, eq)), skip_ws s))"

definition peek :: "u8 list \<Rightarrow> string \<Rightarrow> bool \<times> u8 list" where
  "peek s toks = (let s = skip_ws s in (s \<noteq> [] \<and> hd s \<in> set (bytes toks), s))"

lemma skip_ws_shorter: "length (skip_ws s) \<le> length s"
  by (simp add: skip_ws_def length_dropWhile_le)

lemma scan_token_shorter:
  assumes "c \<notin> set whitespace"
  shows "length (snd (scan_token (c # s))) \<le> length s"
proof -
  have "in_word c" if "c \<notin> set (bytes ''|();&<'')" "c \<noteq> 62"
    using that assms by (auto simp: in_word_def symbols_def bytes_def of_char_def)
  moreover have "length (dropWhile in_word s) \<le> length s"
    by (rule length_dropWhile_le)
  ultimately show ?thesis by simp
qed

lemma gettoken_shorter:
  assumes "skip_ws s \<noteq> []"
  shows "length (snd (gettoken n s)) < length s"
proof -
  obtain c r where s: "skip_ws s = c # r" using assms by (cases "skip_ws s") auto
  have "Suc (length r) \<le> length s"
    using skip_ws_shorter [of s] s by simp
  moreover have "c \<notin> set whitespace"
    using s unfolding skip_ws_def by (metis hd_dropWhile list.distinct(1) list.sel(1))
  then have "length (snd (scan_token (c # r))) \<le> length r"
    by (rule scan_token_shorter)
  moreover have "length (skip_ws (snd (scan_token (c # r)))) \<le> length (snd (scan_token (c # r)))"
    by (rule skip_ws_shorter)
  moreover have "snd (gettoken n s) = skip_ws (snd (scan_token (c # r)))"
    by (simp add: gettoken_def s Let_def split: prod.splits)
  ultimately show ?thesis by simp
qed

lemma gettoken_no_longer: "length (snd (gettoken n s)) \<le> length s"
proof (cases "skip_ws s = []")
  case True
  moreover have "skip_ws [] = []" by (simp add: skip_ws_def)
  ultimately show ?thesis by (simp add: gettoken_def Let_def)
next
  case False
  then show ?thesis using gettoken_shorter [of s n] by simp
qed

lemma peek_shorter: "length (snd (peek s toks)) \<le> length s"
  by (simp add: peek_def Let_def skip_ws_shorter)

lemma peek_gettoken_shorter:
  assumes "peek s toks = (True, s1)" "gettoken n s1 = (x, s2)"
  shows "length s2 < length s"
proof -
  have s1: "s1 = skip_ws s" "s1 \<noteq> []"
    using assms(1) by (auto simp: peek_def Let_def)
  have "skip_ws s1 = s1"
    unfolding s1(1) skip_ws_def by (simp add: dropWhile_idem)
  then show ?thesis
    using gettoken_shorter [of s1 n] s1(2) skip_ws_shorter [of s] assms(2) unfolding s1(1) by simp
qed

lemma gettoken_twice_shorter:
  assumes "peek s toks = (True, s1)" "gettoken n s1 = (x, s2)" "gettoken n s2 = (y, s3)"
  shows "length s3 < length s"
  using peek_gettoken_shorter [OF assms(1,2)] gettoken_no_longer [of n s2] assms(3) by simp

section \<open>The grammar\<close>

text \<open>
  parseredirs wraps redirections around a command. Its argument in parseexec is the node of the words, which is filled in
  later; so the model returns the redirections, in order, and the caller puts them around its command.
\<close>

type_synonym redir = "(nat \<times> nat) \<times> int \<times> int"

function parseredirs :: "nat \<Rightarrow> u8 list \<Rightarrow> sherr + redir list \<times> u8 list" where
  "parseredirs n s =
     (case peek s ''<>'' of (False, s) \<Rightarrow> Inr ([], s)
      | (True, s) \<Rightarrow>
          case gettoken n s of ((tok, _), s) \<Rightarrow>
          case gettoken n s of ((ret, w), s) \<Rightarrow>
          if ret \<noteq> 97 then Inl (Failed ''missing file for redirection'')
          else seq (parseredirs n s) (\<lambda>(rs, s).
            Inr ((if tok = 60 then (w, O_RDONLY, 0) else (w, O_WRONLY_CREATE, 1)) # rs, s)))"
  by pat_completeness auto

termination
proof (relation "measure (length \<circ> snd)", goal_cases)
  case (2 n s b s1 x s2 tok u y s3 ret w)
  then have "peek s ''<>'' = (True, s1)" "gettoken n s1 = (x, s2)" "gettoken n s2 = (y, s3)" by simp_all
  then show ?case using gettoken_twice_shorter by simp
qed simp

declare parseredirs.simps [simp del]

text \<open>
  The rest of parseexec after the words so far (\<open>args\<close>) and the redirections so far (\<open>rs\<close>): the loop up to a
  token that ends a command.
\<close>

function exec_args :: "nat \<Rightarrow> (nat \<times> nat) list \<Rightarrow> redir list \<Rightarrow> u8 list \<Rightarrow> sherr + ((nat \<times> nat) list \<times> redir list) \<times> u8 list" where
  "exec_args n args rs s =
     (case peek s ''|)&;'' of (True, s) \<Rightarrow> Inr ((args, rs), s)
      | (False, s) \<Rightarrow>
          case gettoken n s of ((tok, w), s) \<Rightarrow>
          if tok = 0 then Inr ((args, rs), s)
          else if tok \<noteq> 97 then Inl (Failed ''syntax'')
          else if length args + 1 \<ge> MAXARGS then Inl (Failed ''too many args'')
          else seq (parseredirs n s) (\<lambda>(rs', s). exec_args n (args @ [w]) (rs @ rs') s))"
  by pat_completeness auto

termination
  by (relation "measure (\<lambda>(n, args, rs, s). MAXARGS - length args)") auto

declare exec_args.simps [simp del]

definition add_redirs :: "redir list \<Rightarrow> (nat \<times> nat) cmd \<Rightarrow> (nat \<times> nat) cmd" where
  "add_redirs rs c = fold (\<lambda>(w, mode, fd) c. REDIR c w mode fd) rs c"

text \<open>The loop of parseline over ampersands.\<close>

function back_loop :: "nat \<Rightarrow> (nat \<times> nat) cmd \<Rightarrow> u8 list \<Rightarrow> (nat \<times> nat) cmd \<times> u8 list" where
  "back_loop n c s =
     (case peek s ''&'' of (False, s) \<Rightarrow> (c, s)
      | (True, s) \<Rightarrow> case gettoken n s of (_, s) \<Rightarrow> back_loop n (BACK c) s)"
  by pat_completeness auto

termination
proof (relation "measure (\<lambda>(n, c, s). length s)", goal_cases)
  case (2 n c s b s1 x s2)
  then have "peek s ''&'' = (True, s1)" "gettoken n s1 = (x, s2)" by simp_all
  then show ?case using peek_gettoken_shorter by simp
qed simp

declare back_loop.simps [simp del]

fun parseline :: "nat \<Rightarrow> nat \<Rightarrow> u8 list \<Rightarrow> sherr + (nat \<times> nat) cmd \<times> u8 list"
and parsepipe :: "nat \<Rightarrow> nat \<Rightarrow> u8 list \<Rightarrow> sherr + (nat \<times> nat) cmd \<times> u8 list"
and parseexec :: "nat \<Rightarrow> nat \<Rightarrow> u8 list \<Rightarrow> sherr + (nat \<times> nat) cmd \<times> u8 list"
and parseblock :: "nat \<Rightarrow> nat \<Rightarrow> u8 list \<Rightarrow> sherr + (nat \<times> nat) cmd \<times> u8 list" where
  "parseline 0 n s = Inl No_fuel"
| "parseline (Suc fuel) n s =
     seq (parsepipe fuel n s) (\<lambda>(c, s).
     case back_loop n c s of (c, s) \<Rightarrow>
     case peek s '';'' of (False, s) \<Rightarrow> Inr (c, s)
     | (True, s) \<Rightarrow>
         case gettoken n s of (_, s) \<Rightarrow>
         seq (parseline fuel n s) (\<lambda>(d, s). Inr (LIST c d, s)))"
| "parsepipe 0 n s = Inl No_fuel"
| "parsepipe (Suc fuel) n s =
     seq (parseexec fuel n s) (\<lambda>(c, s).
     case peek s ''|'' of (False, s) \<Rightarrow> Inr (c, s)
     | (True, s) \<Rightarrow>
         case gettoken n s of (_, s) \<Rightarrow>
         seq (parsepipe fuel n s) (\<lambda>(d, s). Inr (PIPE c d, s)))"
| "parseexec 0 n s = Inl No_fuel"
| "parseexec (Suc fuel) n s =
     (case peek s ''('' of (True, s) \<Rightarrow> parseblock fuel n s
      | (False, s) \<Rightarrow>
          seq (parseredirs n s) (\<lambda>(rs, s).
          seq (exec_args n [] rs s) (\<lambda>((args, rs), s).
          Inr (add_redirs rs (EXEC args), s))))"
| "parseblock 0 n s = Inl No_fuel"
| "parseblock (Suc fuel) n s =
     (case peek s ''('' of (False, s) \<Rightarrow> Inl (Failed ''parseblock'')
      | (True, s) \<Rightarrow>
          case gettoken n s of (_, s) \<Rightarrow>
          seq (parseline fuel n s) (\<lambda>(c, s).
          case peek s '')'' of (False, s) \<Rightarrow> Inl (Failed ''syntax - missing )'')
          | (True, s) \<Rightarrow>
              case gettoken n s of (_, s) \<Rightarrow>
              seq (parseredirs n s) (\<lambda>(rs, s). Inr (add_redirs rs c, s))))"

section \<open>The whole line\<close>

text \<open>nulterminate writes a NUL at the end of every word; the line, with its own terminator, is a byte list.\<close>

primrec nulterminate :: "(nat \<times> nat) cmd \<Rightarrow> u8 list \<Rightarrow> u8 list" where
  "nulterminate (EXEC args) b = fold (\<lambda>(q, eq) b. b[eq := 0]) args b"
| "nulterminate (REDIR c w mode fd) b = (nulterminate c b)[snd w := 0]"
| "nulterminate (PIPE l r) b = nulterminate r (nulterminate l b)"
| "nulterminate (LIST l r) b = nulterminate r (nulterminate l b)"
| "nulterminate (BACK c) b = nulterminate c b"

text \<open>
  parsecmd of the string \<open>s\<close>: the tree and the bytes of the line afterwards, or the message of the panic, with the leftovers
  of the line where the syntax error is that it does not end.
\<close>

definition parsecmd :: "u8 list \<Rightarrow> (sherr \<times> u8 list) + (nat \<times> nat) cmd \<times> u8 list" where
  "parsecmd s =
     (case parseline (4 * length s + 4) (length s) s of
        Inl e \<Rightarrow> Inl (e, [])
      | Inr (c, r) \<Rightarrow>
          case peek r [] of (_, r) \<Rightarrow>
          if r \<noteq> [] then Inl (Failed ''syntax'', r) else Inr (c, nulterminate c (s @ [0])))"

text \<open>The string at an index of the line.\<close>

definition str_at :: "u8 list \<Rightarrow> nat \<Rightarrow> u8 list" where
  "str_at b q = takeWhile (\<lambda>c. c \<noteq> 0) (drop q b)"

section \<open>Running a command\<close>

definition sh_panic :: "'w calls \<Rightarrow> string \<Rightarrow> 'w \<Rightarrow> 'w option" where
  "sh_panic os msg w = uprintf os 2 (''%s'' @ [CHR 0x0A]) [PStr (Some (bytes msg))] w"

text \<open>fork1 either ends the process (the left side: the world at its exit) or gives the result of fork.\<close>

definition fork1 :: "'w calls \<Rightarrow> 'w \<Rightarrow> 'w option + int \<times> 'w" where
  "fork1 os w = (case u_num os ''fork'' [] w of (pid, w) \<Rightarrow> if pid = -1 then Inl (sh_panic os ''fork'' w) else Inr (pid, w))"

definition forked :: "'w calls \<Rightarrow> 'w \<Rightarrow> ('w \<Rightarrow> 'w option) \<Rightarrow> ('w \<Rightarrow> 'w option) \<Rightarrow> 'w option" where
  "forked os w child parent =
     (case fork1 os w of Inl r \<Rightarrow> r | Inr (pid, w) \<Rightarrow> if pid = 0 then child w else parent w)"

definition close_to :: "'w calls \<Rightarrow> int \<Rightarrow> 'w \<Rightarrow> 'w" where
  "close_to os fd w = snd (u_close os fd w)"

definition do_num :: "'w calls \<Rightarrow> string \<Rightarrow> int list \<Rightarrow> 'w \<Rightarrow> 'w" where
  "do_num os call args w = snd (u_num os call args w)"

text \<open>
  runcmd, on the tree with the strings in place of the indices: the world when the process exits, or when exec has replaced
  it. fork returns 0 in the child, so a run follows one process.
\<close>

primrec runcmd :: "'w calls \<Rightarrow> u8 list cmd \<Rightarrow> 'w \<Rightarrow> 'w option" where
  "runcmd os (EXEC argv) w =
     (if argv = [] then Some w
      else case u_exec os (hd argv) argv w of (replaced, w) \<Rightarrow>
           if replaced then Some w else uprintf os 2 (''exec %s failed'' @ [CHR 0x0A]) [PStr (Some (hd argv))] w)"
| "runcmd os (REDIR c file mode fd) w =
     (case u_open os file mode (close_to os fd w) of (r, w) \<Rightarrow>
      if r < 0 then uprintf os 2 (''open %s failed'' @ [CHR 0x0A]) [PStr (Some file)] w
      else runcmd os c w)"
| "runcmd os (LIST l r) w =
     forked os w (runcmd os l) (\<lambda>w. runcmd os r (do_num os ''wait'' [] w))"
| "runcmd os (PIPE l r) w =
     (case u_pipe os w of (None, w) \<Rightarrow> sh_panic os ''pipe'' w
      | (Some (p0, p1), w) \<Rightarrow>
          forked os w
            (\<lambda>w. runcmd os l (close_to os p1 (close_to os p0 (do_num os ''dup'' [p1] (close_to os 1 w)))))
            (\<lambda>w. forked os w
              (\<lambda>w. runcmd os r (close_to os p1 (close_to os p0 (do_num os ''dup'' [p0] (close_to os 0 w)))))
              (\<lambda>w. Some (do_num os ''wait'' [] (do_num os ''wait'' [] (close_to os p1 (close_to os p0 w)))))))"
| "runcmd os (BACK c) w = forked os w (runcmd os c) Some"

definition getcmd :: "'w calls \<Rightarrow> 'w \<Rightarrow> (u8 list option \<times> 'w) option" where
  "getcmd os w = do {
     w \<leftarrow> uprintf os 2 ''$ '' [] w;
     (case gets os 100 w of (b, w) \<Rightarrow>
      let s = takeWhile (\<lambda>c. c \<noteq> 0) b in Some (if s = [] then None else Some s, w)) }"

definition run_line :: "'w calls \<Rightarrow> u8 list \<Rightarrow> 'w \<Rightarrow> 'w option" where
  "run_line os s w =
     (case parsecmd s of
        Inr (c, b) \<Rightarrow> runcmd os (map_cmd (\<lambda>(q, eq). str_at b q) c) w
      | Inl (Failed msg, left) \<Rightarrow> do {
          w \<leftarrow> (if left = [] then Some w else uprintf os 2 (''leftovers: %s'' @ [CHR 0x0A]) [PStr (Some left)] w);
          sh_panic os msg w }
      | Inl (No_fuel, _) \<Rightarrow> None)"

partial_function (option) sh_open :: "'w calls \<Rightarrow> 'w \<Rightarrow> 'w option" where
  "sh_open os w =
     (case u_open os (bytes ''console'') 2 w of (fd, w) \<Rightarrow>
      if fd < 0 then Some w else if fd \<ge> 3 then Some (close_to os fd w) else sh_open os w)"

partial_function (option) sh_loop :: "'w calls \<Rightarrow> 'w \<Rightarrow> 'w option" where
  "sh_loop os w = do {
     (s, w) \<leftarrow> getcmd os w;
     (case s of None \<Rightarrow> Some w
      | Some s \<Rightarrow>
          if take 3 s = bytes ''cd '' then
            (let dir = drop 3 (butlast s)
             in case u_name os ''chdir'' [dir] w of (r, w) \<Rightarrow> do {
                  w \<leftarrow> (if r < 0 then uprintf os 2 (''cannot cd %s'' @ [CHR 0x0A]) [PStr (Some dir)] w else Some w);
                  sh_loop os w })
          else case fork1 os w of Inl r \<Rightarrow> r
            | Inr (pid, w) \<Rightarrow> if pid = 0 then run_line os s w else sh_loop os (do_num os ''wait'' [] w)) }"

definition sh_main :: "'w calls \<Rightarrow> 'w \<Rightarrow> 'w option" where
  "sh_main os w = sh_open os w \<bind> sh_loop os"

end
