(* ===== verification/Sh_Parse.thy ===== *)
theory Sh_Parse
  imports Sh "HOL-Library.Sublist"
begin

text \<open>
  What the parser of the shell promises: it returns on every line, the words of the tree are words of the line inside its
  bounds, which nulterminate makes strings, and it reads back every command that is written out.
\<close>

section \<open>The parser returns\<close>

text \<open>
  A parser result that is not out of fuel and leaves no more than it was given. Every routine has it, the recursive ones with
  enough fuel, and then more fuel changes nothing.
\<close>

definition returns :: "u8 list \<Rightarrow> sherr + 'a \<times> u8 list \<Rightarrow> bool" where
  "returns s m \<longleftrightarrow> (case m of Inl e \<Rightarrow> e \<noteq> No_fuel | Inr (_, r) \<Rightarrow> length r \<le> length s)"

lemma returns_simps [simp]:
  "returns s (Inl (Failed msg))" "returns s (Inr (a, r)) \<longleftrightarrow> length r \<le> length s"
  by (simp_all add: returns_def)

lemma returns_seq:
  assumes "returns s m" "\<And>a r. m = Inr (a, r) \<Longrightarrow> length r \<le> length s \<Longrightarrow> returns s (f (a, r))"
  shows "returns s (seq m f)"
  using assms by (cases m) (auto simp: returns_def)

lemma returns_mono: "returns s m \<Longrightarrow> length s \<le> length t \<Longrightarrow> returns t m"
  by (auto simp: returns_def split: sum.splits)

lemma peek_cases:
  obtains r where "peek s toks = (True, r)" "r = skip_ws s" "r \<noteq> []" "hd r \<in> set (bytes toks)" "length r \<le> length s"
  | r where "peek s toks = (False, r)" "r = skip_ws s" "length r \<le> length s"
  using skip_ws_shorter [of s] by (cases "fst (peek s toks)") (auto simp: peek_def Let_def)

lemma parseredirs_returns: "returns s (parseredirs n s)"
proof (induction n s rule: parseredirs.induct)
  case (1 n s)
  show ?case
  proof (cases rule: peek_cases [of s "''<>''"])
    case (1 r)
    obtain tok u s2 where t: "gettoken n r = ((tok, u), s2)" by (metis surj_pair)
    obtain ret w s3 where w: "gettoken n s2 = ((ret, w), s3)" by (metis surj_pair)
    have "returns s3 (parseredirs n s3)" if "ret = 97"
      using "1.IH" [OF 1(1) [symmetric] refl t [symmetric] refl w [symmetric] refl] that by simp
    then have "returns s (parseredirs n s3)" if "ret = 97"
      using gettoken_twice_shorter [OF 1(1) t w] that by (metis returns_mono less_imp_le)
    then show ?thesis
      by (subst parseredirs.simps) (auto simp: 1(1) t w intro!: returns_seq)
  next
    case (2 r)
    then show ?thesis by (subst parseredirs.simps) simp
  qed
qed

lemma exec_args_returns: "returns s (exec_args n args rs s)"
proof (induction n args rs s rule: exec_args.induct)
  case (1 n args rs s)
  show ?case
  proof (cases rule: peek_cases [of s "''|)&;''"])
    case (1 r)
    then show ?thesis by (subst exec_args.simps) simp
  next
    case (2 r)
    obtain tok w s2 where t: "gettoken n r = ((tok, w), s2)" by (metis surj_pair)
    have s2: "length s2 \<le> length s"
      using gettoken_no_longer [of n r] t 2(3) by simp
    have "returns s (seq (parseredirs n s2) (\<lambda>(rs', s). exec_args n (args @ [w]) (rs @ rs') s))"
      if "tok \<noteq> 0" "tok = 97" "\<not> length args + 1 \<ge> MAXARGS"
    proof (rule returns_seq)
      show "returns s (parseredirs n s2)"
        using parseredirs_returns s2 by (rule returns_mono)
      fix rs' s3 assume "parseredirs n s2 = Inr (rs', s3)" "length s3 \<le> length s"
      then show "returns s (case (rs', s3) of (rs', s) \<Rightarrow> exec_args n (args @ [w]) (rs @ rs') s)"
        using "1.IH" [OF 2(1) [symmetric] refl t [symmetric] refl, of "(rs', s3)"] that returns_mono by simp
    qed
    then show ?thesis
      using s2 by (subst exec_args.simps) (simp add: 2(1) t)
  qed
qed

lemma back_loop_shorter: "length (snd (back_loop n c s)) \<le> length s"
proof (induction n c s rule: back_loop.induct)
  case (1 n c s)
  show ?case
  proof (cases rule: peek_cases [of s "''&''"])
    case (1 r)
    obtain x s2 where t: "gettoken n r = (x, s2)" by fastforce
    show ?thesis
      using "1.IH" [OF 1(1) [symmetric] refl t [symmetric]] peek_gettoken_shorter [OF 1(1) t]
      by (subst back_loop.simps) (simp add: 1(1) t)
  next
    case (2 r)
    then show ?thesis by (subst back_loop.simps) simp
  qed
qed

definition settled :: "u8 list \<Rightarrow> sherr + 'a \<times> u8 list \<Rightarrow> sherr + 'a \<times> u8 list \<Rightarrow> bool" where
  "settled s m m' \<longleftrightarrow> returns s m \<and> m' = m"

lemma settled_simps [simp]:
  "settled s (Inl (Failed msg)) (Inl (Failed msg))" "settled s (Inr (a, r)) (Inr (a, r)) \<longleftrightarrow> length r \<le> length s"
  "settled s (parseredirs n s) (parseredirs n s)" "settled s (exec_args n args rs s) (exec_args n args rs s)"
  by (simp_all add: settled_def parseredirs_returns exec_args_returns)

lemma settled_seq:
  assumes "settled s m m'" "\<And>a r. m = Inr (a, r) \<Longrightarrow> length r \<le> length s \<Longrightarrow> settled s (f (a, r)) (f' (a, r))"
  shows "settled s (seq m f) (seq m' f')"
  using assms by (cases m) (auto simp: settled_def returns_def)

lemma settled_mono: "settled s m m' \<Longrightarrow> length s \<le> length t \<Longrightarrow> settled t m m'"
  by (auto simp: settled_def intro: returns_mono)

text \<open>A branch on a symbol that is taken off the line, with a recursive call on what follows.\<close>

lemma settled_symbol:
  assumes "length r \<le> length s" "length r \<le> length s \<Longrightarrow> settled s (no (skip_ws r)) (no' (skip_ws r))"
    and "\<And>t. length t < length s \<Longrightarrow> settled t (yes t) (yes' t)"
  shows "settled s
    (case peek r toks of (True, s) \<Rightarrow> (case gettoken n s of (_, s) \<Rightarrow> yes s) | (False, s) \<Rightarrow> no s)
    (case peek r toks of (True, s) \<Rightarrow> (case gettoken n s of (_, s) \<Rightarrow> yes' s) | (False, s) \<Rightarrow> no' s)"
proof (cases rule: peek_cases [of r toks])
  case (1 u)
  obtain x t where t: "gettoken n u = (x, t)" by fastforce
  have "length t < length s"
    using peek_gettoken_shorter [OF 1(1) t] assms(1) by simp
  then show ?thesis
    using assms(3) [of t] settled_mono [of t _ _ s] by (simp add: 1(1) t)
next
  case (2 u)
  then show ?thesis using assms(1,2) by simp
qed

lemma enough_fuel_step:
  "(\<forall>s. 4 * length s + 4 \<le> k \<longrightarrow> settled s (parseline k n s) (parseline (Suc k) n s)) \<and>
   (\<forall>s. 4 * length s + 3 \<le> k \<longrightarrow> settled s (parsepipe k n s) (parsepipe (Suc k) n s)) \<and>
   (\<forall>s. 4 * length s + 2 \<le> k \<longrightarrow> settled s (parseexec k n s) (parseexec (Suc k) n s)) \<and>
   (\<forall>s. 4 * length s + 1 \<le> k \<longrightarrow> settled s (parseblock k n s) (parseblock (Suc k) n s))"
  (is "?L k \<and> ?P k \<and> ?E k \<and> ?B k")
proof (induction k)
  case (Suc k)
  then have L: "?L k" and P: "?P k" and E: "?E k" and B: "?B k" by blast+
  have "?L (Suc k)"
  proof (intro allI impI)
    fix s :: "u8 list" assume s: "4 * length s + 4 \<le> Suc k"
    show "settled s (parseline (Suc k) n s) (parseline (Suc (Suc k)) n s)"
      unfolding parseline.simps(2) [of k] parseline.simps(2) [of "Suc k"]
    proof (rule settled_seq, goal_cases)
      case 1
      then show ?case using P s by simp
    next
      case (2 c r)
      obtain c' r' where b: "back_loop n c r = (c', r')" by fastforce
      have r': "length r' \<le> length s"
        using back_loop_shorter [of n c r] 2(2) b by simp
      show ?case
        unfolding prod.case b
        by (rule settled_symbol) (use r' skip_ws_shorter [of r'] L s in \<open>auto intro!: settled_seq\<close>)
    qed
  qed
  moreover have "?P (Suc k)"
  proof (intro allI impI)
    fix s :: "u8 list" assume s: "4 * length s + 3 \<le> Suc k"
    show "settled s (parsepipe (Suc k) n s) (parsepipe (Suc (Suc k)) n s)"
      unfolding parsepipe.simps(2) [of k] parsepipe.simps(2) [of "Suc k"]
    proof (rule settled_seq, goal_cases)
      case 1
      then show ?case using E s by simp
    next
      case (2 c r)
      show ?case
        unfolding prod.case
        by (rule settled_symbol) (use 2(2) skip_ws_shorter [of r] P s in \<open>auto intro!: settled_seq\<close>)
    qed
  qed
  moreover have "?E (Suc k)"
  proof (intro allI impI)
    fix s :: "u8 list" assume s: "4 * length s + 2 \<le> Suc k"
    show "settled s (parseexec (Suc k) n s) (parseexec (Suc (Suc k)) n s)"
    proof (cases rule: peek_cases [of s "''(''"])
      case (1 r)
      then show ?thesis
        using B [rule_format, of r] s settled_mono [of r _ _ s] by simp
    next
      case (2 r)
      have "settled s (seq (parseredirs n r) f) (seq (parseredirs n r) f)"
        if "f = (\<lambda>(rs, s). seq (exec_args n [] rs s) (\<lambda>((args, rs), s). Inr (add_redirs rs (EXEC args), s)))" for f
        using 2(3) unfolding that
        by (intro settled_seq) (auto simp: settled_def intro!: returns_seq intro: returns_mono [OF parseredirs_returns] returns_mono [OF exec_args_returns])
      then show ?thesis using 2(1) by simp
    qed
  qed
  moreover have "?B (Suc k)"
  proof (intro allI impI)
    fix s :: "u8 list" assume s: "4 * length s + 1 \<le> Suc k"
    show "settled s (parseblock (Suc k) n s) (parseblock (Suc (Suc k)) n s)"
      unfolding parseblock.simps(2) [of k] parseblock.simps(2) [of "Suc k"]
    proof (rule settled_symbol, goal_cases)
      case (3 t)
      then have "settled t (parseline k n t) (parseline (Suc k) n t)" using L s by simp
      then show ?case
      proof (rule settled_seq, goal_cases)
        case (1 c r)
        show ?case
          unfolding prod.case
          by (rule settled_symbol) (use 1(2) in \<open>auto intro!: settled_seq\<close>)
      qed
    qed simp_all
  qed
  ultimately show ?case by blast
qed auto

lemma more_fuel:
  assumes "4 * length s + 4 \<le> k"
  shows "parseline k n s = parseline (4 * length s + 4) n s" "returns s (parseline k n s)"
proof -
  have "parseline (4 * length s + 4 + j) n s = parseline (4 * length s + 4) n s" for j
    using enough_fuel_step [of "4 * length s + 4 + _" n] by (induction j) (auto simp: settled_def)
  then show "parseline k n s = parseline (4 * length s + 4) n s"
    using assms by (metis le_iff_add)
  show "returns s (parseline k n s)"
    using enough_fuel_step [of k n] assms by (simp add: settled_def)
qed

section \<open>The words of the tree\<close>

text \<open>
  A word of the text: a maximal run of characters that are neither blanks nor symbols, given by its indices. The rest of a line
  is a suffix of it.
\<close>

definition word_at :: "u8 list \<Rightarrow> nat \<times> nat \<Rightarrow> bool" where
  "word_at t w \<longleftrightarrow> (case w of (q, e) \<Rightarrow> q < e \<and> e \<le> length t \<and> (\<forall>i. q \<le> i \<and> i < e \<longrightarrow> in_word (t ! i)) \<and>
     (e < length t \<longrightarrow> \<not> in_word (t ! e)))"

primrec few_args :: "'a cmd \<Rightarrow> bool" where
  "few_args (EXEC args) \<longleftrightarrow> length args < MAXARGS"
| "few_args (REDIR c w mode fd) \<longleftrightarrow> few_args c"
| "few_args (PIPE l r) \<longleftrightarrow> few_args l \<and> few_args r"
| "few_args (LIST l r) \<longleftrightarrow> few_args l \<and> few_args r"
| "few_args (BACK c) \<longleftrightarrow> few_args c"

definition tree_ok :: "u8 list \<Rightarrow> (nat \<times> nat) cmd \<Rightarrow> bool" where
  "tree_ok t c \<longleftrightarrow> few_args c \<and> (\<forall>w \<in> set_cmd c. word_at t w)"

lemma suffix_skip_ws: "suffix s t \<Longrightarrow> suffix (skip_ws s) t"
  unfolding skip_ws_def using suffix_dropWhile suffix_order.trans by blast

lemma suffix_scan_token: "suffix (snd (scan_token s)) s"
  by (cases s) (auto simp: suffix_ConsI suffix_tl suffix_dropWhile intro: suffix_order.trans [OF suffix_tl])

lemma in_word_iff: "in_word c \<longleftrightarrow> c \<notin> set whitespace \<and> c \<notin> set (bytes ''|();&<'') \<and> c \<noteq> 62"
  by (auto simp: in_word_def symbols_def bytes_def of_char_def)

lemma suffix_nth:
  assumes "suffix r t" "i < length r"
  shows "t ! (length t - length r + i) = r ! i"
  using assms by (auto simp: suffix_def nth_append)

lemma word_token:
  assumes "suffix s t" "s = u @ r" "u \<noteq> []" "\<And>c. c \<in> set u \<Longrightarrow> in_word c" "r \<noteq> [] \<Longrightarrow> \<not> in_word (hd r)"
  shows "word_at t (length t - length s, length t - length r)"
proof -
  obtain p where t: "t = p @ u @ r" using assms(1,2) by (auto simp: suffix_def)
  have "in_word (t ! i)" if "length p \<le> i" "i < length p + length u" for i
  proof -
    have "i - length p < length u" using that by simp
    then show ?thesis using assms(4) that by (simp add: t nth_append)
  qed
  moreover have "\<not> in_word (t ! (length p + length u))" if "length p + length u < length t"
    using that assms(5) by (cases r) (simp_all add: t nth_append)
  ultimately show ?thesis
    using assms(2,3) by (simp add: word_at_def t)
qed

lemma gettoken_word:
  assumes "suffix s t"
  shows "suffix (snd (gettoken (length t) s)) t"
    "fst (fst (gettoken (length t) s)) = 97 \<Longrightarrow> word_at t (snd (fst (gettoken (length t) s)))"
proof -
  let ?s = "skip_ws s"
  obtain ret r where r: "scan_token ?s = (ret, r)" by fastforce
  have s: "suffix ?s t" by (rule suffix_skip_ws [OF assms])
  then have "suffix r t"
    using suffix_scan_token [of ?s] r by (auto intro: suffix_order.trans)
  then show "suffix (snd (gettoken (length t) s)) t"
    by (simp add: gettoken_def Let_def r suffix_skip_ws)
  assume "fst (fst (gettoken (length t) s)) = 97"
  then have "ret = 97" by (simp add: gettoken_def Let_def r)
  then obtain c v where cv: "?s = c # v" "c \<notin> set (bytes ''|();&<'')" "c \<noteq> 62" "r = dropWhile in_word ?s"
    using r by (cases ?s) (auto simp: bytes_def of_char_def split: if_splits)
  have "c \<notin> set whitespace"
    using cv(1) unfolding skip_ws_def by (metis hd_dropWhile list.distinct(1) list.sel(1))
  then have ne: "takeWhile in_word ?s \<noteq> []"
    using cv by (simp add: in_word_iff)
  have eq: "?s = takeWhile in_word ?s @ r"
    unfolding cv(4) by (rule takeWhile_dropWhile_id [symmetric])
  have "word_at t (length t - length ?s, length t - length r)"
  proof (rule word_token [OF s eq ne])
    show "in_word c" if "c \<in> set (takeWhile in_word ?s)" for c
      using set_takeWhileD [OF that] by simp
    show "\<not> in_word (hd r)" if "r \<noteq> []"
      using that unfolding cv(4) by (rule hd_dropWhile)
  qed
  then show "word_at t (snd (fst (gettoken (length t) s)))"
    by (simp add: gettoken_def Let_def r)
qed

definition sound :: "u8 list \<Rightarrow> ('a \<Rightarrow> bool) \<Rightarrow> sherr + 'a \<times> u8 list \<Rightarrow> bool" where
  "sound t Q m \<longleftrightarrow> (case m of Inl _ \<Rightarrow> True | Inr (a, r) \<Rightarrow> Q a \<and> suffix r t)"

lemma sound_simps [simp]: "sound t Q (Inl e)" "sound t Q (Inr (a, r)) \<longleftrightarrow> Q a \<and> suffix r t"
  by (simp_all add: sound_def)

lemma sound_seq:
  assumes "sound t Q m" "\<And>a r. m = Inr (a, r) \<Longrightarrow> Q a \<Longrightarrow> suffix r t \<Longrightarrow> sound t R (f (a, r))"
  shows "sound t R (seq m f)"
  using assms by (cases m) (auto simp: sound_def)

lemma sound_peek:
  assumes "suffix s t" "\<And>r. suffix r t \<Longrightarrow> sound t Q (f True r)" "\<And>r. suffix r t \<Longrightarrow> sound t Q (f False r)"
  shows "sound t Q (case peek s toks of (b, r) \<Rightarrow> f b r)"
  using assms suffix_skip_ws [OF assms(1)] by (cases rule: peek_cases [of s toks]) auto

lemma sound_gettoken:
  assumes "suffix s t" "\<And>tok w r. (tok = 97 \<Longrightarrow> word_at t w) \<Longrightarrow> suffix r t \<Longrightarrow> sound t Q (f tok w r)"
  shows "sound t Q (case gettoken (length t) s of ((tok, w), r) \<Rightarrow> f tok w r)"
  using assms(2) gettoken_word [OF assms(1)] by (auto split: prod.splits)

lemma sound_symbol:
  assumes "suffix s t" "\<And>r. suffix r t \<Longrightarrow> sound t Q (yes r)" "\<And>r. suffix r t \<Longrightarrow> sound t Q (no r)"
  shows "sound t Q (case peek s toks of (True, s) \<Rightarrow> (case gettoken (length t) s of (_, s) \<Rightarrow> yes s) | (False, s) \<Rightarrow> no s)"
proof (cases rule: peek_cases [of s toks])
  case (1 r)
  then have "suffix (snd (gettoken (length t) r)) t"
    using gettoken_word(1) suffix_skip_ws [OF assms(1)] by simp
  then show ?thesis using assms(2) 1 by (auto split: prod.splits)
next
  case (2 r)
  then show ?thesis using assms(3) suffix_skip_ws [OF assms(1)] by simp
qed

definition redirs_ok :: "u8 list \<Rightarrow> redir list \<Rightarrow> bool" where
  "redirs_ok t rs \<longleftrightarrow> (\<forall>(w, m) \<in> set rs. word_at t w)"

lemma parseredirs_sound: "suffix s t \<Longrightarrow> sound t (redirs_ok t) (parseredirs (length t) s)"
proof (induction "length t" s rule: parseredirs.induct)
  case (1 s)
  show ?case
  proof (cases rule: peek_cases [of s "''<>''"])
    case p: (1 r)
    obtain tok u s2 where k: "gettoken (length t) r = ((tok, u), s2)" by (metis surj_pair)
    obtain ret w s3 where w: "gettoken (length t) s2 = ((ret, w), s3)" by (metis surj_pair)
    have s2: "suffix s2 t"
      using gettoken_word(1) [of r t] suffix_skip_ws [OF 1(2)] p(2) k by simp
    have s3: "suffix s3 t" "ret = 97 \<Longrightarrow> word_at t w"
      using gettoken_word [OF s2] w by simp_all
    have "sound t (redirs_ok t) (parseredirs (length t) s3)" if "ret = 97"
      using "1.hyps" [OF p(1) [symmetric] refl k [symmetric] refl w [symmetric] refl] that s3(1) by simp
    then show ?thesis
      by (subst parseredirs.simps) (use s3(2) in \<open>auto simp: p(1) k w redirs_ok_def intro!: sound_seq\<close>)
  next
    case (2 r)
    then show ?thesis
      using suffix_skip_ws [OF 1(2)] by (subst parseredirs.simps) (simp add: redirs_ok_def)
  qed
qed

definition args_ok :: "u8 list \<Rightarrow> (nat \<times> nat) list \<times> redir list \<Rightarrow> bool" where
  "args_ok t x \<longleftrightarrow> length (fst x) < MAXARGS \<and> (\<forall>w \<in> set (fst x). word_at t w) \<and> redirs_ok t (snd x)"

lemma exec_args_sound:
  "suffix s t \<Longrightarrow> args_ok t (args, rs) \<Longrightarrow> sound t (args_ok t) (exec_args (length t) args rs s)"
proof (induction "length t" args rs s rule: exec_args.induct)
  case (1 args rs s)
  show ?case
  proof (cases rule: peek_cases [of s "''|)&;''"])
    case (1 r)
    then show ?thesis
      using suffix_skip_ws [OF "1.prems"(1)] "1.prems"(2) by (subst exec_args.simps) simp
  next
    case p: (2 r)
    obtain tok w s2 where k: "gettoken (length t) r = ((tok, w), s2)" by (metis surj_pair)
    have s2: "suffix s2 t" "tok = 97 \<Longrightarrow> word_at t w"
      using gettoken_word [of r t] suffix_skip_ws [OF "1.prems"(1)] p(2) k by simp_all
    have "sound t (args_ok t) (seq (parseredirs (length t) s2) (\<lambda>(rs', s). exec_args (length t) (args @ [w]) (rs @ rs') s))"
      if "tok \<noteq> 0" "tok = 97" "\<not> length args + 1 \<ge> MAXARGS"
    proof (rule sound_seq [OF parseredirs_sound [OF s2(1)]])
      fix rs' s3 assume rs: "parseredirs (length t) s2 = Inr (rs', s3)" "redirs_ok t rs'" "suffix s3 t"
      have "args_ok t (args @ [w], rs @ rs')"
        using rs "1.prems"(2) s2(2) that by (auto simp: args_ok_def redirs_ok_def)
      then show "sound t (args_ok t) (case (rs', s3) of (rs', s) \<Rightarrow> exec_args (length t) (args @ [w]) (rs @ rs') s)"
        using "1.hyps" [OF p(1) [symmetric] refl k [symmetric] refl, of "(rs', s3)"] that rs by simp
    qed
    then show ?thesis
      using s2(1) "1.prems"(2) by (subst exec_args.simps) (simp add: p(1) k)
  qed
qed

lemma add_redirs_ok: "redirs_ok t rs \<Longrightarrow> tree_ok t c \<Longrightarrow> tree_ok t (add_redirs rs c)"
proof (induction rs arbitrary: c)
  case (Cons x rs)
  obtain w m f where x: "x = (w, m, f)" by (cases x)
  have "tree_ok t (REDIR c w m f)" "redirs_ok t rs"
    using Cons.prems by (auto simp: x tree_ok_def redirs_ok_def)
  then show ?case
    using Cons.IH by (simp add: x add_redirs_def)
qed (simp add: add_redirs_def)

lemma exec_ok: "args_ok t (args, rs) \<Longrightarrow> tree_ok t (add_redirs rs (EXEC args))"
  by (intro add_redirs_ok) (auto simp: args_ok_def tree_ok_def)

lemma back_loop_sound:
  "suffix s t \<Longrightarrow> tree_ok t c \<Longrightarrow> tree_ok t (fst (back_loop (length t) c s)) \<and> suffix (snd (back_loop (length t) c s)) t"
proof (induction "length t" c s rule: back_loop.induct)
  case (1 c s)
  show ?case
  proof (cases rule: peek_cases [of s "''&''"])
    case p: (1 r)
    obtain x s2 where k: "gettoken (length t) r = (x, s2)" by fastforce
    have "suffix s2 t"
      using gettoken_word(1) [of r t] suffix_skip_ws [OF "1.prems"(1)] p(2) k by simp
    then show ?thesis
      using "1.hyps" [OF p(1) [symmetric] refl k [symmetric]] "1.prems"(2)
      by (subst (1 2) back_loop.simps) (simp add: p(1) k tree_ok_def)
  next
    case (2 r)
    then show ?thesis
      using suffix_skip_ws [OF "1.prems"(1)] "1.prems"(2) by (subst (1 2) back_loop.simps) simp
  qed
qed

lemma parser_sound:
  "(\<forall>s. suffix s t \<longrightarrow> sound t (tree_ok t) (parseline k (length t) s)) \<and>
   (\<forall>s. suffix s t \<longrightarrow> sound t (tree_ok t) (parsepipe k (length t) s)) \<and>
   (\<forall>s. suffix s t \<longrightarrow> sound t (tree_ok t) (parseexec k (length t) s)) \<and>
   (\<forall>s. suffix s t \<longrightarrow> sound t (tree_ok t) (parseblock k (length t) s))"
  (is "?L k \<and> ?P k \<and> ?E k \<and> ?B k")
proof (induction k)
  case (Suc k)
  then have L: "?L k" and P: "?P k" and E: "?E k" and B: "?B k" by blast+
  have "?L (Suc k)"
  proof (intro allI impI)
    fix s assume s: "suffix s t"
    show "sound t (tree_ok t) (parseline (Suc k) (length t) s)"
      unfolding parseline.simps
    proof (rule sound_seq [OF P [rule_format, OF s]], goal_cases)
      case (1 c r)
      obtain c' r' where b: "back_loop (length t) c r = (c', r')" by fastforce
      have r': "suffix r' t" "tree_ok t c'"
        using back_loop_sound [OF 1(3,2)] b by simp_all
      show ?case
        unfolding prod.case b
        by (rule sound_symbol [OF r'(1)]) (use L r'(2) in \<open>auto simp: tree_ok_def intro!: sound_seq\<close>)
    qed
  qed
  moreover have "?P (Suc k)"
  proof (intro allI impI)
    fix s assume s: "suffix s t"
    show "sound t (tree_ok t) (parsepipe (Suc k) (length t) s)"
      unfolding parsepipe.simps
    proof (rule sound_seq [OF E [rule_format, OF s]], goal_cases)
      case (1 c r)
      show ?case
        unfolding prod.case
        by (rule sound_symbol [OF 1(3)]) (use P 1(2) in \<open>auto simp: tree_ok_def intro!: sound_seq\<close>)
    qed
  qed
  moreover have "?E (Suc k)"
  proof (intro allI impI)
    fix s assume s: "suffix s t"
    have "sound t (tree_ok t) (seq (parseredirs (length t) r) (\<lambda>(rs, s). seq (exec_args (length t) [] rs s)
         (\<lambda>((args, rs), s). Inr (add_redirs rs (EXEC args), s))))" if "suffix r t" for r
      by (rule sound_seq [OF parseredirs_sound [OF that]], unfold prod.case, rule sound_seq [OF exec_args_sound])
        (auto intro: exec_ok simp: args_ok_def [of t "([], _)"])
    then show "sound t (tree_ok t) (parseexec (Suc k) (length t) s)"
      unfolding parseexec.simps by (intro sound_peek [OF s]) (use B in auto)
  qed
  moreover have "?B (Suc k)"
  proof (intro allI impI)
    fix s assume s: "suffix s t"
    show "sound t (tree_ok t) (parseblock (Suc k) (length t) s)"
      unfolding parseblock.simps
    proof (rule sound_symbol [OF s], goal_cases)
      case (1 r)
      then have "sound t (tree_ok t) (parseline k (length t) r)" using L by blast
      then show ?case
      proof (rule sound_seq, goal_cases)
        case (1 c r)
        show ?case
          unfolding prod.case
          by (rule sound_symbol [OF 1(3)]) (use 1(2) in \<open>auto intro!: sound_seq [OF parseredirs_sound] add_redirs_ok\<close>)
      qed
    qed simp
  qed
  ultimately show ?case by blast
qed auto

section \<open>Strings\<close>

text \<open>The words that nulterminate ends, in its order.\<close>

primrec words :: "'a cmd \<Rightarrow> 'a list" where
  "words (EXEC args) = args"
| "words (REDIR c w mode fd) = words c @ [w]"
| "words (PIPE l r) = words l @ words r"
| "words (LIST l r) = words l @ words r"
| "words (BACK c) = words c"

lemma set_words: "set (words c) = set_cmd c"
  by (induction c) auto

lemma nulterminate_fold: "nulterminate c b = fold (\<lambda>(q, e) b. b[e := 0]) (words c) b"
  by (induction c arbitrary: b) (auto simp: split_beta)

lemma fold_nul:
  "length (fold (\<lambda>(q, e) b. b[e := 0]) ws b) = length b"
  "i < length b \<Longrightarrow> fold (\<lambda>(q, e) b. b[e := 0]) ws b ! i = (if i \<in> snd ` set ws then 0 else b ! i)"
  by (induction ws arbitrary: b) (auto simp: split_beta nth_list_update)

lemma nulterminate_nth:
  "length (nulterminate c b) = length b"
  "i < length b \<Longrightarrow> nulterminate c b ! i = (if i \<in> snd ` set_cmd c then 0 else b ! i)"
  by (simp_all add: nulterminate_fold fold_nul set_words)

lemma str_at_eq:
  assumes "q \<le> e" "e < length b" "b ! e = 0" "\<And>i. q \<le> i \<Longrightarrow> i < e \<Longrightarrow> b ! i \<noteq> 0"
  shows "str_at b q = take (e - q) (drop q b)"
  unfolding str_at_def
proof (rule takeWhile_eq_take_P_nth [of "e - q"])
  show "drop q b ! i \<noteq> 0" if "i < e - q" "i < length (drop q b)" for i
    using assms(4) [of "q + i"] that by simp
qed (use assms in auto)

definition is_word :: "u8 list \<Rightarrow> bool" where
  "is_word w \<longleftrightarrow> w \<noteq> [] \<and> 0 \<notin> set w \<and> (\<forall>c \<in> set w. in_word c)"

definition word_text :: "u8 list \<Rightarrow> nat \<times> nat \<Rightarrow> u8 list" where
  "word_text t w = take (snd w - fst w) (drop (fst w) t)"

lemma word_text_is_word:
  assumes "word_at t w" "0 \<notin> set t"
  shows "is_word (word_text t w)"
proof -
  obtain q e where w: "w = (q, e)" by fastforce
  have q: "q < e" "e \<le> length t" "\<And>i. q \<le> i \<Longrightarrow> i < e \<Longrightarrow> in_word (t ! i)"
    using assms(1) by (auto simp: word_at_def w)
  have "set (word_text t w) \<subseteq> set t"
    unfolding word_text_def by (meson set_drop_subset set_take_subset subset_trans)
  moreover have "in_word c" if "c \<in> set (word_text t w)" for c
    using that q by (auto simp: word_text_def w in_set_conv_nth)
  ultimately show ?thesis
    using assms(2) q by (auto simp: is_word_def word_text_def w)
qed

lemma nulterminate_strings:
  assumes "tree_ok t c" "0 \<notin> set t" "(q, e) \<in> set_cmd c"
  shows "str_at (nulterminate c (t @ [0])) q = word_text t (q, e)"
proof -
  let ?b = "nulterminate c (t @ [0])"
  have w: "word_at t v" if "v \<in> set_cmd c" for v
    using assms(1) that by (simp add: tree_ok_def)
  have q: "q < e" "e \<le> length t"
    using w [OF assms(3)] by (auto simp: word_at_def)
  have len: "length ?b = Suc (length t)" by (simp add: nulterminate_nth)
  have keep: "?b ! i = t ! i" if "q \<le> i" "i < e" for i
  proof -
    have "in_word (t ! i)" "i < length t"
      using w [OF assms(3)] that q by (auto simp: word_at_def)
    then have "i \<notin> snd ` set_cmd c"
      using w by (force simp: word_at_def)
    then show ?thesis
      using \<open>i < length t\<close> by (simp add: nulterminate_nth nth_append)
  qed
  have "str_at ?b q = take (e - q) (drop q ?b)"
  proof (rule str_at_eq)
    show "?b ! e = 0"
      using assms(3) q by (force simp: nulterminate_nth)
    show "?b ! i \<noteq> 0" if "q \<le> i" "i < e" for i
      using keep [OF that] assms(2) that q by (metis nth_mem order.strict_trans2)
  qed (use q len in auto)
  also have "\<dots> = word_text t (q, e)"
    unfolding word_text_def using q len keep by (intro nth_equalityI) auto
  finally show ?thesis .
qed

text \<open>
  C36. The parser of the shell is total and stays inside the line. For every line, parsecmd returns a tree or panics with a
  message, whatever the nesting of the line. In a tree, every command has fewer than MAXARGS words, so that the arrays of
  struct execcmd hold them with their final null; every word has its two pointers in order inside the line; and after
  nulterminate the string at the first pointer is exactly the text between the two, not empty and without blanks or
  symbols, although the terminators are written into the line that all the words share.
\<close>

theorem parsecmd_words:
  assumes "0 \<notin> set s"
  shows "(\<exists>msg r. parsecmd s = Inl (Failed msg, r)) \<or>
    (\<exists>c b. parsecmd s = Inr (c, b) \<and> few_args c \<and> length b = length s + 1 \<and>
       (\<forall>(q, e) \<in> set_cmd c. q < e \<and> e \<le> length s \<and> str_at b q = take (e - q) (drop q s) \<and> is_word (str_at b q)))"
proof -
  let ?m = "parseline (4 * length s + 4) (length s) s"
  have m: "returns s ?m" by (rule more_fuel) simp
  have ok: "sound s (tree_ok s) ?m" using parser_sound [of s] by simp
  show ?thesis
  proof (cases ?m)
    case (Inl e)
    with m have "e \<noteq> No_fuel" by (simp add: returns_def)
    with Inl show ?thesis by (cases e) (auto simp: parsecmd_def)
  next
    case (Inr x)
    then obtain c r where x: "?m = Inr (c, r)" by (cases x) auto
    have c: "tree_ok s c" using ok by (simp add: x)
    let ?b = "nulterminate c (s @ [0])"
    have "q < e \<and> e \<le> length s \<and> str_at ?b q = take (e - q) (drop q s) \<and> is_word (str_at ?b q)" if "(q, e) \<in> set_cmd c" for q e
    proof -
      have "word_at s (q, e)" using c that by (simp add: tree_ok_def)
      then show ?thesis
        using word_text_is_word [of s "(q, e)"] assms nulterminate_strings [OF c assms that] by (simp add: word_at_def word_text_def)
    qed
    then show ?thesis
      using c x by (cases "snd (peek r [])") (auto simp: parsecmd_def tree_ok_def nulterminate_nth split: prod.splits)
  qed
qed

theorem parsecmd_words_witness:
  "parsecmd (bytes ''ls>f'') = Inr (REDIR (EXEC [(0, 2)]) (3, 4) 0x201 1, bytes ''ls'' @ [0] @ bytes ''f'' @ [0]) \<and>
   is_word (str_at (bytes ''ls'' @ [0] @ bytes ''f'' @ [0]) 3)"
proof -
  have "parsecmd (bytes ''ls>f'') = Inr (REDIR (EXEC [(0, 2)]) (3, 4) 0x201 1, bytes ''ls'' @ [0] @ bytes ''f'' @ [0])"
    by code_simp
  moreover have "0 \<notin> set (bytes ''ls>f'')"
    by (simp add: bytes_def of_char_def)
  ultimately show ?thesis
    using parsecmd_words [of "bytes ''ls>f''"] by fastforce
qed

end
