(* ===== verification/Sh_Round.thy ===== *)
theory Sh_Round
  imports Sh_Parse
begin

text \<open>
  Writing a command out and reading it back: \<open>show_cmd\<close> writes a tree of words as a line, with parentheses where the grammar
  needs them, and the parser of the shell gives the tree back.
\<close>

section \<open>Writing a command\<close>

definition show_words :: "u8 list list \<Rightarrow> u8 list" where
  "show_words ws = concat (map (\<lambda>w. w @ [32]) ws)"

definition show_redir :: "u8 list \<times> int \<times> int \<Rightarrow> u8 list" where
  "show_redir r = (case r of (f, mode, fd) \<Rightarrow> (if fd = 0 then 60 else 62) # 32 # f @ [32])"

definition show_redirs :: "(u8 list \<times> int \<times> int) list \<Rightarrow> u8 list" where
  "show_redirs rs = concat (map show_redir rs)"

text \<open>The routine of the grammar that reads the command: parseexec, parsepipe, the loop of parseline, parseline.\<close>

primrec level :: "'a cmd \<Rightarrow> nat" where
  "level (EXEC ws) = 0"
| "level (REDIR c f mode fd) = 0"
| "level (PIPE l r) = 1"
| "level (BACK c) = 2"
| "level (LIST l r) = 3"

definition paren :: "bool \<Rightarrow> u8 list \<Rightarrow> u8 list" where
  "paren b s = (if b then 40 # 32 # s @ [41, 32] else s)"

primrec show_cmd :: "u8 list cmd \<Rightarrow> u8 list" where
  "show_cmd (EXEC ws) = show_words ws"
| "show_cmd (REDIR c f mode fd) = paren (0 < level c) (show_cmd c) @ show_redir (f, mode, fd)"
| "show_cmd (PIPE l r) = paren (0 < level l) (show_cmd l) @ [124, 32] @ paren (1 < level r) (show_cmd r)"
| "show_cmd (BACK c) = paren (2 < level c) (show_cmd c) @ [38, 32]"
| "show_cmd (LIST l r) = paren (2 < level l) (show_cmd l) @ [59, 32] @ show_cmd r"

text \<open>Commands that a line can denote: short argument lists of words, redirections of the two kinds.\<close>

definition redir_mode :: "int \<Rightarrow> int \<Rightarrow> bool" where
  "redir_mode mode fd \<longleftrightarrow> (mode, fd) = (O_RDONLY, 0) \<or> (mode, fd) = (O_WRONLY_CREATE, 1)"

primrec denotable :: "u8 list cmd \<Rightarrow> bool" where
  "denotable (EXEC ws) \<longleftrightarrow> length ws < MAXARGS \<and> list_all is_word ws"
| "denotable (REDIR c f mode fd) \<longleftrightarrow> denotable c \<and> is_word f \<and> redir_mode mode fd"
| "denotable (PIPE l r) \<longleftrightarrow> denotable l \<and> denotable r"
| "denotable (BACK c) \<longleftrightarrow> denotable c"
| "denotable (LIST l r) \<longleftrightarrow> denotable l \<and> denotable r"

section \<open>Tokens of a written line\<close>

text \<open>What may follow a piece of a line: the end, or one of the characters \<open>F\<close>.\<close>

definition follow :: "u8 set \<Rightarrow> u8 list \<Rightarrow> bool" where
  "follow F k \<longleftrightarrow> k = [] \<or> hd k \<in> F"

lemma follow_mono: "follow F k \<Longrightarrow> F \<subseteq> G \<Longrightarrow> follow G k"
  by (auto simp: follow_def)

lemma skip_ws_simps [simp]:
  "skip_ws [] = []" "skip_ws (32 # s) = skip_ws s" "c \<notin> set whitespace \<Longrightarrow> skip_ws (c # s) = c # s"
  by (simp_all add: skip_ws_def whitespace_def)

lemma skip_follow:
  assumes "follow F k" "F \<inter> set whitespace = {}"
  shows "skip_ws k = k"
proof (cases k)
  case (Cons c s)
  then have "c \<notin> set whitespace" using assms by (auto simp: follow_def)
  then show ?thesis by (simp add: Cons)
qed simp

lemma not_ws [simp]:
  "40 \<notin> set whitespace" "41 \<notin> set whitespace" "38 \<notin> set whitespace" "59 \<notin> set whitespace" "60 \<notin> set whitespace"
  "62 \<notin> set whitespace" "124 \<notin> set whitespace"
  by (simp_all add: whitespace_def)

lemma word_head:
  assumes "is_word w"
  obtains c v where "w = c # v" "in_word c" "c \<notin> set whitespace" "c \<notin> {124, 40, 41, 59, 38, 60, 62}" "c \<noteq> 0"
proof -
  obtain c v where "w = c # v" using assms by (cases w) (auto simp: is_word_def)
  moreover have "in_word c" "c \<noteq> 0" using assms calculation by (auto simp: is_word_def)
  moreover have "c \<notin> set whitespace" "c \<notin> {124, 40, 41, 59, 38, 60, 62}"
    using \<open>in_word c\<close> unfolding in_word_iff by (auto simp: bytes_def of_char_def)
  ultimately show ?thesis using that by blast
qed

lemma peek_head:
  "c \<notin> set whitespace \<Longrightarrow> peek (c # s) toks = (c \<in> set (bytes toks), c # s)"
  by (simp add: peek_def Let_def)

lemma peek_Nil [simp]: "peek [] toks = (False, [])"
  by (simp add: peek_def Let_def)

lemma gettoken_symbol:
  assumes "c \<in> {124, 40, 41, 59, 38, 60, 62}" "skip_ws k = k"
  shows "\<exists>w. gettoken n (c # 32 # k) = ((c, w), k)"
proof -
  have "c \<notin> set whitespace" using assms(1) by auto
  then show ?thesis
    using assms by (auto simp: gettoken_def Let_def bytes_def of_char_def)
qed

lemma gettoken_word_text:
  assumes "is_word w" "skip_ws k = k"
  shows "gettoken n (w @ 32 # k) = ((97, (n - length (w @ 32 # k), n - length (32 # k))), k)"
proof -
  obtain c v where w: "w = c # v" "c \<notin> set whitespace" "c \<notin> {124, 40, 41, 59, 38, 60, 62}"
    using assms(1) by (rule word_head)
  have "dropWhile in_word (w @ 32 # k) = 32 # k"
    using assms(1) by (subst dropWhile_append2) (auto simp: is_word_def in_word_def whitespace_def)
  moreover have "c \<notin> set (bytes ''|();&<'')" "c \<noteq> 62"
    using w(3) by (auto simp: bytes_def of_char_def)
  ultimately have "scan_token (w @ 32 # k) = (97, 32 # k)"
    by (simp add: w(1))
  then show ?thesis
    using w(1,2) assms(2) by (simp add: gettoken_def Let_def)
qed

lemma word_text_suffix:
  assumes "suffix (u @ r) t"
  shows "word_text t (length t - length (u @ r), length t - length r) = u"
  using assms by (auto simp: suffix_def word_text_def)

section \<open>Reading words and redirections\<close>

abbreviation redir_text :: "u8 list \<Rightarrow> redir \<Rightarrow> u8 list \<times> int \<times> int" where
  "redir_text t r \<equiv> (word_text t (fst r), snd r)"

definition redir_ok :: "u8 list \<times> int \<times> int \<Rightarrow> bool" where
  "redir_ok r \<longleftrightarrow> (case r of (f, mode, fd) \<Rightarrow> is_word f \<and> redir_mode mode fd)"

lemma peek_follow:
  assumes "follow F k" "F \<inter> set whitespace = {}" "F \<inter> set (bytes toks) = {}"
  shows "peek k toks = (False, k)"
proof (cases k)
  case (Cons c s)
  then have "c \<notin> set whitespace" "c \<notin> set (bytes toks)" using assms by (auto simp: follow_def)
  then show ?thesis by (simp add: Cons peek_head)
qed simp

lemma parseredirs_none:
  assumes "follow F k" "F \<inter> set whitespace = {}" "60 \<notin> F" "62 \<notin> F"
  shows "parseredirs n k = Inr ([], k)"
proof -
  have "peek k ''<>'' = (False, k)"
    using assms by (intro peek_follow) (auto simp: bytes_def of_char_def)
  then show ?thesis by (subst parseredirs.simps) simp
qed

lemma parseredirs_show:
  assumes "follow F k" "F \<inter> set whitespace = {}" "60 \<notin> F" "62 \<notin> F" "list_all redir_ok rs"
    and "suffix (show_redirs rs @ k) t"
  shows "\<exists>rs'. parseredirs (length t) (show_redirs rs @ k) = Inr (rs', k) \<and> map (redir_text t) rs' = rs"
  using assms(5,6)
proof (induction rs)
  case Nil
  then show ?case using parseredirs_none [OF assms(1-4)] by (simp add: show_redirs_def)
next
  case (Cons r rs)
  obtain f mode fd where r: "r = (f, mode, fd)" by (cases r)
  let ?k = "show_redirs rs @ k"
  define c :: u8 where "c = (if fd = 0 then 60 else 62)"
  have c: "c = 60 \<or> c = 62" "c = 60 \<longleftrightarrow> fd = 0" by (auto simp: c_def)
  have f: "is_word f" "redir_mode mode fd" using Cons.prems(1) by (simp_all add: r redir_ok_def)
  have k: "skip_ws ?k = ?k"
    using skip_follow [OF assms(1,2)] by (cases rs) (auto simp: show_redirs_def show_redir_def split: prod.splits)
  have s: "show_redirs (r # rs) @ k = c # 32 # f @ 32 # ?k"
    by (simp add: show_redirs_def show_redir_def r c_def)
  have suf: "suffix ((c # 32 # f) @ 32 # ?k) t" "suffix (f @ 32 # ?k) t" "suffix ?k t"
    using Cons.prems(2) unfolding s by (auto simp: suffix_def)
  obtain rs' where rs': "parseredirs (length t) ?k = Inr (rs', k)" "map (redir_text t) rs' = rs"
    using Cons.IH [OF _ suf(3)] Cons.prems(1) by auto
  have fk: "skip_ws (f @ 32 # ?k) = f @ 32 # ?k"
    using f(1) by (rule word_head) simp
  obtain w where w: "gettoken (length t) (c # 32 # f @ 32 # ?k) = ((c, w), f @ 32 # ?k)"
    using gettoken_symbol [of c "f @ 32 # ?k" "length t"] fk c(1) by blast
  have p: "peek (c # 32 # f @ 32 # ?k) ''<>'' = (True, c # 32 # f @ 32 # ?k)"
    using c(1) by (subst peek_head) (auto simp: bytes_def of_char_def)
  let ?v = "(length t - length (f @ 32 # ?k), length t - length (32 # ?k))"
  have v: "word_text t ?v = f"
    using suf(2) by (rule word_text_suffix)
  have "parseredirs (length t) (c # 32 # f @ 32 # ?k) = Inr ((?v, mode, fd) # rs', k)"
    using f(2) c by (subst parseredirs.simps) (auto simp: p w gettoken_word_text [OF f(1) k] rs'(1) redir_mode_def)
  then show ?case
    unfolding s using v rs'(2) by (auto simp: r)
qed

abbreviation exec_end :: "u8 set" where
  "exec_end \<equiv> {124, 41, 38, 59}"

lemma exec_args_end:
  assumes "follow exec_end k"
  shows "exec_args n args rs k = Inr ((args, rs), k)"
proof (cases k)
  case Nil
  then show ?thesis by (subst exec_args.simps) (simp add: gettoken_def Let_def)
next
  case (Cons c s)
  then have c: "c \<in> exec_end" "c \<notin> set whitespace" using assms by (auto simp: follow_def)
  then have "peek (c # s) ''|)&;'' = (True, c # s)"
    by (subst peek_head) (auto simp: bytes_def of_char_def)
  then show ?thesis by (subst exec_args.simps) (simp add: Cons)
qed

lemma exec_args_show:
  assumes "follow exec_end k" "list_all redir_ok rs" "list_all is_word ws" "ws \<noteq> []" "length args + length ws < MAXARGS"
    and "suffix (show_words ws @ show_redirs rs @ k) t"
  shows "\<exists>ws' rs'. exec_args (length t) args rs0 (show_words ws @ show_redirs rs @ k) = Inr ((args @ ws', rs0 @ rs'), k) \<and>
    map (word_text t) ws' = ws \<and> map (redir_text t) rs' = rs"
  using assms(3-6)
proof (induction ws arbitrary: args rs0)
  case (Cons w ws)
  let ?k = "show_words ws @ show_redirs rs @ k"
  let ?s = "w @ 32 # ?k"
  let ?v = "(length t - length ?s, length t - length (32 # ?k))"
  have s: "show_words (w # ws) @ show_redirs rs @ k = ?s" by (simp add: show_words_def)
  have w: "is_word w" using Cons.prems(1) by simp
  have suf: "suffix ?s t" "suffix ?k t" using Cons.prems(4) unfolding s by (auto simp: suffix_def)
  have v: "word_text t ?v = w" using suf(1) by (rule word_text_suffix)
  have k: "skip_ws ?k = ?k"
  proof (cases ws)
    case Nil
    then show ?thesis
      using skip_follow [OF assms(1)] by (cases rs) (auto simp: show_words_def show_redirs_def show_redir_def split: prod.splits)
  next
    case (Cons x xs)
    have "is_word x" using Cons.prems(1) Cons by simp
    then show ?thesis by (rule word_head) (simp add: Cons show_words_def)
  qed
  have p: "peek ?s ''|)&;'' = (False, ?s)"
    using w by (rule word_head) (auto simp: peek_head bytes_def of_char_def)
  have step: "exec_args (length t) args rs0 ?s =
      seq (parseredirs (length t) ?k) (\<lambda>(rs', s). exec_args (length t) (args @ [?v]) (rs0 @ rs') s)"
    using Cons.prems(3) by (subst exec_args.simps) (simp add: p gettoken_word_text [OF w k])
  show ?case
  proof (cases "ws = []")
    case True
    obtain rs' where "parseredirs (length t) ?k = Inr (rs', k)" "map (redir_text t) rs' = rs"
      using parseredirs_show [OF assms(1) _ _ _ assms(2), of t] suf(2) by (auto simp: True show_words_def)
    then show ?thesis
      unfolding s using v step True exec_args_end [OF assms(1)]
      by (intro exI [of _ "[?v]"] exI [of _ rs']) simp
  next
    case False
    then obtain x xs where ws: "ws = x # xs" by (cases ws) auto
    have "is_word x" using Cons.prems(1) ws by simp
    then obtain c u where x: "x = c # u" "c \<notin> set whitespace" "c \<notin> {124, 40, 41, 59, 38, 60, 62}"
      by (rule word_head)
    have "parseredirs (length t) ?k = Inr ([], ?k)"
      by (rule parseredirs_none [of "{c}"]) (use x in \<open>auto simp: follow_def ws show_words_def\<close>)
    moreover obtain ws' rs' where "exec_args (length t) (args @ [?v]) rs0 ?k = Inr (((args @ [?v]) @ ws', rs0 @ rs'), k)"
      "map (word_text t) ws' = ws" "map (redir_text t) rs' = rs"
      using Cons.IH [of "args @ [?v]" rs0] Cons.prems suf(2) False by auto
    ultimately show ?thesis
      unfolding s using v step
      by (intro exI [of _ "?v # ws'"] exI [of _ rs']) simp
  qed
qed simp

section \<open>Reading commands\<close>

text \<open>A routine of the grammar reads a command from a text when it does so with all fuel from some amount on.\<close>

definition reads :: "(nat \<Rightarrow> nat \<Rightarrow> u8 list \<Rightarrow> sherr + (nat \<times> nat) cmd \<times> u8 list) \<Rightarrow>
    u8 list \<Rightarrow> u8 list \<Rightarrow> (nat \<times> nat) cmd \<Rightarrow> u8 list \<Rightarrow> bool" where
  "reads p t s c r \<longleftrightarrow> (\<exists>k. \<forall>j \<ge> k. p j (length t) s = Inr (c, r))"

lemma readsI:
  assumes "\<And>j. k \<le> j \<Longrightarrow> p (Suc j) (length t) s = Inr (c, r)"
  shows "reads p t s c r"
  unfolding reads_def
proof (intro exI [of _ "Suc k"] allI impI)
  fix j assume "Suc k \<le> j"
  then obtain i where "j = Suc i" "k \<le> i" by (cases j) auto
  then show "p j (length t) s = Inr (c, r)" using assms by simp
qed

lemma reads_pipe1:
  assumes "reads parseexec t s c r" "follow {41, 38, 59} r"
  shows "reads parsepipe t s c r"
proof -
  obtain k where k: "\<And>j. k \<le> j \<Longrightarrow> parseexec j (length t) s = Inr (c, r)"
    using assms(1) by (auto simp: reads_def)
  have "peek r ''|'' = (False, r)"
    using assms(2) by (rule peek_follow) (auto simp: bytes_def of_char_def)
  with k show ?thesis by (intro readsI [of k]) simp
qed

lemma reads_pipe2:
  assumes "reads parseexec t s c (124 # 32 # r)" "skip_ws r = r" "reads parsepipe t r d u"
  shows "reads parsepipe t s (PIPE c d) u"
proof -
  obtain k where k: "\<And>j. k \<le> j \<Longrightarrow> parseexec j (length t) s = Inr (c, 124 # 32 # r)"
    using assms(1) by (auto simp: reads_def)
  obtain l where l: "\<And>j. l \<le> j \<Longrightarrow> parsepipe j (length t) r = Inr (d, u)"
    using assms(3) by (auto simp: reads_def)
  have p: "peek (124 # 32 # r) ''|'' = (True, 124 # 32 # r)"
    by (subst peek_head) (auto simp: bytes_def of_char_def)
  obtain w where "gettoken (length t) (124 # 32 # r) = ((124, w), r)"
    using gettoken_symbol [OF _ assms(2), of 124] by blast
  with k l p show ?thesis by (intro readsI [of "max k l"]) simp
qed

text \<open>parseline up to its loop over ampersands: a pipeline, and what the loop makes of the rest.\<close>

definition reads_back :: "u8 list \<Rightarrow> u8 list \<Rightarrow> (nat \<times> nat) cmd \<Rightarrow> u8 list \<Rightarrow> bool" where
  "reads_back t s c r \<longleftrightarrow> (\<exists>c0 r0. reads parsepipe t s c0 r0 \<and> back_loop (length t) c0 r0 = back_loop (length t) c r)"

lemma reads_back1: "reads parsepipe t s c r \<Longrightarrow> reads_back t s c r"
  by (auto simp: reads_back_def)

lemma reads_back2:
  assumes "reads_back t s c (38 # 32 # r)" "skip_ws r = r"
  shows "reads_back t s (BACK c) r"
proof -
  have p: "peek (38 # 32 # r) ''&'' = (True, 38 # 32 # r)"
    by (subst peek_head) (auto simp: bytes_def of_char_def)
  obtain w where "gettoken (length t) (38 # 32 # r) = ((38, w), r)"
    using gettoken_symbol [OF _ assms(2), of 38] by blast
  with p have "back_loop (length t) c (38 # 32 # r) = back_loop (length t) (BACK c) r"
    by (subst back_loop.simps) simp
  with assms(1) show ?thesis by (auto simp: reads_back_def)
qed

lemma back_loop_end:
  assumes "follow {41, 59} r"
  shows "back_loop n c r = (c, r)"
proof -
  have "peek r ''&'' = (False, r)"
    using assms by (rule peek_follow) (auto simp: bytes_def of_char_def)
  then show ?thesis by (subst back_loop.simps) simp
qed

lemma reads_line1:
  assumes "reads_back t s c r" "follow {41} r"
  shows "reads parseline t s c r"
proof -
  obtain c0 r0 k where k: "\<And>j. k \<le> j \<Longrightarrow> parsepipe j (length t) s = Inr (c0, r0)"
    and b: "back_loop (length t) c0 r0 = (c, r)"
    using assms(1) back_loop_end [OF follow_mono [OF assms(2)]] by (auto simp: reads_back_def reads_def)
  have "peek r '';'' = (False, r)"
    using assms(2) by (rule peek_follow) (auto simp: bytes_def of_char_def)
  with k b show ?thesis by (intro readsI [of k]) simp
qed

lemma reads_line2:
  assumes "reads_back t s c (59 # 32 # r)" "skip_ws r = r" "reads parseline t r d u"
  shows "reads parseline t s (LIST c d) u"
proof -
  obtain c0 r0 k where k: "\<And>j. k \<le> j \<Longrightarrow> parsepipe j (length t) s = Inr (c0, r0)"
    and b: "back_loop (length t) c0 r0 = (c, 59 # 32 # r)"
    using assms(1) back_loop_end [of "59 # 32 # r"] by (auto simp: reads_back_def reads_def follow_def)
  obtain l where l: "\<And>j. l \<le> j \<Longrightarrow> parseline j (length t) r = Inr (d, u)"
    using assms(3) by (auto simp: reads_def)
  have p: "peek (59 # 32 # r) '';'' = (True, 59 # 32 # r)"
    by (subst peek_head) (auto simp: bytes_def of_char_def)
  obtain w where "gettoken (length t) (59 # 32 # r) = ((59, w), r)"
    using gettoken_symbol [OF _ assms(2), of 59] by blast
  with k l b p show ?thesis by (intro readsI [of "max k l"]) simp
qed

lemma reads_block:
  assumes "reads parseline t s c (41 # 32 # r)" "skip_ws s = s" "skip_ws r = r" "parseredirs (length t) r = Inr (rs, u)"
  shows "reads parseexec t (40 # 32 # s) (add_redirs rs c) u"
proof -
  obtain k where k: "\<And>j. k \<le> j \<Longrightarrow> parseline j (length t) s = Inr (c, 41 # 32 # r)"
    using assms(1) by (auto simp: reads_def)
  have p: "peek (40 # 32 # s) ''('' = (True, 40 # 32 # s)" "peek (41 # 32 # r) '')'' = (True, 41 # 32 # r)"
    by (subst peek_head; auto simp: bytes_def of_char_def)+
  obtain w where w: "gettoken (length t) (40 # 32 # s) = ((40, w), s)"
    using gettoken_symbol [OF _ assms(2), of 40] by blast
  obtain v where v: "gettoken (length t) (41 # 32 # r) = ((41, v), r)"
    using gettoken_symbol [OF _ assms(3), of 41] by blast
  have "parseexec (Suc j) (length t) (40 # 32 # s) = Inr (add_redirs rs c, u)" if j: "Suc k \<le> j" for j
  proof -
    obtain i where i: "j = Suc i" "k \<le> i" using j by (cases j) auto
    show ?thesis using k [OF i(2)] p w v assms(4) by (simp add: i(1))
  qed
  then show ?thesis by (rule readsI)
qed

lemma reads_exec:
  assumes "follow exec_end k" "list_all redir_ok rs" "list_all is_word ws" "length ws < MAXARGS"
    and "suffix (show_words ws @ show_redirs rs @ k) t"
  shows "\<exists>ws' rs'. reads parseexec t (show_words ws @ show_redirs rs @ k) (add_redirs rs' (EXEC ws')) k \<and>
    map (word_text t) ws' = ws \<and> map (redir_text t) rs' = rs"
proof -
  let ?s = "show_words ws @ show_redirs rs @ k"
  have start: "\<exists>F. follow F ?s \<and> F \<inter> set whitespace = {} \<and> 40 \<notin> F \<and> (ws \<noteq> [] \<longrightarrow> 60 \<notin> F \<and> 62 \<notin> F)"
  proof (cases ws)
    case Nil
    show ?thesis
      by (rule exI [of _ "insert 60 (insert 62 exec_end)"])
        (use assms(1) in \<open>cases rs; auto simp: Nil show_words_def show_redirs_def show_redir_def follow_def split: prod.splits\<close>)
  next
    case (Cons x xs)
    have "is_word x" using assms(3) Cons by simp
    then obtain c u where x: "x = c # u" "c \<notin> set whitespace" "c \<notin> {124, 40, 41, 59, 38, 60, 62}"
      by (rule word_head)
    then show ?thesis by (intro exI [of _ "{c}"]) (auto simp: follow_def Cons show_words_def)
  qed
  then obtain F where F: "follow F ?s" "F \<inter> set whitespace = {}" "40 \<notin> F" "ws \<noteq> [] \<Longrightarrow> 60 \<notin> F" "ws \<noteq> [] \<Longrightarrow> 62 \<notin> F"
    by auto
  have p: "peek ?s ''('' = (False, ?s)"
    using F(1-3) by (intro peek_follow) (auto simp: bytes_def of_char_def)
  have "\<exists>ws' rs'. seq (parseredirs (length t) ?s) (\<lambda>(rs, s). exec_args (length t) [] rs s) = Inr ((ws', rs'), k) \<and>
      map (word_text t) ws' = ws \<and> map (redir_text t) rs' = rs"
  proof (cases "ws = []")
    case True
    obtain rs' where "parseredirs (length t) ?s = Inr (rs', k)" "map (redir_text t) rs' = rs"
      using parseredirs_show [OF assms(1) _ _ _ assms(2), of t] assms(5) by (auto simp: True show_words_def)
    then show ?thesis
      using True exec_args_end [OF assms(1)] by (intro exI [of _ "[]"] exI [of _ rs']) simp
  next
    case False
    then show ?thesis
      using exec_args_show [OF assms(1-3) _ _ assms(5), of "[]" "[]"] assms(4) parseredirs_none [OF F(1,2) F(4,5)] by simp
  qed
  then obtain ws' rs' where r: "seq (parseredirs (length t) ?s) (\<lambda>(rs, s). exec_args (length t) [] rs s) = Inr ((ws', rs'), k)"
      "map (word_text t) ws' = ws" "map (redir_text t) rs' = rs" by blast
  then have "parseexec (Suc j) (length t) ?s = Inr (add_redirs rs' (EXEC ws'), k)" for j
    by (auto simp: p seq_eq_Inr)
  then show ?thesis using r readsI [of 0 parseexec] by blast
qed

section \<open>The round trip\<close>

text \<open>
  The command written for a routine of the given level; each routine reads it, whatever allowed text follows. parseexec also
  reads the redirections behind it, as a redirection of a redirection is written there.
\<close>

definition show_at :: "nat \<Rightarrow> u8 list cmd \<Rightarrow> u8 list" where
  "show_at l c = paren (l < level c) (show_cmd c)"

definition exec_reads :: "u8 list \<Rightarrow> u8 list cmd \<Rightarrow> bool" where
  "exec_reads t c \<longleftrightarrow> (\<forall>rs k. follow exec_end k \<and> list_all redir_ok rs \<and> suffix (show_at 0 c @ show_redirs rs @ k) t \<longrightarrow>
     (\<exists>c' rs'. reads parseexec t (show_at 0 c @ show_redirs rs @ k) (add_redirs rs' c') k \<and>
        map_cmd (word_text t) c' = c \<and> map (redir_text t) rs' = rs))"

definition pipe_reads :: "u8 list \<Rightarrow> u8 list cmd \<Rightarrow> bool" where
  "pipe_reads t c \<longleftrightarrow> (\<forall>k. follow {41, 38, 59} k \<and> suffix (show_at 1 c @ k) t \<longrightarrow>
     (\<exists>c'. reads parsepipe t (show_at 1 c @ k) c' k \<and> map_cmd (word_text t) c' = c))"

definition back_reads :: "u8 list \<Rightarrow> u8 list cmd \<Rightarrow> bool" where
  "back_reads t c \<longleftrightarrow> (\<forall>k. follow {41, 38, 59} k \<and> suffix (show_at 2 c @ k) t \<longrightarrow>
     (\<exists>c'. reads_back t (show_at 2 c @ k) c' k \<and> map_cmd (word_text t) c' = c))"

definition line_reads :: "u8 list \<Rightarrow> u8 list cmd \<Rightarrow> bool" where
  "line_reads t c \<longleftrightarrow> (\<forall>k. follow {41} k \<and> suffix (show_cmd c @ k) t \<longrightarrow>
     (\<exists>c'. reads parseline t (show_cmd c @ k) c' k \<and> map_cmd (word_text t) c' = c))"

lemma show_head: "denotable c \<Longrightarrow> skip_ws k = k \<Longrightarrow> skip_ws (show_cmd c @ k) = show_cmd c @ k"
proof (induction c arbitrary: k)
  case (EXEC ws)
  show ?case
  proof (cases ws)
    case (Cons x xs)
    have "is_word x" using EXEC.prems Cons by simp
    then show ?thesis by (rule word_head) (simp add: Cons show_words_def)
  qed (use EXEC in \<open>simp add: show_words_def\<close>)
qed (auto simp: paren_def show_redir_def)

lemma show_at_head: "denotable c \<Longrightarrow> skip_ws k = k \<Longrightarrow> skip_ws (show_at l c @ k) = show_at l c @ k"
  using show_head by (simp add: show_at_def paren_def)

lemma skip_redirs: "skip_ws k = k \<Longrightarrow> skip_ws (show_redirs rs @ k) = show_redirs rs @ k"
  by (cases rs) (auto simp: show_redirs_def show_redir_def split: prod.splits)

lemma map_add_redirs:
  "map_cmd (word_text t) (add_redirs rs c) = fold (\<lambda>(w, m, f) c. REDIR c w m f) (map (redir_text t) rs) (map_cmd (word_text t) c)"
  by (induction rs arbitrary: c) (auto simp: add_redirs_def)

lemma exec_reads_paren:
  assumes "line_reads t c" "denotable c" "0 < level c"
  shows "exec_reads t c"
  unfolding exec_reads_def
proof (intro allI impI, elim conjE)
  fix rs k assume k: "follow exec_end k" "list_all redir_ok rs" "suffix (show_at 0 c @ show_redirs rs @ k) t"
  let ?r = "show_redirs rs @ k"
  have s: "show_at 0 c @ ?r = 40 # 32 # show_cmd c @ 41 # 32 # ?r"
    using assms(3) by (simp add: show_at_def paren_def)
  have suf: "suffix (show_cmd c @ 41 # 32 # ?r) t" "suffix ?r t"
    using k(3) unfolding s by (auto simp: suffix_def)
  have skip: "skip_ws ?r = ?r"
    by (intro skip_redirs skip_follow [OF k(1)]) auto
  obtain c' where c': "reads parseline t (show_cmd c @ 41 # 32 # ?r) c' (41 # 32 # ?r)" "map_cmd (word_text t) c' = c"
    using assms(1) [unfolded line_reads_def, rule_format, of "41 # 32 # ?r"] suf(1) by (auto simp: follow_def)
  obtain rs' where rs': "parseredirs (length t) ?r = Inr (rs', k)" "map (redir_text t) rs' = rs"
    using parseredirs_show [OF k(1) _ _ _ k(2) suf(2)] by auto
  have "reads parseexec t (40 # 32 # show_cmd c @ 41 # 32 # ?r) (add_redirs rs' c') k"
    using show_head [OF assms(2), of "41 # 32 # ?r"] by (intro reads_block [OF c'(1) _ skip rs'(1)]) simp
  then show "\<exists>c' rs'. reads parseexec t (show_at 0 c @ ?r) (add_redirs rs' c') k \<and>
      map_cmd (word_text t) c' = c \<and> map (redir_text t) rs' = rs"
    unfolding s using c'(2) rs'(2) by blast
qed

lemma exec_readsD:
  assumes "exec_reads t c" "follow exec_end k" "list_all redir_ok rs" "suffix (show_at 0 c @ show_redirs rs @ k) t"
  obtains c' rs' where "reads parseexec t (show_at 0 c @ show_redirs rs @ k) (add_redirs rs' c') k"
    "map_cmd (word_text t) c' = c" "map (redir_text t) rs' = rs"
  using assms unfolding exec_reads_def by blast

lemma exec_reads_plain:
  assumes "exec_reads t c" "follow exec_end k" "suffix (show_at 0 c @ k) t"
  obtains c' where "reads parseexec t (show_at 0 c @ k) c' k" "map_cmd (word_text t) c' = c"
  by (rule exec_readsD [OF assms(1,2), of "[]"]) (use assms(3) that in \<open>auto simp: show_redirs_def add_redirs_def\<close>)

lemma pipe_reads_exec:
  assumes "exec_reads t c" "level c \<noteq> 1"
  shows "pipe_reads t c"
  unfolding pipe_reads_def
proof (intro allI impI, elim conjE)
  fix k assume k: "follow {41, 38, 59} k" "suffix (show_at 1 c @ k) t"
  have s: "show_at 1 c = show_at 0 c" using assms(2) by (auto simp: show_at_def paren_def)
  have f: "follow exec_end k" using k(1) by (auto simp: follow_def)
  obtain c' where "reads parseexec t (show_at 0 c @ k) c' k" "map_cmd (word_text t) c' = c"
    by (rule exec_reads_plain [OF assms(1) f k(2) [unfolded s]])
  then show "\<exists>c'. reads parsepipe t (show_at 1 c @ k) c' k \<and> map_cmd (word_text t) c' = c"
    unfolding s using reads_pipe1 [OF _ k(1)] by blast
qed

lemma back_reads_pipe:
  assumes "pipe_reads t c" "level c \<noteq> 2"
  shows "back_reads t c"
proof -
  have s: "show_at 2 c = show_at 1 c" using assms(2) by (auto simp: show_at_def paren_def)
  show ?thesis
    using assms(1) reads_back1 unfolding back_reads_def pipe_reads_def s by blast
qed

lemma line_reads_back:
  assumes "back_reads t c" "level c \<noteq> 3"
  shows "line_reads t c"
  unfolding line_reads_def
proof (intro allI impI, elim conjE)
  fix k assume k: "follow {41} k" "suffix (show_cmd c @ k) t"
  have s: "show_cmd c = show_at 2 c" using assms(2) by (cases c) (auto simp: show_at_def paren_def)
  have "follow {41, 38, 59} k" using k(1) by (auto simp: follow_def)
  then obtain c' where "reads_back t (show_cmd c @ k) c' k" "map_cmd (word_text t) c' = c"
    using assms(1) k(2) unfolding back_reads_def s by metis
  then show "\<exists>c'. reads parseline t (show_cmd c @ k) c' k \<and> map_cmd (word_text t) c' = c"
    using reads_line1 [OF _ k(1)] by blast
qed

lemma exec_reads_redir:
  assumes "exec_reads t c" "is_word f" "redir_mode mode fd"
  shows "exec_reads t (REDIR c f mode fd)"
  unfolding exec_reads_def
proof (intro allI impI, elim conjE)
  fix rs k assume k: "follow exec_end k" "list_all redir_ok rs" "suffix (show_at 0 (REDIR c f mode fd) @ show_redirs rs @ k) t"
  have s: "show_at 0 (REDIR c f mode fd) @ show_redirs rs @ k = show_at 0 c @ show_redirs ((f, mode, fd) # rs) @ k"
    by (simp add: show_at_def paren_def show_redirs_def)
  have ok: "list_all redir_ok ((f, mode, fd) # rs)" using assms k(2) by (simp add: redir_ok_def)
  obtain c' rs'' where c': "reads parseexec t (show_at 0 c @ show_redirs ((f, mode, fd) # rs) @ k) (add_redirs rs'' c') k"
      "map_cmd (word_text t) c' = c" "map (redir_text t) rs'' = (f, mode, fd) # rs"
    by (rule exec_readsD [OF assms(1) k(1) ok k(3) [unfolded s]])
  obtain w rs' where "rs'' = (w, mode, fd) # rs'" "word_text t w = f" "map (redir_text t) rs' = rs"
    using c'(3) by (cases rs'') auto
  then show "\<exists>c' rs'. reads parseexec t (show_at 0 (REDIR c f mode fd) @ show_redirs rs @ k) (add_redirs rs' c') k \<and>
      map_cmd (word_text t) c' = REDIR c f mode fd \<and> map (redir_text t) rs' = rs"
    unfolding s using c' by (intro exI [of _ "REDIR c' w mode fd"] exI [of _ rs']) (simp add: add_redirs_def)
qed

lemma pipe_reads_pipe:
  assumes "exec_reads t l" "pipe_reads t r" "denotable r"
  shows "pipe_reads t (PIPE l r)"
  unfolding pipe_reads_def
proof (intro allI impI, elim conjE)
  fix k assume k: "follow {41, 38, 59} k" "suffix (show_at 1 (PIPE l r) @ k) t"
  let ?r = "show_at 1 r @ k"
  have s: "show_at 1 (PIPE l r) @ k = show_at 0 l @ 124 # 32 # ?r"
    by (simp add: show_at_def paren_def)
  have suf: "suffix (show_at 0 l @ 124 # 32 # ?r) t" "suffix ?r t"
    using k(2) unfolding s by (auto simp: suffix_def)
  have f: "follow exec_end (124 # 32 # ?r)" by (simp add: follow_def)
  obtain c' where c': "reads parseexec t (show_at 0 l @ 124 # 32 # ?r) c' (124 # 32 # ?r)" "map_cmd (word_text t) c' = l"
    by (rule exec_reads_plain [OF assms(1) f suf(1)])
  obtain d' where d': "reads parsepipe t ?r d' k" "map_cmd (word_text t) d' = r"
    using assms(2) k(1) suf(2) unfolding pipe_reads_def by metis
  have "skip_ws ?r = ?r"
    by (intro show_at_head [OF assms(3)] skip_follow [OF k(1)]) auto
  then show "\<exists>c'. reads parsepipe t (show_at 1 (PIPE l r) @ k) c' k \<and> map_cmd (word_text t) c' = PIPE l r"
    unfolding s using reads_pipe2 [OF c'(1) _ d'(1)] c'(2) d'(2) by (intro exI [of _ "PIPE c' d'"]) simp
qed

lemma back_reads_back:
  assumes "back_reads t c"
  shows "back_reads t (BACK c)"
  unfolding back_reads_def
proof (intro allI impI, elim conjE)
  fix k assume k: "follow {41, 38, 59} k" "suffix (show_at 2 (BACK c) @ k) t"
  have s: "show_at 2 (BACK c) @ k = show_at 2 c @ 38 # 32 # k"
    by (simp add: show_at_def paren_def)
  have "follow {41, 38, 59} (38 # 32 # k)" by (simp add: follow_def)
  then obtain c' where c': "reads_back t (show_at 2 c @ 38 # 32 # k) c' (38 # 32 # k)" "map_cmd (word_text t) c' = c"
    using assms k(2) unfolding back_reads_def s by metis
  have "skip_ws k = k" by (rule skip_follow [OF k(1)]) auto
  then show "\<exists>c'. reads_back t (show_at 2 (BACK c) @ k) c' k \<and> map_cmd (word_text t) c' = BACK c"
    unfolding s using reads_back2 [OF c'(1)] c'(2) by (intro exI [of _ "BACK c'"]) simp
qed

lemma line_reads_list:
  assumes "back_reads t l" "line_reads t r" "denotable r"
  shows "line_reads t (LIST l r)"
  unfolding line_reads_def
proof (intro allI impI, elim conjE)
  fix k assume k: "follow {41} k" "suffix (show_cmd (LIST l r) @ k) t"
  let ?r = "show_cmd r @ k"
  have s: "show_cmd (LIST l r) @ k = show_at 2 l @ 59 # 32 # ?r"
    by (simp add: show_at_def)
  have suf: "suffix (show_at 2 l @ 59 # 32 # ?r) t" "suffix ?r t"
    using k(2) unfolding s by (auto simp: suffix_def)
  have "follow {41, 38, 59} (59 # 32 # ?r)" by (simp add: follow_def)
  then obtain c' where c': "reads_back t (show_at 2 l @ 59 # 32 # ?r) c' (59 # 32 # ?r)" "map_cmd (word_text t) c' = l"
    using assms(1) suf(1) unfolding back_reads_def by metis
  obtain d' where d': "reads parseline t ?r d' k" "map_cmd (word_text t) d' = r"
    using assms(2) k(1) suf(2) unfolding line_reads_def by metis
  have "skip_ws ?r = ?r"
    by (intro show_head [OF assms(3)] skip_follow [OF k(1)]) auto
  then show "\<exists>c'. reads parseline t (show_cmd (LIST l r) @ k) c' k \<and> map_cmd (word_text t) c' = LIST l r"
    unfolding s using reads_line2 [OF c'(1) _ d'(1)] c'(2) d'(2) by (intro exI [of _ "LIST c' d'"]) simp
qed

lemma level0_reads:
  assumes "exec_reads t c" "level c = 0"
  shows "exec_reads t c \<and> pipe_reads t c \<and> back_reads t c \<and> line_reads t c"
proof -
  have p: "pipe_reads t c" by (rule pipe_reads_exec) (use assms in simp_all)
  then have b: "back_reads t c" by (rule back_reads_pipe) (use assms in simp)
  then have "line_reads t c" by (rule line_reads_back) (use assms in simp)
  with assms p b show ?thesis by simp
qed

lemma all_read: "denotable c \<Longrightarrow> exec_reads t c \<and> pipe_reads t c \<and> back_reads t c \<and> line_reads t c"
proof (induction c)
  case (EXEC ws)
  have "exec_reads t (EXEC ws)"
    unfolding exec_reads_def
  proof (intro allI impI, elim conjE)
    fix rs k assume k: "follow exec_end k" "list_all redir_ok rs" "suffix (show_at 0 (EXEC ws) @ show_redirs rs @ k) t"
    have s: "show_at 0 (EXEC ws) = show_words ws" by (simp add: show_at_def paren_def)
    obtain ws' rs' where "reads parseexec t (show_words ws @ show_redirs rs @ k) (add_redirs rs' (EXEC ws')) k"
        "map (word_text t) ws' = ws" "map (redir_text t) rs' = rs"
      using reads_exec [OF k(1,2), of ws t] EXEC k(3) unfolding s by auto
    then show "\<exists>c' rs'. reads parseexec t (show_at 0 (EXEC ws) @ show_redirs rs @ k) (add_redirs rs' c') k \<and>
        map_cmd (word_text t) c' = EXEC ws \<and> map (redir_text t) rs' = rs"
      unfolding s by (intro exI [of _ "EXEC ws'"] exI [of _ rs']) simp
  qed
  then show ?case by (intro level0_reads) simp_all
next
  case (REDIR c f mode fd)
  then have "exec_reads t (REDIR c f mode fd)" using exec_reads_redir by simp
  then show ?case by (intro level0_reads) simp_all
next
  case (PIPE l r)
  then have p: "pipe_reads t (PIPE l r)" using pipe_reads_pipe by simp
  then have b: "back_reads t (PIPE l r)" by (rule back_reads_pipe) simp
  then have l: "line_reads t (PIPE l r)" by (rule line_reads_back) simp
  then have "exec_reads t (PIPE l r)" using PIPE.prems by (intro exec_reads_paren) simp_all
  with p b l show ?case by simp
next
  case (LIST l r)
  then have l: "line_reads t (LIST l r)" using line_reads_list by simp
  then have e: "exec_reads t (LIST l r)" using LIST.prems by (intro exec_reads_paren) simp_all
  then have p: "pipe_reads t (LIST l r)" by (rule pipe_reads_exec) simp
  then have "back_reads t (LIST l r)" by (rule back_reads_pipe) simp
  with l e p show ?case by simp
next
  case (BACK c)
  then have b: "back_reads t (BACK c)" using back_reads_back by simp
  then have l: "line_reads t (BACK c)" by (rule line_reads_back) simp
  then have e: "exec_reads t (BACK c)" using BACK.prems by (intro exec_reads_paren) simp_all
  then have "pipe_reads t (BACK c)" by (rule pipe_reads_exec) simp
  with b l e show ?case by simp
qed

lemma show_no_nul: "denotable c \<Longrightarrow> 0 \<notin> set (show_cmd c)"
  by (induction c) (auto simp: show_words_def show_redir_def paren_def list_all_iff is_word_def)

text \<open>
  C35. The shell reads back every command that is written out. For every tree of simple commands, redirections, pipelines,
  lists and background commands, in any nesting, with at most nine words each and words without blanks and symbols, parsecmd
  on the written line succeeds, and the tree it builds, with the strings that nulterminate leaves in the line, is the same.
  So the grammar is unambiguous on written commands, and the parser loses, reorders or regroups nothing.
\<close>

theorem shell_reads_back:
  assumes "denotable c"
  shows "\<exists>p b. parsecmd (show_cmd c) = Inr (p, b) \<and> map_cmd (\<lambda>(q, e). str_at b q) p = c"
proof -
  let ?t = "show_cmd c"
  have "line_reads ?t c" using all_read [OF assms] by blast
  from this [unfolded line_reads_def, rule_format, of "[]"]
  have "\<exists>p. reads parseline ?t ?t p [] \<and> map_cmd (word_text ?t) p = c" by (simp add: follow_def)
  then obtain p k where p: "\<And>j. k \<le> j \<Longrightarrow> parseline j (length ?t) ?t = Inr (p, [])" "map_cmd (word_text ?t) p = c"
    unfolding reads_def by blast
  have "parseline (4 * length ?t + 4) (length ?t) ?t = Inr (p, [])"
    using p(1) [of "max k (4 * length ?t + 4)"] more_fuel(1) [of ?t "max k (4 * length ?t + 4)" "length ?t"] by simp
  moreover from this have "tree_ok ?t p"
    using parser_sound [of ?t "4 * length ?t + 4"] by (auto simp: sound_def)
  then have "map_cmd (\<lambda>(q, e). str_at (nulterminate p (?t @ [0])) q) p = map_cmd (word_text ?t) p"
    using nulterminate_strings [OF _ show_no_nul [OF assms]] by (intro cmd.map_cong) auto
  ultimately show ?thesis using p(2) by (simp add: parsecmd_def)
qed

theorem shell_reads_back_witness:
  "\<exists>p b. parsecmd (bytes ''( ls ; wc ) > f | cat '') = Inr (p, b) \<and>
     map_cmd (\<lambda>(q, e). str_at b q) p =
       PIPE (REDIR (LIST (EXEC [bytes ''ls'']) (EXEC [bytes ''wc''])) (bytes ''f'') 0x201 1) (EXEC [bytes ''cat''])"
proof -
  let ?c = "PIPE (REDIR (LIST (EXEC [bytes ''ls'']) (EXEC [bytes ''wc''])) (bytes ''f'') 0x201 1) (EXEC [bytes ''cat''])"
  have "denotable ?c"
    by code_simp
  moreover have "show_cmd ?c = bytes ''( ls ; wc ) > f | cat ''"
    by code_simp
  ultimately show ?thesis
    using shell_reads_back [of ?c] by simp
qed

end
