(* ===== verification/Sh_Run.thy ===== *)
theory Sh_Run
  imports Sh_Round
begin

text \<open>
  Running a command: what descriptors the programs of a pipeline and of a redirection get. The system calls are those of the
  descriptor table of one process: open, dup and pipe take the lowest free descriptors, as fdalloc of the kernel does, and
  fork answers as given, so that a run follows the child or the parent.
\<close>

datatype obj = Opened "u8 list" int | Read_end nat | Write_end nat | Other nat

record desc_world =
  fds :: "obj option list"
  forks :: "int list"
  pipes :: nat
  waits :: nat
  started :: "(u8 list list \<times> obj option list) option"

definition lowest :: "'a option list \<Rightarrow> nat option" where
  "lowest xs = find (\<lambda>i. xs ! i = None) [0..<length xs]"

definition d_open :: "u8 list \<Rightarrow> int \<Rightarrow> desc_world \<Rightarrow> int \<times> desc_world" where
  "d_open name mode w = (case lowest (fds w) of None \<Rightarrow> (-1, w)
     | Some i \<Rightarrow> (int i, w\<lparr>fds := (fds w)[i := Some (Opened name mode)]\<rparr>))"

definition d_close :: "int \<Rightarrow> desc_world \<Rightarrow> int \<times> desc_world" where
  "d_close fd w = (if 0 \<le> fd \<and> nat fd < length (fds w) \<and> fds w ! nat fd \<noteq> None
     then (0, w\<lparr>fds := (fds w)[nat fd := None]\<rparr>) else (-1, w))"

definition d_num :: "string \<Rightarrow> int list \<Rightarrow> desc_world \<Rightarrow> int \<times> desc_world" where
  "d_num call args w =
     (if call = ''fork'' then (case forks w of [] \<Rightarrow> (-1, w) | r # rs \<Rightarrow> (r, w\<lparr>forks := rs\<rparr>))
      else if call = ''wait'' then (1, w\<lparr>waits := waits w + 1\<rparr>)
      else if call = ''dup'' then
        (case args of [fd] \<Rightarrow>
           if 0 \<le> fd \<and> nat fd < length (fds w) \<and> fds w ! nat fd \<noteq> None
           then (case lowest (fds w) of None \<Rightarrow> (-1, w)
             | Some i \<Rightarrow> (int i, w\<lparr>fds := (fds w)[i := fds w ! nat fd]\<rparr>))
           else (-1, w)
         | _ \<Rightarrow> (-1, w))
      else (-1, w))"

definition d_pipe :: "desc_world \<Rightarrow> (int \<times> int) option \<times> desc_world" where
  "d_pipe w =
     (case lowest (fds w) of None \<Rightarrow> (None, w)
      | Some i \<Rightarrow>
          let xs = (fds w)[i := Some (Read_end (pipes w))]
          in case lowest xs of None \<Rightarrow> (None, w)
             | Some j \<Rightarrow> (Some (int i, int j), w\<lparr>fds := xs[j := Some (Write_end (pipes w))], pipes := Suc (pipes w)\<rparr>))"

definition desc_calls :: "desc_world calls" where
  "desc_calls = \<lparr>u_read = (\<lambda>fd n w. (None, w)), u_write = (\<lambda>fd bs w. (int (length bs), w)),
     u_open = d_open, u_close = d_close, u_fstat = (\<lambda>fd w. (None, w)),
     u_name = (\<lambda>call names w. (-1, w)), u_num = d_num,
     u_exec = (\<lambda>path argv w. (True, w\<lparr>started := Some (argv, fds w)\<rparr>)), u_pipe = d_pipe\<rparr>"

lemma desc_calls_simps [simp]:
  "u_open desc_calls = d_open" "u_pipe desc_calls = d_pipe" "u_num desc_calls = d_num"
  "close_to desc_calls fd w = snd (d_close fd w)" "do_num desc_calls call args w = snd (d_num call args w)"
  "u_exec desc_calls path argv w = (True, w\<lparr>started := Some (argv, fds w)\<rparr>)"
  by (simp_all add: desc_calls_def close_to_def do_num_def)

lemma lowest_SomeD: "lowest xs = Some i \<Longrightarrow> i < length xs \<and> xs ! i = None"
  by (auto simp: lowest_def find_Some_iff)

lemma lowest_0: "xs \<noteq> [] \<Longrightarrow> xs ! 0 = None \<Longrightarrow> lowest xs = Some 0"
  by (cases xs) (auto simp: lowest_def upt_conv_Cons simp del: upt_Suc)

lemma lowest_1: "Suc 0 < length xs \<Longrightarrow> xs ! 0 \<noteq> None \<Longrightarrow> xs ! 1 = None \<Longrightarrow> lowest xs = Some 1"
proof -
  assume a: "Suc 0 < length xs" "xs ! 0 \<noteq> None" "xs ! 1 = None"
  then have "xs \<noteq> []" by auto
  with a have "[0..<length xs] = 0 # 1 # [2..<length xs]" by (simp add: upt_rec [of 0] upt_rec [of "Suc 0"] numeral_2_eq_2)
  with a show "lowest xs = Some 1" by (simp add: lowest_def)
qed

lemma forked_desc:
  "forked desc_calls w child parent =
     (case forks w of [] \<Rightarrow> sh_panic desc_calls ''fork'' w
      | r # rs \<Rightarrow> if r = -1 then sh_panic desc_calls ''fork'' (w\<lparr>forks := rs\<rparr>)
                 else if r = 0 then child (w\<lparr>forks := rs\<rparr>) else parent (w\<lparr>forks := rs\<rparr>))"
  by (auto simp: forked_def fork1_def d_num_def split: list.splits)

lemma d_pipeD:
  assumes "d_pipe w = (Some (p0, p1), w')"
  obtains i j where "p0 = int i" "p1 = int j" "i < length (fds w)" "j < length (fds w)" "i \<noteq> j" "fds w ! i = None" "fds w ! j = None"
    "w' = w\<lparr>fds := (fds w)[i := Some (Read_end (pipes w)), j := Some (Write_end (pipes w))], pipes := Suc (pipes w)\<rparr>"
proof -
  obtain i where i: "lowest (fds w) = Some i" using assms by (auto simp: d_pipe_def split: option.splits)
  let ?xs = "(fds w)[i := Some (Read_end (pipes w))]"
  obtain j where j: "lowest ?xs = Some j" using assms i by (auto simp: d_pipe_def Let_def split: option.splits)
  have "i < length (fds w)" "fds w ! i = None" "j < length (fds w)" "?xs ! j = None"
    using lowest_SomeD [OF i] lowest_SomeD [OF j] by simp_all
  moreover from this have "i \<noteq> j" "fds w ! j = None" by (auto simp: nth_list_update split: if_splits)
  ultimately show ?thesis using that [of i j] assms i j by (simp add: d_pipe_def)
qed

text \<open>The part of runcmd that a child of a pipeline runs: its standard descriptor becomes its end of the pipe.\<close>

definition take_end :: "int \<Rightarrow> int \<Rightarrow> int \<Rightarrow> int \<Rightarrow> desc_world \<Rightarrow> desc_world" where
  "take_end std keep p0 p1 w =
     snd (d_close p1 (snd (d_close p0 (snd (d_num ''dup'' [keep] (snd (d_close std w)))))))"

lemma take_end_write:
  assumes "i < length xs" "j < length xs" "i \<noteq> j" "xs ! i = None" "xs ! j = None" "xs ! 0 \<noteq> None" "xs ! 1 \<noteq> None" "1 < length xs"
  shows "take_end 1 (int j) (int i) (int j) (w\<lparr>fds := xs[i := Some a, j := Some b]\<rparr>) = w\<lparr>fds := xs[1 := Some b]\<rparr>"
proof -
  have ij: "i \<noteq> 0" "i \<noteq> 1" "j \<noteq> 0" "j \<noteq> 1" using assms by (metis option.distinct(1))+
  let ?ys = "xs[i := Some a, j := Some b, 1 := None]"
  have low: "lowest ?ys = Some 1" using assms ij by (intro lowest_1) auto
  have undo: "xs[i := Some a, j := Some b, 1 := Some b, i := None, j := None] = xs[1 := Some b]"
    using assms ij by (intro nth_equalityI) (auto simp: nth_list_update)
  show ?thesis
    using assms ij low undo by (simp add: take_end_def d_close_def d_num_def)
qed

lemma take_end_read:
  assumes "i < length xs" "j < length xs" "i \<noteq> j" "xs ! i = None" "xs ! j = None" "xs ! 0 \<noteq> None" "0 < length xs"
  shows "take_end 0 (int i) (int i) (int j) (w\<lparr>fds := xs[i := Some a, j := Some b]\<rparr>) = w\<lparr>fds := xs[0 := Some a]\<rparr>"
proof -
  have ij: "i \<noteq> 0" "j \<noteq> 0" using assms by (metis option.distinct(1))+
  let ?ys = "xs[i := Some a, j := Some b, 0 := None]"
  have low: "lowest ?ys = Some 0" using assms ij by (intro lowest_0) auto
  have undo: "xs[i := Some a, j := Some b, 0 := Some a, i := None, j := None] = xs[0 := Some a]"
    using assms ij by (intro nth_equalityI) (auto simp: nth_list_update)
  show ?thesis
    using assms ij low undo by (simp add: take_end_def d_close_def d_num_def)
qed

lemma close_both:
  assumes "i < length xs" "j < length xs" "i \<noteq> j" "xs ! i = None" "xs ! j = None"
  shows "snd (d_close (int j) (snd (d_close (int i) (w\<lparr>fds := xs[i := Some a, j := Some b]\<rparr>)))) = w\<lparr>fds := xs\<rparr>"
proof -
  have undo: "xs[i := Some a, j := Some b, i := None, j := None] = xs"
    using assms by (intro nth_equalityI) (auto simp: nth_list_update)
  then show ?thesis
    using assms by (simp add: d_close_def)
qed

text \<open>
  C37. The shell wires a pipeline as it should. In a process whose standard input and output are open and that gets a pipe, the
  left command runs with the write end as its standard output, the right command with the read end as its standard input,
  and every other descriptor as before: neither has a stray end open, so that the reader sees the end of the data when the
  writer is done. The shell itself keeps none of the ends and waits for both. This holds for all commands on both sides.
\<close>

theorem pipeline_wiring:
  assumes "1 < length (fds w)" "fds w ! 0 \<noteq> None" "fds w ! 1 \<noteq> None" "fst (d_pipe w) \<noteq> None"
  defines "v \<equiv> w\<lparr>pipes := Suc (pipes w)\<rparr>"
  shows "(forks w = 0 # fs \<longrightarrow> runcmd desc_calls (PIPE l r) w =
       runcmd desc_calls l (v\<lparr>forks := fs, fds := (fds w)[1 := Some (Write_end (pipes w))]\<rparr>)) \<and>
     (forks w = pid # 0 # fs \<and> 0 < pid \<longrightarrow> runcmd desc_calls (PIPE l r) w =
       runcmd desc_calls r (v\<lparr>forks := fs, fds := (fds w)[0 := Some (Read_end (pipes w))]\<rparr>)) \<and>
     (forks w = pid # pid' # fs \<and> 0 < pid \<and> 0 < pid' \<longrightarrow> runcmd desc_calls (PIPE l r) w =
       Some (v\<lparr>forks := fs, waits := waits w + 2\<rparr>))"
proof -
  obtain p0 p1 w' where p: "d_pipe w = (Some (p0, p1), w')"
    using assms(4) by (metis prod.collapse option.exhaust)
  obtain i j where ij: "p0 = int i" "p1 = int j" "i < length (fds w)" "j < length (fds w)" "i \<noteq> j" "fds w ! i = None"
      "fds w ! j = None"
    and w': "w' = w\<lparr>fds := (fds w)[i := Some (Read_end (pipes w)), j := Some (Write_end (pipes w))], pipes := Suc (pipes w)\<rparr>"
    by (rule d_pipeD [OF p])
  let ?xs = "(fds w)[i := Some (Read_end (pipes w)), j := Some (Write_end (pipes w))]"
  have f: "w'\<lparr>forks := fs\<rparr> = v\<lparr>forks := fs, fds := ?xs\<rparr>" for fs by (simp add: w' v_def)
  note left = take_end_write [OF ij(3-7) assms(2,3,1), where w = "v\<lparr>forks := fs\<rparr>" and a = "Read_end (pipes w)" and b = "Write_end (pipes w)"]
  note right = take_end_read [OF ij(3-7) assms(2), where w = "v\<lparr>forks := fs\<rparr>" and a = "Read_end (pipes w)" and b = "Write_end (pipes w)"]
  note parent = close_both [OF ij(3-7), where w = "v\<lparr>forks := fs\<rparr>" and a = "Read_end (pipes w)" and b = "Write_end (pipes w)"]
  have same: "forks w' = forks w" "waits v = waits w" "fds w \<noteq> []" "v\<lparr>forks := fs, fds := fds w\<rparr> = v\<lparr>forks := fs\<rparr>"
    using assms(1) by (auto simp: w' v_def)
  have swap: "v\<lparr>fds := ?xs, forks := fs\<rparr> = v\<lparr>forks := fs, fds := ?xs\<rparr>" by simp
  show ?thesis
    using left right parent same
    by (auto simp: p forked_desc ij(1,2) f swap take_end_def [symmetric] d_num_def [of "''wait''"])
qed

theorem pipeline_wiring_witness:
  "\<exists>w. runcmd desc_calls (PIPE (EXEC [bytes ''ls'']) (EXEC [bytes ''wc''])) w =
     Some (w\<lparr>forks := [], pipes := 1, fds := [Some (Other 0), Some (Write_end 0), Some (Other 2), None, None],
       started := Some ([bytes ''ls''], [Some (Other 0), Some (Write_end 0), Some (Other 2), None, None])\<rparr>)"
proof -
  let ?w = "\<lparr>fds = [Some (Other 0), Some (Other 1), Some (Other 2), None, None], forks = [0], pipes = 0, waits = 0, started = None\<rparr>"
  have "fst (d_pipe ?w) \<noteq> None" by (simp add: d_pipe_def lowest_def upt_rec)
  then show ?thesis
    using pipeline_wiring [of ?w "[]" "EXEC [bytes ''ls'']" "EXEC [bytes ''wc'']"]
    by (intro exI [of _ ?w]) simp
qed

end
