(* ===== verification/Syscall_Args.thy ===== *)
theory Syscall_Args
  imports Machine Vm_Props
begin

text \<open>
  What the kernel reads of the arguments of a system call: with the page table of the process loaded and its memory mapped, no
  stack pointer and no argument makes the kernel fault or read outside the process.
\<close>

section \<open>User memory through the loaded page table\<close>

definition ubytes :: "mem \<Rightarrow> u32 \<Rightarrow> u32 \<Rightarrow> nat \<Rightarrow> u8 list" where
  "ubytes m pgdir va n = map (\<lambda>i. the (ubyte m pgdir (va + of_nat i))) [0..<n]"

text \<open>A process that runs on this CPU: its page table is loaded and every page below its size is mapped.\<close>

definition user_runs :: "nat \<Rightarrow> u32 list \<Rightarrow> 'a vm_st_scheme \<Rightarrow> bool" where
  "user_runs p xs s \<longleftrightarrow> cpu_ok s \<and> cpu_proc (cpus s ! this_cpu s) = Some p \<and> uspace s xs (p_pgdir (procs s ! p)) \<and>
     cr3 (vm s) = V2P (p_pgdir (procs s ! p)) \<and> p_sz (procs s ! p) \<le> KERNBASE \<and>
     (\<forall>va < p_sz (procs s ! p). lookup (mem s) (p_pgdir (procs s ! p)) va \<noteq> None)"

lemma curproc_runs: "user_runs p xs s \<Longrightarrow> curproc s = Inr (p, s)"
  by (simp add: user_runs_def curproc_def myproc_ok deref_def)

lemma kva_ok:
  assumes "user_runs p xs s" "lookup (mem s) (p_pgdir (procs s ! p)) va = Some e"
  shows "kva va s = Inr (frame e + (va - PGROUNDDOWN va))"
proof -
  let ?pd = "p_pgdir (procs s ! p)"
  have r: "present (pde_at (mem s) ?pd (PDX va))" "rd32 (mem s) (pte_addr (mem s) ?pd va) = e" "e AND 1 \<noteq> 0"
    using assms(2) by (auto simp: lookup_def present_def split: if_splits)
  have "uspace s xs ?pd" "P2V (cr3 (vm s)) = ?pd"
    using assms(1) by (simp_all add: user_runs_def V2P_def P2V_def)
  moreover from this(1) have "pte_addr (mem s) ?pd va \<noteq> 0"
    using r(1) by (intro pte_addr_nonzero [OF uspace_vm_inv])
  ultimately show ?thesis
    using r by (simp add: kva_def walkpgdir_find frame_def)
qed

lemma uload8_ok:
  assumes "user_runs p xs s" "va < p_sz (procs s ! p)"
  shows "uload8 va s = Inr (the (ubyte (mem s) (p_pgdir (procs s ! p)) va))"
proof -
  obtain e where e: "lookup (mem s) (p_pgdir (procs s ! p)) va = Some e"
    using assms by (auto simp: user_runs_def)
  show ?thesis
    by (simp add: uload8_def kva_ok [OF assms(1) e] ubyte_def e)
qed

lemma ubytes_Suc: "ubytes m pgdir va (Suc n) = the (ubyte m pgdir va) # ubytes m pgdir (va + 1) n"
  unfolding ubytes_def map_upt_Suc by (simp add: add.assoc)

lemma step_below:
  assumes "unat va + Suc n \<le> unat (sz :: u32)"
  shows "va < sz" "unat (va + 1) + n \<le> unat sz"
proof -
  show "va < sz" using assms by (simp add: word_less_nat_alt)
  have "unat va + 1 < 2 ^ 32 \<or> n = 0" using assms unat_less32 [of sz] by auto
  then show "unat (va + 1) + n \<le> unat sz"
  proof
    assume "unat va + 1 < 2 ^ 32"
    then have "unat (va + 1) = unat va + 1" by (simp add: unat_word_ariths)
    with assms show ?thesis by simp
  next
    assume "n = 0"
    moreover have "unat (va + 1) \<le> unat va + 1" by (simp add: unat_word_ariths)
    ultimately show ?thesis using assms by simp
  qed
qed

lemma uload_ok:
  assumes "user_runs p xs s" "unat va + n \<le> unat (p_sz (procs s ! p))"
  shows "uload va n s = Inr (ubytes (mem s) (p_pgdir (procs s ! p)) va n)"
  using assms(2)
proof (induction n arbitrary: va)
  case (Suc n)
  show ?case
    using Suc.IH [OF step_below(2) [OF Suc.prems]] uload8_ok [OF assms(1) step_below(1) [OF Suc.prems]]
    by (simp add: ubytes_Suc)
qed (simp add: ubytes_def)

section \<open>Arguments\<close>

definition user_int :: "mem \<Rightarrow> u32 \<Rightarrow> u32 \<Rightarrow> u32 \<Rightarrow> u32 option" where
  "user_int m pgdir sz a = (if unat a + 4 \<le> unat sz then Some (ld32 (ubytes m pgdir a 4) 0) else None)"

definition user_str :: "mem \<Rightarrow> u32 \<Rightarrow> u32 \<Rightarrow> u32 \<Rightarrow> u8 list option" where
  "user_str m pgdir sz a =
     (let bs = ubytes m pgdir a (unat sz - unat a) in if 0 \<in> set bs then Some (takeWhile (\<lambda>b. b \<noteq> 0) bs) else None)"

lemma fetchint_ok:
  assumes "user_runs p xs s"
  shows "fetchint a s = Inr (user_int (mem s) (p_pgdir (procs s ! p)) (p_sz (procs s ! p)) a, s)"
proof -
  let ?sz = "p_sz (procs s ! p)"
  have sz: "unat ?sz \<le> 2 ^ 31" using assms by (simp add: user_runs_def word_le_nat_alt)
  show ?thesis
  proof (cases "unat a + 4 \<le> unat ?sz")
    case True
    then have "\<not> (a \<ge> ?sz \<or> a + 4 > ?sz)"
      using sz by (simp add: word_le_nat_alt word_less_nat_alt unat_word_ariths)
    then show ?thesis
      using True uload_ok [OF assms True] by (simp add: fetchint_def curproc_runs [OF assms] user_int_def)
  next
    case False
    have "a + 4 > ?sz" if "\<not> a \<ge> ?sz"
    proof -
      have "unat (a + 4) = unat a + 4"
        using that sz by (simp add: word_le_nat_alt unat_word_ariths)
      then show ?thesis using False by (simp add: word_less_nat_alt)
    qed
    then have "a \<ge> ?sz \<or> a + 4 > ?sz" by blast
    then show ?thesis
      using False by (simp add: fetchint_def curproc_runs [OF assms] user_int_def)
  qed
qed

lemma fetchstr_loop_ok:
  assumes "user_runs p xs s" "unat va + n \<le> unat (p_sz (procs s ! p))"
  shows "fetchstr_loop n va str s =
    (let bs = ubytes (mem s) (p_pgdir (procs s ! p)) va n
     in Inr (if 0 \<in> set bs then Some (str @ takeWhile (\<lambda>b. b \<noteq> 0) bs) else None))"
  using assms(2)
proof (induction n arbitrary: va str)
  case (Suc n)
  show ?case
    using Suc.IH [OF step_below(2) [OF Suc.prems]] uload8_ok [OF assms(1) step_below(1) [OF Suc.prems]]
    by (auto simp: ubytes_Suc Let_def)
qed (simp add: ubytes_def)

lemma fetchstr_ok:
  assumes "user_runs p xs s"
  shows "fetchstr a s = Inr (user_str (mem s) (p_pgdir (procs s ! p)) (p_sz (procs s ! p)) a, s)"
proof (cases "a \<ge> p_sz (procs s ! p)")
  case True
  then show ?thesis
    by (simp add: fetchstr_def curproc_runs [OF assms] user_str_def word_le_nat_alt ubytes_def)
next
  case False
  then have "unat a + (unat (p_sz (procs s ! p)) - unat a) \<le> unat (p_sz (procs s ! p))"
    by (simp add: word_le_nat_alt)
  from fetchstr_loop_ok [OF assms this, of "[]"] show ?thesis
    using False by (simp add: fetchstr_def curproc_runs [OF assms] user_str_def Let_def)
qed

text \<open>
  C9. The kernel takes system call arguments safely. For a process whose memory below its len is mapped, and whatever its stack
  pointer and the contents of its memory: argint gives the word at its place on the user stack, or fails when not all four bytes
  lie in the process; argptr gives a pointer exactly when the whole block lies in the process, the sum of address and len taken
  without wrap-around; argstr gives the string up to its terminator, or fails when there is none before the end of the
  process. No case faults, and none changes the state.
\<close>

theorem syscall_arguments_safe:
  fixes s :: "'a vm_st_scheme" and p n :: nat
  assumes "user_runs p xs s" and "len < 2 ^ 31"
  defines "pgdir \<equiv> p_pgdir (procs s ! p)" and "sz \<equiv> p_sz (procs s ! p)"
    and "a \<equiv> tf_esp (p_tf (procs s ! p)) + 4 + 4 * of_nat n"
  shows "argint n s = Inr (user_int (mem s) pgdir sz a, s) \<and>
    argptr n len s = Inr (case user_int (mem s) pgdir sz a of None \<Rightarrow> None
      | Some i \<Rightarrow> if 0 \<le> len \<and> i < sz \<and> uint i + len \<le> uint sz then Some i else None, s) \<and>
    argstr n s = Inr (case user_int (mem s) pgdir sz a of None \<Rightarrow> None | Some i \<Rightarrow> user_str (mem s) pgdir sz i, s)"
proof -
  note run = assms(1)
  have int: "argint n s = Inr (user_int (mem s) pgdir sz a, s)"
    by (simp add: argint_def curproc_runs [OF run] fetchint_ok [OF run] pgdir_def sz_def a_def)
  have sum: "i + of_int len > sz \<longleftrightarrow> \<not> uint i + len \<le> uint sz" if "0 \<le> len" "i < sz" for i
  proof -
    have "uint sz \<le> 2 ^ 31" using run by (simp add: user_runs_def sz_def word_le_def)
    moreover have "uint i < uint sz" using that(2) by (simp add: word_less_def)
    ultimately have "uint (i + of_int len) = uint i + len"
      using that(1) assms(2) by (simp add: uint_word_ariths uint_word_of_int)
    then show ?thesis by (simp add: word_less_def not_le)
  qed
  have "argptr n len s = Inr (case user_int (mem s) pgdir sz a of None \<Rightarrow> None
      | Some i \<Rightarrow> if 0 \<le> len \<and> i < sz \<and> uint i + len \<le> uint sz then Some i else None, s)"
    using sum by (auto simp: argptr_def curproc_runs [OF run] int sz_def [symmetric] not_le split: option.splits)
  moreover have "argstr n s = Inr (case user_int (mem s) pgdir sz a of None \<Rightarrow> None | Some i \<Rightarrow> user_str (mem s) pgdir sz i, s)"
    by (simp add: argstr_def int fetchstr_ok [OF run] pgdir_def sz_def split: option.splits)
  ultimately show ?thesis using int by simp
qed

lemma uspace_cong:
  assumes "uspace s xs pgdir" "mem t = mem s" "kmem t = kmem s" "cpu_ok t"
  shows "uspace t xs pgdir"
  using assms(1,4) unfolding uspace_def vm_inv_def kmem_holds_def km_ok_def assms(2,3)
  by (elim conjE) (intro conjI; assumption)

theorem syscall_arguments_safe_witness:
  "\<exists>(s :: sys_st) xs. user_runs 0 xs s \<and> argptr 0 8 s = Inr (case user_int (mem s) 0x80115000 4096 4 of None \<Rightarrow> None
      | Some i \<Rightarrow> if i < 4096 \<and> uint i + 8 \<le> 4096 then Some i else None, s)"
proof -
  obtain s0 :: kmem_st and zs e where s0: "uspace s0 zs 0x80115000" "e AND PTE_U \<noteq> 0" "frame e = 0x80118000"
    "lookup (mem s0) 0x80115000 = (\<lambda>vb. if PGROUNDDOWN vb = 0 then Some e else None)"
    using small_mapped by blast
  let ?p = "first_proc\<lparr>p_sz := 4096, p_pgdir := 0x80115000, p_tf := (p_tf first_proc)\<lparr>tf_esp := 0\<rparr>\<rparr>"
  define s :: sys_st where "s = machine\<lparr>kmem := kmem s0, mem := mem s0, vm := (vm machine)\<lparr>cr3 := V2P 0x80115000\<rparr>,
     ptable := (ptable machine)\<lparr>pt_proc := [?p]\<rparr>\<rparr>"
  have cpu: "cpu_ok s" "cpus s = cpus machine" "this_cpu s = this_cpu machine"
    by (simp_all add: s_def machine_def cpu_ok_def this_cpu_def)
  have parts: "kmem s = kmem s0" "mem s = mem s0" "cr3 (vm s) = V2P 0x80115000" "procs s = [?p]"
    by (simp_all add: s_def)
  have u: "uspace s zs 0x80115000"
    by (rule uspace_cong [OF s0(1) parts(2,1) cpu(1)])
  have low: "PGROUNDDOWN va = 0" if "va < 4096" for va
    using that by (simp add: word_unat_eq_iff unat_PGROUNDDOWN word_less_nat_alt)
  have p: "p_pgdir ?p = 0x80115000" "p_sz ?p = 4096" "tf_esp (p_tf ?p) = 0" by simp_all
  have "user_runs 0 zs s"
    using u low by (simp add: user_runs_def cpu parts p s0(4))
  then show ?thesis
    using syscall_arguments_safe [of 0 zs s 8 0] by (intro exI [of _ s] exI [of _ zs]) (simp add: parts p cong: option.case_cong)
qed

end
