(* ===== verification/Klog_Export.thy ===== *)
theory Klog_Export
  imports Syscall_Args
begin

text \<open>
  klog_getlogs of klog.c: the flight recorder copied to a user program. The struct logentry has no definition in the sources, so
  its layout is an argument: \<open>enc\<close> gives the bytes of an entry, \<open>sz\<close> of them. The array \<open>temp\<close> is on the kernel
  stack, at the address \<open>tmp\<close>.
\<close>

definition put_bytes :: "mem \<Rightarrow> u32 \<Rightarrow> u8 list \<Rightarrow> mem" where
  "put_bytes m a bs = (\<lambda>x. if unat (x - a) < length bs then bs ! unat (x - a) else m x)"

definition klog_getlogs :: "(logentry \<Rightarrow> u8 list) \<Rightarrow> nat \<Rightarrow> u32 \<Rightarrow> u32 \<Rightarrow> int \<Rightarrow> 'a kmem_st_scheme \<Rightarrow>
    'a kmem_st_scheme stop + int \<times> 'a kmem_st_scheme" where
  "klog_getlogs enc sz tmp buf max_n s =
     seq (myproc s) (\<lambda>(cur, s).
     seq (acquire (kl_lock (klog s)) s) (\<lambda>(lk, s).
     let k = (klog s)\<lparr>kl_lock := lk\<rparr>;
         n = (if kl_count k < max_n then kl_count k else max_n);
         n = (if n > 256 then 256 else n);
         start = (kl_head k - n + KLOG_SIZE) mod KLOG_SIZE;
         s = s\<lparr>mem := put_bytes (mem s) tmp (concat (map enc (klog_walk k start n)))\<rparr>
     in seq (release (kl_lock k) s) (\<lambda>(lk, s).
        let s = s\<lparr>klog := k\<lparr>kl_lock := lk\<rparr>\<rparr>
        in seq (deref cur) (\<lambda>cur.
           seq (copyout (p_pgdir (procs s ! cur)) buf tmp (of_int n * of_nat sz) s) (\<lambda>(r, s).
           Inr (if r < 0 then -1 else n, s))))))"

section \<open>The last entries\<close>

lemma klog_walk_lastn:
  assumes "klog_wf k" "0 \<le> n" "n \<le> kl_count k"
  shows "klog_walk k ((kl_head k - n + KLOG_SIZE) mod KLOG_SIZE) n = lastn (nat n) (klog_window k)"
proof (rule nth_equalityI)
  have c: "0 \<le> kl_count k" "kl_count k \<le> 128" using assms(1) by (simp_all add: klog_wf_def)
  have d: "nat (kl_count k) - nat n = nat (kl_count k - n)" using assms(2) by (simp add: nat_diff_distrib')
  show "length (klog_walk k ((kl_head k - n + KLOG_SIZE) mod KLOG_SIZE) n) = length (lastn (nat n) (klog_window k))"
    using assms c by (simp add: klog_walk_def lastn_def)
  fix i assume "i < length (klog_walk k ((kl_head k - n + KLOG_SIZE) mod KLOG_SIZE) n)"
  then have i: "i < nat n" by (simp add: klog_walk_def)
  have "lastn (nat n) (klog_window k) ! i = klog_window k ! (nat (kl_count k - n) + i)"
    using i assms c by (simp add: lastn_def d)
  also have "\<dots> = kl_entries k ! nat ((kl_head k - kl_count k + KLOG_SIZE + int (nat (kl_count k - n) + i)) mod KLOG_SIZE)"
    using i assms c by (simp add: klog_window_def klog_walk_def)
  also have "kl_head k - kl_count k + KLOG_SIZE + int (nat (kl_count k - n) + i) = kl_head k - n + int i + KLOG_SIZE"
    using assms(3) by simp
  finally show "klog_walk k ((kl_head k - n + KLOG_SIZE) mod KLOG_SIZE) n ! i = lastn (nat n) (klog_window k) ! i"
    using i by (simp add: klog_walk_def mod_add_left_eq)
qed

section \<open>Writing the kernel stack\<close>

lemma uspace_kernel_write:
  assumes u: "uspace s xs pgdir" and m: "only_in P (mem s) m" and P: "P \<inter> ptpages (mem s) pgdir = {}" "P \<inter> set xs = {}"
  shows "uspace (s\<lparr>mem := m\<rparr>) xs pgdir" "lookup m pgdir = lookup (mem s) pgdir"
proof -
  have inv: "vm_inv s xs pgdir" and wf: "pt_wf (mem s) pgdir"
    using u by (simp_all add: uspace_def vm_inv_def)
  have "agree (ptpages (mem s) pgdir) (mem s) m"
    using P(1) pt_wf_aligned [OF wf] by (intro only_in_agree [OF m]) blast
  note same = agree_table [OF this wf]
  show look: "lookup m pgdir = lookup (mem s) pgdir" using same(3) by simp
  have "kmem_holds (s\<lparr>mem := m\<rparr>) xs"
    using u P(2) by (intro kmem_holds_only_in [OF _ m]) (auto simp: uspace_def vm_inv_def)
  then have "vm_inv (s\<lparr>mem := m\<rparr>) xs pgdir"
    using inv same(1,2) by (simp add: vm_inv_def)
  then show "uspace (s\<lparr>mem := m\<rparr>) xs pgdir"
    using uspace_frame(3) [OF u] by (intro uspace_restrict [OF u]) (auto simp: look same(2))
qed

lemma concat_same_length:
  assumes "\<And>x. x \<in> set xs \<Longrightarrow> length (f x) = k"
  shows "length (concat (map f xs)) = length xs * k"
  using assms by (induction xs) auto

text \<open>The bytes of \<open>temp\<close>, all in the page of the kernel stack.\<close>

definition in_stack :: "u32 \<Rightarrow> u32 \<Rightarrow> nat \<Rightarrow> bool" where
  "in_stack v tmp n \<longleftrightarrow> aligned v \<and> unat v + 4096 < 2 ^ 32 \<and> unat v \<le> unat tmp \<and> unat tmp + n \<le> unat v + 4096"

lemma in_stack_offset:
  assumes "in_stack v tmp n" "unat i < n"
  shows "in_page v (tmp + i)" "unat (tmp + i) = unat tmp + unat i"
proof -
  have "unat tmp + unat i < 2 ^ 32" using assms by (simp add: in_stack_def)
  then show u: "unat (tmp + i) = unat tmp + unat i" by (simp add: unat_word_ariths)
  have "v \<le> tmp + i" using assms u by (simp add: word_le_nat_alt in_stack_def)
  then have "unat (tmp + i - v) = unat tmp + unat i - unat v" by (simp add: unat_sub_if' word_le_nat_alt u)
  then show "in_page v (tmp + i)"
    using assms unfolding in_page_def word_less_nat_alt in_stack_def by simp linarith
qed

lemma put_bytes_stack:
  assumes "in_stack v tmp n" "length bs = n"
  shows "only_in {v} m (put_bytes m tmp bs)"
proof (rule only_in_page [of v])
  show "aligned v" using assms(1) by (simp add: in_stack_def)
  show "put_bytes m tmp bs y = m y" if "\<not> in_page v y" for y
    using that in_stack_offset(1) [OF assms(1), of "y - tmp"] assms(2) by (auto simp: put_bytes_def)
qed simp

lemma put_bytes_at: "unat i < length bs \<Longrightarrow> put_bytes m a bs (a + i) = bs ! unat i"
  by (simp add: put_bytes_def)

section \<open>What the user program reads\<close>

lemma ubyte_kernel_write:
  assumes u: "uspace s xs pgdir" and m: "only_in P (mem s) m" and P: "P \<inter> ptpages (mem s) pgdir = {}" "P \<inter> set xs = {}"
    "P \<inter> frames (mem s) pgdir = {}" and x: "x < KERNBASE"
  shows "ubyte m pgdir x = ubyte (mem s) pgdir x"
proof (cases "lookup (mem s) pgdir x")
  case None
  then show ?thesis by (simp add: ubyte_def uspace_kernel_write(2) [OF u m P(1,2)])
next
  case (Some e)
  note al = uspace_frame(4) [OF u x Some]
  have "m (frame e + (x - PGROUNDDOWN x)) = mem s (frame e + (x - PGROUNDDOWN x))"
    using P(3) framesI [OF x Some] in_page_offset [OF al, of "x - PGROUNDDOWN x"] page_off_less [of x]
    by (intro in_page_frame_agree [OF m al]) auto
  then show ?thesis
    using Some by (simp add: ubyte_def uspace_kernel_write(2) [OF u m P(1,2)])
qed

lemma frames_aligned: "uspace s xs pgdir \<Longrightarrow> f \<in> frames (mem s) pgdir \<Longrightarrow> aligned f"
  using uspace_frame(4) by (auto simp: frames_def)

lemma copyout_from_stack:
  assumes u: "uspace s xs pgdir" and stk: "in_stack v tmp (length bs)"
    and v: "v \<notin> ptpages (mem s) pgdir \<union> frames (mem s) pgdir \<union> set xs" and low: "unat buf + length bs \<le> 2 ^ 31"
    and pages: "\<And>i. unat i < length bs \<Longrightarrow> user_page (mem s) pgdir (buf + i)"
  shows "\<exists>m. copyout pgdir buf tmp (of_nat (length bs)) (s\<lparr>mem := put_bytes (mem s) tmp bs\<rparr>) = Inr (0, s\<lparr>mem := m\<rparr>) \<and>
    (\<forall>x < KERNBASE. ubyte m pgdir x =
       (if unat (x - buf) < length bs then Some (bs ! unat (x - buf)) else ubyte (mem s) pgdir x))"
proof -
  define t where "t = s\<lparr>mem := put_bytes (mem s) tmp bs\<rparr>"
  have l: "unat (of_nat (length bs) :: u32) = length bs"
    using low by (simp add: unat_of_nat take_bit_nat_eq_self)
  have P: "{v} \<inter> ptpages (mem s) pgdir = {}" "{v} \<inter> set xs = {}" "{v} \<inter> frames (mem s) pgdir = {}"
    using v by auto
  note put = put_bytes_stack [OF stk refl, of "mem s"]
  note ut = uspace_kernel_write [OF u put P(1,2)]
  have "\<exists>m. copyout pgdir buf tmp (of_nat (length bs)) t = Inr (0, t\<lparr>mem := m\<rparr>) \<and> only_in (frames (mem t) pgdir) (mem t) m \<and>
    (\<forall>x < KERNBASE. ubyte m pgdir x = (if x - buf < of_nat (length bs) then Some (mem t (tmp + (x - buf))) else ubyte (mem t) pgdir x))"
  proof (rule copyout_ok)
    show "uspace t xs pgdir" using ut(1) by (simp add: t_def)
    show "unat buf + unat (of_nat (length bs) :: u32) \<le> 2 ^ 31" using low by (simp add: l)
    show "unat tmp + unat (of_nat (length bs) :: u32) < 2 ^ 32" using stk by (simp add: l in_stack_def)
    fix i :: u32 assume "i < of_nat (length bs)"
    then have i: "unat i < length bs" by (simp add: word_less_nat_alt l)
    show "user_page (mem t) pgdir (buf + i)"
      using pages [OF i] by (simp add: user_page_def t_def ut(2))
    fix f assume "f \<in> frames (mem t) pgdir"
    then have "f \<in> frames (mem s) pgdir" by (simp add: t_def frames_def ut(2))
    then have "f \<noteq> v" "aligned f" using P(3) frames_aligned [OF u] by auto
    then show "\<not> in_page f (tmp + i)"
      using in_page_unique [of f v] in_stack_offset(1) [OF stk i] stk by (auto simp: in_stack_def)
  qed
  then obtain m where m: "copyout pgdir buf tmp (of_nat (length bs)) t = Inr (0, t\<lparr>mem := m\<rparr>)"
    "\<And>x. x < KERNBASE \<Longrightarrow> ubyte m pgdir x =
      (if x - buf < of_nat (length bs) then Some (mem t (tmp + (x - buf))) else ubyte (mem t) pgdir x)"
    by blast
  have "ubyte m pgdir x = (if unat (x - buf) < length bs then Some (bs ! unat (x - buf)) else ubyte (mem s) pgdir x)"
    if "x < KERNBASE" for x
    using m(2) [OF that] ubyte_kernel_write [OF u put P that] put_bytes_at [of "x - buf" bs "mem s" tmp]
    by (simp add: word_less_nat_alt l t_def)
  then show ?thesis
    using m(1) by (intro exI [of _ m]) (simp add: t_def)
qed

lemma klog_getlogs_split:
  assumes ok: "cpu_ok s" "lock_free (kl_lock (klog s))" and cur: "cpu_proc (cpus s ! this_cpu s) = Some p"
    and n: "n = min (min (kl_count (klog s)) max_n) 256"
    and m: "m = put_bytes (mem s) tmp (concat (map enc (klog_walk (klog s) ((kl_head (klog s) - n + KLOG_SIZE) mod KLOG_SIZE) n)))"
  shows "klog_getlogs enc sz tmp buf max_n s =
    seq (copyout (p_pgdir (procs s ! p)) buf tmp (of_int n * of_nat sz) (s\<lparr>mem := m\<rparr>)) (\<lambda>(r, s). Inr (if r < 0 then -1 else n, s))"
proof -
  let ?t = "\<lambda>x. (pushed s)\<lparr>mem := x\<rparr>"
  have same: "same_cpu (?t x) (pushed s)" for x
    by (simp add: same_cpu_def)
  have parts: "klog (pushed s) = klog s" "mem (pushed s) = mem s" "ptable (pushed s) = ptable s"
    by (simp_all add: pushed_def)
  have restored: "(pushed s)\<lparr>mem := x, eflags_if := eflags_if s, cpus := cpus s, klog := klog s\<rparr> = s\<lparr>mem := x\<rparr>" for x
    by (simp add: pushed_def)
  have cut: "(if (if c < max_n then c else max_n) > 256 then 256 else if c < max_n then c else max_n) = min (min c max_n) 256" for c
    by (simp add: min_def)
  have walk: "klog_walk (k\<lparr>kl_lock := l\<rparr>) a b = klog_walk k a b" for k l a b
    by (simp add: klog_walk_def)
  show ?thesis
    using release_ok [OF ok(1) same ok(2)]
    unfolding klog_getlogs_def myproc_ok [OF ok(1)] seq_Inr prod.case acquire_ok [OF ok] cur
    by (simp add: parts Let_def cut walk n [symmetric] m restored deref_def split del: if_split cong: if_cong)
qed

text \<open>
  C3. A user program reads the last entries of the flight recorder. With \<open>n\<close> the smaller of the number of entries and the
  maximum asked for, and \<open>temp\<close> in a page of the kernel stack that is none of the process, klog_getlogs returns \<open>n\<close>,
  leaves the recorder, its lock and the CPU as they were, and the memory of the process then holds at the buffer the encodings
  of the last \<open>n\<close> entries logged, oldest first, and is otherwise unchanged.
\<close>

theorem klog_getlogs_copies_window:
  fixes s :: "'a kmem_st_scheme"
  assumes "klog_ok s" and "cpu_proc (cpus s ! this_cpu s) = Some p" and "uspace s xs (p_pgdir (procs s ! p))" and "0 \<le> max_n"
    and "\<And>e. length (enc e) = sz" and "in_stack v tmp (nat (min (kl_count (klog s)) max_n) * sz)"
    and "v \<notin> ptpages (mem s) (p_pgdir (procs s ! p)) \<union> frames (mem s) (p_pgdir (procs s ! p)) \<union> set xs"
    and "unat buf + nat (min (kl_count (klog s)) max_n) * sz \<le> 2 ^ 31"
    and "\<And>i. unat i < nat (min (kl_count (klog s)) max_n) * sz \<Longrightarrow> user_page (mem s) (p_pgdir (procs s ! p)) (buf + i)"
  defines "n \<equiv> min (kl_count (klog s)) max_n" and "pgdir \<equiv> p_pgdir (procs s ! p)"
  shows "\<exists>m. klog_getlogs enc sz tmp buf max_n s = Inr (n, s\<lparr>mem := m\<rparr>) \<and>
    (\<forall>x < KERNBASE. ubyte m pgdir x =
       (if unat (x - buf) < nat n * sz then Some (concat (map enc (lastn (nat n) (klog_window (klog s)))) ! unat (x - buf))
        else ubyte (mem s) pgdir x))"
proof -
  have wf: "klog_wf (klog s)" and ok: "cpu_ok s" "lock_free (kl_lock (klog s))"
    using assms(1) by (simp_all add: klog_ok_def)
  have n: "0 \<le> n" "n \<le> kl_count (klog s)" "n = min (min (kl_count (klog s)) max_n) 256"
    using wf assms(4) by (auto simp: n_def klog_wf_def)
  define bs where "bs = concat (map enc (lastn (nat n) (klog_window (klog s))))"
  have len: "length bs = nat n * sz"
    using n(2) by (simp add: bs_def concat_same_length [OF assms(5)] lastn_def nat_le_eq_zle)
  have size: "of_int n * of_nat sz = (of_nat (length bs) :: u32)" using n(1) by (simp add: len)
  have "klog_walk (klog s) ((kl_head (klog s) - n + KLOG_SIZE) mod KLOG_SIZE) n = lastn (nat n) (klog_window (klog s))"
    using klog_walk_lastn [OF wf n(1,2)] .
  then have step: "klog_getlogs enc sz tmp buf max_n s =
      seq (copyout pgdir buf tmp (of_nat (length bs)) (s\<lparr>mem := put_bytes (mem s) tmp bs\<rparr>)) (\<lambda>(r, s). Inr (if r < 0 then -1 else n, s))"
    unfolding pgdir_def size [symmetric] by (intro klog_getlogs_split [OF ok assms(2) n(3)]) (simp add: bs_def)
  have "\<exists>m. copyout pgdir buf tmp (of_nat (length bs)) (s\<lparr>mem := put_bytes (mem s) tmp bs\<rparr>) = Inr (0, s\<lparr>mem := m\<rparr>) \<and>
    (\<forall>x < KERNBASE. ubyte m pgdir x =
       (if unat (x - buf) < length bs then Some (bs ! unat (x - buf)) else ubyte (mem s) pgdir x))"
    using assms(3,6-9) [folded n_def pgdir_def] by (intro copyout_from_stack) (simp_all add: len)
  then show ?thesis
    unfolding step len bs_def [symmetric] by (elim exE conjE) (intro exI conjI; simp)
qed

theorem klog_getlogs_copies_window_witness:
  "\<exists>(s :: sys_st) m. klog_ok s \<and> kl_count (klog s) = 3 \<and>
     klog_getlogs (\<lambda>e. [ucast (timestamp e), of_int (event_type e)]) 2 0x80000100 64 2 s = Inr (2, s\<lparr>mem := m\<rparr>) \<and>
     map (ubyte m 0x80115000) [64, 65, 66, 67] = map Some [1, 8, 2, 9]"
proof -
  obtain s0 :: kmem_st and zs e where s0: "uspace s0 zs 0x80115000" "e AND PTE_U \<noteq> 0" "frame e = 0x80118000"
    "lookup (mem s0) 0x80115000 = (\<lambda>vb. if PGROUNDDOWN vb = 0 then Some e else None)"
    using small_mapped by blast
  let ?enc = "\<lambda>e :: logentry. [ucast (timestamp e), of_int (event_type e)] :: u8 list"
  let ?e = "\<lambda>i. \<lparr>timestamp = of_nat i, event_type = int i + 7, le_pid = 1, extra = 0\<rparr>"
  let ?p = "first_proc\<lparr>p_sz := 4096, p_pgdir := 0x80115000\<rparr>"
  let ?k = "\<lparr>kl_lock = initlock ''klog'', kl_entries = map ?e [0..<128], kl_head = 3, kl_count = 3, kl_ticks = 3\<rparr>"
  define s :: sys_st where "s = machine\<lparr>kmem := kmem s0, mem := mem s0, klog := ?k, ptable := (ptable machine)\<lparr>pt_proc := [?p]\<rparr>\<rparr>"
  have cpu: "cpu_ok s" "cpus s = cpus machine" "this_cpu s = this_cpu machine"
    by (simp_all add: s_def machine_def cpu_ok_def this_cpu_def)
  have parts: "kmem s = kmem s0" "mem s = mem s0" "klog s = ?k" "procs s = [?p]"
    by (simp_all add: s_def)
  have u: "uspace s zs 0x80115000"
    by (rule uspace_cong [OF s0(1) parts(2,1) cpu(1)])
  have ok: "klog_ok s"
    by (simp add: klog_ok_def cpu(1) parts klog_wf_def lock_free_def initlock_def)
  have "\<not> page_ok (km_end (kmem s)) KERNBASE"
    using u by (auto simp: uspace_def vm_inv_def kmem_holds_def page_ok_def)
  then have v: "KERNBASE \<notin> ptpages (mem s) 0x80115000 \<union> frames (mem s) 0x80115000 \<union> set zs"
    using u by (auto simp: uspace_def vm_inv_def kmem_holds_def)
  have page: "user_page (mem s) 0x80115000 (64 + i)" if "unat i < 4" for i
  proof -
    have "unat (64 + i) = 64 + unat i" using that by (simp add: unat_word_ariths)
    then have "PGROUNDDOWN (64 + i) = 0" using that by (simp add: word_unat_eq_iff unat_PGROUNDDOWN)
    then show ?thesis using s0(2,4) parts by (simp add: user_page_def)
  qed
  have win: "lastn 2 (klog_window ?k) = [?e 1, ?e 2]"
    by (simp add: klog_window_def klog_walk_def lastn_def upt_rec)
  have "\<exists>m. klog_getlogs ?enc 2 0x80000100 64 2 s = Inr (2, s\<lparr>mem := m\<rparr>) \<and>
    (\<forall>x < KERNBASE. ubyte m 0x80115000 x =
       (if unat (x - 64) < 4 then Some (concat (map ?enc [?e 1, ?e 2]) ! unat (x - 64)) else ubyte (mem s) 0x80115000 x))"
    using klog_getlogs_copies_window [where s = s and p = 0 and xs = zs and max_n = 2 and enc = ?enc and sz = 2 and v = KERNBASE
        and tmp = "0x80000100" and buf = 64] ok u v page cpu
    by (simp add: parts in_stack_def aligned_def win cong: if_cong)
  then obtain m where m: "klog_getlogs ?enc 2 0x80000100 64 2 s = Inr (2, s\<lparr>mem := m\<rparr>)"
    "\<And>x. x < KERNBASE \<Longrightarrow> ubyte m 0x80115000 x =
       (if unat (x - 64) < 4 then Some (concat (map ?enc [?e 1, ?e 2]) ! unat (x - 64)) else ubyte (mem s) 0x80115000 x)"
    by blast
  show ?thesis
    using ok m(1) by (intro exI [of _ s] exI [of _ m]) (simp add: m(2) parts)
qed

end
