(* ===== verification/Proc_Fork.thy ===== *)
theory Proc_Fork
  imports Trap
begin

text \<open>
  What the routines that fork calls leave alone: none of the memory, file and inode routines touches the process table. So a child
  keeps what allocproc gave it, except for what fork itself sets.
\<close>

named_theorems keeps

lemma cli_keeps [keeps]:
  "pushcli s = Inr t \<Longrightarrow> ptable t = ptable s" "popcli s = Inr t \<Longrightarrow> ptable t = ptable s"
  for s t :: "'a ptab_st_scheme"
  by (auto simp: pushcli_def popcli_def Let_def seq_eq_Inr split: if_splits)

lemma holding_keeps [keeps]: "holding lk s = Inr (h, t) \<Longrightarrow> ptable t = ptable s"
  for s t :: "'a ptab_st_scheme"
  by (auto simp: holding_def Let_def seq_eq_Inr dest!: keeps)

lemma lock_keeps [keeps]:
  "acquire lk s = Inr (lk', t) \<Longrightarrow> ptable t = ptable s" "release lk s = Inr (lk', t) \<Longrightarrow> ptable t = ptable s"
  for s t :: "'a ptab_st_scheme"
  by (auto simp: acquire_def release_def seq_eq_Inr split: if_splits prod.splits dest!: keeps)

lemma lock_at_keeps:
  fixes s t :: "'a ptab_st_scheme"
  assumes "\<And>l u. ptable (put l u) = ptable u"
  shows "acquire_at get put s = Inr t \<Longrightarrow> ptable t = ptable s" "release_at get put s = Inr t \<Longrightarrow> ptable t = ptable s"
  using assms by (auto simp: acquire_at_def release_at_def seq_eq_Inr dest!: keeps)

lemma put_lock_keeps: "ptable (put_kmlock l u) = ptable u" "ptable (put_ftlock l v) = ptable v" "ptable (put_iclock l w) = ptable w"
  by (simp_all add: put_kmlock_def put_ftlock_def put_iclock_def)

lemmas kmem_lock_keeps [keeps] = lock_at_keeps [of put_kmlock, OF put_lock_keeps(1)]
lemmas ftable_lock_keeps [keeps] = lock_at_keeps [of put_ftlock, OF put_lock_keeps(2)]
lemmas icache_lock_keeps [keeps] = lock_at_keeps [of put_iclock, OF put_lock_keeps(3)]

lemma kalloc_keeps [keeps]: "kalloc s = Inr (v, t) \<Longrightarrow> ptable t = ptable s"
  by (auto simp: kalloc_def Let_def seq_eq_Inr split: if_splits dest!: kmem_lock_keeps)

lemma kfree_keeps [keeps]: "kfree v s = Inr t \<Longrightarrow> ptable t = ptable s"
  by (auto simp: kfree_def Let_def seq_eq_Inr split: if_splits dest!: kmem_lock_keeps)

lemma walkpgdir_keeps [keeps]: "walkpgdir pgdir va a s = Inr (r, t) \<Longrightarrow> ptable t = ptable s"
  by (auto simp: walkpgdir_def Let_def seq_eq_Inr split: if_splits prod.splits dest!: kalloc_keeps)

lemma mappages_loop_keeps: "mappages_loop n pgdir a l pa perm s = Inr (r, t) \<Longrightarrow> ptable t = ptable s"
proof (induction n pgdir a l pa perm s rule: mappages_loop.induct)
  case (2 n pgdir a l pa perm s)
  then show ?case
    by (force simp: Let_def seq_eq_Inr split: if_splits prod.splits dest: walkpgdir_keeps)
qed simp

lemma mappages_keeps [keeps]: "mappages pgdir a sz pa perm s = Inr (r, t) \<Longrightarrow> ptable t = ptable s"
  unfolding mappages_def by (rule mappages_loop_keeps)

lemma deallocuvm_loop_keeps: "deallocuvm_loop n pgdir oldsz a s = Inr t \<Longrightarrow> ptable t = ptable s"
proof (induction n pgdir oldsz a s rule: deallocuvm_loop.induct)
  case (2 n pgdir oldsz a s)
  then show ?case
    by (force simp: Let_def seq_eq_Inr split: if_splits prod.splits dest: walkpgdir_keeps kfree_keeps)
qed simp

lemma freevm_tables_keeps: "freevm_tables pgdir is s = Inr t \<Longrightarrow> ptable t = ptable s"
proof (induction pgdir "is" s rule: freevm_tables.induct)
  case (2 pgdir i "is" s)
  then show ?case
    by (force simp: Let_def seq_eq_Inr split: if_splits dest: kfree_keeps)
qed simp

lemma freevm_keeps [keeps]: "freevm pgdir s = Inr t \<Longrightarrow> ptable t = ptable s"
  by (auto simp: freevm_def deallocuvm_def seq_eq_Inr split: if_splits dest!: deallocuvm_loop_keeps freevm_tables_keeps kfree_keeps)

lemma setupkvm_loop_keeps: "setupkvm_loop pgdir ks s = Inr (r, t) \<Longrightarrow> ptable t = ptable s"
proof (induction pgdir ks s rule: setupkvm_loop.induct)
  case (2 pgdir k ks s)
  then show ?case
    by (force simp: seq_eq_Inr split: if_splits prod.splits dest: mappages_keeps freevm_keeps)
qed simp

lemma setupkvm_keeps [keeps]: "setupkvm s = Inr (r, t) \<Longrightarrow> ptable t = ptable s"
  by (auto simp: setupkvm_def Let_def seq_eq_Inr split: if_splits prod.splits dest!: setupkvm_loop_keeps kalloc_keeps)

lemma copyuvm_loop_keeps: "copyuvm_loop n pgdir d sz i s = Inr (r, t) \<Longrightarrow> ptable t = ptable s"
proof (induction n pgdir d sz i s rule: copyuvm_loop.induct)
  case (2 n pgdir d sz i s)
  then show ?case
    by (force simp: Let_def seq_eq_Inr split: if_splits prod.splits dest: walkpgdir_keeps kalloc_keeps mappages_keeps freevm_keeps kfree_keeps)
qed simp

lemma copyuvm_keeps [keeps]: "copyuvm pgdir sz s = Inr (r, t) \<Longrightarrow> ptable t = ptable s"
  by (auto simp: copyuvm_def seq_eq_Inr split: if_splits prod.splits dest!: copyuvm_loop_keeps setupkvm_keeps)

lemma filedup_keeps [keeps]: "filedup f s = Inr (r, t) \<Longrightarrow> ptable t = ptable s"
  by (auto simp: filedup_def upd_file_def seq_eq_Inr split: if_splits dest!: ftable_lock_keeps)

lemma idup_keeps [keeps]: "idup ip s = Inr (r, t) \<Longrightarrow> ptable t = ptable s"
  by (auto simp: idup_def upd_inode_def seq_eq_Inr dest!: icache_lock_keeps)

lemma myproc_keeps [keeps]: "myproc s = Inr (r, t) \<Longrightarrow> ptable t = ptable s"
  by (auto simp: myproc_def seq_eq_Inr Let_def dest!: cli_keeps)

section \<open>The child of fork\<close>

lemma ptlock_keeps:
  "acquire_ptable s = Inr t \<Longrightarrow> procs t = procs s" "release_ptable s = Inr t \<Longrightarrow> procs t = procs s"
  by (auto simp: acquire_at_def release_at_def put_ptlock_def seq_eq_Inr dest!: lock_keeps)

text \<open>The fields of the processes that fork does not set.\<close>

definition marks :: "'a ptab_st_scheme \<Rightarrow> (int \<times> int) list" where
  "marks s = map (\<lambda>q. (p_killed q, p_pid q)) (procs s)"

lemma marks_cong: "ptable t = ptable s \<Longrightarrow> marks t = marks s"
  by (simp add: marks_def)

lemma marks_upd_proc:
  assumes "\<And>q. p_killed (f q) = p_killed q \<and> p_pid (f q) = p_pid q"
  shows "marks (upd_proc p f s) = marks s"
proof -
  have "marks (upd_proc p f s) = (marks s)[p := (p_killed (procs s ! p), p_pid (procs s ! p))]"
    using assms [of "procs s ! p"] by (simp add: marks_def upd_proc_def upd_procs_def map_update)
  then show ?thesis by (cases "p < length (procs s)") (simp_all add: list_update_same_conv list_update_beyond marks_def)
qed

lemma marks_nth:
  assumes "p < length (procs s)" "marks t = marks s"
  shows "p < length (procs t) \<and> p_killed (procs t ! p) = p_killed (procs s ! p) \<and> p_pid (procs t ! p) = p_pid (procs s ! p)"
proof -
  have "length (procs t) = length (procs s)" using arg_cong [OF assms(2), of length] by (simp add: marks_def)
  then show ?thesis using arg_cong [OF assms(2), of "\<lambda>m. m ! p"] assms(1) by (simp add: marks_def)
qed

lemma fork_file_keeps:
  assumes "fork_file cur np i s = Inr t"
  shows "marks t = marks s"
proof (cases "p_ofile (procs s ! cur) ! i")
  case (Some f)
  then obtain g u where u: "filedup f s = Inr (g, u)" "t = upd_proc np (\<lambda>q. q\<lparr>p_ofile := (p_ofile q)[i := Some g]\<rparr>) u"
    using assms by (auto simp: fork_file_def seq_eq_Inr)
  then show ?thesis using marks_cong [OF filedup_keeps [OF u(1)]] by (simp add: marks_upd_proc)
qed (use assms in \<open>simp add: fork_file_def\<close>)

lemma fork_files_keep: "fold_st (fork_file cur np) xs s = Inr t \<Longrightarrow> marks t = marks s"
proof (induction xs arbitrary: s)
  case (Cons i xs)
  then show ?case by (auto simp: seq_eq_Inr dest!: fork_file_keeps)
qed simp

text \<open>A child that fork made has the marks that allocproc left in its slot, and is ready.\<close>

lemma fork_child:
  assumes "myproc s = Inr (cur, s1)" "allocproc s1 = Inr (Some np, s2)" "fork s = Inr (r, t)" "np < length (procs s2)" "r \<noteq> -1"
  shows "r = p_pid (procs s2 ! np) \<and> p_state (procs t ! np) = RUNNABLE \<and> p_killed (procs t ! np) = p_killed (procs s2 ! np)"
proof -
  obtain c d s3 where c: "copyuvm (p_pgdir (procs s2 ! c)) (p_sz (procs s2 ! c)) s2 = Inr (d, s3)" "d \<noteq> 0"
    and rest: "(let s = upd_proc np (\<lambda>q. q\<lparr>p_pgdir := d\<rparr>) s3;
         s = upd_proc np (\<lambda>q. q\<lparr>p_sz := p_sz (procs s ! c), p_parent := Some c, p_tf := (p_tf (procs s ! c))\<lparr>tf_eax := 0\<rparr>\<rparr>) s
       in seq (fold_st (fork_file c np) [0..<16] s) (\<lambda>s.
           seq (deref (p_cwd (procs s ! c))) (\<lambda>ip.
           seq (idup ip s) (\<lambda>(ip, s).
           let s = upd_proc np (\<lambda>q. q\<lparr>p_cwd := Some ip, p_name := proc_name (p_name (procs s ! c))\<rparr>) s;
               pid = p_pid (procs s ! np)
           in seq (acquire_ptable s) (\<lambda>s. seq (release_ptable (set_state RUNNABLE np s)) (\<lambda>s. Inr (pid, s))))))) = Inr (r, t)"
    using assms(1-3,5) unfolding fork_def by (auto simp: seq_eq_Inr Let_def split: if_splits)
  let ?a = "upd_proc np (\<lambda>q. q\<lparr>p_pgdir := d\<rparr>) s3"
  let ?b = "upd_proc np (\<lambda>q. q\<lparr>p_sz := p_sz (procs ?a ! c), p_parent := Some c, p_tf := (p_tf (procs ?a ! c))\<lparr>tf_eax := 0\<rparr>\<rparr>) ?a"
  obtain s4 ip s5 ip' where s4: "fold_st (fork_file c np) [0..<16] ?b = Inr s4" "idup ip s4 = Inr (ip', s5)"
    and rest2: "(let s = upd_proc np (\<lambda>q. q\<lparr>p_cwd := Some ip', p_name := proc_name (p_name (procs s5 ! c))\<rparr>) s5;
               pid = p_pid (procs s ! np)
           in seq (acquire_ptable s) (\<lambda>s. seq (release_ptable (set_state RUNNABLE np s)) (\<lambda>s. Inr (pid, s)))) = Inr (r, t)"
    using rest unfolding Let_def by (auto simp: seq_eq_Inr)
  let ?e = "upd_proc np (\<lambda>q. q\<lparr>p_cwd := Some ip', p_name := proc_name (p_name (procs s5 ! c))\<rparr>) s5"
  obtain s6 where s6: "acquire_ptable ?e = Inr s6" "release_ptable (set_state RUNNABLE np s6) = Inr t" "r = p_pid (procs ?e ! np)"
    using rest2 unfolding Let_def by (auto simp: seq_eq_Inr)
  have "marks ?e = marks s2"
    using marks_cong [OF copyuvm_keeps [OF c(1)]] fork_files_keep [OF s4(1)] marks_cong [OF idup_keeps [OF s4(2)]] by (simp add: marks_upd_proc)
  note m = marks_nth [OF assms(4) this]
  have "procs s6 = procs ?e" "procs t = procs (set_state RUNNABLE np s6)" using ptlock_keeps(1) [OF s6(1)] ptlock_keeps(2) [OF s6(2)] .
  then show ?thesis using m s6(3) by (auto simp: set_state_def upd_proc_def upd_procs_def)
qed

section \<open>A killed process at a system call\<close>

lemma exit_no_return: "exit s \<noteq> Inr x"
  by (auto simp: exit_def sched_def seq_eq_Inr Let_def split: if_splits)

lemma trap_killed:
  assumes "cpu_ok s" "cpu_proc (cpus s ! this_cpu s) = Some p" "p_killed (procs s ! p) \<noteq> 0" "tf_trapno tf = T_SYSCALL"
  shows "trap ti tf s = exit s" "trap ti tf s \<noteq> Inr x"
proof -
  have "curproc s = Inr (p, s)" using assms(1,2) by (simp add: curproc_def myproc_ok deref_def)
  then show "trap ti tf s = exit s" using assms(3,4) by (simp add: trap_def)
  then show "trap ti tf s \<noteq> Inr x" using exit_no_return [of s x] by simp
qed

end
