(* ===== verification/Proc_Props.thy ===== *)
theory Proc_Props
  imports Machine Proc_Fork
begin

text \<open>
  Processes: what allocproc promises, what kill does to a free slot, and that a pass of the scheduler serves every process that
  is ready.
\<close>

section \<open>allocproc\<close>

abbreviation (input) INT_MAX :: int where "INT_MAX \<equiv> 2147483647"

definition fill_slot :: "nat \<Rightarrow> 'a ptab_st_scheme \<Rightarrow> 'a ptab_st_scheme" where
  "fill_slot p s = set_nextpid (int32 (nextpid (ptable s) + 1)) (upd_proc p (\<lambda>q. q\<lparr>p_state := EMBRYO, p_pid := nextpid (ptable s)\<rparr>) s)"

lemma fill_slot_framed: "pt.framed (fill_slot p)"
  by (simp add: pt.framed_def fill_slot_def set_nextpid_def upd_proc_def upd_procs_def put_ptlock_def)

lemma fill_slot_simps [simp]:
  "procs (fill_slot p s) = (procs s)[p := (procs s ! p)\<lparr>p_state := EMBRYO, p_pid := nextpid (ptable s)\<rparr>]"
  "nextpid (ptable (fill_slot p s)) = int32 (nextpid (ptable s) + 1)" "pt_ok (fill_slot p s) = pt_ok s"
  by (simp_all add: fill_slot_def set_nextpid_def upd_proc_def upd_procs_def pt_ok_def)

lemma fill_slot_kmem [simp]:
  "kmem (fill_slot p s) = kmem s" "mem (fill_slot p s) = mem s" "km_ok (fill_slot p s) = km_ok s"
  by (simp_all add: fill_slot_def set_nextpid_def upd_proc_def upd_procs_def km_ok_def)

lemma kalloced_procs [simp]: "procs (kalloced s) = procs s" "ptable (kalloced s) = ptable s" "pt_ok (kalloced s) = pt_ok s"
  by (simp_all add: kalloced_def pt_ok_def)

lemma upd_proc_kmem [simp]:
  "kmem (upd_proc p f s) = kmem s" "mem (upd_proc p f s) = mem s" "km_ok (upd_proc p f s) = km_ok s"
  "procs (upd_proc p f s) = (procs s)[p := f (procs s ! p)]" "nextpid (ptable (upd_proc p f s)) = nextpid (ptable s)"
  "pt_ok (upd_proc p f s) = pt_ok s"
  by (simp_all add: upd_proc_def upd_procs_def km_ok_def pt_ok_def)

lemma allocproc_ok:
  assumes "pt_ok s" "km_ok s"
  shows "allocproc s = (case find (\<lambda>p. p_state (procs s ! p) = UNUSED) [0..<NPROC] of None \<Rightarrow> Inr (None, s)
    | Some p \<Rightarrow>
        let v = freelist (kmem s); t = upd_proc p (\<lambda>q. q\<lparr>p_kstack := v\<rparr>) (kalloced (fill_slot p s))
        in if v = 0 then Inr (None, set_state UNUSED p t) else Inr (Some p, t))"
proof -
  have ok: "cpu_ok s" "lock_free (pt_lock (ptable s))"
    using assms(1) by (simp_all add: pt_ok_def)
  have none: "release_ptable (pt.opened s) = Inr s"
    using pt.release_at_ok [OF ok, of "\<lambda>s. s"] by (simp add: pt.framed_def)
  have slot: "release_ptable (set_nextpid (int32 (nextpid (ptable (pt.opened s)) + 1))
      (upd_proc p (\<lambda>q. q\<lparr>p_state := EMBRYO, p_pid := nextpid (ptable (pt.opened s))\<rparr>) (pt.opened s))) = Inr (fill_slot p s)" for p
    using pt.release_at_ok [OF ok fill_slot_framed, of p] by (simp add: fill_slot_def)
  show ?thesis
    unfolding allocproc_def pt.acquire_at_ok [OF ok] seq_Inr procs_opened Let_def none
    using assms(2) by (simp add: kalloc_ok slot Let_def split: option.splits)
qed

text \<open>Process ids below the counter, so that the next one is new; the counter has not wrapped.\<close>

definition pids_ok :: "'a ptab_st_scheme \<Rightarrow> bool" where
  "pids_ok s \<longleftrightarrow> length (procs s) = NPROC \<and> 0 < nextpid (ptable s) \<and> nextpid (ptable s) \<le> INT_MAX \<and>
     (\<forall>q < NPROC. p_pid (procs s ! q) < nextpid (ptable s))"

lemma int32_id: "- INT_MAX - 1 \<le> n \<Longrightarrow> n \<le> INT_MAX \<Longrightarrow> int32 n = n"
  by (simp add: int32_def signed_of_int signed_take_bit_int_eq_self)

lemma int32_next: "0 < n \<Longrightarrow> n < INT_MAX \<Longrightarrow> int32 (n + 1) = n + 1"
  by (rule int32_id) simp_all

lemma kmem_holds_cong:
  assumes "kmem_holds s xs" "kmem t = kmem s" "mem t = mem s" "km_ok t"
  shows "kmem_holds t xs"
  using assms by (simp add: kmem_holds_def)

lemma kalloced_kmem: "kmem t = kmem s \<Longrightarrow> mem t = mem s \<Longrightarrow> kmem (kalloced t) = kmem (kalloced s) \<and> mem (kalloced t) = mem s"
  by (simp add: kalloced_def)

lemma alloc_slot:
  assumes "pt_ok s" "kmem_holds s xs" "pids_ok s" "find (\<lambda>p. p_state (procs s ! p) = UNUSED) [0..<NPROC] = Some p"
  shows "p < NPROC" "p_state (procs s ! p) = UNUSED" "\<And>q. q < p \<Longrightarrow> p_state (procs s ! q) \<noteq> UNUSED"
  using assms(4) by (auto simp: find_Some_iff)

lemma filled_slot:
  fixes s :: "'a kmem_st_scheme"
  assumes "pids_ok s" "km_ok s" "p < NPROC"
  defines "t \<equiv> upd_proc p (\<lambda>q. q\<lparr>p_kstack := freelist (kmem s)\<rparr>) (kalloced (fill_slot p s))"
  shows "length (procs s) = NPROC" "q < NPROC \<Longrightarrow> p_pid (procs s ! q) < nextpid (ptable s)"
    and "kmem t = kmem (kalloced s)" "mem t = mem s" "km_ok t" "nextpid (ptable s) < INT_MAX \<Longrightarrow> pids_ok t"
proof -
  show len: "length (procs s) = NPROC" and "q < NPROC \<Longrightarrow> p_pid (procs s ! q) < nextpid (ptable s)"
    using assms(1) by (simp_all add: pids_ok_def)
  show "kmem t = kmem (kalloced s)" "mem t = mem s" "km_ok t"
    using kalloced_kmem [of "fill_slot p s" s] assms(2) by (simp_all add: t_def)
  show "pids_ok t" if "nextpid (ptable s) < INT_MAX"
    using assms(1,3) len that int32_next [of "nextpid (ptable s)"] by (auto simp: pids_ok_def t_def nth_list_update intro: less_trans)
qed

text \<open>
  C10. allocproc gives a process slot that nobody uses. In a table whose process ids are below the counter, it returns a slot that
  was UNUSED, now EMBRYO, with an id that no other slot has and a kernel stack taken off the list of free pages; no other slot
  changes. When it fails, there is no unused slot or no page left, and no slot changes its state. The locks are free again, and
  the ids stay below the counter until it reaches the largest int; there it wraps to the smallest one, which is then the next
  id.
\<close>

theorem allocproc_fresh:
  assumes "pt_ok s" and "kmem_holds s xs" and "pids_ok s"
  shows "\<exists>r t. allocproc s = Inr (r, t) \<and> pt_ok t \<and> (nextpid (ptable s) < INT_MAX \<longrightarrow> pids_ok t) \<and>
    (case r of
       Some p \<Rightarrow> p < NPROC \<and> p_state (procs s ! p) = UNUSED \<and> xs \<noteq> [] \<and> kmem_holds t (tl xs) \<and>
         procs t = (procs s)[p := (procs s ! p)\<lparr>p_state := EMBRYO, p_pid := nextpid (ptable s), p_kstack := hd xs\<rparr>] \<and>
         (\<forall>q. q < NPROC \<and> q \<noteq> p \<longrightarrow> p_pid (procs t ! q) \<noteq> p_pid (procs t ! p)) \<and>
         nextpid (ptable t) = (if nextpid (ptable s) = INT_MAX then - INT_MAX - 1 else nextpid (ptable s) + 1)
     | None \<Rightarrow> ((\<forall>q < NPROC. p_state (procs s ! q) \<noteq> UNUSED) \<or> xs = []) \<and> kmem_holds t xs \<and>
         map p_state (procs t) = map p_state (procs s))"
proof -
  have km: "km_ok s" using assms(2) by (simp add: kmem_holds_def)
  show ?thesis
  proof (cases "find (\<lambda>p. p_state (procs s ! p) = UNUSED) [0..<NPROC]")
    case None
    then have "\<forall>q < NPROC. p_state (procs s ! q) \<noteq> UNUSED" by (auto simp: find_None_iff)
    with None assms show ?thesis by (simp add: allocproc_ok [OF assms(1) km])
  next
    case (Some p)
    note p = alloc_slot [OF assms Some]
    let ?v = "freelist (kmem s)"
    let ?t = "upd_proc p (\<lambda>q. q\<lparr>p_kstack := ?v\<rparr>) (kalloced (fill_slot p s))"
    note slot = filled_slot [OF assms(3) km p(1)]
    note len = slot(1) and pid = slot(2) and kt = slot(3-5) and pids = slot(6)
    show ?thesis
    proof (cases xs)
      case Nil
      then have v: "?v = 0" using assms(2) by (simp add: kmem_holds_def)
      let ?u = "set_state UNUSED p ?t"
      have "kmem_holds ?u xs"
        using assms(2) kt v by (intro kmem_holds_cong [OF assms(2)]) (simp_all add: set_state_def kalloced_def)
      moreover have "map p_state (procs ?u) = map p_state (procs s)"
        using p(1,2) len by (intro nth_equalityI) (auto simp: set_state_def nth_list_update)
      moreover have "pids_ok ?u" if "nextpid (ptable s) < INT_MAX"
        using pids [OF that] p(1) len by (auto simp: pids_ok_def set_state_def nth_list_update)
      ultimately show ?thesis
        using Some v Nil assms(1) by (simp add: allocproc_ok [OF assms(1) km] set_state_def)
    next
      case (Cons x ys)
      have a: "kalloc s = Inr (x, kalloced s)" "kmem_holds (kalloced s) ys" "x \<noteq> 0"
        using kalloc_holds(2) [of s x ys] assms(2) Cons page_ok_nonzero by (auto simp: kmem_holds_def)
      then have v: "?v = x" by (simp add: kalloc_ok [OF km])
      have "kmem_holds ?t ys"
        using kt by (intro kmem_holds_cong [OF a(2)]) simp_all
      moreover have "p_pid (procs ?t ! q) \<noteq> p_pid (procs ?t ! p)" if "q < NPROC" "q \<noteq> p" for q
        using pid [OF that(1)] that p(1) len by (simp add: nth_list_update)
      moreover have "nextpid (ptable ?t) = (if nextpid (ptable s) = INT_MAX then - INT_MAX - 1 else nextpid (ptable s) + 1)"
        using int32_next [of "nextpid (ptable s)"] assms(3) by (simp add: pids_ok_def int32_def)
      ultimately show ?thesis
        using Some v a(3) Cons assms(1) p pids by (simp add: allocproc_ok [OF assms(1) km] len)
    qed
  qed
qed

section \<open>Killing a free slot\<close>

text \<open>kill(0) marks the first unused slot, which allocproc hands out next.\<close>

lemma kill_zero_marks:
  fixes s :: "'a kmem_st_scheme"
  assumes "pt_ok s" and "kmem_holds s (x # xs)" and "pids_ok s" and "i < NPROC" and "p_state (procs s ! i) = UNUSED"
    and "\<And>q. q < NPROC \<Longrightarrow> p_state (procs s ! q) = UNUSED \<longleftrightarrow> p_pid (procs s ! q) = 0"
    and "\<And>q. q < i \<Longrightarrow> p_state (procs s ! q) \<noteq> UNUSED"
  shows "\<exists>t u. kill 0 s = Inr (0, t) \<and> cpu_ok t \<and> allocproc t = Inr (Some i, u) \<and> length (procs u) = NPROC \<and>
    p_state (procs u ! i) = EMBRYO \<and> p_killed (procs u ! i) = 1 \<and> p_pid (procs u ! i) = nextpid (ptable s)"
proof -
  have len: "length (procs s) = NPROC" using assms(3) by (simp add: pids_ok_def)
  have i: "p_pid (procs s ! i) = 0" using assms(4-6) by blast
  then have "kill_loop 0 (procs s) \<noteq> None"
    using assms(4) len by (auto simp: kill_loop_None)
  then obtain qs where qs: "kill_loop 0 (procs s) = Some qs" by blast
  then obtain j where j: "j < NPROC" "p_pid (procs s ! j) = 0"
      "\<forall>k < j. p_pid (procs s ! k) \<noteq> 0" "qs = (procs s)[j := killed_proc (procs s ! j)]"
    using kill_loop_Some [OF qs] unfolding len by blast
  have "\<not> i < j" using j(3) i by blast
  moreover have "\<not> j < i" using assms(6) [OF j(1)] assms(7) [of j] j(2) by blast
  ultimately have ij: "i = j" by simp
  define t where "t = upd_procs (\<lambda>_. qs) s"
  have kill: "kill 0 s = Inr (0, t)" by (simp add: kill_ok [OF assms(1)] qs t_def)
  have procs: "procs t = (procs s)[i := killed_proc (procs s ! i)]" "nextpid (ptable t) = nextpid (ptable s)"
    by (simp_all add: t_def j(4) ij upd_procs_def)
  have km: "km_ok t" "freelist (kmem t) \<noteq> 0" "pt_ok t"
    using assms(1,2) page_ok_nonzero by (auto simp: kmem_holds_def km_ok_def upd_procs_def t_def pt_ok_def)
  have "find (\<lambda>p. p_state (procs t ! p) = UNUSED) [0..<NPROC] = Some i"
    using assms(4,5,7) len unfolding procs
    by (auto simp: find_Some_iff nth_list_update killed_proc_def intro!: exI [of _ i])
  then have "allocproc t = Inr (Some i, upd_proc i (\<lambda>q. q\<lparr>p_kstack := freelist (kmem t)\<rparr>) (kalloced (fill_slot i t)))"
    using km(2) by (simp add: allocproc_ok [OF km(3,1)])
  moreover have "cpu_ok t" using km(3) by (simp add: pt_ok_def)
  ultimately show ?thesis
    using assms(4) kill len by (simp add: procs killed_proc_def)
qed

text \<open>
  C26. kill(0) dooms a process that does not exist yet. Unused slots have process id 0, and kill compares ids without looking at
  the state, so kill(0) succeeds and sets the flag of the first unused slot. allocproc takes that slot and does not clear the
  flag; neither does the rest of fork, so a process that the next fork creates is ready and killed. When it makes a
  system call with the flag still set, trap calls exit instead of the system call and does not return to it.
\<close>

theorem kill_zero_dooms_next_process:
  fixes s :: "'a file_st_scheme"
  assumes "pt_ok s" and "kmem_holds s (x # xs)" and "pids_ok s" and "i < NPROC" and "p_state (procs s ! i) = UNUSED"
    and "\<And>q. q < NPROC \<Longrightarrow> p_state (procs s ! q) = UNUSED \<longleftrightarrow> p_pid (procs s ! q) = 0"
    and "\<And>q. q < i \<Longrightarrow> p_state (procs s ! q) \<noteq> UNUSED"
  shows "\<exists>t u. kill 0 s = Inr (0, t) \<and> allocproc t = Inr (Some i, u) \<and> p_state (procs u ! i) = EMBRYO \<and> p_killed (procs u ! i) = 1 \<and>
    (\<forall>pid w. fork t = Inr (pid, w) \<and> pid \<noteq> -1 \<longrightarrow>
       pid = nextpid (ptable s) \<and> p_state (procs w ! i) = RUNNABLE \<and> p_killed (procs w ! i) = 1) \<and>
    (\<forall>ti tf (v :: 'b trap_st_scheme). cpu_ok v \<and> cpu_proc (cpus v ! this_cpu v) = Some i \<and> p_killed (procs v ! i) = 1 \<and>
       tf_trapno tf = T_SYSCALL \<longrightarrow> trap ti tf v = exit v \<and> (\<forall>y. trap ti tf v \<noteq> Inr y))"
proof -
  obtain t u where t: "kill 0 s = Inr (0, t)" "cpu_ok t" "allocproc t = Inr (Some i, u)" "length (procs u) = NPROC"
      "p_state (procs u ! i) = EMBRYO" "p_killed (procs u ! i) = 1" "p_pid (procs u ! i) = nextpid (ptable s)"
    using kill_zero_marks [OF assms] by blast
  have "pid = nextpid (ptable s) \<and> p_state (procs w ! i) = RUNNABLE \<and> p_killed (procs w ! i) = 1" if "fork t = Inr (pid, w)" "pid \<noteq> -1" for pid w
    using fork_child [OF myproc_ok [OF t(2)] t(3) that(1) _ that(2)] t(4,6,7) assms(4) by simp
  moreover have "trap ti tf v = exit v \<and> (\<forall>y. trap ti tf v \<noteq> Inr y)"
    if "cpu_ok v" "cpu_proc (cpus v ! this_cpu v) = Some i" "p_killed (procs v ! i) = 1" "tf_trapno tf = T_SYSCALL"
    for ti tf and v :: "'b trap_st_scheme"
    using trap_killed [OF that(1,2) _ that(4)] that(3) by auto
  ultimately show ?thesis using t(1,3,5,6) by blast
qed

section \<open>A pass of the scheduler\<close>

text \<open>
  The scheduler on CPU \<open>c\<close> inside its loop over the table: it holds the table lock and no other, and what may run can run. sched, by
  which a process gives the CPU back, panics unless the lock is held, no other is, and interrupts are off.
\<close>

definition runnable_ok :: "'a ptab_st_scheme \<Rightarrow> bool" where
  "runnable_ok s \<longleftrightarrow> length (procs s) = NPROC \<and> (\<forall>q \<in> set (procs s). p_state q = RUNNABLE \<longrightarrow> p_kstack q \<noteq> 0 \<and> p_pgdir q \<noteq> 0)"

definition scheduler_ready :: "nat \<Rightarrow> 'a vm_st_scheme \<Rightarrow> bool" where
  "scheduler_ready c s \<longleftrightarrow> runnable_ok s \<and> find_cpu (cpus s) (lapic_id s) = Some c \<and> cpu_ncli (cpus s ! c) = 1 \<and> \<not> eflags_if s \<and>
     locked (pt_lock (ptable s)) \<noteq> 0 \<and> lk_cpu (pt_lock (ptable s)) = Some c"

text \<open>At the top of its endless loop: no lock is held here, and the table lock is free.\<close>

definition scheduler_at_top :: "nat \<Rightarrow> 'a vm_st_scheme \<Rightarrow> bool" where
  "scheduler_at_top c s \<longleftrightarrow> runnable_ok s \<and> find_cpu (cpus s) (lapic_id s) = Some c \<and> cpu_ncli (cpus s ! c) = 0 \<and> lock_free (pt_lock (ptable s))"

text \<open>
  A pass, from a result of the scheduler on: the switches \<open>(p, u, v)\<close> it makes, to process \<open>p\<close> in state \<open>u\<close>, which gives the CPU back
  in state \<open>v\<close>, and the state in which it ends. While a process runs, it and the other CPUs may do anything to the kernel
  state.
\<close>

inductive pass :: "nat \<Rightarrow> 'a vm_st_scheme stop + nat option \<times> 'a vm_st_scheme \<Rightarrow> (nat \<times> 'a vm_st_scheme \<times> 'a vm_st_scheme) list \<Rightarrow>
    'a vm_st_scheme \<Rightarrow> bool" where
  pass_end: "pass c (Inr (None, w)) [] w"
| pass_run: "scheduler_ready c v \<Longrightarrow> pass c (scheduler_back c p v) es w \<Longrightarrow> pass c (Inr (Some p, u)) ((p, u, v) # es) w"

text \<open>
  Each switch is to a process that was ready in the table \<open>ps\<close> the scheduler saw, with its state, the current process of the CPU, the
  kernel stack and the page table set; nothing else of the table changes.
\<close>

fun switches :: "nat \<Rightarrow> proc list \<Rightarrow> (nat \<times> 'a vm_st_scheme \<times> 'a vm_st_scheme) list \<Rightarrow> bool" where
  "switches c ps [] \<longleftrightarrow> True"
| "switches c ps ((p, u, v) # es) \<longleftrightarrow> p < NPROC \<and> p_state (ps ! p) = RUNNABLE \<and> procs u = ps[p := (ps ! p)\<lparr>p_state := RUNNING\<rparr>] \<and>
     cpu_proc (cpus u ! c) = Some p \<and> cr3 (vm u) = V2P (p_pgdir (ps ! p)) \<and> ts_esp0 (vm u) = p_kstack (ps ! p) + KSTACKSIZE \<and>
     switches c (procs v) es"

lemma switchuvm_ok:
  assumes "cpu_ok s" "p_kstack (procs s ! p) \<noteq> 0" "p_pgdir (procs s ! p) \<noteq> 0"
  shows "switchuvm (Some p) s =
    Inr (s\<lparr>vm := (vm s)\<lparr>ts_esp0 := p_kstack (procs s ! p) + KSTACKSIZE, cr3 := V2P (p_pgdir (procs s ! p))\<rparr>\<rparr>)"
proof -
  let ?f = "\<lambda>s. s\<lparr>vm := (vm s)\<lparr>ts_esp0 := p_kstack (procs s ! p) + KSTACKSIZE, cr3 := V2P (p_pgdir (procs s ! p))\<rparr>\<rparr>"
  have "same_cpu (?f (pushed s)) (pushed s)" by (simp add: same_cpu_def)
  then have "popcli (?f (pushed s)) = Inr ((?f (pushed s))\<lparr>eflags_if := eflags_if s, cpus := cpus s\<rparr>)"
    by (rule popcli_pushed [OF assms(1)])
  then show ?thesis
    using assms(2,3) by (simp add: switchuvm_def pushcli_ok [OF assms(1)] pushed_def Let_def)
qed

lemma switchuvm_procs: "switchuvm p s = Inr t \<Longrightarrow> ptable t = ptable s"
  by (auto simp: switchuvm_def pushcli_def popcli_def mycpu_def Let_def seq_def split: option.splits if_splits sum.splits prod.splits)

lemma set_cpu_proc_simps [simp]:
  "ptable (set_cpu_proc p c s) = ptable s" "vm (set_cpu_proc p c s) = vm s" "ptable (switchkvm s) = ptable s"
  by (simp_all add: set_cpu_proc_def switchkvm_def)

lemma set_cpu_proc_ok:
  assumes "cpu_ok s"
  shows "cpu_ok (set_cpu_proc p (this_cpu s) s)" "this_cpu (set_cpu_proc p (this_cpu s) s) = this_cpu s"
    "cpu_proc (cpus (set_cpu_proc p (this_cpu s) s) ! this_cpu s) = p"
proof -
  obtain i where i: "find_cpu (cpus s) (lapic_id s) = Some i" "this_cpu s = i" "i < length (cpus s)" "0 \<le> cpu_ncli (cpus s ! i)"
      "cpu_ncli (cpus s ! i) = 0 \<longrightarrow> cpu_intena (cpus s ! i) = eflags_if s" "cpu_ncli (cpus s ! i) \<noteq> 0 \<longrightarrow> \<not> eflags_if s"
    by (rule cpu_okE [OF assms]) blast
  let ?t = "set_cpu_proc p i s"
  have "find_cpu (cpus ?t) (lapic_id ?t) = Some i" "cpus ?t ! i = (cpus s ! i)\<lparr>cpu_proc := p\<rparr>" "eflags_if ?t = eflags_if s"
    using i(1,3) by (simp_all add: set_cpu_proc_def find_cpu_update)
  then show "cpu_ok (set_cpu_proc p (this_cpu s) s)" "this_cpu (set_cpu_proc p (this_cpu s) s) = this_cpu s"
    "cpu_proc (cpus (set_cpu_proc p (this_cpu s) s) ! this_cpu s) = p"
    unfolding i(2) using i by (simp_all add: cpu_ok_def this_cpu_def)
qed

lemma find_upt:
  assumes "find P [i..<n] = Some p"
  shows "i \<le> p" "p < n" "P p" "\<And>q. i \<le> q \<Longrightarrow> q < p \<Longrightarrow> \<not> P q"
proof -
  obtain k where k: "k < n - i" "p = i + k" "P p" "\<And>j. j < k \<Longrightarrow> \<not> P (i + j)"
    using assms by (auto simp: find_Some_iff)
  then show "i \<le> p" "p < n" "P p" by simp_all
  show "\<not> P q" if "i \<le> q" "q < p" for q
    using k(4) [of "q - i"] that k(2) by simp
qed

lemma scheduler_readyD:
  assumes "scheduler_ready c s"
  shows "cpu_ok s" "this_cpu s = c" "c < length (cpus s)" "length (procs s) = NPROC"
    "p < NPROC \<Longrightarrow> p_state (procs s ! p) = RUNNABLE \<Longrightarrow> p_kstack (procs s ! p) \<noteq> 0 \<and> p_pgdir (procs s ! p) \<noteq> 0"
  using assms find_cpu_Some [of "cpus s" "lapic_id s" c] by (auto simp: scheduler_ready_def runnable_ok_def cpu_ok_def this_cpu_def)

lemma scheduler_back_ready: "scheduler_ready c v \<Longrightarrow> scheduler_ready c (set_cpu_proc None c (switchkvm v))"
  using scheduler_readyD(3) [of c v] by (simp add: scheduler_ready_def runnable_ok_def set_cpu_proc_def switchkvm_def find_cpu_update)

text \<open>The scheduler never panics here: it switches to the first ready process, or releases the lock.\<close>

lemma scheduler_switches:
  assumes s: "scheduler_ready c s" and p: "find (\<lambda>p. p_state (procs s ! p) = RUNNABLE) [i..<NPROC] = Some p"
  shows "\<exists>u. scheduler_from c i s = Inr (Some p, u) \<and> procs u = (procs s)[p := (procs s ! p)\<lparr>p_state := RUNNING\<rparr>] \<and>
    cpu_proc (cpus u ! c) = Some p \<and> cr3 (vm u) = V2P (p_pgdir (procs s ! p)) \<and> ts_esp0 (vm u) = p_kstack (procs s ! p) + KSTACKSIZE"
proof -
  note f = find_upt [OF p] and S = scheduler_readyD [OF s]
  note cpu = set_cpu_proc_ok [OF S(1), of "Some p", unfolded S(2)]
  have r: "p_kstack (procs s ! p) \<noteq> 0" "p_pgdir (procs s ! p) \<noteq> 0" using S(5) [OF f(2,3)] by auto
  have "scheduler_from c i s = Inr (Some p, set_state RUNNING p ((set_cpu_proc (Some p) c s)
      \<lparr>vm := (vm s)\<lparr>ts_esp0 := p_kstack (procs s ! p) + KSTACKSIZE, cr3 := V2P (p_pgdir (procs s ! p))\<rparr>\<rparr>))"
    using r by (simp add: scheduler_from_def p switchuvm_ok [OF cpu(1)])
  then show ?thesis using cpu(3) by (simp add: set_state_def upd_proc_def upd_procs_def)
qed

lemma scheduler_ends:
  assumes s: "scheduler_ready c s" and n: "find (\<lambda>p. p_state (procs s ! p) = RUNNABLE) [i..<NPROC] = None"
  shows "\<exists>u. scheduler_from c i s = Inr (None, u) \<and> lock_free (pt_lock (ptable u)) \<and> cpu_proc (cpus u ! c) = cpu_proc (cpus s ! c) \<and> vm u = vm s"
proof -
  note S = scheduler_readyD [OF s]
  let ?c = "(cpus s ! c)\<lparr>cpu_ncli := 0\<rparr>"
  let ?t = "s\<lparr>cpus := (cpus s)[c := ?c], eflags_if := cpu_intena (cpus s ! c)\<rparr>"
  have "popcli s = Inr ?t"
    using s S(3) by (cases "cpu_intena (cpus s ! c)") (simp_all add: scheduler_ready_def popcli_def mycpu_def Let_def)
  then have "release_ptable s = Inr (put_ptlock ((pt_lock (ptable s))\<lparr>lk_cpu := None, locked := 0\<rparr>) ?t)"
    using s S(2) by (simp add: release_at_def release_def holding_ok [OF S(1)] scheduler_ready_def)
  then show ?thesis using n S(3) by (simp add: scheduler_from_def put_ptlock_def lock_free_def)
qed

lemma scheduler_from_returns: "scheduler_ready c s \<Longrightarrow> \<exists>r. scheduler_from c i s = Inr r"
  using scheduler_switches [of c s i] scheduler_ends [of c s i] by (cases "find (\<lambda>p. p_state (procs s ! p) = RUNNABLE) [i..<NPROC]") blast+

lemma scheduler_start:
  assumes "scheduler_at_top c s"
  shows "\<exists>t. scheduler_pass c s = scheduler_from c 0 t \<and> scheduler_ready c t \<and> procs t = procs s \<and> vm t = vm s \<and> cpu_proc (cpus t ! c) = cpu_proc (cpus s ! c)"
proof -
  let ?s = "s\<lparr>eflags_if := True\<rparr>"
  let ?t = "put_ptlock (held_here (pt_lock (ptable s)) (saved ?s)) (pushed (saved ?s))"
  have c: "find_cpu (cpus s) (lapic_id s) = Some c" "c < length (cpus s)" "this_cpu ?s = c" "cpu_ncli (cpus s ! c) = 0" "lock_free (pt_lock (ptable s))"
    using assms find_cpu_Some [of "cpus s" "lapic_id s" c] by (auto simp: scheduler_at_top_def this_cpu_def)
  have h: "cpu_here ?s" using c by (simp add: cpu_here_def)
  note S = saved_ok [OF h]
  have "acquire_ptable ?s = Inr ?t"
    using acquire_saved [OF h] acquire_ok [OF S(1)] c(5) by (simp add: acquire_at_def)
  moreover have "cpus (saved ?s) = (cpus s)[c := (cpus s ! c)\<lparr>cpu_intena := True\<rparr>]" "ptable (saved ?s) = ptable s" "vm (saved ?s) = vm s" "lapic_id (saved ?s) = lapic_id s"
    using c by (simp_all add: saved_def Let_def)
  ultimately show ?thesis
    using assms c S(3) by (intro exI [of _ ?t])
      (simp add: scheduler_pass_def scheduler_ready_def scheduler_at_top_def runnable_ok_def put_ptlock_def pushed_def held_here_def find_cpu_update)
qed

lemma scheduler_from_Some:
  assumes "scheduler_ready c s" "scheduler_from c i s = Inr (Some p, u)"
  shows "find (\<lambda>p. p_state (procs s ! p) = RUNNABLE) [i..<NPROC] = Some p" "switches c (procs s) [(p, u, v)]"
proof -
  show f: "find (\<lambda>p. p_state (procs s ! p) = RUNNABLE) [i..<NPROC] = Some p"
    using scheduler_ends [OF assms(1), of i] scheduler_switches [OF assms(1), of i] assms(2)
    by (cases "find (\<lambda>p. p_state (procs s ! p) = RUNNABLE) [i..<NPROC]") fastforce+
  show "switches c (procs s) [(p, u, v)]"
    using scheduler_switches [OF assms(1) f] assms(2) find_upt(2,3) [OF f] by auto
qed

lemma scheduler_from_None:
  assumes "scheduler_ready c s" "scheduler_from c i s = Inr (None, u)"
  shows "\<And>q. i \<le> q \<Longrightarrow> q < NPROC \<Longrightarrow> p_state (procs s ! q) \<noteq> RUNNABLE" "lock_free (pt_lock (ptable u))"
    "cpu_proc (cpus u ! c) = cpu_proc (cpus s ! c)" "vm u = vm s"
proof -
  have n: "find (\<lambda>p. p_state (procs s ! p) = RUNNABLE) [i..<NPROC] = None"
    using scheduler_switches [OF assms(1), of i] assms(2)
    by (cases "find (\<lambda>p. p_state (procs s ! p) = RUNNABLE) [i..<NPROC]") fastforce+
  then show "\<And>q. i \<le> q \<Longrightarrow> q < NPROC \<Longrightarrow> p_state (procs s ! q) \<noteq> RUNNABLE" by (auto simp: find_None_iff)
  show "lock_free (pt_lock (ptable u))" "cpu_proc (cpus u ! c) = cpu_proc (cpus s ! c)" "vm u = vm s"
    using scheduler_ends [OF assms(1) n] assms(2) by auto
qed

text \<open>What a pass from slot \<open>i\<close> on does.\<close>

definition served :: "nat \<Rightarrow> nat \<Rightarrow> 'a vm_st_scheme \<Rightarrow> (nat \<times> 'a vm_st_scheme \<times> 'a vm_st_scheme) list \<Rightarrow> 'a vm_st_scheme \<Rightarrow> bool" where
  "served c i s es w \<longleftrightarrow>
     (\<forall>q. i \<le> q \<and> q < NPROC \<and> p_state (procs s ! q) = RUNNABLE \<longrightarrow>
       q \<in> fst ` set es \<or> (\<exists>(p, u, v) \<in> set es. p < q \<and> p_state (procs v ! q) \<noteq> RUNNABLE)) \<and>
     (\<forall>p \<in> fst ` set es. i \<le> p) \<and> sorted_wrt (<) (map fst es) \<and> switches c (procs s) es \<and> lock_free (pt_lock (ptable w)) \<and>
     cpu_proc (cpus w ! c) = (if es = [] then cpu_proc (cpus s ! c) else None) \<and>
     cr3 (vm w) = (if es = [] then cr3 (vm s) else V2P (kpgdir (vm (snd (snd (last es))))))"

lemma served_run:
  assumes s: "scheduler_ready c s" "scheduler_from c i s = Inr (Some p, u)" and v: "scheduler_ready c v"
    and es: "served c (p + 1) (set_cpu_proc None c (switchkvm v)) es w"
  shows "served c i s ((p, u, v) # es) w"
proof -
  note f = find_upt [OF scheduler_from_Some(1) [OF s]] and sw = scheduler_from_Some(2) [OF s, of v]
  have E: "\<And>q. p + 1 \<le> q \<Longrightarrow> q < NPROC \<Longrightarrow> p_state (procs v ! q) = RUNNABLE \<Longrightarrow>
        q \<in> fst ` set es \<or> (\<exists>(p, u, v) \<in> set es. p < q \<and> p_state (procs v ! q) \<noteq> RUNNABLE)"
      "\<And>r. r \<in> fst ` set es \<Longrightarrow> p + 1 \<le> r" "sorted_wrt (<) (map fst es)" "switches c (procs v) es" "lock_free (pt_lock (ptable w))"
      "cpu_proc (cpus w ! c) = None" "cr3 (vm w) = (if es = [] then V2P (kpgdir (vm v)) else V2P (kpgdir (vm (snd (snd (last es))))))"
    using es scheduler_readyD(3) [OF v] unfolding served_def set_cpu_proc_simps by (auto simp: set_cpu_proc_def switchkvm_def split: if_splits)
  have "q \<in> fst ` set ((p, u, v) # es) \<or> (\<exists>(p, u, v) \<in> set ((p, u, v) # es). p < q \<and> p_state (procs v ! q) \<noteq> RUNNABLE)"
    if q: "i \<le> q" "q < NPROC" "p_state (procs s ! q) = RUNNABLE" for q
  proof (cases "q \<le> p")
    case True
    then show ?thesis using f(4) [of q] q by (cases "q = p") auto
  next
    case False
    then show ?thesis using E(1) [of q] q(2) by (cases "p_state (procs v ! q) = RUNNABLE") auto
  qed
  moreover have "\<forall>r \<in> fst ` set ((p, u, v) # es). i \<le> r" using E(2) f(1) by force
  moreover have "sorted_wrt (<) (map fst ((p, u, v) # es))" using E(2,3) by (force simp: Suc_le_eq)
  moreover have "switches c (procs s) ((p, u, v) # es)" using sw E(4) by simp
  ultimately show ?thesis unfolding served_def using E(5-7) by auto
qed

lemma pass_serves: "pass c r es w \<Longrightarrow> scheduler_ready c s \<Longrightarrow> r = scheduler_from c i s \<Longrightarrow> served c i s es w"
proof (induction arbitrary: s i rule: pass.induct)
  case (pass_end c w)
  show ?case
    unfolding served_def using scheduler_from_None [OF pass_end.prems(1) pass_end.prems(2) [symmetric]] by auto
next
  case (pass_run c v p es w u)
  have "served c (p + 1) (set_cpu_proc None c (switchkvm v)) es w"
    by (rule pass_run.IH [OF scheduler_back_ready [OF pass_run.hyps(1)]]) (simp add: scheduler_back_def)
  then show ?case using served_run [OF pass_run.prems(1) pass_run.prems(2) [symmetric] pass_run.hyps(1)] by blast
qed

text \<open>
  C11. A pass of the scheduler serves every process that is ready. From the top of its loop, whatever the processes it runs and the
  other CPUs do to the kernel state, as long as a process gives the CPU back with the table lock held and ready processes have a stack and a
  page table: the scheduler does not panic; it switches to processes in the order of the table, each at most once and only to ready
  ones, with the process RUNNING and current, its kernel stack and its page table loaded and no other process changed; every
  process that was ready at the start is switched to, or was seen not ready when a process before it gave the CPU back. At the
  end the table lock is free, and after any switch the CPU has no current process and the page table of the kernel.
\<close>

theorem scheduler_serves_ready:
  fixes s :: "'a vm_st_scheme"
  assumes "scheduler_at_top c s" and "pass c (scheduler_pass c s) es w"
  shows "(\<exists>r. scheduler_pass c s = Inr r) \<and> (\<forall>p v. scheduler_ready c v \<longrightarrow> (\<exists>r. scheduler_back c p (v :: 'a vm_st_scheme) = Inr r)) \<and>
    (\<forall>q < NPROC. p_state (procs s ! q) = RUNNABLE \<longrightarrow>
       q \<in> fst ` set es \<or> (\<exists>(p, u, v) \<in> set es. p < q \<and> p_state (procs v ! q) \<noteq> RUNNABLE)) \<and>
    sorted_wrt (<) (map fst es) \<and> switches c (procs s) es \<and> lock_free (pt_lock (ptable w)) \<and>
    cpu_proc (cpus w ! c) = (if es = [] then cpu_proc (cpus s ! c) else None) \<and>
    cr3 (vm w) = (if es = [] then cr3 (vm s) else V2P (kpgdir (vm (snd (snd (last es))))))"
proof -
  obtain t where t: "scheduler_pass c s = scheduler_from c 0 t" "scheduler_ready c t" "procs t = procs s" "vm t = vm s" "cpu_proc (cpus t ! c) = cpu_proc (cpus s ! c)"
    using scheduler_start [OF assms(1)] by blast
  have "served c 0 t es w" using pass_serves [OF assms(2) t(2,1)] .
  moreover have "\<exists>r. scheduler_back c p v = Inr r" if "scheduler_ready c v" for p and v :: "'a vm_st_scheme"
    unfolding scheduler_back_def by (rule scheduler_from_returns [OF scheduler_back_ready [OF that]])
  moreover have "\<exists>r. scheduler_pass c s = Inr r" unfolding t(1) by (rule scheduler_from_returns [OF t(2)])
  ultimately show ?thesis unfolding served_def t(3-5) by simp
qed

section \<open>Witnesses\<close>

definition one_page :: sys_st where
  "one_page = machine\<lparr>kmem := (kmem machine)\<lparr>freelist := 0x80116000\<rparr>\<rparr>"

lemma one_page_ok:
  "pt_ok one_page" "kmem_holds one_page [0x80116000]" "pids_ok one_page" "procs one_page = first_proc # replicate 63 quiet_proc"
proof -
  have cpu: "cpu_ok one_page" by (simp add: one_page_def machine_def cpu_ok_def)
  show "pt_ok one_page" using cpu by (simp add: pt_ok_def one_page_def)
  show pr: "procs one_page = first_proc # replicate 63 quiet_proc" by (simp add: one_page_def)
  show "pids_ok one_page"
    unfolding pids_ok_def pr by (auto simp: one_page_def machine_def first_proc_def quiet_proc_def nth_Cons split: nat.splits)
  have "rd32 (mem one_page) a = 0" for a by (simp add: one_page_def machine_def rd32_def)
  moreover have "freelist (kmem one_page) = 0x80116000" "km_end (kmem one_page) = 0x80115000" "lock_free (km_lock (kmem one_page))"
    by (simp_all add: one_page_def machine_def)
  ultimately show "kmem_holds one_page [0x80116000]"
    using cpu by (simp add: kmem_holds_def km_ok_def page_ok_def aligned_def V2P_def)
qed

theorem allocproc_fresh_witness:
  "\<exists>r t. allocproc one_page = Inr (r, t) \<and> pids_ok t \<and> (case r of None \<Rightarrow> False | Some p \<Rightarrow> p_kstack (procs t ! p) = 0x80116000)"
  using allocproc_fresh [OF one_page_ok(1-3)]
proof (elim exE conjE, goal_cases)
  case (1 r t)
  have "p_state (procs one_page ! 1) = UNUSED" "length (procs one_page) = NPROC" "nextpid (ptable one_page) = 2"
    by (simp_all add: one_page_ok(4) quiet_proc_def) (simp add: one_page_def machine_def)
  moreover from this have "\<not> (\<forall>q < NPROC. p_state (procs one_page ! q) \<noteq> UNUSED)"
    by (metis one_less_numeral_iff semiring_norm(76))
  ultimately show ?case
    using 1 by (cases r) simp_all
qed

theorem kill_zero_dooms_next_process_witness:
  "\<exists>t u. kill 0 one_page = Inr (0, t) \<and> allocproc t = Inr (Some 1, u) \<and> p_state (procs u ! 1) = EMBRYO \<and> p_killed (procs u ! 1) = 1"
proof -
  have "p_state (procs one_page ! 1) = UNUSED" by (simp add: one_page_ok(4) quiet_proc_def)
  moreover have "p_state (procs one_page ! q) = UNUSED \<longleftrightarrow> p_pid (procs one_page ! q) = 0" if "q < NPROC" for q
    using that by (cases q) (simp_all add: one_page_ok(4) quiet_proc_def first_proc_def)
  moreover have "p_state (procs one_page ! q) \<noteq> UNUSED" if "q < 1" for q
    using that by (simp add: one_page_ok(4) quiet_proc_def first_proc_def)
  ultimately show ?thesis
    using kill_zero_dooms_next_process [OF one_page_ok(1-3), of 1] by auto
qed

text \<open>A CPU at the top of the scheduler with one process ready, and one in the loop with none.\<close>

definition one_ready :: sys_st where
  "one_ready = machine\<lparr>cpus := [\<lparr>apicid = 0, cpu_ncli = 0, cpu_intena = False, cpu_proc = None\<rparr>],
     ptable := (ptable machine)\<lparr>pt_proc := first_proc\<lparr>p_state := RUNNABLE, p_kstack := 0x80116000, p_pgdir := 0x80117000\<rparr> # replicate 63 quiet_proc\<rparr>\<rparr>"

definition none_ready :: sys_st where
  "none_ready = machine\<lparr>cpus := [\<lparr>apicid = 0, cpu_ncli = 1, cpu_intena = True, cpu_proc = Some 0\<rparr>],
     ptable := (ptable machine)\<lparr>pt_lock := \<lparr>locked = 1, lk_name = [], lk_cpu = Some 0\<rparr>, pt_proc := replicate 64 quiet_proc\<rparr>\<rparr>"

lemma one_ready_start: "scheduler_at_top 0 one_ready" "p_state (procs one_ready ! 0) = RUNNABLE"
  by (auto simp: scheduler_at_top_def runnable_ok_def one_ready_def machine_def quiet_proc_def)

lemma none_ready_ok: "scheduler_ready 0 none_ready" "\<And>q. q < NPROC \<Longrightarrow> p_state (procs none_ready ! q) \<noteq> RUNNABLE"
  by (auto simp: scheduler_ready_def runnable_ok_def none_ready_def machine_def quiet_proc_def)

theorem scheduler_serves_ready_witness: "\<exists>es w. pass 0 (scheduler_pass 0 one_ready) es w \<and> 0 \<in> fst ` set es \<and> cpu_proc (cpus w ! 0) = None"
proof -
  let ?v = "set_cpu_proc None 0 (switchkvm none_ready)"
  obtain t where t: "scheduler_pass 0 one_ready = scheduler_from 0 0 t" "scheduler_ready 0 t" "procs t = procs one_ready"
    using scheduler_start [OF one_ready_start(1)] by blast
  have "find (\<lambda>p. p_state (procs t ! p) = RUNNABLE) [0..<NPROC] = Some 0"
    using one_ready_start(2) t(3) by (simp add: upt_conv_Cons del: upt_Suc)
  then obtain u where u: "scheduler_pass 0 one_ready = Inr (Some 0, u)" using scheduler_switches [OF t(2)] t(1) by auto
  have "find (\<lambda>p. p_state (procs ?v ! p) = RUNNABLE) [0 + 1..<NPROC] = None" using none_ready_ok(2) by (auto simp: find_None_iff)
  then obtain w where "scheduler_back 0 0 none_ready = Inr (None, w)"
    using scheduler_ends [OF scheduler_back_ready [OF none_ready_ok(1)]] unfolding scheduler_back_def by blast
  then have p: "pass 0 (scheduler_pass 0 one_ready) [(0, u, none_ready)] w"
    unfolding u by (intro pass_run none_ready_ok(1)) (simp add: pass_end)
  then show ?thesis using scheduler_serves_ready [OF one_ready_start(1) p] by (intro exI [of _ "[(0, u, none_ready)]"] exI [of _ w]) simp
qed

end
