(* ===== verification/Umalloc.thy ===== *)
theory Umalloc
  imports Ucalls
begin

text \<open>
  The user memory allocator (umalloc.c) on byte memory: a circular list of free blocks in the order of their addresses, threaded
  through the blocks by headers of two words, with the static header \<open>base\<close> in it. A header unit is 8 bytes. The loops go
  round the list until they meet their condition, so they are partial functions: \<open>None\<close> is a loop that does not end.
\<close>

section \<open>Headers\<close>

definition hptr :: "mem \<Rightarrow> u32 \<Rightarrow> u32" where
  "hptr m p = rd32 m p"

definition hsize :: "mem \<Rightarrow> u32 \<Rightarrow> u32" where
  "hsize m p = rd32 m (p + 4)"

definition set_hptr :: "u32 \<Rightarrow> u32 \<Rightarrow> mem \<Rightarrow> mem" where
  "set_hptr p v m = wr32 m p v"

definition set_hsize :: "u32 \<Rightarrow> u32 \<Rightarrow> mem \<Rightarrow> mem" where
  "set_hsize p n m = wr32 m (p + 4) n"

record umem =
  u_mem :: mem
  freep :: u32

section \<open>free\<close>

partial_function (option) free_find :: "mem \<Rightarrow> u32 \<Rightarrow> u32 \<Rightarrow> u32 option" where
  "free_find m bp p =
     (if bp > p \<and> bp < hptr m p then Some p
      else if p \<ge> hptr m p \<and> (bp > p \<or> bp < hptr m p) then Some p
      else free_find m bp (hptr m p))"

definition free :: "u32 \<Rightarrow> umem \<Rightarrow> umem option" where
  "free ap s =
     (let bp = ap - 8; m = u_mem s
      in Option.bind (free_find m bp (freep s)) (\<lambda>p.
         let m = (if bp + 8 * hsize m bp = hptr m p
                  then let m = set_hsize bp (hsize m bp + hsize m (hptr m p)) m in set_hptr bp (hptr m (hptr m p)) m
                  else set_hptr bp (hptr m p) m);
             m = (if p + 8 * hsize m p = bp
                  then let m = set_hsize p (hsize m p + hsize m bp) m in set_hptr p (hptr m bp) m
                  else set_hptr p bp m)
         in Some (s\<lparr>u_mem := m, freep := p\<rparr>)))"

section \<open>malloc\<close>

text \<open>sbrk takes an int: the product wraps and is read as a signed number.\<close>

definition morecore :: "'w calls \<Rightarrow> u32 \<Rightarrow> umem \<Rightarrow> 'w \<Rightarrow> (u32 \<times> umem \<times> 'w) option" where
  "morecore os nu s w =
     (let nu = (if nu < 4096 then 4096 else nu);
          (r, w) = u_num os ''sbrk'' [sint (nu * 8)] w;
          p = of_int r :: u32
      in if p = -1 then Some (0, s, w)
         else Option.bind (free (p + 8) (s\<lparr>u_mem := set_hsize p nu (u_mem s)\<rparr>)) (\<lambda>s. Some (freep s, s, w)))"

partial_function (option) malloc_loop :: "'w calls \<Rightarrow> u32 \<Rightarrow> u32 \<Rightarrow> u32 \<Rightarrow> umem \<Rightarrow> 'w \<Rightarrow> (u32 \<times> umem \<times> 'w) option" where
  "malloc_loop os nunits prevp p s w =
     (if hsize (u_mem s) p \<ge> nunits then
        if hsize (u_mem s) p = nunits
        then Some (p + 8, s\<lparr>u_mem := set_hptr prevp (hptr (u_mem s) p) (u_mem s), freep := prevp\<rparr>, w)
        else let n = hsize (u_mem s) p - nunits; q = p + 8 * n
             in Some (q + 8, s\<lparr>u_mem := set_hsize q nunits (set_hsize p n (u_mem s)), freep := prevp\<rparr>, w)
      else if p = freep s then
        Option.bind (morecore os nunits s w) (\<lambda>(p, s, w).
          if p = 0 then Some (0, s, w) else malloc_loop os nunits p (hptr (u_mem s) p) s w)
      else malloc_loop os nunits p (hptr (u_mem s) p) s w)"

definition malloc :: "'w calls \<Rightarrow> u32 \<Rightarrow> u32 \<Rightarrow> umem \<Rightarrow> 'w \<Rightarrow> (u32 \<times> umem \<times> 'w) option" where
  "malloc os base nbytes s w =
     (let nunits = (nbytes + 8 - 1) div 8 + 1;
          s = (if freep s = 0 then s\<lparr>u_mem := set_hsize base 0 (set_hptr base base (u_mem s)), freep := base\<rparr> else s)
      in malloc_loop os nunits (freep s) (hptr (u_mem s) (freep s)) s w)"

section \<open>Headers at addresses without wrap-around\<close>

text \<open>The proofs are on natural addresses; \<open>hdr_only A m m'\<close> says that only headers at the addresses \<open>A\<close> were written.\<close>

definition hdr_only :: "nat set \<Rightarrow> mem \<Rightarrow> mem \<Rightarrow> bool" where
  "hdr_only A m m' \<longleftrightarrow> (\<forall>x. (\<forall>a \<in> A. unat x < a \<or> a + 8 \<le> unat x) \<longrightarrow> m' x = m x)"

lemma of_nat_offset:
  assumes "a + k < 2 ^ 32"
  shows "unat (of_nat a + of_nat k :: u32) = a + k"
  unfolding of_nat_add [symmetric] using assms by (rule unat_of_nat32)

lemma wr32_nat_other:
  assumes "a + 4 \<le> 2 ^ 32" "unat x < a \<or> a + 4 \<le> unat x"
  shows "wr32 m (of_nat a) v x = m x"
proof (rule wr32_other)
  have "unat (of_nat a + of_nat k :: u32) = a + k" if "k < 4" for k
    using that assms(1) by (intro of_nat_offset) simp
  from this [of 0] this [of 1] this [of 2] this [of 3]
  show "x \<notin> {of_nat a, of_nat a + 1, of_nat a + 2, of_nat a + 3}"
    using assms(2) by auto
qed

lemma hdr_only_refl [simp, intro]: "hdr_only A m m"
  by (simp add: hdr_only_def)

lemma hdr_only_trans: "hdr_only A m m' \<Longrightarrow> hdr_only A m' m'' \<Longrightarrow> hdr_only A m m''"
  by (simp add: hdr_only_def)

lemma hdr_only_mono: "hdr_only A m m' \<Longrightarrow> A \<subseteq> B \<Longrightarrow> hdr_only B m m'"
  unfolding hdr_only_def by blast

lemma hdr_only_write:
  assumes "a + 8 \<le> 2 ^ 32" "a \<in> A"
  shows "hdr_only A m (set_hptr (of_nat a) v m)" "hdr_only A m (set_hsize (of_nat a) v m)"
proof -
  show "hdr_only A m (set_hptr (of_nat a) v m)"
    using assms by (auto simp: hdr_only_def set_hptr_def intro!: wr32_nat_other)
  have "wr32 m (of_nat (a + 4)) v x = m x" if "unat x < a \<or> a + 8 \<le> unat x" for x
    using that assms(1) by (intro wr32_nat_other) auto
  then show "hdr_only A m (set_hsize (of_nat a) v m)"
    using assms(2) by (auto simp: hdr_only_def set_hsize_def)
qed

lemma rd32_nat_cong:
  assumes "\<And>k. k < 4 \<Longrightarrow> m' (of_nat (b + k)) = m (of_nat (b + k))"
  shows "rd32 m' (of_nat b) = rd32 m (of_nat b)"
  using assms [of 0] assms [of 1] assms [of 2] assms [of 3] by (intro rd32_cong) (simp_all add: add.commute)

lemma header_cong:
  assumes byte: "\<And>k. k < 8 \<Longrightarrow> m' (of_nat (b + k)) = m (of_nat (b + k))"
  shows "hptr m' (of_nat b) = hptr m (of_nat b)" "hsize m' (of_nat b) = hsize m (of_nat b)"
proof -
  show "hptr m' (of_nat b) = hptr m (of_nat b)"
    unfolding hptr_def by (intro rd32_nat_cong byte) simp
  have "m' (of_nat (b + 4 + k)) = m (of_nat (b + 4 + k))" if "k < 4" for k
    using byte [of "4 + k"] that by (simp add: add.assoc)
  then have "rd32 m' (of_nat (b + 4)) = rd32 m (of_nat (b + 4))"
    by (rule rd32_nat_cong)
  then show "hsize m' (of_nat b) = hsize m (of_nat b)" by (simp add: hsize_def)
qed

lemma hdr_keep:
  assumes "hdr_only A m m'" "b + 8 \<le> 2 ^ 32" "\<And>a. a \<in> A \<Longrightarrow> a + 8 \<le> b \<or> b + 8 \<le> a"
  shows "hptr m' (of_nat b) = hptr m (of_nat b)" "hsize m' (of_nat b) = hsize m (of_nat b)"
proof -
  have byte: "m' (of_nat (b + k)) = m (of_nat (b + k))" if "k < 8" for k
  proof -
    have "unat (of_nat (b + k) :: u32) = b + k" using that assms(2) by (intro unat_of_nat32) simp
    moreover have "b + k < a \<or> a + 8 \<le> b + k" if "a \<in> A" for a using assms(3) [OF that] \<open>k < 8\<close> by auto
    ultimately show ?thesis using assms(1) by (simp add: hdr_only_def)
  qed
  show "hptr m' (of_nat b) = hptr m (of_nat b)" "hsize m' (of_nat b) = hsize m (of_nat b)"
    by (rule header_cong, rule byte, assumption)+
qed

lemma hdr_same [simp]:
  "hptr (set_hptr p v m) p = v" "hsize (set_hsize p v m) p = v"
  by (simp_all add: hptr_def hsize_def set_hptr_def set_hsize_def)

lemma hdr_fields [simp]: "hsize (set_hptr p v m) p = hsize m p" "hptr (set_hsize p v m) p = hptr m p"
proof -
  show "hsize (set_hptr p v m) p = hsize m p"
    unfolding hsize_def set_hptr_def by (rule rd32_cong) (simp_all add: wr32_other add.assoc)
  show "hptr (set_hsize p v m) p = hptr m p"
    unfolding hptr_def set_hsize_def by (rule rd32_cong) (simp_all add: wr32_other add.assoc)
qed

end
