(* ===== verification/Umalloc_List.thy ===== *)
theory Umalloc_List
  imports Umalloc
begin

text \<open>
  The circular free list of umalloc.c seen as the list of its blocks from \<open>base\<close> on, each with its address and its size in units:
  where the loop of free stops, and what free does to the list.
\<close>

section \<open>The free list\<close>

definition nxt :: "nat \<Rightarrow> (nat \<times> nat) list \<Rightarrow> nat" where
  "nxt e xs = (case xs of [] \<Rightarrow> e | y # _ \<Rightarrow> fst y)"

fun chain :: "mem \<Rightarrow> nat \<Rightarrow> (nat \<times> nat) list \<Rightarrow> bool" where
  "chain m e [] = True"
| "chain m e (x # xs) = (hptr m (of_nat (fst x)) = of_nat (nxt e xs) \<and> hsize m (of_nat (fst x)) = of_nat (snd x) \<and> chain m e xs)"

definition before :: "nat \<times> nat \<Rightarrow> nat \<times> nat \<Rightarrow> bool" where
  "before x y \<longleftrightarrow> fst x + 8 * max 1 (snd x) \<le> fst y"

text \<open>Blocks in the order of their addresses, none overlapping, all in the lower half of the address space.\<close>

definition blocks_ok :: "(nat \<times> nat) list \<Rightarrow> bool" where
  "blocks_ok cs \<longleftrightarrow> sorted_wrt before cs \<and> (\<forall>x \<in> set cs. 0 < fst x \<and> fst x + 8 * max 1 (snd x) \<le> 2 ^ 31)"

definition free_list :: "nat \<Rightarrow> mem \<Rightarrow> (nat \<times> nat) list \<Rightarrow> bool" where
  "free_list base m cs \<longleftrightarrow> chain m base cs \<and> blocks_ok cs \<and> (\<exists>fs. cs = (base, 0) # fs \<and> (\<forall>x \<in> set fs. 1 \<le> snd x))"

lemma nxt_simps [simp]: "nxt e [] = e" "nxt e (y # ys) = fst y" "nxt e (xs @ y # ys) = nxt (fst y) xs"
  by (auto simp: nxt_def split: list.splits)

lemma chain_append: "chain m e (xs @ ys) \<longleftrightarrow> chain m (nxt e ys) xs \<and> chain m e ys"
proof (induction xs)
  case (Cons x xs)
  then show ?case by (cases ys; cases xs) auto
qed simp

lemma chain_cong:
  assumes "\<And>x. x \<in> set xs \<Longrightarrow> hptr m' (of_nat (fst x)) = hptr m (of_nat (fst x)) \<and> hsize m' (of_nat (fst x)) = hsize m (of_nat (fst x))"
  shows "chain m' e xs = chain m e xs"
  using assms by (induction xs) auto

lemma beforeD: "before x y \<Longrightarrow> fst x + 8 \<le> fst y \<and> fst x < fst y \<and> fst x + 8 * snd x \<le> fst y"
  unfolding before_def using max.cobounded1 [of 1 "snd x"] max.cobounded2 [of "snd x" 1] by linarith

lemma blocks_ok_simps:
  "blocks_ok (x # xs) \<longleftrightarrow> blocks_ok xs \<and> (\<forall>y \<in> set xs. before x y) \<and> 0 < fst x \<and> fst x + 8 * max 1 (snd x) \<le> 2 ^ 31"
  "blocks_ok (xs @ ys) \<longleftrightarrow> blocks_ok xs \<and> blocks_ok ys \<and> (\<forall>x \<in> set xs. \<forall>y \<in> set ys. before x y)"
  by (auto simp: blocks_ok_def sorted_wrt_append)

lemma nat_words:
  assumes "a < 2 ^ 32" "b < 2 ^ 32"
  shows "(of_nat a :: u32) < of_nat b \<longleftrightarrow> a < b" "(of_nat a :: u32) \<le> of_nat b \<longleftrightarrow> a \<le> b" "(of_nat a :: u32) = of_nat b \<longleftrightarrow> a = b"
proof -
  show "(of_nat a :: u32) < of_nat b \<longleftrightarrow> a < b" "(of_nat a :: u32) \<le> of_nat b \<longleftrightarrow> a \<le> b"
    using assms by (simp_all add: word_less_nat_alt word_le_nat_alt unat_of_nat32)
  show "(of_nat a :: u32) = of_nat b \<longleftrightarrow> a = b"
    using assms by (metis unat_of_nat32)
qed

lemma block_low: "blocks_ok cs \<Longrightarrow> x \<in> set cs \<Longrightarrow> fst x + 8 \<le> 2 ^ 31 \<and> fst x < 2 ^ 32 \<and> fst x + 8 * snd x \<le> 2 ^ 31 \<and> snd x < 2 ^ 32"
  by (auto simp: blocks_ok_def)

lemma unique_block: "blocks_ok cs \<Longrightarrow> x \<in> set cs \<Longrightarrow> y \<in> set cs \<Longrightarrow> x \<noteq> y \<Longrightarrow> fst x + 8 \<le> fst y \<or> fst y + 8 \<le> fst x"
proof (induction cs)
  case (Cons c cs)
  then show ?case
    by (auto simp: blocks_ok_simps dest: beforeD)
qed simp

section \<open>Where the loop of free stops\<close>

lemma split_at:
  assumes "blocks_ok (c # cs)" "fst c < b" "\<forall>x \<in> set cs. fst x \<noteq> b"
  shows "\<exists>xs y ys. c # cs = xs @ y # ys \<and> fst y < b \<and> (\<forall>z \<in> set ys. b < fst z)"
  using assms
proof (induction cs arbitrary: c)
  case Nil
  then have "[c] = [] @ c # [] \<and> fst c < b \<and> (\<forall>z \<in> set []. b < fst z)" by simp
  then show ?case by blast
next
  case (Cons d cs)
  show ?case
  proof (cases "fst d < b")
    case True
    with Cons.prems have "\<exists>xs y ys. d # cs = xs @ y # ys \<and> fst y < b \<and> (\<forall>z \<in> set ys. b < fst z)"
      by (intro Cons.IH) (auto simp: blocks_ok_simps)
    then obtain xs y ys where "d # cs = xs @ y # ys" "fst y < b" "\<forall>z \<in> set ys. b < fst z" by blast
    then have "c # d # cs = (c # xs) @ y # ys \<and> fst y < b \<and> (\<forall>z \<in> set ys. b < fst z)" by simp
    then show ?thesis by blast
  next
    case False
    with Cons.prems have "b < fst d" by simp
    moreover have "fst d < fst z" if "z \<in> set cs" for z
      using Cons.prems(1) that beforeD [of d z] by (auto simp: blocks_ok_simps)
    ultimately have "c # d # cs = [] @ c # d # cs \<and> fst c < b \<and> (\<forall>z \<in> set (d # cs). b < fst z)"
      using Cons.prems(2) by fastforce
    then show ?thesis by blast
  qed
qed

lemma free_find_up:
  assumes "chain m base (us @ ws @ y # ys)" "blocks_ok (us @ ws @ y # ys)" "fst y < b" "\<forall>z \<in> set ys. b < fst z" "b < 2 ^ 32"
    "base \<le> fst y"
  shows "free_find m (of_nat b) (of_nat (nxt (fst y) ws)) = Some (of_nat (fst y))"
  using assms
proof (induction ws arbitrary: us)
  case Nil
  have y: "fst y < 2 ^ 32" "base < 2 ^ 32" using Nil.prems(2,6) by (auto simp: blocks_ok_simps)
  show ?case
  proof (cases ys)
    case Nil
    with Nil.prems y show ?thesis by (simp add: free_find.simps [of m] chain_append nat_words)
  next
    case (Cons z zs)
    with Nil.prems have "fst z < 2 ^ 32" "b < fst z" by (auto simp: blocks_ok_simps)
    with Cons Nil.prems y show ?thesis by (simp add: free_find.simps [of m] chain_append nat_words)
  qed
next
  case (Cons z ws)
  define q where "q = nxt (fst y) ws"
  have q: "\<exists>x \<in> set (ws @ [y]). q = fst x" by (cases ws) (auto simp: q_def)
  then obtain x where x: "x \<in> set (ws @ [y])" "q = fst x" by blast
  have "before z x" "x = y \<or> before x y" "fst y < 2 ^ 32"
    using Cons.prems(2) x by (auto simp: blocks_ok_simps)
  then have "fst z + 8 \<le> q" "q \<le> fst y" "q < 2 ^ 32" "fst z < 2 ^ 32"
    using beforeD [of z x] beforeD [of x y] x(2) by auto
  moreover have "hptr m (of_nat (fst z)) = of_nat q"
    using Cons.prems(1) by (cases ws) (auto simp: chain_append q_def)
  moreover have "free_find m (of_nat b) (of_nat q) = Some (of_nat (fst y))"
    using Cons.IH [of "us @ [z]"] Cons.prems by (simp add: q_def)
  ultimately show ?case
    using Cons.prems(3,5) by (simp add: free_find.simps [of m _ "of_nat (fst z)"] nat_words)
qed

lemma free_find_wrap:
  assumes "chain m base (us @ z # vs)" "blocks_ok (us @ z # vs)" "b < fst z" "base < b"
  shows "free_find m (of_nat b) (of_nat (fst z)) = free_find m (of_nat b) (of_nat base)"
  using assms
proof (induction vs arbitrary: us z)
  case Nil
  then have "fst z < 2 ^ 32" "b < 2 ^ 32" "base < 2 ^ 32" by (auto simp: blocks_ok_simps)
  with Nil show ?case
    by (simp add: free_find.simps [of m _ "of_nat (fst z)"] chain_append nat_words)
next
  case (Cons v vs)
  then have w: "fst z < 2 ^ 32" "b < 2 ^ 32" "base < 2 ^ 32" "fst v < 2 ^ 32" "fst z < fst v"
    by (auto simp: blocks_ok_simps dest: beforeD)
  then have "free_find m (of_nat b) (of_nat (fst v)) = free_find m (of_nat b) (of_nat base)"
    using Cons.IH [of "us @ [z]" v] Cons.prems by simp
  with w Cons.prems show ?case
    by (simp add: free_find.simps [of m _ "of_nat (fst z)"] chain_append nat_words)
qed

lemma free_find_ok:
  assumes l: "free_list base m cs" and f: "f \<in> fst ` set cs" and b: "base < b" "b < 2 ^ 32" "b \<notin> fst ` set cs"
  shows "\<exists>xs y ys. cs = xs @ y # ys \<and> fst y < b \<and> (\<forall>z \<in> set ys. b < fst z) \<and>
    free_find m (of_nat b) (of_nat f) = Some (of_nat (fst y))"
proof -
  obtain fs where cs: "cs = (base, 0) # fs" and ch: "chain m base cs" and ok: "blocks_ok cs"
    using l by (auto simp: free_list_def)
  have "\<forall>x \<in> set fs. fst x \<noteq> b" using b(3) cs by force
  then have "\<exists>xs y ys. cs = xs @ y # ys \<and> fst y < b \<and> (\<forall>z \<in> set ys. b < fst z)"
    unfolding cs using ok b(1) cs by (intro split_at) simp_all
  then obtain xs y ys where s: "cs = xs @ y # ys" "fst y < b" "\<forall>z \<in> set ys. b < fst z"
    by blast
  have least: "base \<le> fst x" if "x \<in> set cs" for x
    using ok that cs beforeD [of "(base, 0)" x] by (auto simp: blocks_ok_simps)
  have up: "free_find m (of_nat b) (of_nat (nxt (fst y) ws)) = Some (of_nat (fst y))" if "xs = us @ ws" for us ws
    using free_find_up [of m base us ws y ys b] ch ok s b least [of y] that by simp
  have "nxt (fst y) xs = base" using s(1) cs by (cases xs) auto
  with up [of "[]" xs] have start: "free_find m (of_nat b) (of_nat base) = Some (of_nat (fst y))" by simp
  obtain x where x: "x \<in> set cs" "f = fst x" using f by blast
  then consider us ws where "xs = us @ x # ws" | "x = y" | us ws where "ys = us @ x # ws"
    using s(1) by (auto simp: in_set_conv_decomp)
  then have "free_find m (of_nat b) (of_nat f) = Some (of_nat (fst y))"
  proof cases
    case 1
    then show ?thesis using up [of us "x # ws"] x(2) by simp
  next
    case 2
    then show ?thesis using up [of xs "[]"] x(2) by simp
  next
    case 3
    then show ?thesis
      using free_find_wrap [of m base "xs @ y # us" x ws b] ch ok s b x(2) start by simp
  qed
  then show ?thesis using s by blast
qed

section \<open>What free does to the list\<close>

text \<open>A block in front of a list, joined with the first block when they touch.\<close>

definition join :: "nat \<times> nat \<Rightarrow> (nat \<times> nat) list \<Rightarrow> (nat \<times> nat) list" where
  "join x ys = (case ys of [] \<Rightarrow> [x]
     | q # zs \<Rightarrow> if fst x + 8 * snd x = fst q then (fst x, snd x + snd q) # zs else x # ys)"

definition bytes_of :: "nat \<times> nat \<Rightarrow> nat set" where
  "bytes_of x = {fst x ..< fst x + 8 * snd x}"

definition cov :: "(nat \<times> nat) list \<Rightarrow> nat set" where
  "cov cs = (\<Union>x \<in> set cs. bytes_of x)"

lemma cov_simps [simp]: "cov [] = {}" "cov (x # xs) = bytes_of x \<union> cov xs" "cov (xs @ ys) = cov xs \<union> cov ys"
  by (auto simp: cov_def)

lemma join_cases:
  assumes "blocks_ok (x # ys)"
  obtains "join x ys = x # ys" | q zs where "ys = q # zs" "fst x + 8 * snd x = fst q" "1 \<le> snd x" "join x ys = (fst x, snd x + snd q) # zs"
proof (cases ys)
  case Nil
  then show ?thesis using that(1) by (simp add: join_def)
next
  case (Cons q zs)
  show ?thesis
  proof (cases "fst x + 8 * snd x = fst q")
    case True
    then have "1 \<le> snd x" using assms Cons beforeD [of x q] by (auto simp: blocks_ok_simps)
    with True Cons that(2) show ?thesis by (simp add: join_def)
  next
    case False
    with Cons that(1) show ?thesis by (simp add: join_def)
  qed
qed

lemma join_blocks:
  assumes ok: "blocks_ok (x # ys)"
  shows "blocks_ok (join x ys)" "\<forall>z \<in> set (x # ys). before w z \<Longrightarrow> \<forall>z \<in> set (join x ys). before w z"
proof -
  have "blocks_ok (join x ys) \<and> ((\<forall>z \<in> set (x # ys). before w z) \<longrightarrow> (\<forall>z \<in> set (join x ys). before w z))"
    using ok
  proof (cases rule: join_cases)
    case 1
    with ok show ?thesis by simp
  next
    case (2 q zs)
    have q: "blocks_ok zs" "\<forall>z \<in> set zs. before q z" "0 < fst x" "fst q + 8 * max 1 (snd q) \<le> 2 ^ 31"
      using ok 2(1) by (auto simp: blocks_ok_simps)
    have "fst x + 8 * max 1 (snd x + snd q) \<le> fst q + 8 * max 1 (snd q)" using 2(2,3) by simp
    moreover from this have "before (fst x, snd x + snd q) z" if "z \<in> set zs" for z
      using q(2) that by (fastforce simp: before_def)
    ultimately show ?thesis
      unfolding 2(4) using q 2(1) by (auto simp: blocks_ok_simps before_def)
  qed
  then show "blocks_ok (join x ys)" "\<forall>z \<in> set (x # ys). before w z \<Longrightarrow> \<forall>z \<in> set (join x ys). before w z" by blast+
qed

lemma join_parts:
  assumes ok: "blocks_ok (x # ys)"
  shows "cov (join x ys) = bytes_of x \<union> cov ys" "\<exists>n zs. join x ys = (fst x, n) # zs \<and> snd x \<le> n \<and> set zs \<subseteq> set ys"
    "v \<in> set ys \<Longrightarrow> \<exists>z \<in> set (join x ys). snd v \<le> snd z" "snd x = 0 \<Longrightarrow> join x ys = x # ys"
proof -
  have "cov (join x ys) = bytes_of x \<union> cov ys \<and> (\<exists>n zs. join x ys = (fst x, n) # zs \<and> snd x \<le> n \<and> set zs \<subseteq> set ys) \<and>
    (v \<in> set ys \<longrightarrow> (\<exists>z \<in> set (join x ys). snd v \<le> snd z)) \<and> (snd x = 0 \<longrightarrow> join x ys = x # ys)"
    using ok
  proof (cases rule: join_cases)
    case 1
    then show ?thesis by (cases x) auto
  next
    case (2 q zs)
    then show ?thesis unfolding 2(4) by (auto simp: bytes_of_def)
  qed
  then show "cov (join x ys) = bytes_of x \<union> cov ys" "\<exists>n zs. join x ys = (fst x, n) # zs \<and> snd x \<le> n \<and> set zs \<subseteq> set ys"
    "v \<in> set ys \<Longrightarrow> \<exists>z \<in> set (join x ys). snd v \<le> snd z" "snd x = 0 \<Longrightarrow> join x ys = x # ys"
    by blast+
qed

lemma adjacent_iff:
  assumes "a + 8 * n \<le> 2 ^ 31" "q < 2 ^ 32"
  shows "of_nat a + 8 * of_nat n = (of_nat q :: u32) \<longleftrightarrow> a + 8 * n = q"
proof -
  have "of_nat a + 8 * of_nat n = (of_nat (a + 8 * n) :: u32)" by simp
  then show ?thesis using nat_words(3) [of "a + 8 * n" q] assms by simp
qed

text \<open>The first half of free: the block gets its successor.\<close>

lemma chain_above:
  assumes "hdr_only A m m'" "blocks_ok ys" "\<And>a z. a \<in> A \<Longrightarrow> z \<in> set ys \<Longrightarrow> a + 8 \<le> fst z \<or> fst z + 8 \<le> a"
  shows "chain m' e ys = chain m e ys"
proof (rule chain_cong)
  fix z assume z: "z \<in> set ys"
  then show "hptr m' (of_nat (fst z)) = hptr m (of_nat (fst z)) \<and> hsize m' (of_nat (fst z)) = hsize m (of_nat (fst z))"
    using hdr_keep [OF assms(1), of "fst z"] assms(3) block_low [OF assms(2) z] by simp
qed

lemma link_up:
  assumes ch: "chain m base ys" and b: "hsize m (of_nat (fst x)) = of_nat (snd x)"
    and low: "fst x + 8 * snd x \<le> 2 ^ 31" "1 \<le> snd x" "base < fst x" and ok: "blocks_ok ys" and above: "\<forall>z \<in> set ys. before x z"
    and p: "hptr m (of_nat (fst y)) = of_nat (nxt base ys)" "before y x"
  defines "p \<equiv> of_nat (fst y) :: u32" and "bp \<equiv> of_nat (fst x) :: u32"
  defines "m' \<equiv> (if bp + 8 * hsize m bp = hptr m p
      then let m = set_hsize bp (hsize m bp + hsize m (hptr m p)) m in set_hptr bp (hptr m (hptr m p)) m
      else set_hptr bp (hptr m p) m)"
  shows "chain m' base (join x ys) \<and> hdr_only {fst x} m m'"
proof -
  have bx: "fst x + 8 \<le> 2 ^ 32" "base < 2 ^ 32" using low by auto
  have only: "hdr_only {fst x} m1 (set_hptr bp v m1)" "hdr_only {fst x} m1 (set_hsize bp v m1)" for v m1
    unfolding bp_def using bx(1) by (auto intro: hdr_only_write)
  have keep: "chain m1 base zs = chain m base zs" if "hdr_only {fst x} m m1" "set zs \<subseteq> set ys" "blocks_ok zs" for m1 zs
    using that above by (intro chain_above [OF that(1,3)]) (auto dest: beforeD)
  show ?thesis
  proof (cases ys)
    case Nil
    then have "m' = set_hptr bp (of_nat base) m"
      using p(1) b low bx by (simp add: m'_def p_def bp_def adjacent_iff)
    with Nil only(1) b show ?thesis by (simp add: join_def bp_def)
  next
    case (Cons q zs)
    have q: "before x q" "fst q < 2 ^ 32" "fst q + 8 \<le> 2 ^ 32" "blocks_ok zs"
      using ok above Cons block_low [OF ok, of q] by (auto simp: blocks_ok_simps)
    have sub: "set zs \<subseteq> set ys" using Cons by auto
    show ?thesis
    proof (cases "fst x + 8 * snd x = fst q")
      case False
      then have "m' = set_hptr bp (of_nat (fst q)) m"
        using p(1) b low q Cons by (simp add: m'_def p_def bp_def adjacent_iff)
      with Cons False only(1) b keep [of m' ys] ch ok show ?thesis by (simp add: join_def bp_def)
    next
      case True
      define m1 where "m1 = set_hsize bp (of_nat (snd x + snd q)) m"
      have py: "fst y + 8 \<le> fst x" using beforeD [OF p(2)] by simp
      have "hptr m1 p = hptr m p"
        unfolding p_def m1_def using py bx by (intro hdr_keep [OF only(2)]) auto
      moreover have "hptr m1 (of_nat (fst q)) = hptr m (of_nat (fst q))"
        unfolding m1_def using beforeD [OF q(1)] q by (intro hdr_keep [OF only(2)]) auto
      ultimately have m': "m' = set_hptr bp (of_nat (nxt base zs)) m1"
        using p(1) b low q Cons True ch by (simp add: m'_def m1_def p_def bp_def adjacent_iff)
      then have "hdr_only {fst x} m m'"
        using hdr_only_trans [OF only(2) only(1)] by (simp add: m1_def)
      with True Cons ch q keep [of m' zs] sub show ?thesis
        by (simp add: join_def m' m1_def bp_def [symmetric])
    qed
  qed
qed

lemma link_down:
  assumes ch: "chain m base zs" and zs: "zs = (fst x, n) # us" and y: "hsize m (of_nat (fst y)) = of_nat (snd y)" "before y x"
    and low: "fst x + 8 * n \<le> 2 ^ 31" "fst x + 8 \<le> 2 ^ 31" and us: "blocks_ok zs"
  defines "p \<equiv> of_nat (fst y) :: u32" and "bp \<equiv> of_nat (fst x) :: u32"
  defines "m' \<equiv> (if p + 8 * hsize m p = bp
      then let m = set_hsize p (hsize m p + hsize m bp) m in set_hptr p (hptr m bp) m
      else set_hptr p bp m)"
  shows "chain m' base (join y zs) \<and> hdr_only {fst y} m m'"
proof -
  have py: "fst y + 8 \<le> fst x" "fst y + 8 * snd y \<le> fst x" using beforeD [OF y(2)] by simp_all
  have only: "hdr_only {fst y} m1 (set_hptr p v m1)" "hdr_only {fst y} m1 (set_hsize p v m1)" for v m1
    unfolding p_def using py low by (auto intro!: hdr_only_write)
  have above: "fst y + 8 \<le> fst z" if "z \<in> set zs" for z
    using that us py beforeD [of "(fst x, n)" z] by (auto simp: zs blocks_ok_simps)
  have keep: "chain m1 base vs = chain m base vs" if "hdr_only {fst y} m m1" "set vs \<subseteq> set zs" "blocks_ok vs" for m1 vs
    using that above by (intro chain_above [OF that(1,3)]) auto
  have adj: "p + 8 * hsize m p = bp \<longleftrightarrow> fst y + 8 * snd y = fst x"
    using py low y(1) by (simp add: p_def bp_def adjacent_iff)
  show ?thesis
  proof (cases "fst y + 8 * snd y = fst x")
    case False
    then have m': "m' = set_hptr p bp m" using adj by (simp add: m'_def)
    with False zs only(1) keep [of m' zs] ch us y(1) show ?thesis
      by (simp add: join_def bp_def p_def)
  next
    case True
    define m1 where "m1 = set_hsize p (of_nat (snd y + n)) m"
    have "hptr m1 bp = hptr m bp"
      unfolding bp_def m1_def using py low by (intro hdr_keep [OF only(2)]) auto
    then have m': "m' = set_hptr p (of_nat (nxt base us)) m1"
      using True adj ch zs y(1) by (simp add: m'_def m1_def p_def bp_def)
    then have h: "hdr_only {fst y} m m'"
      using hdr_only_trans [OF only(2) only(1)] by (simp add: m1_def)
    have "chain m' base us = chain m base us"
      using us zs by (intro keep [OF h]) (auto simp: blocks_ok_simps)
    with True zs ch h show ?thesis
      by (simp add: join_def m' m1_def p_def)
  qed
qed

end
