(* ===== verification/Umalloc_Props.thy ===== *)
theory Umalloc_Props
  imports Umalloc_List
begin

text \<open>
  What a program may rely on of malloc and free (umalloc.c): blocks that do not overlap, keep what is stored in them, and are at
  least as long as was asked for, through any sequence of calls.
\<close>

section \<open>The heap\<close>

definition live_ok :: "nat \<Rightarrow> nat \<Rightarrow> mem \<Rightarrow> nat set \<Rightarrow> (nat \<times> nat) set \<Rightarrow> bool" where
  "live_ok base hi m free_bytes L \<longleftrightarrow>
     (\<forall>x \<in> L. base + 8 \<le> fst x \<and> 1 \<le> snd x \<and> fst x + 8 * snd x \<le> hi \<and> hsize m (of_nat (fst x)) = of_nat (snd x) \<and>
        bytes_of x \<inter> free_bytes = {}) \<and> (\<forall>x \<in> L. \<forall>y \<in> L. x \<noteq> y \<longrightarrow> bytes_of x \<inter> bytes_of y = {})"

text \<open>Up to the address \<open>hi\<close> the memory from \<open>base\<close> on holds the free list \<open>cs\<close> and the blocks \<open>L\<close> of the program, all disjoint.\<close>

definition heap_ok :: "nat \<Rightarrow> nat \<Rightarrow> umem \<Rightarrow> (nat \<times> nat) list \<Rightarrow> (nat \<times> nat) set \<Rightarrow> bool" where
  "heap_ok base hi s cs L \<longleftrightarrow> free_list base (u_mem s) cs \<and> (\<exists>z \<in> set cs. freep s = of_nat (fst z)) \<and> base + 8 \<le> hi \<and> hi \<le> 2 ^ 31 \<and>
     cov cs \<subseteq> {..<hi} \<and> live_ok base hi (u_mem s) (cov cs) L"

text \<open>The bytes of the blocks \<open>L\<close> are the same in both memories.\<close>

definition keeps :: "(nat \<times> nat) set \<Rightarrow> mem \<Rightarrow> mem \<Rightarrow> bool" where
  "keeps L m m' \<longleftrightarrow> (\<forall>x \<in> L. \<forall>a \<in> bytes_of x. m' (of_nat a) = m (of_nat a))"

lemma keeps_refl [simp]: "keeps L m m"
  by (simp add: keeps_def)

lemma keeps_trans: "keeps L m m' \<Longrightarrow> keeps L m' m'' \<Longrightarrow> keeps L m m''"
  by (simp add: keeps_def)

lemma hdr_only_keeps:
  assumes "hdr_only A m m'" "\<And>x. x \<in> L \<Longrightarrow> fst x + 8 * snd x \<le> 2 ^ 31"
    and "\<And>x a. x \<in> L \<Longrightarrow> a \<in> A \<Longrightarrow> bytes_of x \<inter> {a ..< a + 8} = {}"
  shows "keeps L m m'"
  unfolding keeps_def
proof (intro ballI)
  fix x b assume x: "x \<in> L" and b: "b \<in> bytes_of x"
  have "unat (of_nat b :: u32) = b"
    using b assms(2) [OF x] by (intro unat_of_nat32) (simp add: bytes_of_def)
  moreover have "b < a \<or> a + 8 \<le> b" if "a \<in> A" for a
    using assms(3) [OF x that] b by auto
  ultimately show "m' (of_nat b) = m (of_nat b)"
    using assms(1) by (simp add: hdr_only_def)
qed

lemma keeps_hsize:
  assumes "keeps L m m'" "x \<in> L" "1 \<le> snd x"
  shows "hsize m' (of_nat (fst x)) = hsize m (of_nat (fst x))"
proof -
  have "fst x + 4 + k \<in> bytes_of x" if "k < 4" for k
    using that assms(3) by (simp add: bytes_of_def)
  then have "m' (of_nat (fst x + 4 + k)) = m (of_nat (fst x + 4 + k))" if "k < 4" for k
    using assms(1,2) that unfolding keeps_def by blast
  then have "rd32 m' (of_nat (fst x + 4)) = rd32 m (of_nat (fst x + 4))"
    by (rule rd32_nat_cong)
  then show ?thesis by (simp add: hsize_def)
qed

text \<open>The blocks of the program stay as they are when their bytes do.\<close>

lemma live_ok_keeps:
  assumes "live_ok base hi m F L" "keeps L' m m'" "L' \<subseteq> L" "\<And>x. x \<in> L' \<Longrightarrow> bytes_of x \<inter> F' = {}" "hi \<le> hi'"
  shows "live_ok base hi' m' F' L'"
proof -
  have "base + 8 \<le> fst x \<and> 1 \<le> snd x \<and> fst x + 8 * snd x \<le> hi' \<and> hsize m' (of_nat (fst x)) = of_nat (snd x) \<and>
      bytes_of x \<inter> F' = {}" if "x \<in> L'" for x
  proof -
    have "base + 8 \<le> fst x \<and> 1 \<le> snd x \<and> fst x + 8 * snd x \<le> hi \<and> hsize m (of_nat (fst x)) = of_nat (snd x)"
      using assms(1,3) that unfolding live_ok_def by blast
    then show ?thesis
      using keeps_hsize [OF assms(2) that] assms(4) [OF that] assms(5) by auto
  qed
  moreover have "\<forall>x \<in> L'. \<forall>y \<in> L'. x \<noteq> y \<longrightarrow> bytes_of x \<inter> bytes_of y = {}"
    using assms(1,3) unfolding live_ok_def by blast
  ultimately show ?thesis
    unfolding live_ok_def by blast
qed

section \<open>free\<close>

lemma free_position:
  assumes h: "heap_ok base hi s cs L" and x: "x \<in> L"
  shows "fst x \<notin> fst ` set cs" "y \<in> set cs \<Longrightarrow> fst y < fst x \<Longrightarrow> before y x" "z \<in> set cs \<Longrightarrow> fst x < fst z \<Longrightarrow> before x z"
proof -
  obtain fs where cs: "cs = (base, 0) # fs" "\<And>y. y \<in> set fs \<Longrightarrow> 1 \<le> snd y"
    using h by (auto simp: heap_ok_def free_list_def)
  have lx: "base + 8 \<le> fst x" "1 \<le> snd x" "\<And>y. y \<in> set cs \<Longrightarrow> bytes_of x \<inter> bytes_of y = {}"
    using h x by (auto simp: heap_ok_def live_ok_def cov_def)
  have no: "\<not> (fst y \<le> a \<and> a < fst y + 8 * snd y \<and> fst x \<le> a \<and> a < fst x + 8 * snd x)" if "y \<in> set cs" for y a
    using lx(3) [OF that] by (auto simp: bytes_of_def disjoint_iff)
  have one: "1 \<le> snd y \<or> y = (base, 0)" if "y \<in> set cs" for y
    using that cs(2) [of y] unfolding cs(1) by (simp only: list.set insert_iff) blast
  show "fst x \<notin> fst ` set cs"
  proof
    assume "fst x \<in> fst ` set cs"
    then obtain y where y: "y \<in> set cs" "fst x = fst y" by blast
    with one [OF y(1)] lx no [OF y(1), of "fst x"] show False by auto
  qed
  show "before y x" if "y \<in> set cs" "fst y < fst x"
    using one [OF that(1)] no [OF that(1), of "fst x"] that lx by (auto simp: before_def max_def)
  show "before x z" if "z \<in> set cs" "fst x < fst z"
    using one [OF that(1)] no [OF that(1), of "fst z"] that lx by (auto simp: before_def max_def)
qed

lemma heap_headers:
  assumes h: "heap_ok base hi s cs L" and v: "v \<in> L"
  shows "y \<in> set cs \<Longrightarrow> bytes_of v \<inter> {fst y ..< fst y + 8} = {}" "x \<in> L \<Longrightarrow> x \<noteq> v \<Longrightarrow> bytes_of v \<inter> {fst x ..< fst x + 8} = {}"
proof -
  have l: "base + 8 \<le> fst v" "bytes_of v \<inter> cov cs = {}" using h v by (auto simp: heap_ok_def live_ok_def)
  show "bytes_of v \<inter> {fst y ..< fst y + 8} = {}" if "y \<in> set cs"
  proof (cases "1 \<le> snd y")
    case True
    then have "{fst y ..< fst y + 8} \<subseteq> cov cs" using that unfolding cov_def bytes_of_def by fastforce
    then show ?thesis using l(2) by blast
  next
    case False
    then have "y = (base, 0)" using that h by (auto simp: heap_ok_def free_list_def)
    then show ?thesis using l(1) by (auto simp: bytes_of_def)
  qed
  show "bytes_of v \<inter> {fst x ..< fst x + 8} = {}" if "x \<in> L" "x \<noteq> v"
  proof -
    have "1 \<le> snd x" "bytes_of v \<inter> bytes_of x = {}" using h v that unfolding heap_ok_def live_ok_def by auto
    moreover from this(1) have "{fst x ..< fst x + 8} \<subseteq> bytes_of x" by (auto simp: bytes_of_def)
    ultimately show ?thesis by blast
  qed
qed

lemma joined_list:
  assumes ok: "blocks_ok (xs @ y # ys)" and x: "before y x" "\<forall>z \<in> set ys. before x z" "fst x + 8 * snd x \<le> 2 ^ 31" "1 \<le> snd x"
  shows "blocks_ok (x # ys)" "blocks_ok (y # join x ys)" "blocks_ok (xs @ join y (join x ys))"
    "cov (xs @ join y (join x ys)) = cov (xs @ y # ys) \<union> bytes_of x" "\<exists>z \<in> set (join y (join x ys)). snd x \<le> snd z"
proof -
  have max: "max 1 (snd x) = snd x" using x(4) by simp
  show 1: "blocks_ok (x # ys)"
    using ok x max beforeD [OF x(1)] by (auto simp: blocks_ok_simps)
  have "\<forall>z \<in> set (x # ys). before y z" using ok x(1) by (auto simp: blocks_ok_simps)
  then have "\<forall>z \<in> set (join x ys). before y z" by (rule join_blocks(2) [OF 1])
  then show 2: "blocks_ok (y # join x ys)"
    using ok join_blocks(1) [OF 1] by (simp add: blocks_ok_simps)
  have front: "\<forall>z \<in> set (x # ys). before w z" if "w \<in> set xs" for w
  proof -
    have w: "before w y" "\<forall>z \<in> set ys. before w z" using ok that by (auto simp: blocks_ok_simps)
    then have "before w x" using x(1) beforeD [OF x(1)] by (simp add: before_def)
    with w show ?thesis by simp
  qed
  have "\<forall>z \<in> set (join y (join x ys)). before w z" if "w \<in> set xs" for w
  proof (rule join_blocks(2) [OF 2])
    show "\<forall>z \<in> set (y # join x ys). before w z"
      using join_blocks(2) [OF 1 front [OF that]] ok that by (auto simp: blocks_ok_simps)
  qed
  then show "blocks_ok (xs @ join y (join x ys))"
    using ok join_blocks(1) [OF 2] by (auto simp: blocks_ok_simps)
  show "cov (xs @ join y (join x ys)) = cov (xs @ y # ys) \<union> bytes_of x"
    using join_parts(1) [OF 1] join_parts(1) [OF 2] by auto
  obtain n zs where "join x ys = (fst x, n) # zs" "snd x \<le> n" using join_parts(2) [OF 1] by blast
  then show "\<exists>z \<in> set (join y (join x ys)). snd x \<le> snd z"
    using join_parts(3) [OF 2, of "(fst x, n)"] by (auto intro: order_trans)
qed

lemma free_links:
  assumes l: "free_list base (u_mem s) (xs @ y # ys)" and f: "free_find (u_mem s) (of_nat (fst x)) (freep s) = Some (of_nat (fst y))"
    and x: "before y x" "\<forall>z \<in> set ys. before x z" "fst x + 8 * snd x \<le> 2 ^ 31" "1 \<le> snd x" "base < fst x"
    and b: "hsize (u_mem s) (of_nat (fst x)) = of_nat (snd x)"
  shows "\<exists>m'. free (of_nat (fst x) + 8) s = Some (s\<lparr>u_mem := m', freep := of_nat (fst y)\<rparr>) \<and>
    chain m' base (xs @ join y (join x ys)) \<and> hdr_only {fst x, fst y} (u_mem s) m'"
proof -
  let ?p = "of_nat (fst y) :: u32" and ?bp = "of_nat (fst x) :: u32"
  define m where "m = u_mem s"
  have ch: "chain m (fst y) xs" "hptr m ?p = of_nat (nxt base ys)" "hsize m ?p = of_nat (snd y)" "chain m base ys"
    and ok: "blocks_ok (xs @ y # ys)"
    using l by (auto simp: free_list_def chain_append m_def)
  note j = joined_list [OF ok x(1-4)]
  define m1 where "m1 = (if ?bp + 8 * hsize m ?bp = hptr m ?p
      then let m = set_hsize ?bp (hsize m ?bp + hsize m (hptr m ?p)) m in set_hptr ?bp (hptr m (hptr m ?p)) m
      else set_hptr ?bp (hptr m ?p) m)"
  define m2 where "m2 = (if ?p + 8 * hsize m1 ?p = ?bp
      then let m = set_hsize ?p (hsize m1 ?p + hsize m1 ?bp) m1 in set_hptr ?p (hptr m ?bp) m
      else set_hptr ?p ?bp m1)"
  have up: "chain m1 base (join x ys)" "hdr_only {fst x} m m1"
    using link_up [OF ch(4) b [folded m_def] x(3,4,5) _ x(2) ch(2) x(1)] j(1) by (auto simp: blocks_ok_simps m1_def)
  have py: "fst y + 8 \<le> fst x" "fst x + 8 \<le> 2 ^ 31" using beforeD [OF x(1)] x by auto
  then have hy: "hsize m1 ?p = of_nat (snd y)" using ch(3) hdr_keep(2) [OF up(2), of "fst y"] by simp
  obtain n zs where n: "join x ys = (fst x, n) # zs" using join_parts(2) [OF j(1)] by blast
  have jl: "blocks_ok (join x ys)" using join_blocks(1) [OF j(1)] .
  then have "fst x + 8 * n \<le> 2 ^ 31" using block_low [OF jl, of "(fst x, n)"] n by simp
  then have down: "chain m2 base (join y (join x ys))" "hdr_only {fst y} m1 m2"
    using link_down [OF up(1) n hy x(1) _ py(2) jl] by (auto simp: m2_def)
  have only: "hdr_only {fst x, fst y} m m2"
    using up(2) down(2) by (blast intro: hdr_only_trans hdr_only_mono)
  have "blocks_ok xs" using ok by (simp add: blocks_ok_simps)
  moreover have "a + 8 \<le> fst z \<or> fst z + 8 \<le> a" if "a \<in> {fst x, fst y}" "z \<in> set xs" for a z
    using that ok py(1) beforeD [of z y] by (auto simp: blocks_ok_simps)
  ultimately have "chain m2 (fst y) xs"
    using ch(1) chain_above [OF only, of xs "fst y"] by blast
  moreover obtain k us where "join y (join x ys) = (fst y, k) # us" using join_parts(2) [OF j(2)] by blast
  ultimately have "chain m2 base (xs @ join y (join x ys))"
    using down(1) by (simp add: chain_append)
  moreover have "free (?bp + 8) s = Some (s\<lparr>u_mem := m2, freep := ?p\<rparr>)"
    using f unfolding m2_def m1_def m_def free_def by (simp add: Let_def)
  ultimately show ?thesis using only unfolding m_def by blast
qed

lemma free_list_joined:
  assumes l: "free_list base m (xs @ y # ys)" and x: "before y x" "\<forall>z \<in> set ys. before x z" "fst x + 8 * snd x \<le> 2 ^ 31" "1 \<le> snd x"
    and ch: "chain m' base (xs @ join y (join x ys))"
  shows "free_list base m' (xs @ join y (join x ys))"
proof -
  obtain fs where fs: "xs @ y # ys = (base, 0) # fs" "\<forall>z \<in> set fs. 1 \<le> snd z" and ok: "blocks_ok (xs @ y # ys)"
    using l by (auto simp: free_list_def)
  note j = joined_list [OF ok x]
  have ys: "\<forall>z \<in> set ys. 1 \<le> snd z" using fs by (cases xs) auto
  have jx: "\<forall>z \<in> set (join x ys). 1 \<le> snd z"
    using join_parts(2) [OF j(1)] ys x(4) by fastforce
  have "\<exists>gs. xs @ join y (join x ys) = (base, 0) # gs \<and> (\<forall>z \<in> set gs. 1 \<le> snd z)"
  proof (cases xs)
    case Nil
    then have "snd y = 0" "y = (base, 0)" using fs(1) by auto
    then show ?thesis using Nil jx join_parts(4) [OF j(2)] by simp
  next
    case (Cons w ws)
    then have w: "w = (base, 0)" "\<forall>z \<in> set ws. 1 \<le> snd z" "1 \<le> snd y" using fs by auto
    have "\<forall>z \<in> set (join y (join x ys)). 1 \<le> snd z"
      using join_parts(2) [OF j(2)] jx w(3) by fastforce
    then show ?thesis using Cons w by auto
  qed
  then show ?thesis using ch j(3) by (simp add: free_list_def)
qed

lemma free_ok:
  assumes h: "heap_ok base hi s cs L" and x: "x \<in> L"
  shows "\<exists>cs' s'. free (of_nat (fst x) + 8) s = Some s' \<and> heap_ok base hi s' cs' (L - {x}) \<and> keeps (L - {x}) (u_mem s) (u_mem s') \<and>
    (\<exists>z \<in> set cs'. snd x \<le> snd z)"
proof -
  obtain z where z: "z \<in> set cs" "freep s = of_nat (fst z)" and l: "free_list base (u_mem s) cs" and hi: "hi \<le> 2 ^ 31"
    and top: "cov cs \<subseteq> {..<hi}" "base + 8 \<le> hi" and live: "live_ok base hi (u_mem s) (cov cs) L"
    using h by (auto simp: heap_ok_def)
  have lx: "base + 8 \<le> fst x" "1 \<le> snd x" "fst x + 8 * snd x \<le> hi" "hsize (u_mem s) (of_nat (fst x)) = of_nat (snd x)"
    using live x by (auto simp: live_ok_def)
  have "\<exists>xs y ys. cs = xs @ y # ys \<and> fst y < fst x \<and> (\<forall>z \<in> set ys. fst x < fst z) \<and>
      free_find (u_mem s) (of_nat (fst x)) (of_nat (fst z)) = Some (of_nat (fst y))"
    using z(1) lx hi free_position(1) [OF h x] by (intro free_find_ok [OF l]) auto
  then obtain xs y ys where s: "cs = xs @ y # ys" "fst y < fst x" "\<forall>z \<in> set ys. fst x < fst z"
    "free_find (u_mem s) (of_nat (fst x)) (of_nat (fst z)) = Some (of_nat (fst y))"
    by blast
  have pos: "before y x" "\<forall>z \<in> set ys. before x z" "fst x + 8 * snd x \<le> 2 ^ 31"
    using free_position(2,3) [OF h x] s lx(3) hi by auto
  have ok: "blocks_ok (xs @ y # ys)" using l s(1) by (simp add: free_list_def)
  note j = joined_list [OF ok pos lx(2)]
  let ?cs = "xs @ join y (join x ys)"
  obtain m' where m': "free (of_nat (fst x) + 8) s = Some (s\<lparr>u_mem := m', freep := of_nat (fst y)\<rparr>)"
    "chain m' base ?cs" "hdr_only {fst x, fst y} (u_mem s) m'"
    using free_links [OF l [unfolded s(1)] s(4) [folded z(2)] pos lx(2) _ lx(4)] lx(1) by auto
  have kp: "keeps (L - {x}) (u_mem s) m'"
  proof (rule hdr_only_keeps [OF m'(3)])
    show "fst v + 8 * snd v \<le> 2 ^ 31" if "v \<in> L - {x}" for v
      using that live hi by (auto simp: live_ok_def)
    show "bytes_of v \<inter> {a ..< a + 8} = {}" if "v \<in> L - {x}" "a \<in> {fst x, fst y}" for v a
      using that heap_headers(1) [OF h, of v y] heap_headers(2) [OF h, of v x] s(1) x by auto
  qed
  have fl: "free_list base m' ?cs" "cov ?cs = cov cs \<union> bytes_of x"
    using free_list_joined [OF l [unfolded s(1)] pos lx(2) m'(2)] j(4) s(1) by auto
  have "bytes_of v \<inter> cov ?cs = {}" if "v \<in> L - {x}" for v
    using live x that unfolding fl(2) live_ok_def by blast
  then have "live_ok base hi m' (cov ?cs) (L - {x})"
    by (intro live_ok_keeps [OF live kp]) simp_all
  moreover have "cov ?cs \<subseteq> {..<hi}"
    unfolding fl(2) using top lx(3) by (auto simp: bytes_of_def)
  moreover obtain k us where "join y (join x ys) = (fst y, k) # us" using join_parts(2) [OF j(2)] by blast
  ultimately have "heap_ok base hi (s\<lparr>u_mem := m', freep := of_nat (fst y)\<rparr>) ?cs (L - {x})"
    using fl(1) hi top(2) by (simp add: heap_ok_def)
  moreover have "\<exists>z \<in> set ?cs. snd x \<le> snd z" using j(5) by auto
  ultimately show ?thesis using m'(1) kp
    by (intro exI [of _ ?cs] exI [of _ "s\<lparr>u_mem := m', freep := of_nat (fst y)\<rparr>"]) simp
qed

section \<open>More memory\<close>

text \<open>
  sbrk gives the old end of the process and moves it up by the amount asked for, or fails and leaves it; the process stays below
  the kernel.
\<close>

definition sbrk_ok :: "'w calls \<Rightarrow> ('w \<Rightarrow> nat) \<Rightarrow> bool" where
  "sbrk_ok os brk \<longleftrightarrow> (\<forall>n w. 0 < n \<longrightarrow> n < 2 ^ 31 \<longrightarrow> (case u_num os ''sbrk'' [n] w of (r, w') \<Rightarrow>
     r = -1 \<and> brk w' = brk w \<or> r = int (brk w) \<and> brk w' = brk w + nat n \<and> brk w' \<le> 2 ^ 31))"

lemma live_ok_insert:
  assumes "live_ok base hi m F L" "keeps L m m'" "hi \<le> hi'" "\<And>v. v \<in> L \<Longrightarrow> bytes_of v \<inter> (F' \<union> bytes_of x) = {}"
    and "base + 8 \<le> fst x" "1 \<le> snd x" "fst x + 8 * snd x \<le> hi'" "hsize m' (of_nat (fst x)) = of_nat (snd x)" "bytes_of x \<inter> F' = {}"
  shows "live_ok base hi' m' F' (insert x L)"
proof -
  have "live_ok base hi' m' F' L" using assms(4) by (intro live_ok_keeps [OF assms(1,2) _ _ assms(3)]) auto
  then show ?thesis
    using assms(4-9) unfolding live_ok_def by (simp add: Int_Un_distrib) blast
qed

lemma list_below:
  assumes "free_list base m cs" "cov cs \<subseteq> {..<hi}" "base + 8 \<le> hi" "z \<in> set cs"
  shows "fst z + 8 \<le> hi" "fst z + 8 * snd z \<le> hi" "base \<le> fst z"
proof -
  obtain fs where cs: "cs = (base, 0) # fs" "\<forall>x \<in> set fs. 1 \<le> snd x" "blocks_ok cs"
    using assms(1) by (auto simp: free_list_def)
  have "fst z + 8 * snd z - 1 \<in> cov cs" if "1 \<le> snd z"
    using assms(4) that unfolding cov_def bytes_of_def by fastforce
  then have "1 \<le> snd z \<Longrightarrow> fst z + 8 * snd z \<le> hi" using assms(2) by fastforce
  moreover have "1 \<le> snd z \<or> z = (base, 0)" using cs(1,2) assms(4) by auto
  ultimately show "fst z + 8 \<le> hi" "fst z + 8 * snd z \<le> hi" using assms(3) by auto
  show "base \<le> fst z" using cs assms(4) beforeD [of "(base, 0)" z] by (auto simp: blocks_ok_simps)
qed

lemma add_block:
  assumes h: "heap_ok base hi s cs L" and n: "1 \<le> n" "hi + 8 * n \<le> 2 ^ 31"
  defines "s' \<equiv> s\<lparr>u_mem := set_hsize (of_nat hi) (of_nat n) (u_mem s)\<rparr>"
  shows "heap_ok base (hi + 8 * n) s' cs (insert (hi, n) L)" "keeps L (u_mem s) (u_mem s')" "(hi, n) \<notin> L"
proof -
  have l: "free_list base (u_mem s) cs" "cov cs \<subseteq> {..<hi}" "base + 8 \<le> hi" "live_ok base hi (u_mem s) (cov cs) L"
    using h by (auto simp: heap_ok_def)
  have only: "hdr_only {hi} (u_mem s) (u_mem s')"
    using n by (auto simp: s'_def intro!: hdr_only_write)
  have ok: "blocks_ok cs" using l(1) by (simp add: free_list_def)
  have "chain (u_mem s') base cs = chain (u_mem s) base cs"
    using list_below(1) [OF l(1-3)] by (intro chain_above [OF only ok]) auto
  then have fl: "free_list base (u_mem s') cs" using l(1) by (simp add: free_list_def)
  have below: "bytes_of v \<subseteq> {..<hi}" "fst v + 8 * snd v \<le> hi" "1 \<le> snd v" if "v \<in> L" for v
    using l(4) that by (auto simp: live_ok_def bytes_of_def)
  show k: "keeps L (u_mem s) (u_mem s')"
    using below n by (intro hdr_only_keeps [OF only]) (fastforce simp: bytes_of_def)+
  have "live_ok base (hi + 8 * n) (u_mem s') (cov cs) (insert (hi, n) L)"
  proof (rule live_ok_insert [OF l(4) k])
    show "bytes_of v \<inter> (cov cs \<union> bytes_of (hi, n)) = {}" if "v \<in> L" for v
      using l(4) that below(1) [OF that] by (auto simp: live_ok_def bytes_of_def)
    show "bytes_of (hi, n) \<inter> cov cs = {}" using l(2) by (auto simp: bytes_of_def)
  qed (use l(3) n in \<open>auto simp: s'_def\<close>)
  then show "heap_ok base (hi + 8 * n) s' cs (insert (hi, n) L)"
    using h l fl n by (auto simp: heap_ok_def s'_def)
  show "(hi, n) \<notin> L" using below(2) [of "(hi, n)"] n(1) by auto
qed

lemma core_units:
  assumes "8 * n < 2 ^ 31"
  defines "nu \<equiv> max n 4096"
  shows "(if (of_nat n :: u32) < 4096 then 4096 else of_nat n) = (of_nat nu :: u32)" "sint (of_nat nu * 8 :: u32) = int (8 * nu)"
    "8 * nu < 2 ^ 31" "1 \<le> nu" "n \<le> nu"
proof -
  show lt: "8 * nu < 2 ^ 31" "1 \<le> nu" "n \<le> nu" using assms by auto
  show "(if (of_nat n :: u32) < 4096 then 4096 else of_nat n) = (of_nat nu :: u32)"
    using assms nat_words(1) [of n 4096] by (auto simp: max_def)
  have "of_nat nu * 8 = (of_nat (8 * nu) :: u32)" by simp
  then have "uint (of_nat nu * 8 :: u32) = int (8 * nu)"
    using lt unat_of_nat32 [of "8 * nu"] by (simp only: uint_nat) simp
  then show "sint (of_nat nu * 8 :: u32) = int (8 * nu)"
    using lt by (simp add: sint_uint signed_take_bit_int_eq_self)
qed

lemma freep_nonzero:
  assumes "heap_ok base hi s cs L"
  shows "freep s \<noteq> 0"
proof -
  obtain z where "z \<in> set cs" "freep s = of_nat (fst z)" "blocks_ok cs" using assms by (auto simp: heap_ok_def free_list_def)
  then show ?thesis using block_low [of cs z] nat_words(3) [of "fst z" 0] by (auto simp: blocks_ok_def)
qed

lemma morecore_ok:
  assumes h: "heap_ok base (brk w) s cs L" and b: "sbrk_ok os brk" and n: "1 \<le> n" "8 * n < 2 ^ 31"
  shows "\<exists>p s' w' cs'. morecore os (of_nat n) s w = Some (p, s', w') \<and> heap_ok base (brk w') s' cs' L \<and>
    keeps L (u_mem s) (u_mem s') \<and> (p = 0 \<or> p \<noteq> 0 \<and> p = freep s' \<and> (\<exists>z \<in> set cs'. n \<le> snd z))"
proof -
  define nu where "nu = max n 4096"
  note units = core_units [OF n(2), folded nu_def]
  note nu = units(1) and si = units(2) and lt = units(3-5)
  obtain r w' where r: "u_num os ''sbrk'' [int (8 * nu)] w = (r, w')" by (cases "u_num os ''sbrk'' [int (8 * nu)] w")
  have "r = -1 \<and> brk w' = brk w \<or> r = int (brk w) \<and> brk w' = brk w + 8 * nu \<and> brk w' \<le> 2 ^ 31"
    using b [unfolded sbrk_ok_def, rule_format, of "int (8 * nu)" w] r lt by (simp add: nat_mult_distrib)
  then show ?thesis
  proof
    assume "r = -1 \<and> brk w' = brk w"
    then have "morecore os (of_nat n) s w = Some (0, s, w')" by (simp add: morecore_def nu si r Let_def del: of_nat_mult)
    then show ?thesis
      using h \<open>r = -1 \<and> brk w' = brk w\<close> by (intro exI [of _ 0] exI [of _ s] exI [of _ w'] exI [of _ cs]) simp
  next
    assume a: "r = int (brk w) \<and> brk w' = brk w + 8 * nu \<and> brk w' \<le> 2 ^ 31"
    then have le: "brk w + 8 * nu \<le> 2 ^ 31" by simp
    note blk = add_block [OF h lt(2) le]
    let ?s = "s\<lparr>u_mem := set_hsize (of_nat (brk w)) (of_nat nu) (u_mem s)\<rparr>"
    obtain cs' s' where f: "free (of_nat (brk w) + 8) ?s = Some s'" "heap_ok base (brk w + 8 * nu) s' cs' (insert (brk w, nu) L - {(brk w, nu)})"
      "keeps (insert (brk w, nu) L - {(brk w, nu)}) (u_mem ?s) (u_mem s')" "\<exists>z \<in> set cs'. nu \<le> snd z"
      using free_ok [OF blk(1), of "(brk w, nu)"] by auto
    have "unat (of_nat (brk w) :: u32) = brk w" using a by (intro unat_of_nat32) simp
    then have ne: "(of_nat (brk w) :: u32) \<noteq> -1" using le unat_minus_1 by auto
    have "insert (brk w, nu) L - {(brk w, nu)} = L" using blk(3) by simp
    moreover have "freep s' \<noteq> 0" using freep_nonzero [OF f(2)] .
    moreover have "morecore os (of_nat n) s w = Some (freep s', s', w')"
      using a ne f(1) by (simp add: morecore_def nu si r Let_def del: of_nat_mult)
    moreover have "\<exists>z \<in> set cs'. n \<le> snd z" using f(4) lt(3) by (auto intro: order_trans)
    ultimately show ?thesis
      using a f(2,3) blk(2) by (intro exI [of _ "freep s'"] exI [of _ s'] exI [of _ w'] exI [of _ cs']) (auto intro: keeps_trans)
  qed
qed

section \<open>malloc\<close>

text \<open>The search goes from block to block as long as they are too small and it has not come round.\<close>

lemma malloc_skip:
  assumes "chain (u_mem s) e (y # as)" "blocks_ok as" "\<And>x. x \<in> set as \<Longrightarrow> snd x < n \<and> of_nat (fst x) \<noteq> freep s" "n < 2 ^ 32"
  shows "malloc_loop os (of_nat n) (of_nat (fst y)) (of_nat (nxt e as)) s w =
    malloc_loop os (of_nat n) (of_nat (fst (last (y # as)))) (of_nat e) s w"
  using assms
proof (induction as arbitrary: y)
  case (Cons x as)
  have x: "snd x < n" "of_nat (fst x) \<noteq> freep s" "hsize (u_mem s) (of_nat (fst x)) = of_nat (snd x)"
    "hptr (u_mem s) (of_nat (fst x)) = of_nat (nxt e as)"
    using Cons.prems by auto
  then have "\<not> hsize (u_mem s) (of_nat (fst x)) \<ge> of_nat n"
    using Cons.prems(4) by (simp add: nat_words)
  then have "malloc_loop os (of_nat n) (of_nat (fst y)) (of_nat (fst x)) s w =
      malloc_loop os (of_nat n) (of_nat (fst x)) (of_nat (nxt e as)) s w"
    using x by (simp add: malloc_loop.simps [of os _ "of_nat (fst y)"])
  then show ?case
    using Cons.IH [of x] Cons.prems by (simp add: blocks_ok_simps)
qed simp

lemma first_fit:
  fixes n :: nat
  obtains "\<forall>x \<in> set (xs :: (nat \<times> nat) list). snd x < n" | as x bs where "xs = as @ x # bs" "\<forall>z \<in> set as. snd z < n" "n \<le> snd x"
  using split_list_first_prop [of xs "\<lambda>x. n \<le> snd x"] by (metis not_less)

text \<open>
  One round from the block behind \<open>freep\<close>: it comes to the first block that is large enough, with its predecessor in the list,
  or it comes round to \<open>freep\<close> and asks for more.
\<close>

lemma malloc_small:
  assumes "hsize (u_mem s) (of_nat p) = of_nat k" "k < n" "n < 2 ^ 32"
  shows "malloc_loop os (of_nat n) prevp (of_nat p) s w =
    (if of_nat p = freep s then Option.bind (morecore os (of_nat n) s w) (\<lambda>(p, s, w).
       if p = 0 then Some (0, s, w) else malloc_loop os (of_nat n) p (hptr (u_mem s) p) s w)
     else malloc_loop os (of_nat n) (of_nat p) (hptr (u_mem s) (of_nat p)) s w)"
  using assms by (simp add: malloc_loop.simps [of os _ prevp] nat_words)

lemma malloc_find:
  assumes "chain (u_mem s) e (y # as @ x # bs)" "blocks_ok as" "\<And>x. x \<in> set as \<Longrightarrow> of_nat (fst x) \<noteq> freep s" "\<forall>z \<in> set as. snd z < n" "n < 2 ^ 32"
    and "cs = us @ y # as @ x # bs" "n \<le> snd x"
  shows "\<exists>xs y' x' ys. cs = xs @ y' # x' # ys \<and> n \<le> snd x' \<and>
    malloc_loop os (of_nat n) (of_nat (fst y)) (of_nat (nxt (fst x) as)) s w = malloc_loop os (of_nat n) (of_nat (fst y')) (of_nat (fst x')) s w"
proof -
  have "chain (u_mem s) (fst x) (y # as)" using assms(1) chain_append [of "u_mem s" e "y # as" "x # bs"] by simp
  then have "malloc_loop os (of_nat n) (of_nat (fst y)) (of_nat (nxt (fst x) as)) s w =
      malloc_loop os (of_nat n) (of_nat (fst (last (y # as)))) (of_nat (fst x)) s w"
    using assms(2-5) by (intro malloc_skip) auto
  moreover have "cs = (us @ butlast (y # as)) @ last (y # as) # x # bs"
    using append_butlast_last_id [of "y # as"] assms(6) by simp
  ultimately show ?thesis using assms(7) by blast
qed

lemma malloc_seek_head:
  fixes os :: "'w calls" and w :: 'w
  assumes ch: "chain (u_mem s) base (u # us @ z # vs)" and us: "blocks_ok us" "\<And>x. x \<in> set us \<Longrightarrow> of_nat (fst x) \<noteq> freep s"
    and z: "freep s = of_nat (fst z)" and small: "snd u < n" "\<forall>x \<in> set vs. snd x < n" and n: "n < 2 ^ 32"
  defines "run \<equiv> malloc_loop os (of_nat n) (of_nat (fst u)) (of_nat (nxt (fst z) us)) s w" and "cs \<equiv> u # us @ z # vs"
  shows "(\<exists>xs y x ys. cs = xs @ y # x # ys \<and> n \<le> snd x \<and> run = malloc_loop os (of_nat n) (of_nat (fst y)) (of_nat (fst x)) s w) \<or>
    (\<forall>x \<in> set cs. snd x < n) \<and> run = Option.bind (morecore os (of_nat n) s w) (\<lambda>(p, s, w).
      if p = 0 then Some (0, s, w) else malloc_loop os (of_nat n) p (hptr (u_mem s) p) s w)"
    (is "?found \<or> ?more")
proof (rule first_fit [of us n])
  fix as x bs assume f: "us = as @ x # bs" "\<forall>z \<in> set as. snd z < n" "n \<le> snd x"
  have "?found"
    unfolding run_def
    using malloc_find [of s base u as x "bs @ z # vs" n cs "[]" os w] ch f us n by (simp add: cs_def blocks_ok_simps)
  then show ?thesis ..
next
  assume none: "\<forall>x \<in> set us. snd x < n"
  show ?thesis
  proof (cases "n \<le> snd z")
    case True
    have "?found"
      unfolding run_def using malloc_find [of s base u us z vs n cs "[]" os w] ch us none n True by (simp add: cs_def)
    then show ?thesis ..
  next
    case False
    have "chain (u_mem s) (fst z) (u # us)" using ch chain_append [of "u_mem s" base "u # us" "z # vs"] by simp
    then have "run = malloc_loop os (of_nat n) (of_nat (fst (last (u # us)))) (of_nat (fst z)) s w"
      unfolding run_def using us none n by (intro malloc_skip) auto
    moreover have "hsize (u_mem s) (of_nat (fst z)) = of_nat (snd z)" using ch by (simp add: chain_append)
    ultimately have "?more" using malloc_small [of s "fst z" "snd z" n] False n small none by (auto simp: z cs_def)
    then show ?thesis ..
  qed
qed

lemma malloc_seek:
  fixes os :: "'w calls" and w :: 'w
  assumes l: "free_list base (u_mem s) cs" and z: "z \<in> set cs" "freep s = of_nat (fst z)" and n: "1 \<le> n" "n < 2 ^ 32"
  defines "run \<equiv> malloc_loop os (of_nat n) (freep s) (hptr (u_mem s) (freep s)) s w"
  shows "(\<exists>xs y x ys. cs = xs @ y # x # ys \<and> n \<le> snd x \<and> run = malloc_loop os (of_nat n) (of_nat (fst y)) (of_nat (fst x)) s w) \<or>
    (\<forall>x \<in> set cs. snd x < n) \<and> run = Option.bind (morecore os (of_nat n) s w) (\<lambda>(p, s, w).
      if p = 0 then Some (0, s, w) else malloc_loop os (of_nat n) p (hptr (u_mem s) p) s w)"
    (is "?found \<or> ?more")
proof -
  obtain us vs where cs: "cs = us @ z # vs" using split_list [OF z(1)] by blast
  obtain fs where fs: "cs = (base, 0) # fs" and ch: "chain (u_mem s) base cs" and ok: "blocks_ok cs"
    using l by (auto simp: free_list_def)
  have oks: "blocks_ok us" "blocks_ok vs" using ok by (simp_all add: cs blocks_ok_simps)
  have other: "of_nat (fst x) \<noteq> freep s" if "x \<in> set us \<union> set vs" for x
  proof -
    have "fst x \<noteq> fst z" using ok that beforeD [of x z] beforeD [of z x] by (auto simp: cs blocks_ok_simps)
    then show ?thesis using block_low [OF ok z(1)] block_low [OF ok, of x] that by (auto simp: z(2) cs nat_words(3))
  qed
  have hz: "chain (u_mem s) base (z # vs)" using ch by (simp add: cs chain_append)
  then have run: "run = malloc_loop os (of_nat n) (of_nat (fst z)) (of_nat (nxt base vs)) s w"
    unfolding run_def z(2) by simp
  show ?thesis
  proof (rule first_fit [of vs n])
    fix as x bs assume f: "vs = as @ x # bs" "\<forall>z \<in> set as. snd z < n" "n \<le> snd x"
    have "?found"
      unfolding run using malloc_find [of s base z as x bs n cs us os w] hz f oks other n cs by (simp add: blocks_ok_simps)
    then show ?thesis ..
  next
    assume none: "\<forall>x \<in> set vs. snd x < n"
    have tail: "run = malloc_loop os (of_nat n) (of_nat (fst (last (z # vs)))) (of_nat base) s w"
      unfolding run using none other n oks by (intro malloc_skip hz) auto
    have b: "hsize (u_mem s) (of_nat base) = of_nat 0" and "0 < n" using ch n(1) by (simp_all add: fs)
    show ?thesis
    proof (cases us)
      case Nil
      then have "fst z = base" "snd z = 0" using cs fs by auto
      then have "?more"
        unfolding tail malloc_small [OF b \<open>0 < n\<close> n(2)] using none cs Nil z(2) \<open>0 < n\<close> by simp
      then show ?thesis ..
    next
      case (Cons u us')
      then have u: "u = (base, 0)" "chain (u_mem s) (fst z) (u # us')" "blocks_ok us'" "of_nat base \<noteq> freep s"
        using cs fs ch oks other [of u] by (auto simp: chain_append blocks_ok_simps)
      then have head: "run = malloc_loop os (of_nat n) (of_nat (fst u)) (of_nat (nxt (fst z) us')) s w"
        unfolding tail malloc_small [OF b \<open>0 < n\<close> n(2)] by simp
      show ?thesis
        using malloc_seek_head [of s base u us' z vs n os w] ch other u n none Cons cs z(2) fs unfolding head by simp
    qed
  qed
qed

end
