(* ===== verification/Umalloc_Run.thy ===== *)
theory Umalloc_Run
  imports Umalloc_Props
begin

text \<open>
  malloc as a whole, and the memory of a program that calls malloc and free in any order and stores into its blocks
  (umalloc.c).
\<close>

section \<open>Taking a block off the list\<close>

definition takes :: "nat \<Rightarrow> nat \<Rightarrow> umem \<Rightarrow> (nat \<times> nat) set \<Rightarrow> nat \<Rightarrow> u32 \<Rightarrow> umem \<Rightarrow> bool" where
  "takes base hi s L n r s' \<longleftrightarrow> (\<exists>a cs. r = of_nat a + 8 \<and> (a, n) \<notin> L \<and> heap_ok base hi s' cs (insert (a, n) L) \<and>
     keeps L (u_mem s) (u_mem s'))"

lemma taken:
  assumes h: "heap_ok base hi s cs L" and n: "1 \<le> n" and a: "bytes_of (a, n) \<subseteq> cov cs" "cov cs' \<subseteq> cov cs - bytes_of (a, n)" "base + 8 \<le> a"
    and fl: "free_list base m' cs'" "z \<in> set cs'" and only: "hdr_only A (u_mem s) m'"
    and A: "\<And>b. b \<in> A \<Longrightarrow> {b ..< b + 8} \<subseteq> cov cs \<or> b + 8 \<le> base + 8" and sz: "hsize m' (of_nat a) = of_nat n"
  shows "takes base hi s L n (of_nat a + 8) (s\<lparr>u_mem := m', freep := of_nat (fst z)\<rparr>)"
proof -
  have l: "cov cs \<subseteq> {..<hi}" "base + 8 \<le> hi" "hi \<le> 2 ^ 31" "live_ok base hi (u_mem s) (cov cs) L"
    using h by (auto simp: heap_ok_def)
  have k: "keeps L (u_mem s) m'"
  proof (rule hdr_only_keeps [OF only])
    fix v assume v: "v \<in> L"
    then have lv: "base + 8 \<le> fst v" "fst v + 8 * snd v \<le> hi" "bytes_of v \<inter> cov cs = {}" using l(4) by (auto simp: live_ok_def)
    then show "fst v + 8 * snd v \<le> 2 ^ 31" using l(3) by simp
    show "bytes_of v \<inter> {b ..< b + 8} = {}" if "b \<in> A" for b
      using A [OF that]
    proof
      assume "{b ..< b + 8} \<subseteq> cov cs"
      then show ?thesis using lv(3) by blast
    next
      assume "b + 8 \<le> base + 8"
      then show ?thesis using lv(1) by (auto simp: bytes_of_def)
    qed
  qed
  have last: "a + 8 * n - 1 \<in> bytes_of (a, n)" using n by (auto simp: bytes_of_def)
  then have top: "a + 8 * n \<le> hi" using a(1) l(1) n by fastforce
  have "live_ok base hi m' (cov cs') (insert (a, n) L)"
  proof (rule live_ok_insert [OF l(4) k])
    show "bytes_of v \<inter> (cov cs' \<union> bytes_of (a, n)) = {}" if "v \<in> L" for v
      using l(4) that a by (fastforce simp: live_ok_def)
  qed (use a n top sz in auto)
  then have "heap_ok base hi (s\<lparr>u_mem := m', freep := of_nat (fst z)\<rparr>) cs' (insert (a, n) L)"
    using l(1-3) fl a(2) by (auto simp: heap_ok_def)
  moreover have "(a, n) \<notin> L"
    using l(4) a(1) last by (fastforce simp: live_ok_def)
  ultimately show ?thesis unfolding takes_def using k by auto
qed

lemma cov_apart:
  assumes "blocks_ok (xs @ x # ys)"
  shows "cov (xs @ ys) \<inter> bytes_of x = {}"
proof -
  have "bytes_of z \<inter> bytes_of x = {}" if "z \<in> set (xs @ ys)" for z
    using assms that beforeD [of z x] beforeD [of x z] by (auto simp: blocks_ok_simps bytes_of_def)
  then show ?thesis unfolding cov_def by blast
qed

lemma list_member:
  assumes l: "free_list base m (xs @ y # x # ys)"
  shows "1 \<le> snd x" "base + 8 \<le> fst x" "{fst y ..< fst y + 8} \<subseteq> cov (xs @ y # x # ys) \<or> fst y + 8 \<le> base + 8"
    "\<exists>fs. xs @ y # us = (base, 0) # fs \<and> ((\<forall>z \<in> set us. 1 \<le> snd z) \<longrightarrow> (\<forall>z \<in> set fs. 1 \<le> snd z))" "\<forall>z \<in> set ys. 1 \<le> snd z"
proof -
  obtain fs where fs: "xs @ y # x # ys = (base, 0) # fs" "\<forall>z \<in> set fs. 1 \<le> snd z" "blocks_ok (xs @ y # x # ys)"
    using l by (auto simp: free_list_def)
  show x: "1 \<le> snd x" "\<forall>z \<in> set ys. 1 \<le> snd z" using fs(1,2) by (cases xs; auto)+
  have "before (base, 0) x" using fs(1,3) by (cases xs) (auto simp: blocks_ok_simps)
  then show "base + 8 \<le> fst x" using beforeD by fastforce
  have "1 \<le> snd y \<or> y = (base, 0)" using fs(1,2) by (cases xs) auto
  then show "{fst y ..< fst y + 8} \<subseteq> cov (xs @ y # x # ys) \<or> fst y + 8 \<le> base + 8"
    by (auto simp: bytes_of_def)
  show "\<exists>fs. xs @ y # us = (base, 0) # fs \<and> ((\<forall>z \<in> set us. 1 \<le> snd z) \<longrightarrow> (\<forall>z \<in> set fs. 1 \<le> snd z))"
    using fs(1,2) by (cases xs) auto
qed

lemma chain_beside:
  assumes "hdr_only A m m'" "blocks_ok (xs @ y # ys)" "\<And>a. a \<in> A \<Longrightarrow> fst y \<le> a \<and> a + 8 \<le> fst y + 8 * max 1 (snd y)"
  shows "chain m' e xs = chain m e xs" "chain m' e ys = chain m e ys"
proof -
  have b: "blocks_ok xs" "blocks_ok ys" "z \<in> set xs \<Longrightarrow> before z y" "z \<in> set ys \<Longrightarrow> before y z" for z
    using assms(2) by (auto simp: blocks_ok_simps)
  show "chain m' e xs = chain m e xs"
  proof (rule chain_above [OF assms(1) b(1)])
    show "a + 8 \<le> fst z \<or> fst z + 8 \<le> a" if "a \<in> A" "z \<in> set xs" for a z
      using assms(3) [OF that(1)] beforeD [OF b(3) [OF that(2)]] by linarith
  qed
  show "chain m' e ys = chain m e ys"
  proof (rule chain_above [OF assms(1) b(2)])
    show "a + 8 \<le> fst z \<or> fst z + 8 \<le> a" if "a \<in> A" "z \<in> set ys" for a z
      using assms(3) [OF that(1)] b(4) [OF that(2)] by (simp add: before_def)
  qed
qed

lemma take_whole:
  assumes h: "heap_ok base hi s cs L" and cs: "cs = xs @ y # x # ys"
  defines "m' \<equiv> set_hptr (of_nat (fst y)) (hptr (u_mem s) (of_nat (fst x))) (u_mem s)"
  shows "takes base hi s L (snd x) (of_nat (fst x) + 8) (s\<lparr>u_mem := m', freep := of_nat (fst y)\<rparr>)"
proof -
  have l: "free_list base (u_mem s) (xs @ y # x # ys)" using h cs by (simp add: heap_ok_def)
  note mem = list_member [OF l]
  have ok: "blocks_ok (xs @ y # x # ys)" and ch: "chain (u_mem s) base (xs @ y # x # ys)" using l by (auto simp: free_list_def)
  have bs: "before y x" "blocks_ok (xs @ y # ys)"
    using ok by (auto simp: blocks_ok_simps)
  have only: "hdr_only {fst y} (u_mem s) m'"
    unfolding m'_def using block_low [OF ok, of y] by (intro hdr_only_write) auto
  have c: "chain m' (fst y) xs" "chain m' base ys"
    using ch chain_beside [OF only bs(2)] by (simp_all add: chain_append)
  have "hsize m' (of_nat (fst x)) = of_nat (snd x)"
    using hdr_keep(2) [OF only, of "fst x"] beforeD [OF bs(1)] block_low [OF ok, of x] ch by (simp add: chain_append)
  moreover have "free_list base m' (xs @ y # ys)"
    unfolding free_list_def using mem(4) [of ys] mem(5) bs(2) c ch by (auto simp: chain_append m'_def)
  moreover have "cov (xs @ y # ys) \<subseteq> cov cs - bytes_of x"
    using cov_apart [of "xs @ [y]" x ys] ok cs by auto
  ultimately show ?thesis
    using mem(1-3) only cs by (intro taken [OF h]) auto
qed

lemma take_part:
  assumes h: "heap_ok base hi s cs L" and cs: "cs = xs @ y # x # ys" and n: "1 \<le> n" "n < snd x"
  defines "a \<equiv> fst x + 8 * (snd x - n)"
  defines "m' \<equiv> set_hsize (of_nat a) (of_nat n) (set_hsize (of_nat (fst x)) (of_nat (snd x - n)) (u_mem s))"
  shows "takes base hi s L n (of_nat a + 8) (s\<lparr>u_mem := m', freep := of_nat (fst y)\<rparr>)"
proof -
  let ?x = "(fst x, snd x - n)"
  have l: "free_list base (u_mem s) (xs @ y # x # ys)" using h cs by (simp add: heap_ok_def)
  note mem = list_member [OF l]
  have ok: "blocks_ok ((xs @ [y]) @ x # ys)" and ch: "chain (u_mem s) base ((xs @ [y]) @ x # ys)" using l by (auto simp: free_list_def)
  have a: "fst x + 8 \<le> a" "a + 8 * n = fst x + 8 * snd x" "a + 8 \<le> 2 ^ 32" "fst x + 8 \<le> 2 ^ 32"
    using n block_low [OF ok, of x] by (auto simp: a_def)
  have bx: "bytes_of x = bytes_of ?x \<union> bytes_of (a, n)" "bytes_of ?x \<inter> bytes_of (a, n) = {}"
    using n a by (auto simp: bytes_of_def a_def)
  have ok': "blocks_ok ((xs @ [y]) @ ?x # ys)"
    using ok n by (auto simp: blocks_ok_simps before_def)
  have only: "hdr_only {fst x, a} (u_mem s) m'"
    unfolding m'_def using a by (intro hdr_only_trans [OF hdr_only_write(2) hdr_only_write(2)]) auto
  have "fst x \<le> b \<and> b + 8 \<le> fst x + 8 * max 1 (snd x)" if "b \<in> {fst x, a}" for b
    using that a n by auto
  then have c: "chain m' (fst x) (xs @ [y]) = chain (u_mem s) (fst x) (xs @ [y])" "chain m' base ys = chain (u_mem s) base ys"
    by (intro chain_beside [OF only ok], assumption)+
  let ?m = "set_hsize (of_nat (fst x)) (of_nat (snd x - n)) (u_mem s)"
  have "hdr_only {a} ?m m'" unfolding m'_def using a by (intro hdr_only_write) auto
  from hdr_keep [OF this, of "fst x"] a ch
  have "hptr m' (of_nat (fst x)) = of_nat (nxt base ys)" "hsize m' (of_nat (fst x)) = of_nat (snd x - n)"
    by (auto simp: chain_append)
  then have "chain m' base ((xs @ [y]) @ ?x # ys)" using c ch chain_append [of _ base "xs @ [y]"] by simp
  then have "free_list base m' (xs @ y # ?x # ys)"
    unfolding free_list_def using mem(4) [of "?x # ys"] mem(5) ok' n by auto
  moreover have "cov (xs @ y # ?x # ys) \<subseteq> cov cs - bytes_of (a, n)"
    using cov_apart [OF ok] bx cs by auto
  moreover have "{b ..< b + 8} \<subseteq> cov cs" if "b \<in> {fst x, a}" for b
    using that a n unfolding cs by (auto simp: bytes_of_def)
  ultimately show ?thesis
    using only n mem(2) a bx cs by (intro taken [OF h n(1)]) (auto simp: m'_def)
qed

lemma malloc_take:
  fixes os :: "'w calls"
  assumes h: "heap_ok base hi s cs L" and cs: "cs = xs @ y # x # ys" and n: "1 \<le> n" "n \<le> snd x"
  shows "\<exists>r s'. malloc_loop os (of_nat n) (of_nat (fst y)) (of_nat (fst x)) s w = Some (r, s', w) \<and> takes base hi s L n r s'"
proof -
  have sz: "hsize (u_mem s) (of_nat (fst x)) = of_nat (snd x)" and "blocks_ok cs"
    using h cs by (auto simp: heap_ok_def free_list_def chain_append)
  then have low: "snd x < 2 ^ 32" using block_low [of cs x] cs by simp
  show ?thesis
  proof (cases "n = snd x")
    case True
    then show ?thesis
      using take_whole [OF h cs] sz by (simp add: malloc_loop.simps [of os _ "of_nat (fst y)"])
  next
    case False
    then have "(of_nat (snd x) :: u32) - of_nat n = of_nat (snd x - n)" using n by (simp add: of_nat_diff)
    moreover have "(of_nat (snd x) :: u32) \<noteq> of_nat n" "(of_nat n :: u32) \<le> of_nat (snd x)" using False n low by (simp_all add: nat_words)
    ultimately show ?thesis
      using take_part [OF h cs, of n] False n sz by (simp add: malloc_loop.simps [of os _ "of_nat (fst y)"] Let_def)
  qed
qed

section \<open>malloc\<close>

text \<open>Before the first call there is no list: \<open>freep\<close> is null.\<close>

definition hs_ok :: "nat \<Rightarrow> nat \<Rightarrow> umem \<Rightarrow> (nat \<times> nat) set \<Rightarrow> bool" where
  "hs_ok base hi s L \<longleftrightarrow> freep s = 0 \<and> L = {} \<and> 0 < base \<and> base + 8 \<le> hi \<and> hi \<le> 2 ^ 31 \<or> (\<exists>cs. heap_ok base hi s cs L)"

lemma heap_init:
  assumes "0 < base" "base + 8 \<le> hi" "hi \<le> 2 ^ 31"
  shows "heap_ok base hi (s\<lparr>u_mem := set_hsize (of_nat base) 0 (set_hptr (of_nat base) (of_nat base) (u_mem s)), freep := of_nat base\<rparr>) [(base, 0)] {}"
  using assms by (simp add: heap_ok_def free_list_def blocks_ok_simps blocks_ok_def live_ok_def bytes_of_def)

lemma malloc_loop_ok:
  fixes os :: "'w calls"
  assumes h: "heap_ok base (brk w) s cs L" and b: "sbrk_ok os brk" and n: "1 \<le> n" "8 * n < 2 ^ 31"
  shows "\<exists>r s' w'. malloc_loop os (of_nat n) (freep s) (hptr (u_mem s) (freep s)) s w = Some (r, s', w') \<and>
    (r = 0 \<and> (\<exists>cs. heap_ok base (brk w') s' cs L) \<and> keeps L (u_mem s) (u_mem s') \<or> takes base (brk w') s L n r s')"
proof -
  have n32: "n < 2 ^ 32" using n by simp
  obtain z where z: "free_list base (u_mem s) cs" "z \<in> set cs" "freep s = of_nat (fst z)" using h by (auto simp: heap_ok_def)
  note seek = malloc_seek [OF z n(1) n32, of os w]
  show ?thesis
  proof (cases "\<exists>x \<in> set cs. n \<le> snd x")
    case True
    then obtain xs y x ys where f: "cs = xs @ y # x # ys" "n \<le> snd x"
      "malloc_loop os (of_nat n) (freep s) (hptr (u_mem s) (freep s)) s w = malloc_loop os (of_nat n) (of_nat (fst y)) (of_nat (fst x)) s w"
      using seek leD by blast
    then show ?thesis using malloc_take [OF h f(1) n(1) f(2), of os w] by auto
  next
    case False
    then have more: "malloc_loop os (of_nat n) (freep s) (hptr (u_mem s) (freep s)) s w = Option.bind (morecore os (of_nat n) s w) (\<lambda>(p, s, w).
        if p = 0 then Some (0, s, w) else malloc_loop os (of_nat n) p (hptr (u_mem s) p) s w)"
      using seek in_set_conv_decomp by fastforce
    obtain p s' w' cs' where m: "morecore os (of_nat n) s w = Some (p, s', w')" "heap_ok base (brk w') s' cs' L" "keeps L (u_mem s) (u_mem s')"
      "p = 0 \<or> p \<noteq> 0 \<and> p = freep s' \<and> (\<exists>z \<in> set cs'. n \<le> snd z)"
      using morecore_ok [OF h b n] by blast
    show ?thesis
    proof (cases "p = 0")
      case True
      then show ?thesis using m more by auto
    next
      case False
      then have p: "p = freep s'" "\<exists>x \<in> set cs'. n \<le> snd x" using m(4) by auto
      obtain z' where z': "free_list base (u_mem s') cs'" "z' \<in> set cs'" "freep s' = of_nat (fst z')" using m(2) by (auto simp: heap_ok_def)
      obtain xs y x ys where f: "cs' = xs @ y # x # ys" "n \<le> snd x"
        "malloc_loop os (of_nat n) (freep s') (hptr (u_mem s') (freep s')) s' w' = malloc_loop os (of_nat n) (of_nat (fst y)) (of_nat (fst x)) s' w'"
        using malloc_seek [OF z' n(1) n32, of os w'] p(2) leD by blast
      obtain r t where t: "malloc_loop os (of_nat n) (of_nat (fst y)) (of_nat (fst x)) s' w' = Some (r, t, w')" "takes base (brk w') s' L n r t"
        using malloc_take [OF m(2) f(1) n(1) f(2), of os w'] by blast
      then have "takes base (brk w') s L n r t" using m(3) unfolding takes_def by (blast intro: keeps_trans)
      then show ?thesis using more m(1) p(1) f(3) t(1) False by auto
    qed
  qed
qed

definition units :: "nat \<Rightarrow> nat" where
  "units k = (k + 7) div 8 + 1"

lemma malloc_ok:
  fixes os :: "'w calls"
  assumes h: "hs_ok base (brk w) s L" and b: "sbrk_ok os brk" and k: "unat nbytes + 24 \<le> 2 ^ 31"
  defines "n \<equiv> units (unat nbytes)"
  shows "\<exists>r s' w'. malloc os (of_nat base) nbytes s w = Some (r, s', w') \<and> keeps L (u_mem s) (u_mem s') \<and>
    (r = 0 \<and> hs_ok base (brk w') s' L \<or> (\<exists>a. r = of_nat (a + 8) \<and> (a, n) \<notin> L \<and> (\<exists>cs. heap_ok base (brk w') s' cs (insert (a, n) L))))"
proof -
  have "unat (nbytes + 8 - 1) = unat nbytes + 7" using k by (simp add: unat_word_ariths)
  then have "unat ((nbytes + 8 - 1) div 8 + 1) = n"
    using k by (simp add: n_def units_def unat_word_ariths unat_div)
  then have nn: "(nbytes + 8 - 1) div 8 + 1 = of_nat n" using unat_less32 [of "(nbytes + 8 - 1) div 8 + 1"] by (subst u32_eq_of_nat) auto
  have n: "1 \<le> n" "8 * n < 2 ^ 31" using k by (auto simp: n_def units_def)
  define t where "t = (if freep s = 0 then s\<lparr>u_mem := set_hsize (of_nat base) 0 (set_hptr (of_nat base) (of_nat base) (u_mem s)), freep := of_nat base\<rparr> else s)"
  have "\<exists>cs. heap_ok base (brk w) t cs L \<and> keeps L (u_mem s) (u_mem t)"
  proof (cases "freep s = 0")
    case True
    then have "L = {}" "0 < base" "base + 8 \<le> brk w" "brk w \<le> 2 ^ 31" using h freep_nonzero by (auto simp: hs_ok_def)
    then show ?thesis using heap_init [of base "brk w" s] True by (auto simp: t_def keeps_def)
  next
    case False
    then show ?thesis using h by (simp add: hs_ok_def t_def)
  qed
  then obtain cs where t: "heap_ok base (brk w) t cs L" "keeps L (u_mem s) (u_mem t)" by blast
  obtain r s' w' where r: "malloc_loop os (of_nat n) (freep t) (hptr (u_mem t) (freep t)) t w = Some (r, s', w')"
    "r = 0 \<and> (\<exists>cs. heap_ok base (brk w') s' cs L) \<and> keeps L (u_mem t) (u_mem s') \<or> takes base (brk w') t L n r s'"
    using malloc_loop_ok [OF t(1) b n] by blast
  have "malloc os (of_nat base) nbytes s w = Some (r, s', w')"
    unfolding malloc_def nn Let_def t_def [symmetric] using r(1) .
  moreover have "keeps L (u_mem s) (u_mem s')" using r(2) t(2) unfolding takes_def by (blast intro: keeps_trans)
  moreover have "r = 0 \<and> hs_ok base (brk w') s' L \<or> (\<exists>a. r = of_nat (a + 8) \<and> (a, n) \<notin> L \<and> (\<exists>cs. heap_ok base (brk w') s' cs (insert (a, n) L)))"
    using r(2) unfolding takes_def hs_ok_def by (simp add: add.commute) blast
  ultimately show ?thesis by blast
qed

section \<open>A program and its heap\<close>

text \<open>
  A program calls malloc and free and stores bytes. \<open>live\<close> are the blocks it holds, with the length it asked for; \<open>stored\<close> is what
  it stored in them and not freed since. A free of a pointer it does not hold and a store outside its blocks are not made.
\<close>

datatype heap_op = Malloc u32 | Free u32 | Store u32 u8

record 'w client =
  live :: "(u32 \<times> nat) list"
  stored :: "u32 \<rightharpoonup> u8"
  heap :: umem
  world :: 'w

definition payload :: "u32 \<times> nat \<Rightarrow> nat set" where
  "payload x = {unat (fst x) ..< unat (fst x) + snd x}"

fun heap_step :: "'w calls \<Rightarrow> nat \<Rightarrow> heap_op \<Rightarrow> 'w client \<Rightarrow> 'w client option" where
  "heap_step os base (Malloc n) c =
     (case malloc os (of_nat base) n (heap c) (world c) of None \<Rightarrow> None
      | Some (r, s, w) \<Rightarrow> Some (c\<lparr>live := (if r = 0 then live c else (r, unat n) # live c), heap := s, world := w\<rparr>))"
| "heap_step os base (Free r) c =
     (case find (\<lambda>x. fst x = r) (live c) of None \<Rightarrow> Some c
      | Some x \<Rightarrow> (case free r (heap c) of None \<Rightarrow> None
         | Some s \<Rightarrow> Some (c\<lparr>live := filter (\<lambda>y. y \<noteq> x) (live c), stored := (\<lambda>a. if unat a \<in> payload x then None else stored c a), heap := s\<rparr>)))"
| "heap_step os base (Store a v) c =
     (if \<exists>x \<in> set (live c). unat a \<in> payload x
      then Some (c\<lparr>stored := (stored c)(a \<mapsto> v), heap := (heap c)\<lparr>u_mem := (u_mem (heap c))(a := v)\<rparr>\<rparr>) else Some c)"

fun heap_run :: "'w calls \<Rightarrow> nat \<Rightarrow> heap_op list \<Rightarrow> 'w client \<Rightarrow> 'w client option" where
  "heap_run os base [] c = Some c"
| "heap_run os base (p # ps) c = Option.bind (heap_step os base p c) (heap_run os base ps)"

definition block :: "u32 \<times> nat \<Rightarrow> nat \<times> nat" where
  "block x = (unat (fst x) - 8, units (snd x))"

definition client_ok :: "('w \<Rightarrow> nat) \<Rightarrow> nat \<Rightarrow> 'w client \<Rightarrow> bool" where
  "client_ok brk base c \<longleftrightarrow> hs_ok base (brk (world c)) (heap c) (block ` set (live c)) \<and> inj_on block (set (live c)) \<and>
     distinct (live c) \<and> (\<forall>x \<in> set (live c). 8 \<le> unat (fst x)) \<and>
     (\<forall>a v. stored c a = Some v \<longrightarrow> u_mem (heap c) a = v \<and> (\<exists>x \<in> set (live c). unat a \<in> payload x))"

lemma payload_block: "8 \<le> unat (fst x) \<Longrightarrow> payload x \<subseteq> bytes_of (block x) \<and> payload x \<inter> {fst (block x) ..< fst (block x) + 8} = {}"
  unfolding payload_def bytes_of_def block_def units_def by auto

lemma heap_of_client:
  assumes "client_ok brk base c" "x \<in> set (live c)"
  obtains cs where "heap_ok base (brk (world c)) (heap c) cs (block ` set (live c))"
  using assms by (auto simp: client_ok_def hs_ok_def)

lemma client_apart:
  assumes c: "client_ok brk base c" and x: "x \<in> set (live c)" "y \<in> set (live c)" "x \<noteq> y"
  shows "bytes_of (block x) \<inter> bytes_of (block y) = {}" "fst x \<noteq> fst y"
proof -
  obtain cs where h: "heap_ok base (brk (world c)) (heap c) cs (block ` set (live c))" using heap_of_client [OF c x(1)] .
  have "block x \<noteq> block y" using c x by (auto simp: client_ok_def inj_on_def)
  then show d: "bytes_of (block x) \<inter> bytes_of (block y) = {}"
    using h x(1,2) unfolding heap_ok_def live_ok_def by blast
  show "fst x \<noteq> fst y"
  proof
    assume "fst x = fst y"
    then have "fst (block x) \<in> bytes_of (block x) \<inter> bytes_of (block y)" by (simp add: block_def bytes_of_def units_def)
    with d show False by blast
  qed
qed

lemma client_image:
  "client_ok brk base c \<Longrightarrow> stored c a = Some v \<Longrightarrow> u_mem (heap c) a = v \<and> (\<exists>x \<in> set (live c). unat a \<in> payload x)"
  unfolding client_ok_def by blast

lemma image_kept:
  assumes c: "client_ok brk base c" and k: "keeps (block ` S) (u_mem (heap c)) m'" and a: "stored c a = Some v"
    and x: "x \<in> S" "x \<in> set (live c)" "unat a \<in> payload x"
  shows "m' a = v"
proof -
  have "8 \<le> unat (fst x)" using c x(2) by (simp add: client_ok_def)
  then have "unat a \<in> bytes_of (block x)" using payload_block [of x] x(3) by blast
  then have "m' (of_nat (unat a)) = u_mem (heap c) (of_nat (unat a))" using k x(1) unfolding keeps_def by blast
  then show ?thesis using c a by (simp add: client_ok_def)
qed

lemma client_malloc:
  assumes c: "client_ok brk base c" and b: "sbrk_ok os brk" and n: "unat n + 24 \<le> 2 ^ 31"
  shows "\<exists>c'. heap_step os base (Malloc n) c = Some c' \<and> client_ok brk base c'"
proof -
  let ?L = "block ` set (live c)"
  obtain r s w where m: "malloc os (of_nat base) n (heap c) (world c) = Some (r, s, w)" "keeps ?L (u_mem (heap c)) (u_mem s)"
    "r = 0 \<and> hs_ok base (brk w) s ?L \<or>
     (\<exists>a. r = of_nat (a + 8) \<and> (a, units (unat n)) \<notin> ?L \<and> (\<exists>cs. heap_ok base (brk w) s cs (insert (a, units (unat n)) ?L)))"
    using malloc_ok [of base brk "world c" "heap c" ?L os n] c b n unfolding client_ok_def by blast
  have img: "u_mem s a = v \<and> (\<exists>x \<in> set (live c). unat a \<in> payload x)" if "stored c a = Some v" for a v
    using client_image [OF c that] image_kept [OF c m(2) that] by blast
  show ?thesis
    using m(3)
  proof
    assume "r = 0 \<and> hs_ok base (brk w) s ?L"
    then show ?thesis using m(1) c img by (simp add: client_ok_def)
  next
    assume "\<exists>a. r = of_nat (a + 8) \<and> (a, units (unat n)) \<notin> ?L \<and> (\<exists>cs. heap_ok base (brk w) s cs (insert (a, units (unat n)) ?L))"
    then obtain a cs where a: "r = of_nat (a + 8)" "(a, units (unat n)) \<notin> ?L" "heap_ok base (brk w) s cs (insert (a, units (unat n)) ?L)"
      by blast
    have "a + 8 * units (unat n) \<le> 2 ^ 31" using a(3) by (auto simp: heap_ok_def live_ok_def)
    then have "unat r = a + 8" unfolding a(1) by (intro unat_of_nat32) (simp add: units_def)
    then have r: "r \<noteq> 0" "8 \<le> unat r" "block (r, unat n) = (a, units (unat n))" by (auto simp: block_def)
    have "(r, unat n) \<notin> set (live c)" using a(2) r(3) by (metis image_eqI)
    then have "inj_on block (set ((r, unat n) # live c))" "distinct ((r, unat n) # live c)"
      using c a(2) r(3) by (auto simp: client_ok_def)
    then show ?thesis
      using m(1) c img r a(3) by (auto simp: client_ok_def hs_ok_def)
  qed
qed

lemma client_free:
  assumes c: "client_ok brk base c"
  shows "\<exists>c'. heap_step os base (Free r) c = Some c' \<and> client_ok brk base c'"
proof (cases "find (\<lambda>x. fst x = r) (live c)")
  case None
  then show ?thesis using c by simp
next
  case (Some x)
  then have x: "x \<in> set (live c)" "fst x = r" by (auto simp: find_Some_iff)
  let ?L = "block ` set (live c)" and ?live = "filter (\<lambda>y. y \<noteq> x) (live c)"
  obtain cs where h: "heap_ok base (brk (world c)) (heap c) cs ?L" using heap_of_client [OF c x(1)] .
  have r: "8 \<le> unat r" using c x by (auto simp: client_ok_def)
  then have "of_nat (fst (block x)) + 8 = (of_nat (unat r) :: u32)" by (simp add: block_def x(2) of_nat_diff)
  then have fr: "of_nat (fst (block x)) + 8 = r" by simp
  have inj: "inj_on block (set (live c))" using c by (simp add: client_ok_def)
  then have rest: "block ` set ?live = ?L - {block x}" using x(1) by (auto simp: inj_on_def)
  obtain cs' s where f: "free r (heap c) = Some s" "heap_ok base (brk (world c)) s cs' (block ` set ?live)"
    "keeps (block ` set ?live) (u_mem (heap c)) (u_mem s)"
    using free_ok [OF h, of "block x"] x(1) unfolding fr rest by blast
  have img: "u_mem s a = v \<and> (\<exists>y \<in> set ?live. unat a \<in> payload y)" if "stored c a = Some v" "unat a \<notin> payload x" for a v
  proof -
    obtain y where y: "y \<in> set (live c)" "unat a \<in> payload y" using client_image [OF c \<open>stored c a = Some v\<close>] by blast
    then have "y \<in> set ?live" using that(2) by auto
    then show ?thesis using image_kept [OF c f(3) that(1) _ y(1,2)] y(2) by blast
  qed
  have "inj_on block (set ?live)" using inj by (rule inj_on_subset) auto
  then show ?thesis
    using Some x f c img by (auto simp: client_ok_def hs_ok_def)
qed

lemma hdr_byte:
  assumes "unat x < b \<or> b + 8 \<le> unat x" "b + 8 \<le> 2 ^ 32"
  shows "hptr (m(x := v)) (of_nat b) = hptr m (of_nat b)" "hsize (m(x := v)) (of_nat b) = hsize m (of_nat b)"
proof -
  have "(m(x := v)) (of_nat (b + k)) = m (of_nat (b + k))" if "k < 8" for k
  proof -
    have "unat (of_nat (b + k) :: u32) = b + k" using that assms(2) by (intro unat_of_nat32) simp
    then have "of_nat (b + k) \<noteq> x" using assms(1) that by auto
    then show ?thesis by simp
  qed
  then show "hptr (m(x := v)) (of_nat b) = hptr m (of_nat b)" "hsize (m(x := v)) (of_nat b) = hsize m (of_nat b)"
    by (rule header_cong, blast)+
qed

lemma heap_store:
  assumes h: "heap_ok base hi s cs L" and x: "x \<in> L" and a: "unat a \<in> bytes_of x" "fst x + 8 \<le> unat a"
  shows "heap_ok base hi (s\<lparr>u_mem := (u_mem s)(a := v)\<rparr>) cs L"
proof -
  have l: "free_list base (u_mem s) cs" "live_ok base hi (u_mem s) (cov cs) L" "hi \<le> 2 ^ 31" using h by (auto simp: heap_ok_def)
  have hdr: "hptr ((u_mem s)(a := v)) (of_nat b) = hptr (u_mem s) (of_nat b)" "hsize ((u_mem s)(a := v)) (of_nat b) = hsize (u_mem s) (of_nat b)"
    if "bytes_of x \<inter> {b ..< b + 8} = {} \<or> b = fst x" "b + 8 \<le> 2 ^ 32" for b
    using that a by (intro hdr_byte; auto)+
  have "chain ((u_mem s)(a := v)) base cs = chain (u_mem s) base cs"
  proof (rule chain_cong)
    fix z assume z: "z \<in> set cs"
    have "fst z + 8 \<le> 2 ^ 32" using block_low [of cs z] z l(1) by (simp add: free_list_def)
    then show "hptr ((u_mem s)(a := v)) (of_nat (fst z)) = hptr (u_mem s) (of_nat (fst z)) \<and>
        hsize ((u_mem s)(a := v)) (of_nat (fst z)) = hsize (u_mem s) (of_nat (fst z))"
      using heap_headers(1) [OF h x z] hdr by blast
  qed
  then have "free_list base ((u_mem s)(a := v)) cs" using l(1) by (simp add: free_list_def)
  moreover have "hsize ((u_mem s)(a := v)) (of_nat (fst y)) = hsize (u_mem s) (of_nat (fst y))" if "y \<in> L" for y
    using heap_headers(2) [OF h x, of y] that l(2,3) by (intro hdr) (auto simp: live_ok_def)
  then have "live_ok base hi ((u_mem s)(a := v)) (cov cs) L" using l(2) by (simp add: live_ok_def)
  ultimately show ?thesis using h by (simp add: heap_ok_def)
qed

lemma client_store:
  assumes c: "client_ok brk base c"
  shows "\<exists>c'. heap_step os base (Store a v) c = Some c' \<and> client_ok brk base c'"
proof (cases "\<exists>x \<in> set (live c). unat a \<in> payload x")
  case True
  then obtain x where x: "x \<in> set (live c)" "unat a \<in> payload x" by blast
  obtain cs where h: "heap_ok base (brk (world c)) (heap c) cs (block ` set (live c))" using heap_of_client [OF c x(1)] .
  have "8 \<le> unat (fst x)" using c x(1) by (simp add: client_ok_def)
  then have "unat a \<in> bytes_of (block x)" "fst (block x) + 8 \<le> unat a"
    using payload_block [of x] x(2) by (auto simp: block_def payload_def)
  then have "heap_ok base (brk (world c)) ((heap c)\<lparr>u_mem := (u_mem (heap c))(a := v)\<rparr>) cs (block ` set (live c))"
    using heap_store [OF h] x(1) by blast
  then show ?thesis
    using True c x by (auto simp: client_ok_def hs_ok_def)
next
  case False
  then show ?thesis using c by simp
qed

lemma client_run:
  assumes "client_ok brk base c" "sbrk_ok os brk" "\<And>n. Malloc n \<in> set ps \<Longrightarrow> unat n + 24 \<le> 2 ^ 31"
  shows "\<exists>c'. heap_run os base ps c = Some c' \<and> client_ok brk base c'"
  using assms(1,3)
proof (induction ps arbitrary: c)
  case (Cons p ps)
  have "\<exists>c'. heap_step os base p c = Some c' \<and> client_ok brk base c'"
    using client_malloc [OF Cons.prems(1) assms(2)] client_free [OF Cons.prems(1)] client_store [OF Cons.prems(1)] Cons.prems(2)
    by (cases p) auto
  then obtain c' where "heap_step os base p c = Some c'" "client_ok brk base c'" by blast
  with Cons.IH [of c'] Cons.prems(2) show ?case by simp
qed simp

text \<open>
  C27. Memory from malloc is private. Let a program call malloc and free in any order and store into the blocks it holds, with
  sizes below 2 GB, in a process whose end sbrk moves as documented. Then every call returns; the blocks it holds at any time are
  distinct, lie between the static data and the end of the process, have the length asked for and do not overlap; and
  every byte it stored in a block it still holds is still there.
\<close>

theorem malloc_private_memory:
  fixes os :: "'w calls"
  assumes "sbrk_ok os brk" and "freep s = 0" and "0 < base" "base + 8 \<le> brk w" "brk w \<le> 2 ^ 31"
    and "\<And>n. Malloc n \<in> set ps \<Longrightarrow> unat n + 24 \<le> 2 ^ 31"
  shows "\<exists>c. heap_run os base ps \<lparr>live = [], stored = Map.empty, heap = s, world = w\<rparr> = Some c \<and> distinct (live c) \<and>
    (\<forall>x \<in> set (live c). base + 8 \<le> unat (fst x) \<and> unat (fst x) + snd x \<le> brk (world c) \<and> brk (world c) \<le> 2 ^ 31) \<and>
    (\<forall>x \<in> set (live c). \<forall>y \<in> set (live c). x \<noteq> y \<longrightarrow> payload x \<inter> payload y = {}) \<and>
    (\<forall>a v. stored c a = Some v \<longrightarrow> u_mem (heap c) a = v)"
proof -
  have "client_ok brk base \<lparr>live = [], stored = Map.empty, heap = s, world = w\<rparr>"
    using assms(2-5) by (simp add: client_ok_def hs_ok_def)
  from client_run [OF this assms(1,6)]
  obtain c where run: "heap_run os base ps \<lparr>live = [], stored = Map.empty, heap = s, world = w\<rparr> = Some c" and c: "client_ok brk base c"
    by blast
  have eight: "8 \<le> unat (fst x)" if "x \<in> set (live c)" for x using c that by (simp add: client_ok_def)
  have bounds: "base + 8 \<le> unat (fst x) \<and> unat (fst x) + snd x \<le> brk (world c) \<and> brk (world c) \<le> 2 ^ 31" if x: "x \<in> set (live c)" for x
  proof -
    obtain cs where h: "heap_ok base (brk (world c)) (heap c) cs (block ` set (live c))" using heap_of_client [OF c x] .
    then have "base + 8 \<le> fst (block x)" "fst (block x) + 8 * snd (block x) \<le> brk (world c)" "brk (world c) \<le> 2 ^ 31"
      using x unfolding heap_ok_def live_ok_def by blast+
    then show ?thesis using eight [OF x] by (auto simp: block_def units_def)
  qed
  have "payload x \<inter> payload y = {}" if "x \<in> set (live c)" "y \<in> set (live c)" "x \<noteq> y" for x y
    using client_apart(1) [OF c that] payload_block [OF eight [OF that(1)]] payload_block [OF eight [OF that(2)]] by blast
  moreover have "distinct (live c)" using c by (simp add: client_ok_def)
  ultimately show ?thesis using run bounds client_image [OF c] by blast
qed

text \<open>A process that may grow to 1 MB: the world is its end.\<close>

definition brk_calls :: "nat calls" where
  "brk_calls = \<lparr>u_read = (\<lambda>fd n w. (Some [], w)), u_write = (\<lambda>fd bs w. (int (length bs), w)),
     u_open = (\<lambda>name mode w. (-1, w)), u_close = (\<lambda>fd w. (0, w)), u_fstat = (\<lambda>fd w. (None, w)), u_name = (\<lambda>call names w. (-1, w)),
     u_num = (\<lambda>call args w. if call = ''sbrk'' \<and> w + nat (hd args) \<le> 1048576 then (int w, w + nat (hd args)) else (-1, w)),
     u_exec = (\<lambda>path argv w. (False, w)), u_pipe = (\<lambda>w. (None, w))\<rparr>"

theorem malloc_private_memory_witness:
  "sbrk_ok brk_calls (\<lambda>w. w) \<and>
   (\<exists>c. heap_run brk_calls 4096 [Malloc 10, Malloc 5000, Store 45024 7, Free 45048, Malloc 3]
      \<lparr>live = [], stored = Map.empty, heap = \<lparr>u_mem = (\<lambda>_. 0), freep = 0\<rparr>, world = 12288\<rparr> = Some c \<and>
     (\<forall>x \<in> set (live c). \<forall>y \<in> set (live c). x \<noteq> y \<longrightarrow> payload x \<inter> payload y = {}))"
proof -
  have b: "sbrk_ok brk_calls (\<lambda>w. w)" by (auto simp: sbrk_ok_def brk_calls_def)
  show ?thesis
    using b malloc_private_memory [OF b, of "\<lparr>u_mem = (\<lambda>_. 0), freep = 0\<rparr>" 4096 12288
        "[Malloc 10, Malloc 5000, Store 45024 7, Free 45048, Malloc 3]"] by fastforce
qed

section \<open>A size that wraps around\<close>

text \<open>The last seven sizes of 32 bits round up to zero: malloc takes them for an empty block.\<close>

lemma malloc_huge:
  assumes "2 ^ 32 - 7 \<le> unat nbytes"
  shows "malloc os base nbytes s w = malloc os base 0 s w"
proof -
  have "unat (nbytes + 8 - 1) < 8"
    using assms unat_less32 [of nbytes] by (auto simp: unat_word_ariths mod_if)
  then have "(nbytes + 8 - 1) div 8 = 0" by (simp add: unat_eq_zero [symmetric] unat_div)
  then show ?thesis by (simp add: malloc_def)
qed

end
