(* ===== verification/Ide.thy ===== *)
theory Ide
  imports Bio
begin

text \<open>
  The driver of the IDE disk (ide.c), the disk of a kernel that is not built with memide.c. The controller is reached through
  ports; what the port instructions inb, outb, insl and outsl do to it is an argument of the routines, a record of functions on
  the state \<open>'h\<close> of the controller. idewait polls until the disk is ready; a poll that never ends is \<open>Spin\<close>.
\<close>

section \<open>Data\<close>

record 'h ide_ports =
  in_b :: "u32 \<Rightarrow> 'h \<Rightarrow> u8 \<times> 'h"
  out_b :: "u32 \<Rightarrow> u8 \<Rightarrow> 'h \<Rightarrow> 'h"
  in_sl :: "u32 \<Rightarrow> nat \<Rightarrow> 'h \<Rightarrow> u8 list \<times> 'h"
  out_sl :: "u32 \<Rightarrow> u8 list \<Rightarrow> 'h \<Rightarrow> 'h"

record 'h ide_st = bio_st +
  idelock :: spinlock
  idequeue :: "nat option"
  havedisk1 :: int
  ide_hw :: 'h

abbreviation (input) SECTOR_SIZE :: nat where "SECTOR_SIZE \<equiv> 512"
abbreviation (input) FSSIZE :: u32 where "FSSIZE \<equiv> 1000"

definition put_idelock :: "spinlock \<Rightarrow> ('h, 'a) ide_st_scheme \<Rightarrow> ('h, 'a) ide_st_scheme" where
  "put_idelock l s = s\<lparr>idelock := l\<rparr>"

abbreviation acquire_ide :: "('h, 'a) ide_st_scheme \<Rightarrow> ('h, 'a) ide_st_scheme stop + ('h, 'a) ide_st_scheme" where
  "acquire_ide \<equiv> acquire_at idelock put_idelock"

abbreviation release_ide :: "('h, 'a) ide_st_scheme \<Rightarrow> ('h, 'a) ide_st_scheme stop + ('h, 'a) ide_st_scheme" where
  "release_ide \<equiv> release_at idelock put_idelock"

section \<open>Waiting for the disk\<close>

text \<open>\<open>IDE_BSY | IDE_DRDY\<close> is 0xC0, \<open>IDE_DRDY\<close> 0x40, \<open>IDE_DF | IDE_ERR\<close> 0x21.\<close>

partial_function (option) ide_poll :: "'h ide_ports \<Rightarrow> 'h \<Rightarrow> (u8 \<times> 'h) option" where
  "ide_poll io h = (case in_b io 0x1f7 h of (r, h) \<Rightarrow> if r AND 0xC0 = 0x40 then Some (r, h) else ide_poll io h)"

definition idewait :: "'h ide_ports \<Rightarrow> bool \<Rightarrow> ('h, 'a) ide_st_scheme \<Rightarrow>
    ('h, 'a) ide_st_scheme stop + int \<times> ('h, 'a) ide_st_scheme" where
  "idewait io checkerr s = (case ide_poll io (ide_hw s) of None \<Rightarrow> Inl Spin
     | Some (r, h) \<Rightarrow> Inr (if checkerr \<and> r AND 0x21 \<noteq> 0 then -1 else 0, s\<lparr>ide_hw := h\<rparr>))"

text \<open>The search for disk 1, at most 1000 times; ioapicenable before it only routes the interrupt.\<close>

fun ide_probe :: "nat \<Rightarrow> 'h ide_ports \<Rightarrow> 'h \<Rightarrow> bool \<times> 'h" where
  "ide_probe 0 io h = (False, h)"
| "ide_probe (Suc n) io h = (case in_b io 0x1f7 h of (r, h) \<Rightarrow> if r \<noteq> 0 then (True, h) else ide_probe n io h)"

definition ideinit :: "'h ide_ports \<Rightarrow> ('h, 'a) ide_st_scheme \<Rightarrow> ('h, 'a) ide_st_scheme stop + ('h, 'a) ide_st_scheme" where
  "ideinit io s =
     seq (idewait io False (s\<lparr>idelock := initlock ''ide''\<rparr>)) (\<lambda>(_, s).
     let (found, h) = ide_probe 1000 io (out_b io 0x1f6 (0xe0 OR push_bit 4 1) (ide_hw s));
         s = (if found then s\<lparr>havedisk1 := 1\<rparr> else s)
     in Inr (s\<lparr>ide_hw := out_b io 0x1f6 (0xe0 OR push_bit 4 0) h\<rparr>))"

section \<open>Requests\<close>

text \<open>What idestart sends once the disk is ready.\<close>

definition ide_issue :: "'h ide_ports \<Rightarrow> buf \<Rightarrow> 'h \<Rightarrow> 'h" where
  "ide_issue io b h =
     (let sector_per_block = BSIZE div SECTOR_SIZE;
          sector = b_blockno b * of_nat sector_per_block;
          read_cmd = (if sector_per_block = 1 then 0x20 else 0xc4);
          write_cmd = (if sector_per_block = 1 then 0x30 else 0xc5);
          h = out_b io 0x3f6 0 h;
          h = out_b io 0x1f2 (of_nat sector_per_block) h;
          h = out_b io 0x1f3 (ucast (sector AND 0xff)) h;
          h = out_b io 0x1f4 (ucast (drop_bit 8 sector AND 0xff)) h;
          h = out_b io 0x1f5 (ucast (drop_bit 16 sector AND 0xff)) h;
          h = out_b io 0x1f6 (ucast (0xe0 OR push_bit 4 (b_dev b AND 1) OR (drop_bit 24 sector AND 0x0f))) h
      in if b_flags b AND B_DIRTY \<noteq> 0 then out_sl io 0x1f0 (b_data b) (out_b io 0x1f7 write_cmd h)
         else out_b io 0x1f7 read_cmd h)"

definition idestart :: "'h ide_ports \<Rightarrow> nat option \<Rightarrow> ('h, 'a) ide_st_scheme \<Rightarrow>
    ('h, 'a) ide_st_scheme stop + ('h, 'a) ide_st_scheme" where
  "idestart io b s = (case b of None \<Rightarrow> Inl (Panic ''idestart'')
     | Some b \<Rightarrow>
         if b_blockno (bufs s b) \<ge> FSSIZE then Inl (Panic ''incorrect blockno'')
         else if BSIZE div SECTOR_SIZE > 7 then Inl (Panic ''idestart'')
         else seq (idewait io False s) (\<lambda>(_, s). Inr (s\<lparr>ide_hw := ide_issue io (bufs s b) (ide_hw s)\<rparr>)))"

definition ideintr :: "'h ide_ports \<Rightarrow> ('h, 'a) ide_st_scheme \<Rightarrow> ('h, 'a) ide_st_scheme stop + ('h, 'a) ide_st_scheme" where
  "ideintr io s =
     seq (acquire_ide s) (\<lambda>s. case idequeue s of None \<Rightarrow> release_ide s
     | Some b \<Rightarrow>
         let s = s\<lparr>idequeue := b_qnext (bufs s b)\<rparr>
         in seq (if b_flags (bufs s b) AND B_DIRTY = 0
                 then seq (idewait io True s) (\<lambda>(r, s).
                   if r \<ge> 0 then let (bs, h) = in_sl io 0x1f0 (BSIZE div 4) (ide_hw s)
                                 in Inr (upd_buf b (\<lambda>x. x\<lparr>b_data := bs\<rparr>) (s\<lparr>ide_hw := h\<rparr>))
                   else Inr s)
                 else Inr s) (\<lambda>s.
            let s = upd_buf b (\<lambda>x. x\<lparr>b_flags := b_flags x OR B_VALID\<rparr>) s;
                s = upd_buf b (\<lambda>x. x\<lparr>b_flags := b_flags x AND NOT B_DIRTY\<rparr>) s
            in seq (wakeup (Ch_buf b) s) (\<lambda>s.
               seq (if idequeue s \<noteq> None then idestart io (idequeue s) s else Inr s) release_ide)))"

text \<open>The loop over the queue in iderw: the buffer whose \<open>qnext\<close> is null.\<close>

partial_function (option) ide_last :: "(nat \<Rightarrow> buf) \<Rightarrow> nat \<Rightarrow> nat option" where
  "ide_last B c = (case b_qnext (B c) of None \<Rightarrow> Some c | Some d \<Rightarrow> ide_last B d)"

definition ide_append :: "nat \<Rightarrow> ('h, 'a) ide_st_scheme \<Rightarrow> ('h, 'a) ide_st_scheme stop + ('h, 'a) ide_st_scheme" where
  "ide_append b s = (case idequeue s of None \<Rightarrow> Inr (s\<lparr>idequeue := Some b\<rparr>)
     | Some c \<Rightarrow> (case ide_last (bufs s) c of None \<Rightarrow> Inl Spin
        | Some l \<Rightarrow> Inr (upd_buf l (\<lambda>x. x\<lparr>b_qnext := Some b\<rparr>) s)))"

definition ide_await :: "nat \<Rightarrow> ('h, 'a) ide_st_scheme \<Rightarrow> ('h, 'a) ide_st_scheme stop + ('h, 'a) ide_st_scheme" where
  "ide_await b s = (if b_flags (bufs s b) AND (B_VALID OR B_DIRTY) \<noteq> B_VALID then sleep (Ch_buf b) (Some (idelock, put_idelock)) s
     else release_ide s)"

text \<open>iderw of ide.c; \<open>ide_rw_resume\<close> is the rest of it after the sleep.\<close>

definition ide_rw :: "'h ide_ports \<Rightarrow> nat \<Rightarrow> ('h, 'a) ide_st_scheme \<Rightarrow> ('h, 'a) ide_st_scheme stop + ('h, 'a) ide_st_scheme" where
  "ide_rw io b s =
     seq (holdingsleep (get_buflock b) (put_buflock b) s) (\<lambda>(h, s).
     if \<not> h then Inl (Panic ''iderw: buf not locked'')
     else if b_flags (bufs s b) AND (B_VALID OR B_DIRTY) = B_VALID then Inl (Panic ''iderw: nothing to do'')
     else if b_dev (bufs s b) \<noteq> 0 \<and> havedisk1 s = 0 then Inl (Panic ''iderw: ide disk 1 not present'')
     else
       seq (acquire_ide s) (\<lambda>s.
       seq (ide_append b (upd_buf b (\<lambda>x. x\<lparr>b_qnext := None\<rparr>) s)) (\<lambda>s.
       seq (if idequeue s = Some b then idestart io (Some b) s else Inr s) (ide_await b))))"

definition ide_rw_resume :: "bool \<Rightarrow> nat \<Rightarrow> nat \<Rightarrow> ('h, 'a) ide_st_scheme \<Rightarrow> ('h, 'a) ide_st_scheme stop + ('h, 'a) ide_st_scheme" where
  "ide_rw_resume intena p b s = seq (sleep_resume intena p (Some (idelock, put_idelock)) s) (ide_await b)"

end
