(* ===== verification/Ide_Props.thy ===== *)
theory Ide_Props
  imports Ide Machine Bio_Ops
begin

text \<open>
  The queue of the IDE driver (ide.c): requests are served in the order in which they were made, each with the effect that
  iderw of memide.c has, and the process that waits for a request is woken when it is done.
\<close>

section \<open>The controller\<close>

text \<open>
  What the driver relies on of the controller, in terms of the bytes last written to its registers, the command in progress and
  the contents of the two disks: a register keeps what is written to it; a command takes disk and sector from the registers; the
  words written after a write command become the sector; the words read after a read command are the sector; the disk gets
  ready, without an error.
\<close>

datatype ide_cmd = No_cmd | Reading u32 u32 | Writing u32 u32

type_synonym disks = "u32 \<Rightarrow> u32 \<Rightarrow> u8 list"

record 'h ide_view =
  v_reg :: "'h \<Rightarrow> u32 \<Rightarrow> u8"
  v_cmd :: "'h \<Rightarrow> ide_cmd"
  v_disk :: "'h \<Rightarrow> disks"

definition sel_dev :: "(u32 \<Rightarrow> u8) \<Rightarrow> u32" where
  "sel_dev r = ucast (drop_bit 4 (r 0x1f6) AND 1)"

definition sel_sector :: "(u32 \<Rightarrow> u8) \<Rightarrow> u32" where
  "sel_sector r = ucast (r 0x1f3) OR push_bit 8 (ucast (r 0x1f4)) OR push_bit 16 (ucast (r 0x1f5)) OR push_bit 24 (ucast (r 0x1f6 AND 0x0f))"

definition controller :: "'h ide_ports \<Rightarrow> 'h ide_view \<Rightarrow> bool" where
  "controller io v \<longleftrightarrow>
     (\<forall>h p x. p \<in> {0x3f6, 0x1f2, 0x1f3, 0x1f4, 0x1f5, 0x1f6} \<longrightarrow> v_reg v (out_b io p x h) = (v_reg v h)(p := x) \<and>
        v_cmd v (out_b io p x h) = v_cmd v h \<and> v_disk v (out_b io p x h) = v_disk v h) \<and>
     (\<forall>h. v_cmd v (out_b io 0x1f7 0x20 h) = Reading (sel_dev (v_reg v h)) (sel_sector (v_reg v h)) \<and>
        v_disk v (out_b io 0x1f7 0x20 h) = v_disk v h) \<and>
     (\<forall>h. v_cmd v (out_b io 0x1f7 0x30 h) = Writing (sel_dev (v_reg v h)) (sel_sector (v_reg v h)) \<and>
        v_disk v (out_b io 0x1f7 0x30 h) = v_disk v h) \<and>
     (\<forall>h d n bs. v_cmd v h = Writing d n \<longrightarrow> length bs = 512 \<longrightarrow>
        v_disk v (out_sl io 0x1f0 bs h) = (v_disk v h)(d := (v_disk v h d)(n := bs))) \<and>
     (\<forall>h d n. v_cmd v h = Reading d n \<longrightarrow> fst (in_sl io 0x1f0 128 h) = v_disk v h d n \<and> v_disk v (snd (in_sl io 0x1f0 128 h)) = v_disk v h) \<and>
     (\<forall>h. \<exists>r h'. ide_poll io h = Some (r, h') \<and> r AND 0x21 = 0 \<and> v_reg v h' = v_reg v h \<and> v_cmd v h' = v_cmd v h \<and> v_disk v h' = v_disk v h)"

section \<open>One request\<close>

definition is_dirty :: "buf \<Rightarrow> bool" where
  "is_dirty x \<longleftrightarrow> b_flags x AND 4 \<noteq> 0"

definition request_ok :: "buf \<Rightarrow> bool" where
  "request_ok x \<longleftrightarrow> b_blockno x < 1000 \<and> b_dev x \<in> {0, 1} \<and> length (b_data x) = 512 \<and> b_flags x AND 6 \<noteq> 2"

definition wr :: "buf \<Rightarrow> disks \<Rightarrow> disks" where
  "wr x d = (if is_dirty x then d(b_dev x := (d (b_dev x))(b_blockno x := b_data x)) else d)"

definition served :: "disks \<Rightarrow> buf \<Rightarrow> buf" where
  "served d x = x\<lparr>b_data := (if is_dirty x then b_data x else d (b_dev x) (b_blockno x)), b_flags := (b_flags x OR 2) AND NOT 4\<rparr>"

text \<open>The requests of a queue one after the other.\<close>

fun serve :: "nat list \<Rightarrow> (nat \<Rightarrow> buf) \<times> disks \<Rightarrow> (nat \<Rightarrow> buf) \<times> disks" where
  "serve [] (B, d) = (B, d)"
| "serve (b # bs) (B, d) = serve bs (B(b := served d (B b)), wr (B b) d)"

text \<open>The request at the head of the queue has been sent to the disk; a write is then on the disk already.\<close>

definition issued :: "'h ide_view \<Rightarrow> 'h \<Rightarrow> buf \<Rightarrow> bool" where
  "issued v h x \<longleftrightarrow> (if is_dirty x then v_disk v h (b_dev x) (b_blockno x) = b_data x else v_cmd v h = Reading (b_dev x) (b_blockno x))"

lemma sector_small:
  fixes n :: u32
  assumes "n < 1000"
  shows "drop_bit 16 n AND 0xff = 0" "drop_bit 24 n AND 0x0f = 0"
    "ucast (ucast (n AND 0xff) :: u8) OR push_bit 8 (ucast (ucast (drop_bit 8 n AND 0xff) :: u8)) = n"
proof -
  have "take_bit 16 n = n"
    using assms by (simp add: word_unat_eq_iff unsigned_take_bit_eq take_bit_nat_eq_self word_less_nat_alt)
  then have small: "bit n i \<Longrightarrow> i < 16" for i by (metis bit_take_bit_iff)
  have m: "(0xff :: u32) = mask 8" "(0x0f :: u32) = mask 4" by (simp_all add: mask_eq_exp_minus_1)
  show "drop_bit 16 n AND 0xff = 0" "drop_bit 24 n AND 0x0f = 0"
    unfolding m by (rule bit_word_eqI, auto simp: bit_simps dest!: small)+
  show "ucast (ucast (n AND 0xff) :: u8) OR push_bit 8 (ucast (ucast (drop_bit 8 n AND 0xff) :: u8)) = n"
    unfolding m by (rule bit_word_eqI) (auto simp: bit_simps dest: small)
qed

lemma issue_ok:
  assumes c: "controller io v" and r: "request_ok x"
  shows "v_disk v (ide_issue io x h) = wr x (v_disk v h)" "issued v (ide_issue io x h) x"
proof -
  let ?n = "b_blockno x"
  define h1 where "h1 = out_b io 0x1f6 (ucast (0xe0 OR push_bit 4 (b_dev x AND 1) OR (drop_bit 24 ?n AND 0x0f)))
    (out_b io 0x1f5 (ucast (drop_bit 16 ?n AND 0xff)) (out_b io 0x1f4 (ucast (drop_bit 8 ?n AND 0xff))
    (out_b io 0x1f3 (ucast (?n AND 0xff)) (out_b io 0x1f2 1 (out_b io 0x3f6 0 h)))))"
  have issue: "ide_issue io x h = (if is_dirty x then out_sl io 0x1f0 (b_data x) (out_b io 0x1f7 0x30 h1) else out_b io 0x1f7 0x20 h1)"
    by (simp add: ide_issue_def h1_def is_dirty_def Let_def)
  have reg: "v_reg v (out_b io p y g) = (v_reg v g)(p := y)" "v_disk v (out_b io p y g) = v_disk v g"
    if "p \<in> {0x3f6, 0x1f2, 0x1f3, 0x1f4, 0x1f5, 0x1f6}" for p y g
    using c that unfolding controller_def by blast+
  have cmds: "v_cmd v (out_b io 0x1f7 0x20 g) = Reading (sel_dev (v_reg v g)) (sel_sector (v_reg v g))" "v_disk v (out_b io 0x1f7 0x20 g) = v_disk v g"
    "v_cmd v (out_b io 0x1f7 0x30 g) = Writing (sel_dev (v_reg v g)) (sel_sector (v_reg v g))" "v_disk v (out_b io 0x1f7 0x30 g) = v_disk v g" for g
    using c unfolding controller_def by blast+
  have bn: "?n < 1000" and dev: "b_dev x = 0 \<or> b_dev x = 1" and len: "length (b_data x) = 512" using r by (auto simp: request_ok_def)
  have "v_disk v h1 = v_disk v h" by (simp add: h1_def reg)
  moreover have "sel_sector (v_reg v h1) = ?n" "sel_dev (v_reg v h1) = b_dev x"
    using sector_small [OF bn] dev by (auto simp: h1_def reg sel_sector_def sel_dev_def)
  moreover have "v_disk v (out_sl io 0x1f0 (b_data x) g) = (v_disk v g)(d := (v_disk v g d)(k := b_data x))" if "v_cmd v g = Writing d k" for g d k
    using c that len unfolding controller_def by blast
  ultimately show "v_disk v (ide_issue io x h) = wr x (v_disk v h)" "issued v (ide_issue io x h) x"
    by (auto simp: issue wr_def issued_def cmds)
qed

section \<open>The queue\<close>

fun qchain :: "(nat \<Rightarrow> buf) \<Rightarrow> nat option \<Rightarrow> nat list \<Rightarrow> bool" where
  "qchain B q [] = (q = None)"
| "qchain B q (b # bs) = (q = Some b \<and> qchain B (b_qnext (B b)) bs)"

definition ide_inv :: "'h ide_view \<Rightarrow> ('h, 'a) ide_st_scheme \<Rightarrow> nat list \<Rightarrow> bool" where
  "ide_inv v s qs \<longleftrightarrow> pt_ok s \<and> lock_free (idelock s) \<and> qchain (bufs s) (idequeue s) qs \<and> distinct qs \<and>
     (\<forall>b \<in> set qs. request_ok (bufs s b)) \<and> (qs \<noteq> [] \<longrightarrow> issued v (ide_hw s) (bufs s (hd qs)))"

interpretation il: kernel_lock idelock put_idelock
  by unfold_locales (auto simp: put_idelock_def same_cpu_def)

text \<open>What a critical section of the driver changes.\<close>

definition set_ide :: "nat option \<Rightarrow> (nat \<Rightarrow> buf) \<Rightarrow> 'h \<Rightarrow> ('h, 'a) ide_st_scheme \<Rightarrow> ('h, 'a) ide_st_scheme" where
  "set_ide q B h s = s\<lparr>idequeue := q, bcache := (bcache s)\<lparr>bc_buf := B\<rparr>, ide_hw := h\<rparr>"

lemma set_ide_simps [simp]:
  "idequeue (set_ide q B h s) = q" "bufs (set_ide q B h s) = B" "ide_hw (set_ide q B h s) = h" "idelock (set_ide q B h s) = idelock s"
  "ptable (set_ide q B h s) = ptable s" "pt_ok (set_ide q B h s) = pt_ok s"
proof -
  have "same_cpu (set_ide q B h s) s" by (simp add: set_ide_def same_cpu_def)
  then show "pt_ok (set_ide q B h s) = pt_ok s" using same_cpu_cpu_ok by (auto simp: pt_ok_def set_ide_def)
qed (simp_all add: set_ide_def)

lemma ide_opened [simp]:
  "bufs (il.opened s) = bufs s" "idequeue (il.opened s) = idequeue s" "ide_hw (il.opened s) = ide_hw s" "ptable (il.opened s) = ptable s"
  by (simp_all add: il.opened_def put_idelock_def pushed_def)

lemma framed_set_ide: "il.framed (set_ide q B h)"
  by (simp add: il.framed_def set_ide_def put_idelock_def)

lemma framed_set_ide_wakeup: "il.framed (\<lambda>s. wakeup1 ch (set_ide q B h s))"
  using il.framed_comp [OF il.framed_wakeup1 framed_set_ide] .

lemma wakeup1_ide [simp]:
  "bufs (wakeup1 ch s) = bufs s" "idequeue (wakeup1 ch s) = idequeue s" "ide_hw (wakeup1 ch s) = ide_hw s" "idelock (wakeup1 ch s) = idelock s"
  "pt_ok (wakeup1 ch s) = pt_ok s"
  by (simp_all add: wakeup1_def upd_procs_def pt_ok_def)

lemma set_ide_trivial: "set_ide (idequeue s) (bufs s) (ide_hw s) s = s"
  by (simp add: set_ide_def)

lemma set_ide_more [simp]:
  "set_ide q B h (set_ide q' B' h' s) = set_ide q B h s"
  "(set_ide q B h s)\<lparr>ide_hw := h'\<rparr> = set_ide q B h' s" "(set_ide q B h s)\<lparr>idequeue := q'\<rparr> = set_ide q' B h s"
  "upd_buf b f (set_ide q B h s) = set_ide q (B(b := f (B b))) h s"
  "(wakeup1 ch (set_ide q B h s))\<lparr>ide_hw := h'\<rparr> = wakeup1 ch (set_ide q B h' s)"
  by (simp_all add: set_ide_def upd_buf_def wakeup1_def upd_procs_def)

lemma pt_ok_opened: "pt_ok s \<Longrightarrow> pt_ok (il.opened s)"
  using il.cpu_opened(1) by (auto simp: pt_ok_def)

definition polled :: "'h ide_ports \<Rightarrow> 'h \<Rightarrow> 'h" where
  "polled io h = snd (the (ide_poll io h))"

lemma poll_ok:
  assumes "controller io v"
  shows "idewait io c s = Inr (0, s\<lparr>ide_hw := polled io (ide_hw s)\<rparr>)" "v_cmd v (polled io h) = v_cmd v h" "v_disk v (polled io h) = v_disk v h"
proof -
  have ready: "\<exists>r h'. ide_poll io h = Some (r, h') \<and> r AND 0x21 = 0 \<and> v_cmd v h' = v_cmd v h \<and> v_disk v h' = v_disk v h" for h
    using assms unfolding controller_def by blast
  from ready [of "ide_hw s"] show "idewait io c s = Inr (0, s\<lparr>ide_hw := polled io (ide_hw s)\<rparr>)"
    by (auto simp: idewait_def polled_def)
  from ready [of h] show "v_cmd v (polled io h) = v_cmd v h" "v_disk v (polled io h) = v_disk v h"
    by (auto simp: polled_def)
qed

lemma idestart_ok:
  assumes "controller io v" "request_ok (bufs s b)"
  shows "idestart io (Some b) s = Inr (s\<lparr>ide_hw := ide_issue io (bufs s b) (polled io (ide_hw s))\<rparr>)"
  using assms by (simp add: idestart_def poll_ok request_ok_def not_le)

section \<open>An interrupt\<close>

text \<open>The state of the controller after the read of a finished request, and after the next request was sent.\<close>

definition hw_read :: "'h ide_ports \<Rightarrow> buf \<Rightarrow> 'h \<Rightarrow> 'h" where
  "hw_read io x h = (if is_dirty x then h else snd (in_sl io 0x1f0 128 (polled io h)))"

definition hw_next :: "'h ide_ports \<Rightarrow> (nat \<Rightarrow> buf) \<Rightarrow> nat option \<Rightarrow> 'h \<Rightarrow> 'h" where
  "hw_next io B q h = (case q of None \<Rightarrow> h | Some c \<Rightarrow> ide_issue io (B c) (polled io h))"

lemma read_ok:
  assumes c: "controller io v" and i: "issued v h x"
  shows "v_disk v (hw_read io x h) = v_disk v h" "\<not> is_dirty x \<Longrightarrow> fst (in_sl io 0x1f0 128 (polled io h)) = v_disk v h (b_dev x) (b_blockno x)"
proof -
  have *: "v_cmd v g = Reading d n \<Longrightarrow> fst (in_sl io 0x1f0 128 g) = v_disk v g d n \<and> v_disk v (snd (in_sl io 0x1f0 128 g)) = v_disk v g" for g d n
    using c unfolding controller_def by blast
  show "\<not> is_dirty x \<Longrightarrow> fst (in_sl io 0x1f0 128 (polled io h)) = v_disk v h (b_dev x) (b_blockno x)"
    using * [of "polled io h"] i poll_ok(2,3) [OF c, of h] by (simp add: issued_def)
  show "v_disk v (hw_read io x h) = v_disk v h"
    using * [of "polled io h"] i poll_ok(2,3) [OF c, of h] by (simp add: issued_def hw_read_def)
qed

lemma ideintr_ok:
  assumes c: "controller io v" and inv: "ide_inv v s (b # qs)"
  defines "B \<equiv> (bufs s)(b := served (v_disk v (ide_hw s)) (bufs s b))" and "q \<equiv> b_qnext (bufs s b)"
  shows "ideintr io s = Inr (wakeup1 (Ch_buf b) (set_ide q B (hw_next io B q (hw_read io (bufs s b) (ide_hw s))) s))"
proof -
  let ?x = "bufs s b" and ?o = "il.opened s"
  have i: "pt_ok s" "lock_free (idelock s)" "idequeue s = Some b" "issued v (ide_hw s) ?x" "qchain (bufs s) q qs"
    "\<And>c. c \<in> set qs \<Longrightarrow> request_ok (bufs s c) \<and> c \<noteq> b"
    using inv by (auto simp: ide_inv_def q_def)
  have cpu: "cpu_ok s" using i(1) by (simp add: pt_ok_def)
  note rd = read_ok [OF c i(4)]
  have one: "?o\<lparr>idequeue := q\<rparr> = set_ide q (bufs s) (ide_hw s) ?o"
    by (simp add: set_ide_def il.opened_def put_idelock_def pushed_def)
  let ?t = "set_ide q B (hw_read io ?x (ide_hw s)) ?o"
  have "ideintr io s = seq (wakeup (Ch_buf b) ?t) (\<lambda>s. seq (if idequeue s \<noteq> None then idestart io (idequeue s) s else Inr s) release_ide)"
  proof (cases "is_dirty ?x")
    case True
    then have "B = (bufs s)(b := ?x\<lparr>b_flags := (b_flags ?x OR 2) AND NOT 4\<rparr>)" by (simp add: B_def served_def)
    then show ?thesis
      using True i(3) one unfolding ideintr_def il.acquire_at_ok [OF cpu i(2)]
      by (simp add: Let_def q_def [symmetric] is_dirty_def hw_read_def)
  next
    case False
    then have "B = (bufs s)(b := ?x\<lparr>b_data := fst (in_sl io 0x1f0 128 (polled io (ide_hw s))), b_flags := (b_flags ?x OR 2) AND NOT 4\<rparr>)"
      by (simp add: B_def served_def rd)
    then show ?thesis
      using False i(3) one unfolding ideintr_def il.acquire_at_ok [OF cpu i(2)]
      by (simp add: Let_def q_def [symmetric] is_dirty_def hw_read_def poll_ok [OF c] split_beta)
  qed
  also have "wakeup (Ch_buf b) ?t = Inr (wakeup1 (Ch_buf b) ?t)"
    by (rule wakeup_ok) (simp add: pt_ok_opened i(1))
  also have "seq (Inr (wakeup1 (Ch_buf b) ?t)) (\<lambda>s. seq (if idequeue s \<noteq> None then idestart io (idequeue s) s else Inr s) release_ide) =
      release_ide (wakeup1 (Ch_buf b) (set_ide q B (hw_next io B q (hw_read io ?x (ide_hw s))) ?o))"
  proof (cases q)
    case None
    then show ?thesis by (simp add: hw_next_def)
  next
    case (Some d)
    then have "d \<in> set qs" using i(5) by (cases qs) auto
    then have "request_ok (B d)" using i(6) [of d] by (simp add: B_def)
    then show ?thesis using idestart_ok [OF c, of "wakeup1 (Ch_buf b) ?t" d] Some by (simp add: hw_next_def)
  qed
  also have "\<dots> = Inr (wakeup1 (Ch_buf b) (set_ide q B (hw_next io B q (hw_read io ?x (ide_hw s))) s))"
    by (rule il.release_at_ok [OF cpu i(2) framed_set_ide_wakeup])
  finally show ?thesis .
qed

lemma wr_again:
  "wr x (wr x d) = wr x d" "served (wr x d) x = served d x"
  by (auto simp: wr_def served_def)

lemma issued_wr: "issued v h x \<Longrightarrow> wr x (v_disk v h) = v_disk v h"
  by (auto simp: issued_def wr_def fun_eq_iff)

lemma serve_head: "serve (c # cs) (B, wr (B c) d) = serve (c # cs) (B, d)"
  by (simp add: wr_again)

lemma qchain_other:
  assumes "qchain B q qs" "\<And>c. c \<in> set qs \<Longrightarrow> b_qnext (B' c) = b_qnext (B c)"
  shows "qchain B' q qs"
  using assms by (induction qs arbitrary: q) auto

lemma ideintr_step:
  assumes c: "controller io v" and inv: "ide_inv v s (b # qs)"
  shows "\<exists>t. ideintr io s = Inr t \<and> ide_inv v t qs \<and> procs t = procs (wakeup1 (Ch_buf b) s) \<and>
    serve qs (bufs t, v_disk v (ide_hw t)) = serve (b # qs) (bufs s, v_disk v (ide_hw s)) \<and> (qs = [] \<longrightarrow> idequeue t = None)"
proof -
  define D where "D = v_disk v (ide_hw s)"
  define B where "B = (bufs s)(b := served D (bufs s b))"
  define h where "h = hw_read io (bufs s b) (ide_hw s)"
  let ?q = "b_qnext (bufs s b)"
  let ?t = "wakeup1 (Ch_buf b) (set_ide ?q B (hw_next io B ?q h) s)"
  have i: "pt_ok s" "lock_free (idelock s)" "issued v (ide_hw s) (bufs s b)" "qchain (bufs s) ?q qs" "distinct qs" "b \<notin> set qs"
    "\<And>d. d \<in> set qs \<Longrightarrow> request_ok (bufs s d)"
    using inv by (auto simp: ide_inv_def)
  have D: "wr (bufs s b) D = D" "v_disk v h = D"
    using issued_wr [OF i(3)] read_ok(1) [OF c i(3)] by (simp_all add: D_def h_def)
  have other: "B d = bufs s d" if "d \<in> set qs" for d using that i(6) by (auto simp: B_def)
  have chain: "qchain B ?q qs" by (rule qchain_other [OF i(4)]) (simp add: other)
  have "ide_inv v ?t qs \<and> serve qs (bufs ?t, v_disk v (ide_hw ?t)) = serve qs (B, D)"
  proof (cases qs)
    case Nil
    then show ?thesis using i chain D(2) by (simp add: ide_inv_def hw_next_def)
  next
    case (Cons d ds)
    then have q: "?q = Some d" and r: "request_ok (B d)" using i(4,7) other by auto
    note iss = issue_ok [OF c r, of "polled io h"]
    have "v_disk v (hw_next io B ?q h) = wr (B d) D" using iss(1) poll_ok(3) [OF c, of h] D(2) by (simp add: hw_next_def q)
    moreover have "issued v (hw_next io B ?q h) (B d)" using iss(2) by (simp add: hw_next_def q)
    ultimately show ?thesis
      using i chain other Cons serve_head [of d ds B D] by (auto simp: ide_inv_def)
  qed
  moreover have "serve (b # qs) (bufs s, D) = serve qs (B, D)" by (simp add: B_def D(1))
  moreover have "ideintr io s = Inr ?t" using ideintr_ok [OF c inv] by (simp add: B_def D_def h_def)
  moreover have "procs ?t = procs (wakeup1 (Ch_buf b) s)" by (simp add: wakeup1_def upd_procs_def set_ide_def)
  moreover have "qs = [] \<longrightarrow> idequeue ?t = None" using i(4) by auto
  ultimately show ?thesis unfolding D_def by auto
qed

fun ide_intrs :: "'h ide_ports \<Rightarrow> nat \<Rightarrow> ('h, 'a) ide_st_scheme \<Rightarrow> ('h, 'a) ide_st_scheme stop + ('h, 'a) ide_st_scheme" where
  "ide_intrs io 0 s = Inr s"
| "ide_intrs io (Suc n) s = seq (ideintr io s) (ide_intrs io n)"

lemma wakeup1_proc:
  assumes "p < length (procs s)"
  shows "procs (wakeup1 ch s) ! p = (if p_state (procs s ! p) = SLEEPING \<and> p_chan (procs s ! p) = Some ch
    then (procs s ! p)\<lparr>p_state := RUNNABLE\<rparr> else procs s ! p)" "length (procs (wakeup1 ch s)) = length (procs s)"
  using assms by (simp_all add: wakeup1_def upd_procs_def)

text \<open>A process is awake, or it sleeps on one of the buffers of the queue.\<close>

definition awake_after :: "nat list \<Rightarrow> proc \<Rightarrow> bool" where
  "awake_after qs x \<longleftrightarrow> p_state x = RUNNABLE \<or> p_state x = SLEEPING \<and> (\<exists>b \<in> set qs. p_chan x = Some (Ch_buf b))"

lemma ide_drain:
  assumes c: "controller io v" and inv: "ide_inv v s qs"
  shows "\<exists>t. ide_intrs io (length qs) s = Inr t \<and> ide_inv v t [] \<and> (bufs t, v_disk v (ide_hw t)) = serve qs (bufs s, v_disk v (ide_hw s)) \<and>
    (\<forall>p < length (procs s). awake_after qs (procs s ! p) \<longrightarrow> p_state (procs t ! p) = RUNNABLE)"
  using inv
proof (induction qs arbitrary: s)
  case Nil
  then show ?case by (simp add: awake_after_def)
next
  case (Cons b qs)
  obtain t where t: "ideintr io s = Inr t" "ide_inv v t qs" "procs t = procs (wakeup1 (Ch_buf b) s)"
    "serve qs (bufs t, v_disk v (ide_hw t)) = serve (b # qs) (bufs s, v_disk v (ide_hw s))"
    using ideintr_step [OF c Cons.prems] by blast
  obtain u where u: "ide_intrs io (length qs) t = Inr u" "ide_inv v u []" "(bufs u, v_disk v (ide_hw u)) = serve qs (bufs t, v_disk v (ide_hw t))"
    "\<And>p. p < length (procs t) \<Longrightarrow> awake_after qs (procs t ! p) \<Longrightarrow> p_state (procs u ! p) = RUNNABLE"
    using Cons.IH [OF t(2)] by blast
  have "p_state (procs u ! p) = RUNNABLE" if "p < length (procs s)" "awake_after (b # qs) (procs s ! p)" for p
    using that u(4) [of p] wakeup1_proc [OF that(1), of "Ch_buf b"] by (auto simp: t(3) awake_after_def)
  then show ?case using t(1,4) u by simp
qed

section \<open>A new request\<close>

lemma ide_last_ok: "qchain B (Some c) (qs @ [l]) \<Longrightarrow> b_qnext (B l) = None \<Longrightarrow> ide_last B c = Some l"
proof (induction qs arbitrary: c)
  case Nil
  then show ?case by (simp add: ide_last.simps [of B])
next
  case (Cons b qs)
  then obtain d where "b_qnext (B b) = Some d" by (cases qs) auto
  with Cons show ?case by (simp add: ide_last.simps [of B b])
qed

lemma qchain_snoc:
  assumes "qchain B q (qs @ [l])" "b_qnext (B l) = None" "l \<notin> set qs" "b \<notin> set qs" "b \<noteq> l" "b_qnext (B b) = None"
  shows "qchain (B(l := (B l)\<lparr>b_qnext := Some b\<rparr>)) q (qs @ [l, b])"
  using assms by (induction qs arbitrary: q) auto

lemma qchain_end: "qchain B q (qs @ [l]) \<Longrightarrow> b_qnext (B l) = None"
  by (induction qs arbitrary: q) auto

text \<open>The buffers without their links.\<close>

definition no_link :: "(nat \<Rightarrow> buf) \<Rightarrow> nat \<Rightarrow> buf" where
  "no_link B c = (B c)\<lparr>b_qnext := None\<rparr>"

lemma same_request:
  assumes "no_link B = no_link B'"
  shows "is_dirty (B c) = is_dirty (B' c)" "request_ok (B c) = request_ok (B' c)" "wr (B c) d = wr (B' c) d" "issued v h (B c) = issued v h (B' c)"
    "no_link (B(c := served d (B c))) = no_link (B'(c := served d (B' c)))" "b_flags (B c) = b_flags (B' c)"
proof -
  have "no_link B c = no_link B' c" using assms by simp
  then obtain q where f: "B' c = (B c)\<lparr>b_qnext := q\<rparr>"
    by (cases "B c"; cases "B' c") (auto simp: no_link_def)
  show "is_dirty (B c) = is_dirty (B' c)" "request_ok (B c) = request_ok (B' c)" "wr (B c) d = wr (B' c) d" "issued v h (B c) = issued v h (B' c)"
    "b_flags (B c) = b_flags (B' c)"
    by (simp_all add: f is_dirty_def request_ok_def wr_def issued_def)
  show "no_link (B(c := served d (B c))) = no_link (B'(c := served d (B' c)))"
    using assms by (auto simp: no_link_def fun_eq_iff served_def is_dirty_def f)
qed

lemma serve_no_link:
  assumes "no_link B = no_link B'"
  shows "no_link (fst (serve qs (B, d))) = no_link (fst (serve qs (B', d))) \<and> snd (serve qs (B, d)) = snd (serve qs (B', d))"
  using assms
proof (induction qs arbitrary: B B' d)
  case (Cons b qs)
  note same = same_request [OF Cons.prems, where c = b]
  show ?case using Cons.IH [OF same(5) [of d], of "wr (B b) d"] same(3) [of d] by (simp add: fun_upd_def)
qed simp_all

text \<open>A process that holds the sleep lock of a buffer and asks for its transfer.\<close>

definition asks :: "nat \<Rightarrow> nat \<Rightarrow> ('h, 'a) ide_st_scheme \<Rightarrow> bool" where
  "asks p b s \<longleftrightarrow> sleep_ready p s \<and> cpu_ncli (cpus s ! this_cpu s) = 0 \<and> lock_free (sl_lk (b_lock (bufs s b))) \<and>
     sl_locked (b_lock (bufs s b)) \<noteq> 0 \<and> sl_pid (b_lock (bufs s b)) = p_pid (procs s ! p) \<and> request_ok (bufs s b) \<and>
     (b_dev (bufs s b) = 0 \<or> havedisk1 s \<noteq> 0)"

abbreviation asleep :: "nat \<Rightarrow> nat \<Rightarrow> ('h, 'a) ide_st_scheme \<Rightarrow> ('h, 'a) ide_st_scheme" where
  "asleep p b \<equiv> upd_proc p (\<lambda>q. q\<lparr>p_chan := Some (Ch_buf b), p_state := SLEEPING\<rparr>)"

lemma ide_enqueue:
  fixes s :: "('h, 'a) ide_st_scheme"
  assumes c: "controller io v" and inv: "ide_inv v s qs" and new: "b \<notin> set qs" and r: "request_ok (bufs s b)"
  defines "B1 \<equiv> (bufs s)(b := (bufs s b)\<lparr>b_qnext := None\<rparr>)"
  shows "\<exists>q B h. (\<forall>t :: ('h, 'a) ide_st_scheme. idequeue t = idequeue s \<longrightarrow> bufs t = bufs s \<longrightarrow> ide_hw t = ide_hw s \<longrightarrow>
      seq (ide_append b (upd_buf b (\<lambda>x. x\<lparr>b_qnext := None\<rparr>) t)) (\<lambda>s. if idequeue s = Some b then idestart io (Some b) s else Inr s) =
        Inr (set_ide q B h t)) \<and> ide_inv v (set_ide q B h s) (qs @ [b]) \<and> no_link B = no_link (bufs s) \<and>
      v_disk v h = (if qs = [] then wr (bufs s b) (v_disk v (ide_hw s)) else v_disk v (ide_hw s))"
proof -
  have i: "pt_ok s" "lock_free (idelock s)" "qchain (bufs s) (idequeue s) qs" "distinct qs" "\<And>d. d \<in> set qs \<Longrightarrow> request_ok (bufs s d)"
    "qs \<noteq> [] \<Longrightarrow> issued v (ide_hw s) (bufs s (hd qs))"
    using inv by (auto simp: ide_inv_def)
  have u1: "no_link B1 = no_link (bufs s)" by (auto simp: B1_def no_link_def fun_eq_iff)
  have t1: "upd_buf b (\<lambda>x. x\<lparr>b_qnext := None\<rparr>) t = set_ide (idequeue s) B1 (ide_hw s) t"
    if "idequeue t = idequeue s" "bufs t = bufs s" "ide_hw t = ide_hw s" for t :: "('h, 'a) ide_st_scheme"
    using that by (simp add: upd_buf_def set_ide_def B1_def)
  have c1: "qchain B1 (idequeue s) qs" by (rule qchain_other [OF i(3)]) (use new in \<open>auto simp: B1_def\<close>)
  show ?thesis
  proof (cases qs rule: rev_cases)
    case Nil
    let ?h = "ide_issue io (B1 b) (polled io (ide_hw s))"
    have r1: "request_ok (B1 b)" using r same_request(2) [OF u1] by simp
    have "v_disk v ?h = wr (bufs s b) (v_disk v (ide_hw s))" "issued v ?h (B1 b)"
      using issue_ok [OF c r1, of "polled io (ide_hw s)"] poll_ok(3) [OF c] same_request(3) [OF u1] by auto
    then show ?thesis
      using Nil i c1 u1 r1 t1 by (intro exI [of _ "Some b"] exI [of _ B1] exI [of _ ?h])
        (auto simp: ide_append_def idestart_ok [OF c] ide_inv_def B1_def)
  next
    case (snoc rs l)
    let ?B = "B1(l := (B1 l)\<lparr>b_qnext := Some b\<rparr>)"
    obtain d where d: "idequeue s = Some d" "d \<noteq> b" using i(3) snoc new by (cases rs) auto
    have n: "b_qnext (B1 l) = None" "b_qnext (B1 b) = None" "l \<notin> set rs" "b \<notin> set rs" "b \<noteq> l"
      using qchain_end [of B1 "idequeue s" rs l] c1 snoc i(4) new by (auto simp: B1_def)
    have u2: "no_link ?B = no_link (bufs s)" using u1 by (auto simp: no_link_def fun_eq_iff)
    have "ide_last B1 d = Some l" using ide_last_ok [of B1 d rs l] c1 d(1) snoc n(1) by simp
    moreover have "qchain ?B (idequeue s) (qs @ [b])" using qchain_snoc [of B1 "idequeue s" rs l b] c1 snoc n by simp
    moreover have "\<forall>e \<in> set (qs @ [b]). request_ok (?B e)" using i(5) r same_request(2) [OF u2] by auto
    moreover have "hd (qs @ [b]) = hd qs" using snoc by (cases rs) auto
    moreover have "issued v (ide_hw s) (?B (hd qs))" using i(6) snoc by (subst same_request(4) [OF u2]) simp
    ultimately show ?thesis
      using snoc i d u2 t1 new by (intro exI [of _ "Some d"] exI [of _ ?B] exI [of _ "ide_hw s"]) (auto simp: ide_append_def ide_inv_def)
  qed
qed

lemma ide_rw_ok:
  assumes c: "controller io v" and inv: "ide_inv v s qs" and new: "b \<notin> set qs" and ask: "asks p b s"
  shows "\<exists>u. ide_rw io b s = Inl (Switch (asleep p b (pt.opened u))) \<and> ide_inv v u (qs @ [b]) \<and> no_link (bufs u) = no_link (bufs s) \<and>
    ptable u = ptable s \<and> cpu_ok u \<and> v_disk v (ide_hw u) = (if qs = [] then wr (bufs s b) (v_disk v (ide_hw s)) else v_disk v (ide_hw s))"
proof -
  have a: "sleep_ready p s" "running p s" "cpu_ncli (cpus s ! this_cpu s) = 0" "request_ok (bufs s b)" "b_dev (bufs s b) = 0 \<or> havedisk1 s \<noteq> 0"
    using ask by (auto simp: asks_def sleep_ready_def)
  have hold: "holdingsleep (get_buflock b) (put_buflock b) s = Inr (True, s)"
    using ask by (intro holding_buf [OF a(2)]) (auto simp: asks_def)
  have cpu: "cpu_ok s" and lk: "lock_free (idelock s)" using inv by (auto simp: ide_inv_def pt_ok_def)
  obtain q B h where e: "\<forall>t :: ('a, 'b) ide_st_scheme. idequeue t = idequeue s \<longrightarrow> bufs t = bufs s \<longrightarrow> ide_hw t = ide_hw s \<longrightarrow>
      seq (ide_append b (upd_buf b (\<lambda>x. x\<lparr>b_qnext := None\<rparr>) t)) (\<lambda>s. if idequeue s = Some b then idestart io (Some b) s else Inr s) = Inr (set_ide q B h t)"
    "ide_inv v (set_ide q B h s) (qs @ [b])" "no_link B = no_link (bufs s)"
    "v_disk v h = (if qs = [] then wr (bufs s b) (v_disk v (ide_hw s)) else v_disk v (ide_hw s))"
    using ide_enqueue [OF c inv new a(4)] by blast
  have fl: "b_flags (B b) AND 6 \<noteq> 2" using a(4) same_request(6) [OF e(3), where c = b] by (simp add: request_ok_def)
  have body: "seq (ide_append b (upd_buf b (\<lambda>x. x\<lparr>b_qnext := None\<rparr>) (il.opened s))) (\<lambda>s. if idequeue s = Some b then idestart io (Some b) s else Inr s) =
      Inr (set_ide q B h (il.opened s))"
    using e(1) by simp
  have "ide_rw io b s = ide_await b (set_ide q B h (il.opened s))"
    using a(4,5) body unfolding ide_rw_def hold seq_Inr prod.case il.acquire_at_ok [OF cpu lk]
    by (auto simp: request_ok_def seq_assoc [symmetric])
  also have "\<dots> = sleep (Ch_buf b) (Some (idelock, put_idelock)) (set_ide q B h (il.opened s))"
    using fl by (simp add: ide_await_def)
  also have "\<dots> = Inl (Switch (asleep p b (pt.opened (set_ide q B h s))))"
    by (rule il.sleep_in_section [OF a(1) lk a(3) framed_set_ide]) simp_all
  finally show ?thesis
    using e inv by (intro exI [of _ "set_ide q B h s"]) (auto simp: ide_inv_def pt_ok_def)
qed

lemma switch_back:
  assumes "cpu_ok u" "lock_free (pt_lock (ptable u))"
  shows "release_ptable (upd_proc p f (pt.opened u)) = Inr (upd_proc p f u)"
  unfolding upd_proc_def by (rule pt.release_at_ok [OF assms]) simp

lemma ide_inv_upd_proc: "ide_inv v (upd_proc p f s) qs = ide_inv v s qs"
proof -
  have "same_cpu (upd_proc p f s) s" by (simp add: upd_proc_def upd_procs_def same_cpu_def)
  then show ?thesis using same_cpu_cpu_ok by (auto simp: ide_inv_def pt_ok_def upd_proc_def upd_procs_def)
qed

lemma serve_other: "c \<notin> set qs \<Longrightarrow> fst (serve qs (B, d)) c = B c"
  by (induction qs arbitrary: B d) auto

lemma served_flags: "b_flags (served d x) AND 6 = 2"
  by (simp add: served_def flag_6)

lemma serve_flags: "c \<in> set qs \<Longrightarrow> b_flags (fst (serve qs (B, d)) c) AND 6 = 2"
proof (induction qs arbitrary: B d)
  case (Cons b qs)
  then show ?case
    using served_flags [of d "B c"] by (cases "c \<in> set qs") (auto simp: serve_other)
qed simp

text \<open>
  C12. A request to the IDE disk completes. With any requests in the queue, a process that asks for the transfer of a buffer
  whose lock it holds is put behind them and goes to sleep. As many interrupts later as there are requests the queue is empty, the
  process is ready to run again, and its buffer is valid and clean, so the loop it sleeps in ends. The buffers and the disks are as if
  the requests had been carried out one after the other in the order of the queue: a write stores the data of the
  buffer, a read gets what the disk holds after the requests before it.
\<close>

theorem ide_request_completes:
  assumes "controller io v" and "ide_inv v s qs" and "b \<notin> set qs" and "asks p b s"
  shows "\<exists>w u t. ide_rw io b s = Inl (Switch w) \<and> release_ptable w = Inr u \<and> p_state (procs u ! p) = SLEEPING \<and>
    ide_intrs io (length qs + 1) u = Inr t \<and> ide_inv v t [] \<and> p_state (procs t ! p) = RUNNABLE \<and> b_flags (bufs t b) AND 6 = 2 \<and>
    no_link (bufs t) = no_link (fst (serve (qs @ [b]) (bufs s, v_disk v (ide_hw s)))) \<and>
    v_disk v (ide_hw t) = snd (serve (qs @ [b]) (bufs s, v_disk v (ide_hw s)))"
proof -
  let ?D = "v_disk v (ide_hw s)"
  obtain u where u: "ide_rw io b s = Inl (Switch (asleep p b (pt.opened u)))" "ide_inv v u (qs @ [b])" "no_link (bufs u) = no_link (bufs s)"
    "ptable u = ptable s" "cpu_ok u" "v_disk v (ide_hw u) = (if qs = [] then wr (bufs s b) ?D else ?D)"
    using ide_rw_ok [OF assms] by blast
  have p: "p < length (procs u)" "lock_free (pt_lock (ptable u))" using assms(4) u(4) by (auto simp: asks_def sleep_ready_def running_def)
  have parts: "bufs (asleep p b u) = bufs u" "ide_hw (asleep p b u) = ide_hw u" by (simp_all add: upd_proc_def upd_procs_def)
  have sl: "procs (asleep p b u) ! p = (procs u ! p)\<lparr>p_chan := Some (Ch_buf b), p_state := SLEEPING\<rparr>" "length (procs (asleep p b u)) = length (procs u)"
    using p(1) by (simp_all add: upd_proc_def upd_procs_def)
  have "ide_inv v (asleep p b u) (qs @ [b])" using u(2) by (simp add: ide_inv_upd_proc)
  from ide_drain [OF assms(1) this]
  obtain t where t: "ide_intrs io (length (qs @ [b])) (asleep p b u) = Inr t" "ide_inv v t []"
    "(bufs t, v_disk v (ide_hw t)) = serve (qs @ [b]) (bufs u, v_disk v (ide_hw u))"
    "\<And>p'. p' < length (procs (asleep p b u)) \<Longrightarrow> awake_after (qs @ [b]) (procs (asleep p b u) ! p') \<Longrightarrow> p_state (procs t ! p') = RUNNABLE"
    unfolding parts by blast
  have run: "p_state (procs t ! p) = RUNNABLE"
    using t(4) [of p] p(1) sl by (simp add: awake_after_def)
  have "serve (qs @ [b]) (bufs u, v_disk v (ide_hw u)) = serve (qs @ [b]) (bufs u, ?D)"
    using serve_head [of b "[]" "bufs u" ?D] same_request(3) [OF u(3), where c = b] by (simp add: u(6))
  then have res: "bufs t = fst (serve (qs @ [b]) (bufs u, ?D))" "v_disk v (ide_hw t) = snd (serve (qs @ [b]) (bufs u, ?D))"
    using t(3) by (metis fst_conv, metis snd_conv)
  have "no_link (bufs t) = no_link (fst (serve (qs @ [b]) (bufs s, ?D)))" "v_disk v (ide_hw t) = snd (serve (qs @ [b]) (bufs s, ?D))"
    using serve_no_link [OF u(3), of "qs @ [b]" ?D] res by simp_all
  moreover have "b_flags (bufs t b) AND 6 = 2" unfolding res(1) by (rule serve_flags) simp
  moreover have "release_ptable (asleep p b (pt.opened u)) = Inr (asleep p b u)" by (rule switch_back [OF u(5) p(2)])
  ultimately show ?thesis
    using u(1) t(1,2) run sl(1) by (intro exI [of _ "asleep p b (pt.opened u)"] exI [of _ "asleep p b u"] exI [of _ t]) simp
qed

section \<open>A controller\<close>

record ctl =
  c_reg :: "u32 \<Rightarrow> u8"
  c_cmd :: ide_cmd
  c_disk :: disks

definition pio :: "ctl ide_ports" where
  "pio = \<lparr>in_b = (\<lambda>p h. (0x40, h)),
     out_b = (\<lambda>p x h. if p = 0x1f7
       then h\<lparr>c_cmd := (if x = 0x20 then Reading else Writing) (sel_dev (c_reg h)) (sel_sector (c_reg h))\<rparr>
       else h\<lparr>c_reg := (c_reg h)(p := x)\<rparr>),
     in_sl = (\<lambda>p n h. case c_cmd h of Reading d k \<Rightarrow> (c_disk h d k, h) | _ \<Rightarrow> ([], h)),
     out_sl = (\<lambda>p bs h. case c_cmd h of Writing d k \<Rightarrow> h\<lparr>c_cmd := No_cmd, c_disk := (c_disk h)(d := (c_disk h d)(k := bs))\<rparr> | _ \<Rightarrow> h)\<rparr>"

abbreviation pio_view :: "ctl ide_view" where
  "pio_view \<equiv> \<lparr>v_reg = c_reg, v_cmd = c_cmd, v_disk = c_disk\<rparr>"

lemma pio_controller: "controller pio pio_view"
  by (simp add: controller_def pio_def ide_poll.simps)

text \<open>Buffer 3 is being written to block 5; the running process holds buffer 0, in which it wants block 5.\<close>

definition ide_machine :: "ctl ide_st" where
  "ide_machine = bio_st.extend (bio_st.truncate (machine\<lparr>bcache := (bcache machine)\<lparr>bc_buf := (bufs machine)
       (3 := (bufs machine 3)\<lparr>b_flags := 6, b_dev := 1, b_blockno := 5, b_qnext := None, b_data := replicate 512 7\<rparr>,
        0 := (bufs machine 0)\<lparr>b_flags := 0, b_dev := 1, b_blockno := 5, b_data := replicate 512 0,
          b_lock := (b_lock (bufs machine 0))\<lparr>sl_locked := 1, sl_pid := p_pid first_proc, sl_lk := free_lock\<rparr>\<rparr>)\<rparr>\<rparr>))
     (ide_st.fields free_lock (Some 3) 1 \<lparr>c_reg = (\<lambda>_. 0), c_cmd = No_cmd, c_disk = (\<lambda>_ _. replicate 512 0)(1 := (\<lambda>_. replicate 512 0)(5 := replicate 512 7))\<rparr>)"

lemma ide_machine_parts:
  "bufs ide_machine 3 = (linked_buf 3)\<lparr>b_flags := 6, b_dev := 1, b_blockno := 5, b_qnext := None, b_data := replicate 512 7\<rparr>"
  "bufs ide_machine 0 = (linked_buf 0)\<lparr>b_flags := 0, b_dev := 1, b_blockno := 5, b_data := replicate 512 0,
     b_lock := (b_lock (linked_buf 0))\<lparr>sl_locked := 1, sl_pid := p_pid first_proc, sl_lk := free_lock\<rparr>\<rparr>"
  "idequeue ide_machine = Some 3" "idelock ide_machine = free_lock" "havedisk1 ide_machine = 1" "ptable ide_machine = ptable machine"
  "c_disk (ide_hw ide_machine) = (\<lambda>_ _. replicate 512 0)(1 := (\<lambda>_. replicate 512 0)(5 := replicate 512 7))"
  by (simp_all add: ide_machine_def bio_st.extend_def bio_st.truncate_def ide_st.fields_def machine_def)

lemma ide_machine_cpu: "cpu_ok ide_machine" "running 0 ide_machine" "cpu_ncli (cpus ide_machine ! this_cpu ide_machine) = 0"
  by (simp_all add: ide_machine_def bio_st.extend_def bio_st.truncate_def ide_st.fields_def machine_def running_def cpu_ok_def this_cpu_def)

theorem ide_request_completes_witness:
  "ide_inv pio_view ide_machine [3] \<and> (\<exists>w u t. ide_rw pio 0 ide_machine = Inl (Switch w) \<and> release_ptable w = Inr u \<and>
     ide_intrs pio 2 u = Inr t \<and> p_state (procs t ! 0) = RUNNABLE \<and> b_data (bufs t 0) = replicate 512 7)"
proof -
  note m = ide_machine_parts
  have inv: "ide_inv pio_view ide_machine [3]"
    by (simp add: ide_inv_def m pt_ok_def ide_machine_cpu request_ok_def issued_def is_dirty_def)
  have "asks 0 0 ide_machine"
    by (simp add: asks_def sleep_ready_def ide_machine_cpu m request_ok_def)
  from ide_request_completes [OF pio_controller inv _ this]
  obtain w u t where t: "ide_rw pio 0 ide_machine = Inl (Switch w)" "release_ptable w = Inr u" "ide_intrs pio 2 u = Inr t"
    "p_state (procs t ! 0) = RUNNABLE" "no_link (bufs t) = no_link (fst (serve [3, 0] (bufs ide_machine, c_disk (ide_hw ide_machine))))"
    by (auto simp: numeral_2_eq_2)
  have "b_data (bufs t 0) = b_data (no_link (bufs t) 0)" by (simp add: no_link_def)
  also have "\<dots> = replicate 512 7"
    unfolding t(5) by (simp add: no_link_def served_def wr_def is_dirty_def m)
  finally show ?thesis using inv t by blast
qed

end
