(* ===== verification/Fs_Read.thy ===== *)
theory Fs_Read
  imports Machine Log_Tx
begin

text \<open>
  Reading files (fs.c) through the block map and the buffer cache. \<open>faddr\<close> is the block of a file by its number, direct or through
  the indirect block; \<open>fbyte\<close> a byte of the file.
\<close>

section \<open>What the file system keeps\<close>

lemma kept_fs:
  fixes s t :: "'a fs_st_scheme"
  assumes "kept s t"
  shows "icache t = icache s" "sb t = sb s"
proof -
  have *: "shell t = shell s" using assms by (simp add: kept_def)
  show "icache t = icache s" "sb t = sb s"
    using arg_cong [OF *, of icache] arg_cong [OF *, of sb] by (simp_all add: shell_def)
qed

lemma lkept_fs:
  fixes s t :: "'a fs_st_scheme"
  assumes "lkept s t"
  shows "icache t = icache s" "sb t = sb s"
  using kept_fs [of "upd_log (\<lambda>_. log t) s" t] assms by (simp_all add: lkept_def upd_log_def)

lemma read_block:
  assumes view: "bio_view p Map.empty s" and n: "n < disksize s" and room: "card (pinned s) < NBUF"
  shows "\<exists>i t u. bread 1 n s = Inr (i, t) \<and> b_data (bufs t i) = blk s n \<and> kept s t \<and> brelse i t = Inr u \<and>
    bio_view p Map.empty u \<and> same_view s u"
proof -
  obtain i t where t: "bread 1 n s = Inr (i, t)" "bio_view p [i \<mapsto> n] t" "same_view s t"
    using bread_ok [OF view n] room by auto
  note S = same_viewD [OF t(3)]
  have i: "[i \<mapsto> n] i = Some n" by simp
  have "n \<in> pinned t \<or> blk t n = memdisk t n"
    using blk_clean [OF view, of n] S by auto
  from brelse_ok [OF t(2) i this] obtain u where "brelse i t = Inr u" "bio_view p Map.empty u" "same_view t u"
    unfolding single_gone by blast
  then show ?thesis
    using t held_buf(4) [OF t(2) i] S same_view_trans [OF t(3)] by auto
qed

section \<open>The blocks of a file\<close>

definition faddr :: "'a fs_st_scheme \<Rightarrow> inode \<Rightarrow> nat \<Rightarrow> u32" where
  "faddr s x bn = (if bn < NDIRECT then i_addrs x ! bn else ld32 (blk s (i_addrs x ! NDIRECT)) (4 * (bn - NDIRECT)))"

definition fbyte :: "'a fs_st_scheme \<Rightarrow> inode \<Rightarrow> nat \<Rightarrow> u8" where
  "fbyte s x k = blk s (faddr s x (k div BSIZE)) ! (k mod BSIZE)"

definition has_block :: "'a fs_st_scheme \<Rightarrow> inode \<Rightarrow> nat \<Rightarrow> bool" where
  "has_block s x bn \<longleftrightarrow> faddr s x bn \<noteq> 0 \<and> faddr s x bn < disksize s \<and>
     (NDIRECT \<le> bn \<longrightarrow> i_addrs x ! NDIRECT \<noteq> 0 \<and> i_addrs x ! NDIRECT < disksize s)"

text \<open>An inode of the disk whose blocks below its size are all allocated.\<close>

definition file_ok :: "'a fs_st_scheme \<Rightarrow> inode \<Rightarrow> bool" where
  "file_ok s x \<longleftrightarrow> i_dev x = 1 \<and> length (i_addrs x) = NDIRECT + 1 \<and> unat (i_size x) \<le> MAXFILE * BSIZE \<and>
     (\<forall>bn. bn * BSIZE < unat (i_size x) \<longrightarrow> has_block s x bn)"

lemma same_file:
  assumes "blk t = blk s"
  shows "faddr t x = faddr s x" "fbyte t x = fbyte s x" "disksize t = disksize s \<Longrightarrow> has_block t x = has_block s x"
    "disksize t = disksize s \<Longrightarrow> file_ok t x = file_ok s x"
proof -
  show f: "faddr t x = faddr s x" using assms by (auto simp: faddr_def)
  show "fbyte t x = fbyte s x" using assms f by (auto simp: fbyte_def)
  show h: "disksize t = disksize s \<Longrightarrow> has_block t x = has_block s x" using f by (auto simp: has_block_def)
  show "disksize t = disksize s \<Longrightarrow> file_ok t x = file_ok s x" using h by (auto simp: file_ok_def)
qed

lemma bmap_ok:
  assumes view: "bio_view p Map.empty s" and room: "card (pinned s) < NBUF" and x: "i_dev (inodes s ip) = 1"
    and bn: "bn < MAXFILE" "has_block s (inodes s ip) bn"
  shows "\<exists>t. bmap ip (of_nat bn) s = Inr (faddr s (inodes s ip) bn, t) \<and> bio_view p Map.empty t \<and> same_view s t"
proof -
  let ?x = "inodes s ip"
  have u: "unat (of_nat bn :: u32) = bn" using bn(1) by (intro unat_of_nat32) simp
  show ?thesis
  proof (cases "bn < 12")
    case True
    then have "(of_nat bn :: u32) < 12" using u by (simp add: word_less_nat_alt)
    then show ?thesis
      using True bn(2) u view by (simp add: bmap_def bmap_slot_def Let_def faddr_def has_block_def same_view_def)
  next
    case False
    then have w: "\<not> (of_nat bn :: u32) < 12" "unat (of_nat bn - 12 :: u32) = bn - 12"
      using u by (simp_all add: word_less_nat_alt unat_sub_if')
    then have w2: "of_nat bn - 12 < (128 :: u32)" using bn(1) by (simp add: word_less_nat_alt)
    have b: "i_addrs ?x ! 12 \<noteq> 0" "i_addrs ?x ! 12 < disksize s" "faddr s ?x bn \<noteq> 0" using bn(2) False by (auto simp: has_block_def)
    obtain i t v where t: "bread 1 (i_addrs ?x ! 12) s = Inr (i, t)" "b_data (bufs t i) = blk s (i_addrs ?x ! 12)" "kept s t"
      "brelse i t = Inr v" "bio_view p Map.empty v" "same_view s v"
      using read_block [OF view b(2) room] by blast
    have f: "ld32 (b_data (bufs t i)) (4 * unat (of_nat bn - 12 :: u32)) = faddr s ?x bn"
      using False w(2) t(2) by (simp add: faddr_def)
    show ?thesis
      using w w2 b t(1,4-6) f x unfolding bmap_def bmap_slot_def Let_def by simp
  qed
qed

section \<open>Reading\<close>

lemma same_view_room: "same_view s t \<Longrightarrow> card (pinned s) < NBUF \<Longrightarrow> card (pinned t) < NBUF"
  by (simp add: same_view_def)

text \<open>The part of a block that one round copies.\<close>

lemma chunk_bytes:
  assumes "length (blk s (faddr s x (off div 512))) = 512" "off mod 512 + m \<le> 512"
  shows "take m (drop (off mod 512) (blk s (faddr s x (off div 512)))) = map (fbyte s x) [off..<off + m]"
proof (rule nth_equalityI)
  fix i assume "i < length (take m (drop (off mod 512) (blk s (faddr s x (off div 512)))))"
  then have i: "i < m" "off mod 512 + i < 512" using assms by auto
  have "off + i = 512 * (off div 512) + (off mod 512 + i)" by simp
  then have "(off + i) div 512 = off div 512" "(off + i) mod 512 = off mod 512 + i"
    using i(2) by (metis div_mult_self4 div_less add.right_neutral zero_neq_numeral, metis mod_mult_self4 mod_less)
  then show "take m (drop (off mod 512) (blk s (faddr s x (off div 512)))) ! i = map (fbyte s x) [off..<off + m] ! i"
    using i assms by (simp add: fbyte_def)
qed (use assms in simp)

lemma readi_loop_ok:
  assumes "bio_view p Map.empty s" "card (pinned s) < NBUF" "i_dev (inodes s ip) = 1"
    and "off + left \<le> MAXFILE * BSIZE" "\<And>bn. bn * BSIZE < off + left \<Longrightarrow> has_block s (inodes s ip) bn"
  shows "\<exists>t. readi_loop ip off left out s = Inr (out @ map (fbyte s (inodes s ip)) [off..<off + left], t) \<and>
    bio_view p Map.empty t \<and> same_view s t"
  using assms
proof (induction left arbitrary: off out s rule: less_induct)
  case (less left)
  let ?x = "inodes s ip"
  show ?case
  proof (cases "left = 0")
    case True
    then show ?thesis using less.prems(1) by (simp add: readi_loop.simps same_view_def)
  next
    case False
    define m where "m = min left (512 - off mod 512)"
    have m: "0 < m" "m \<le> left" "off mod 512 + m \<le> 512" using False by (auto simp: m_def)
    have hb: "has_block s ?x (off div 512)" using less.prems(5) [of "off div 512"] False by (simp add: div_times_less_eq_dividend le_less_trans)
    have lt: "off div 512 < 140" using less.prems(4) False by simp
    obtain t1 where t1: "bmap ip (of_nat (off div 512)) s = Inr (faddr s ?x (off div 512), t1)" "bio_view p Map.empty t1" "same_view s t1"
      using bmap_ok [OF less.prems(1,2,3) lt hb] by blast
    note S1 = same_viewD [OF t1(3)]
    have I1: "inodes t1 = inodes s" using kept_fs(1) [OF S1(1)] by simp
    obtain i t2 t3 where t2: "bread 1 (faddr s ?x (off div 512)) t1 = Inr (i, t2)" "b_data (bufs t2 i) = blk t1 (faddr s ?x (off div 512))"
      "brelse i t2 = Inr t3" "bio_view p Map.empty t3" "same_view t1 t3"
      using read_block [OF t1(2), of "faddr s ?x (off div 512)"] hb S1(5,6) less.prems(2) by (auto simp: has_block_def)
    have same: "same_view s t3" using same_view_trans [OF t1(3) t2(5)] .
    note S3 = same_viewD [OF same]
    have I3: "inodes t3 = inodes s" using kept_fs(1) [OF S3(1)] by simp
    note F3 = same_file [OF S3(2)]
    let ?out = "out @ map (fbyte s ?x) [off..<off + m]"
    have "take m (drop (off mod 512) (b_data (bufs t2 i))) = map (fbyte s ?x) [off..<off + m]"
      using chunk_bytes [of s ?x off m] blk_length [OF less.prems(1)] m(3) t2(2) S1(2) by simp
    then have "readi_loop ip off left out s = readi_loop ip (off + m) (left - m) ?out t3"
      using False t1(1) t2(1,3) I1 less.prems(3) by (simp add: readi_loop.simps [of ip off] m_def [symmetric] Let_def)
    moreover obtain u where "readi_loop ip (off + m) (left - m) ?out t3 = Inr (?out @ map (fbyte t3 ?x) [off + m..<off + left], u)"
      "bio_view p Map.empty u" "same_view t3 u"
      using less.IH [of "left - m" t3 "off + m" ?out] m t2(4) less.prems I3 S3 F3 by auto
    moreover have "[off..<off + left] = [off..<off + m] @ [off + m..<off + left]"
      using m(2) by (metis le_add_diff_inverse add.assoc upt_add_eq_append le_add1)
    ultimately show ?thesis
      using F3(2) same_view_trans [OF same] by auto
  qed
qed

lemma overflow_iff: "off + n < off \<longleftrightarrow> unat off + unat n \<ge> 2 ^ 32" for off n :: u32
  using unat_less32 [of off] unat_less32 [of n] by (auto simp: word_less_nat_alt unat_word_ariths mod_if)

lemma sint_small_nat: "unat (w :: u32) = k \<Longrightarrow> k < 2 ^ 31 \<Longrightarrow> sint w = int k"
  by (simp add: sint_uint uint_nat signed_take_bit_int_eq_self)

text \<open>
  For an inode whose blocks below its size are allocated, directly or through the indirect block, readi returns the bytes of the
  file from the offset on, as many as asked for and there are; it leaves every block, every inode and the locks as they
  were. An offset behind the end gives -1.
\<close>

lemma readi_ok:
  fixes s :: "'a cons_st_scheme" and off n :: u32
  assumes "bio_view p Map.empty s" and "card (pinned s) < NBUF" and "file_ok s (inodes s ip)" and "i_type (inodes s ip) \<noteq> T_DEV"
  defines "x \<equiv> inodes s ip"
  defines "k \<equiv> min (unat n) (unat (i_size x) - unat off)"
  shows "\<exists>t. readi ip off n s =
      Inr (if unat off > unat (i_size x) \<or> unat off + unat n \<ge> 2 ^ 32 then (-1, []) else (int k, map (fbyte s x) [unat off..<unat off + k]), t) \<and>
    bio_view p Map.empty t \<and> same_view s t"
proof (cases "unat off > unat (i_size x) \<or> unat off + unat n \<ge> 2 ^ 32")
  case True
  then have "off > i_size x \<or> off + n < off" using overflow_iff [of off n] by (auto simp: word_less_nat_alt)
  then show ?thesis
    using True assms(1,4) by (intro exI [of _ s]) (auto simp: readi_def x_def same_view_def)
next
  case False
  then have c: "\<not> (off > i_size x \<or> off + n < off)" using overflow_iff [of off n] by (auto simp: word_less_nat_alt)
  let ?n = "if off + n > i_size x then i_size x - off else n"
  have "unat (off + n) = unat off + unat n" using False by (simp add: unat_word_ariths)
  then have k: "unat ?n = k" using False by (auto simp: k_def word_less_nat_alt unat_sub_if' word_le_nat_alt)
  have sz: "unat (i_size x) \<le> 71680" using assms(3) by (simp add: file_ok_def x_def)
  then have "sint ?n = int k" using k by (intro sint_small_nat) (simp_all add: k_def)
  moreover have end_k: "unat off + k \<le> unat (i_size x)" using False by (auto simp: k_def min_def)
  have "\<And>bn. bn * 512 < unat off + k \<Longrightarrow> has_block s (inodes s ip) bn" using end_k assms(3) by (auto simp: file_ok_def x_def)
  then obtain t where "readi_loop ip (unat off) k [] s = Inr ([] @ map (fbyte s x) [unat off..<unat off + k], t)"
    "bio_view p Map.empty t" "same_view s t"
    using readi_loop_ok [OF assms(1,2), of ip "unat off" k "[]"] assms(3) sz end_k by (auto simp: file_ok_def x_def)
  ultimately show ?thesis
    using False c k assms(4) by (auto simp: readi_def x_def [symmetric] Let_def)
qed

end
