(* ===== verification/Fs_Tx.thy ===== *)
theory Fs_Tx
  imports Fs_Read
begin

text \<open>
  Blocks inside a transaction (fs.c over log.c and bio.c): reading a block, writing one through the log, and the
  allocator of the free bitmap. \<open>txv p st h s\<close> says that process \<open>p\<close> is inside a transaction of the log at block \<open>st\<close>
  and holds the buffers \<open>h\<close>; \<open>adv\<close> that a step has logged at most so many further blocks.
\<close>

section \<open>Steps of a transaction\<close>

definition txv :: "nat \<Rightarrow> int \<Rightarrow> (nat \<rightharpoonup> u32) \<Rightarrow> 'a log_st_scheme \<Rightarrow> bool" where
  "txv p st h s \<longleftrightarrow> bio_view p h s \<and> log_inv st s \<and> log_ready p s \<and> lg_size (log s) = 30 \<and> lg_outstanding (log s) \<ge> 1"

definition adv :: "int \<Rightarrow> 'a log_st_scheme \<Rightarrow> 'a log_st_scheme \<Rightarrow> bool" where
  "adv k s t \<longleftrightarrow> lkept s t \<and> lh_count t \<le> lh_count s + k"

lemma adv_trans: "adv k s t \<Longrightarrow> adv l t u \<Longrightarrow> adv (k + l) s u"
  using lkept_trans [of s t u] by (simp add: adv_def)

lemma adv_mono: "adv k s t \<Longrightarrow> k \<le> l \<Longrightarrow> adv l s t"
  by (simp add: adv_def)

lemma same_adv: "same_view s t \<Longrightarrow> adv 0 s t"
  using same_viewD(1) [of s t] kept_log [of s t] by (auto simp: adv_def)

lemma adv_fs:
  fixes s t :: "'a fs_st_scheme"
  assumes "adv k s t"
  shows "icache t = icache s" "sb t = sb s" "disksize t = disksize s"
  using assms lkept_fs [of s t] lkept_disksize [of s t] by (simp_all add: adv_def)

lemma txv_same: "same_view s t \<Longrightarrow> bio_view p h' t \<Longrightarrow> txv p st h s \<Longrightarrow> txv p st h' t"
  using same_viewD(1) [of s t] kept_log [of s t] log_inv_same [of s t st] kept_log_ready [of s t p] by (simp add: txv_def)

lemma txv_room: "txv p st h s \<Longrightarrow> int (card (dom h)) + lh_count s < 30 \<Longrightarrow> card (dom h) + card (pinned s) < NBUF"
  using log_invD [of st s] distinct_card [of "tx_blocks s"] by (simp add: txv_def)

text \<open>bread gives the contents of the block, and the buffer can be released at once.\<close>

lemma tx_bread:
  assumes s: "txv p st h s" and n: "n < disksize s" "n \<notin> ran h" and room: "int (card (dom h)) + lh_count s < 30"
  shows "\<exists>i t. bread 1 n s = Inr (i, t) \<and> h i = None \<and> txv p st (h(i \<mapsto> n)) t \<and> same_view s t \<and> b_data (bufs t i) = blk s n"
proof -
  have view: "bio_view p h s" using s by (simp add: txv_def)
  obtain i t where t: "bread 1 n s = Inr (i, t)" "h i = None" "bio_view p (h(i \<mapsto> n)) t" "same_view s t"
    using bread_ok [OF view n] txv_room [OF s room] by auto
  have "(h(i \<mapsto> n)) i = Some n" by simp
  then have "b_data (bufs t i) = blk s n"
    using held_buf(4) [OF t(3)] same_viewD(2) [OF t(4)] by simp
  then show ?thesis using t txv_same [OF t(4,3) s] by blast
qed

lemma tx_brelse:
  assumes s: "txv p st h s" and i: "h i = Some n" and clean: "n \<in> pinned s \<or> blk s n = memdisk s n"
  shows "\<exists>t. brelse i s = Inr t \<and> txv p st (h(i := None)) t \<and> same_view s t"
proof -
  have "bio_view p h s" using s by (simp add: txv_def)
  from brelse_ok [OF this i clean] show ?thesis using txv_same [OF _ _ s] by blast
qed

text \<open>New contents of a held buffer, through the log.\<close>

lemma tx_log_write:
  assumes s: "txv p st h s" and i: "h i = Some n" "n \<notin> log_area st" and d: "length d = BSIZE" and room: "lh_count s < 29"
  shows "\<exists>t. log_write i (set_data i d s) = Inr t \<and> txv p st h t \<and> adv 1 s t \<and> blk t = (blk s)(n := d) \<and> n \<in> pinned t"
proof -
  have view: "bio_view p h s" and inv: "log_inv st s" and ready: "log_ready p s" and sz: "lg_size (log s) = 30" "lg_outstanding (log s) \<ge> 1"
    using s by (auto simp: txv_def)
  note U = set_data_ok [OF view i(1) d]
  let ?b = "set_data i d s"
  note k = U(6)
  have lg: "log ?b = log s" using kept_log [OF k] .
  have inv': "log_inv st ?b" using log_inv_kept [OF k U(3,4) inv] .
  define c where "c = upd_buf i (\<lambda>x. x\<lparr>b_flags := b_flags x OR 4\<rparr>) (set_lh (lh_add n) ?b)"
  have "lh_count ?b < 29" "lg_size (log ?b) = 30" "1 \<le> lg_outstanding (log ?b)" using room sz lg by simp_all
  note c = log_write_ok [OF U(1) inv' kept_log_ready [OF k ready] i this, folded c_def]
  have cl: "log c = log (set_lh (lh_add n) ?b)" by (simp add: c_def upd_buf_def)
  have pin: "n \<in> pinned c" using log_invD(2) [OF c(3)] c(8) by (auto simp: tx_add_def)
  have "adv 1 s c" using lkept_trans [OF lkept_kept [OF k] c(9)] c(10) lg by (simp add: adv_def)
  moreover have "txv p st h c" using c(2-4) sz lg by (simp add: txv_def cl set_lh_def)
  ultimately show ?thesis using c(1,5) U(2) pin by auto
qed

text \<open>
  The two ways a block is used: read and released, or read, changed through the log and released.
\<close>

lemma tx_read:
  assumes s: "txv p st h s" and n: "n < disksize s" "n \<notin> ran h" and room: "int (card (dom h)) + lh_count s < 30"
  shows "\<exists>i t u. bread 1 n s = Inr (i, t) \<and> kept s t \<and> b_data (bufs t i) = blk s n \<and> brelse i t = Inr u \<and> txv p st h u \<and> same_view s u"
proof -
  obtain i t where t: "bread 1 n s = Inr (i, t)" "h i = None" "txv p st (h(i \<mapsto> n)) t" "same_view s t" "b_data (bufs t i) = blk s n"
    using tx_bread [OF s n room] by blast
  note S = same_viewD [OF t(4)]
  have i: "(h(i \<mapsto> n)) i = Some n" and h: "(h(i \<mapsto> n))(i := None) = h" using t(2) by auto
  have "n \<in> pinned t \<or> blk t n = memdisk t n"
    using blk_clean [of p h s n] s n(2) S by (auto simp: txv_def)
  then obtain u where "brelse i t = Inr u" "txv p st h u" "same_view t u"
    using tx_brelse [OF t(3) i] unfolding h by blast
  then show ?thesis using t S(1) same_view_trans [OF t(4)] by blast
qed

lemma tx_update:
  assumes s: "txv p st h s" and n: "n < disksize s" "n \<notin> ran h" "n \<notin> log_area st" and d: "length d = BSIZE"
    and room: "int (card (dom h)) + lh_count s < 29"
  shows "\<exists>i t u v. bread 1 n s = Inr (i, t) \<and> kept s t \<and> b_data (bufs t i) = blk s n \<and> log_write i (set_data i d t) = Inr u \<and>
    brelse i u = Inr v \<and> txv p st h v \<and> adv 1 s v \<and> blk v = (blk s)(n := d)"
proof -
  obtain i t where t: "bread 1 n s = Inr (i, t)" "h i = None" "txv p st (h(i \<mapsto> n)) t" "same_view s t" "b_data (bufs t i) = blk s n"
    using tx_bread [OF s n(1,2)] room by fastforce
  note S = same_viewD [OF t(4)]
  have i: "(h(i \<mapsto> n)) i = Some n" and h: "(h(i \<mapsto> n))(i := None) = h" using t(2) by auto
  have "lh_count t < 29" using room kept_log [OF S(1)] by simp
  then obtain u where u: "log_write i (set_data i d t) = Inr u" "txv p st (h(i \<mapsto> n)) u" "adv 1 t u" "blk u = (blk t)(n := d)" "n \<in> pinned u"
    using tx_log_write [OF t(3) i n(3) d] by blast
  obtain v where v: "brelse i u = Inr v" "txv p st h v" "same_view u v"
    using tx_brelse [OF u(2) i] u(5) unfolding h by blast
  have "adv 1 s v" using adv_trans [OF same_adv [OF t(4)] adv_trans [OF u(3) same_adv [OF v(3)]]] by simp
  then show ?thesis using t u v same_viewD(2) [OF v(3)] S(1,2) by (intro exI [of _ i] exI [of _ t] exI [of _ u] exI [of _ v]) simp
qed

end
