(* ===== verification/Fs_Alloc.thy ===== *)
theory Fs_Alloc
  imports Fs_Tx Log_Props
begin

unbundle bit_operations_syntax

text \<open>
  The block allocator (balloc and bfree of fs.c) inside a transaction. \<open>used s b\<close> is the bit of block \<open>b\<close> in the bitmap
  on the disk; the allocator is shown to act on this set of blocks.
\<close>

section \<open>Bits of a bitmap block\<close>

definition set_bm :: "nat \<Rightarrow> u8 list \<Rightarrow> u8 list" where
  "set_bm bi d = d[bi div 8 := d ! (bi div 8) OR bit_mask bi]"

definition clear_bm :: "nat \<Rightarrow> u8 list \<Rightarrow> u8 list" where
  "clear_bm bi d = d[bi div 8 := d ! (bi div 8) AND NOT (bit_mask bi)]"

lemma bm_length [simp]: "length (set_bm bi d) = length d" "length (clear_bm bi d) = length d"
  by (simp_all add: set_bm_def clear_bm_def)

lemma bm_mask_iff: "bit (bit_mask bi) k \<longleftrightarrow> k = bi mod 8"
  by (auto simp: bit_mask_def bit_simps)

lemma bit_set_iff: "bit_set d bi \<longleftrightarrow> bit (d ! (bi div 8)) (bi mod 8)"
  unfolding bit_set_def by (auto simp: bit_eq_iff [of "d ! (bi div 8) AND bit_mask bi" 0] bit_and_iff bm_mask_iff)

lemma byte_bit_eq: "i div 8 = j div 8 \<Longrightarrow> i mod 8 = j mod 8 \<Longrightarrow> i = j" for i j :: nat
  by (metis mult_div_mod_eq)

lemma bit_set_bm:
  assumes "bi div 8 < length d"
  shows "bit_set (set_bm bi d) j \<longleftrightarrow> j = bi \<or> bit_set d j" "bit_set (clear_bm bi d) j \<longleftrightarrow> j \<noteq> bi \<and> bit_set d j"
proof -
  have m: "j mod 8 < 8" by simp
  show "bit_set (set_bm bi d) j \<longleftrightarrow> j = bi \<or> bit_set d j"
    using assms byte_bit_eq [of j bi] m by (cases "j div 8 = bi div 8") (auto simp: bit_set_iff set_bm_def bit_or_iff bm_mask_iff)
  show "bit_set (clear_bm bi d) j \<longleftrightarrow> j \<noteq> bi \<and> bit_set d j"
    using assms byte_bit_eq [of j bi] m
    by (cases "j div 8 = bi div 8") (auto simp: bit_set_iff clear_bm_def bit_and_iff bit_not_iff bm_mask_iff)
qed

lemma balloc_scan_None: "balloc_scan k sz b d bi = None \<longleftrightarrow> (\<forall>i\<in>{bi..<bi + k}. b + i < sz \<longrightarrow> bit_set d i)"
proof (induction k arbitrary: bi)
  case (Suc k)
  have "{bi..<bi + Suc k} = insert bi {bi + 1..<bi + 1 + k}" by auto
  then show ?case using Suc.IH [of "bi + 1"] by auto
qed auto

lemma balloc_scan_Some:
  "balloc_scan k sz b d bi = Some j \<Longrightarrow> bi \<le> j \<and> j < bi + k \<and> b + j < sz \<and> \<not> bit_set d j \<and> (\<forall>i\<in>{bi..<j}. bit_set d i)"
proof (induction k arbitrary: bi)
  case (Suc k)
  show ?case
  proof (cases "bit_set d bi")
    case True
    then have "balloc_scan k sz b d (bi + 1) = Some j" using Suc.prems by (simp split: if_splits)
    moreover have "{bi..<j} \<subseteq> insert bi {bi + 1..<j}" by auto
    ultimately show ?thesis using Suc.IH [of "bi + 1"] True by auto
  qed (use Suc.prems in \<open>auto split: if_splits\<close>)
qed simp

section \<open>The bitmap\<close>

abbreviation bm_block :: "'a fs_st_scheme \<Rightarrow> nat \<Rightarrow> u32" where
  "bm_block s b \<equiv> BBLOCK (of_nat b) (sb s)"

abbreviation nblocks :: "'a fs_st_scheme \<Rightarrow> nat" where
  "nblocks s \<equiv> unat (sb_size (sb s))"

definition used :: "'a fs_st_scheme \<Rightarrow> nat \<Rightarrow> bool" where
  "used s b \<longleftrightarrow> bit_set (blk s (bm_block s b)) (b mod BPB)"

text \<open>
  The bitmap is on the disk and outside the log, and no block of it, none of the log and not the boot block is
  free.
\<close>

definition bitmap_ok :: "int \<Rightarrow> 'a fs_st_scheme \<Rightarrow> bool" where
  "bitmap_ok st s \<longleftrightarrow> sb_size (sb s) \<le> disksize s \<and>
     (\<forall>b < nblocks s. bm_block s b < disksize s \<and> bm_block s b \<notin> log_area st) \<and>
     (\<forall>b < nblocks s. \<not> used s b \<longrightarrow> 0 < b \<and> of_nat b \<notin> log_area st \<and> (\<forall>c < nblocks s. of_nat b \<noteq> bm_block s c))"

lemma of_nat_div32: "b < 2 ^ 32 \<Longrightarrow> (of_nat b :: u32) div 4096 = of_nat (b div 4096)"
  by (simp add: word_unat_eq_iff unat_div unat_of_nat32 div_le_dividend le_less_trans)

lemma bm_block_eq:
  assumes "b < nblocks s" "c < nblocks s"
  shows "bm_block s b = bm_block s c \<longleftrightarrow> b div BPB = c div BPB"
proof -
  have *: "b < 2 ^ 32" "c < 2 ^ 32" using assms unat_less32 [of "sb_size (sb s)"] by auto
  then have "b div 4096 < 2 ^ 32" "c div 4096 < 2 ^ 32" by (simp_all add: div_le_dividend le_less_trans)
  then show ?thesis using * by (simp add: BBLOCK_def of_nat_div32) (simp add: word_unat_eq_iff unat_of_nat32)
qed

lemma bm_block_same: "b < nblocks s \<Longrightarrow> bm_block s (b div BPB * BPB) = bm_block s b"
  using bm_block_eq [of "b div 4096 * 4096" s b] le_less_trans [OF div_times_less_eq_dividend [of b 4096]] by simp

lemma bitmap_okD:
  assumes "bitmap_ok st s" "b < nblocks s"
  shows "bm_block s b < disksize s" "bm_block s b \<notin> log_area st" "of_nat b < disksize s" "(of_nat b :: u32) = of_nat c \<Longrightarrow> c < nblocks s \<Longrightarrow> b = c"
    "\<not> used s b \<Longrightarrow> of_nat b \<noteq> (0 :: u32)" "\<not> used s b \<Longrightarrow> of_nat b \<notin> log_area st"
    "\<not> used s b \<Longrightarrow> c < nblocks s \<Longrightarrow> of_nat b \<noteq> bm_block s c"
proof -
  have lt: "c < 2 ^ 32" if "c < nblocks s" for c using that unat_less32 [of "sb_size (sb s)"] by simp
  note u = unat_of_nat32 [OF lt]
  have sz: "nblocks s \<le> unat (disksize s)" using assms(1) by (simp add: bitmap_ok_def word_le_nat_alt)
  show "of_nat b < disksize s" using assms(2) sz u [of b] by (simp add: word_less_nat_alt)
  show "(of_nat b :: u32) = of_nat c \<Longrightarrow> c < nblocks s \<Longrightarrow> b = c" using u [OF assms(2)] u [of c] by metis
  show "\<not> used s b \<Longrightarrow> of_nat b \<noteq> (0 :: u32)" using assms u [OF assms(2)] by (auto simp: bitmap_ok_def word_unat_eq_iff)
qed (use assms in \<open>auto simp: bitmap_ok_def\<close>)

lemma used_cong: "blk t = blk s \<Longrightarrow> sb t = sb s \<Longrightarrow> used t = used s"
  by (simp add: used_def fun_eq_iff)

lemma bitmap_ok_cong: "blk t = blk s \<Longrightarrow> sb t = sb s \<Longrightarrow> disksize t = disksize s \<Longrightarrow> bitmap_ok st t = bitmap_ok st s"
  using used_cong [of t s] by (simp add: bitmap_ok_def)

section \<open>Allocating\<close>

text \<open>The blocks after the allocation of block \<open>b\<close>.\<close>

definition alloc_blk :: "superblock \<Rightarrow> nat \<Rightarrow> (u32 \<Rightarrow> u8 list) \<Rightarrow> u32 \<Rightarrow> u8 list" where
  "alloc_blk x b B = B(BBLOCK (of_nat b) x := set_bm (b mod BPB) (B (BBLOCK (of_nat b) x)), of_nat b := replicate BSIZE 0)"

lemma bit_set_alloc:
  assumes ok: "bitmap_ok st s" "length (blk s (bm_block s b)) = BSIZE" and b: "b < nblocks s" "\<not> used s b" and c: "c < nblocks s"
  shows "bit_set (alloc_blk (sb s) b (blk s) (bm_block s c)) (c mod BPB) \<longleftrightarrow> c = b \<or> used s c"
proof -
  have n: "of_nat b \<noteq> bm_block s c" using bitmap_okD(7) [OF ok(1) b c] .
  have l: "b mod 4096 div 8 < length (blk s (bm_block s b))" using ok(2) by simp
  show ?thesis
  proof (cases "bm_block s c = bm_block s b")
    case True
    then have "c div 4096 = b div 4096" using bm_block_eq [OF c b(1)] by simp
    then have "c mod 4096 = b mod 4096 \<longleftrightarrow> c = b" by (metis mult_div_mod_eq)
    then show ?thesis using True n bit_set_bm(1) [OF l] by (auto simp: used_def alloc_blk_def)
  next
    case False
    then show ?thesis using n by (auto simp: used_def alloc_blk_def)
  qed
qed

lemma used_alloc:
  assumes "bitmap_ok st s" "length (blk s (bm_block s b)) = BSIZE" "b < nblocks s" "\<not> used s b"
    and "blk t = alloc_blk (sb s) b (blk s)" "sb t = sb s" "c < nblocks s"
  shows "used t c \<longleftrightarrow> c = b \<or> used s c"
  using bit_set_alloc [OF assms(1-4,7)] assms(5,6) by (simp add: used_def)

lemma bzero_ok:
  assumes s: "txv p st h s" and n: "n < disksize s" "n \<notin> ran h" "n \<notin> log_area st" and room: "int (card (dom h)) + lh_count s < 29"
  shows "\<exists>t. bzero 1 n s = Inr t \<and> txv p st h t \<and> adv 1 s t \<and> blk t = (blk s)(n := replicate BSIZE 0)"
proof -
  obtain i t u v where "bread 1 n s = Inr (i, t)" "log_write i (set_data i (replicate 512 0) t) = Inr u" "brelse i u = Inr v" "txv p st h v"
      "adv 1 s v" "blk v = (blk s)(n := replicate 512 0)"
    using tx_update [OF s n _ room, of "replicate 512 0"] by fastforce
  then show ?thesis by (simp add: bzero_def)
qed

text \<open>The scan of one bitmap block.\<close>

lemma scan_first_free:
  assumes b: "b < nblocks s" "\<not> used s b" "\<forall>c < b. used s c" and i: "i * BPB \<le> b"
  shows "balloc_scan BPB (nblocks s) (i * BPB) (blk s (bm_block s (i * BPB))) 0 = (if i = b div BPB then Some (b mod BPB) else None)"
    (is "?r = _")
proof -
  let ?d = "blk s (bm_block s (i * 4096))"
  have bit: "bit_set ?d j \<longleftrightarrow> used s (i * 4096 + j)" if "j < 4096" "i * 4096 + j < nblocks s" for j
  proof -
    have "(i * 4096 + j) div 4096 = i" "(i * 4096 + j) mod 4096 = j" using that(1) by simp_all
    then show ?thesis using bm_block_same [OF that(2)] by (simp add: used_def)
  qed
  show ?thesis
  proof (cases "i = b div 4096")
    case True
    have b': "b = i * 4096 + b mod 4096" using True by simp
    have "\<not> bit_set ?d (b mod 4096)" using bit [of "b mod 4096"] b b' by simp
    then have "?r \<noteq> None" using b(1) b' unfolding balloc_scan_None by force
    then obtain j where j: "?r = Some j" by auto
    note J = balloc_scan_Some [OF j]
    have "\<not> j < b mod 4096" using J bit [of j] b(3) b' by auto
    moreover have "\<not> b mod 4096 < j" using J \<open>\<not> bit_set ?d (b mod 4096)\<close> by auto
    ultimately show ?thesis using j True by simp
  next
    case False
    then have "i < b div 4096" using i by (simp add: less_eq_div_iff_mult_less_eq)
    then have "i * 4096 + 4096 \<le> b" using less_eq_div_iff_mult_less_eq [of 4096 "Suc i" b] by simp
    then have "?r = None" unfolding balloc_scan_None using bit b(3) by auto
    then show ?thesis using False by simp
  qed
qed

definition held_apart :: "(nat \<rightharpoonup> u32) \<Rightarrow> 'a fs_st_scheme \<Rightarrow> bool" where
  "held_apart h s \<longleftrightarrow> (\<forall>c < nblocks s. bm_block s c \<notin> ran h \<and> (\<not> used s c \<longrightarrow> of_nat c \<notin> ran h))"

lemma held_apart_cong: "blk t = blk s \<Longrightarrow> sb t = sb s \<Longrightarrow> held_apart h t = held_apart h s"
  using used_cong [of t s] by (simp add: held_apart_def)

lemma balloc_found:
  fixes s :: "'a fs_st_scheme"
  assumes s: "txv p st h s" "bitmap_ok st s" "held_apart h s" and room: "int (card (dom h)) + lh_count s < 28"
    and b: "b < nblocks s" "\<not> used s b" "\<forall>c < b. used s c"
  shows "\<exists>t. balloc_loop 1 (b div BPB * BPB # bs) s = Inr (of_nat b, t) \<and> txv p st h t \<and> adv 2 s t \<and> blk t = alloc_blk (sb s) b (blk s)"
proof -
  let ?n = "bm_block s b" and ?bi = "b mod 4096"
  let ?d = "set_bm ?bi (blk s ?n)"
  note B = bitmap_okD [OF s(2) b(1)]
  have h: "?n \<notin> ran h" "of_nat b \<notin> ran h" using s(3) b by (auto simp: held_apart_def)
  have d: "length ?d = 512" using s(1) blk_length [of p h s ?n] by (simp add: txv_def)
  obtain i t u v where t: "bread 1 ?n s = Inr (i, t)" "kept s t" "b_data (bufs t i) = blk s ?n" "log_write i (set_data i ?d t) = Inr u"
      "brelse i u = Inr v" "txv p st h v" "adv 1 s v" "blk v = (blk s)(?n := ?d)"
    using tx_update [OF s(1) B(1) h(1) B(2) d] room by fastforce
  have r: "of_nat b < disksize v" "int (card (dom h)) + lh_count v < 29"
    using B(3) adv_fs(3) [OF t(7)] t(7) room by (simp_all add: adv_def)
  obtain w where w: "bzero 1 (of_nat b) v = Inr w" "txv p st h w" "adv 1 v w" "blk w = (blk v)(of_nat b := replicate 512 0)"
    using bzero_ok [OF t(6) r(1) h(2) B(6) [OF b(2)] r(2)] by blast
  have "balloc_scan 4096 (nblocks s) (b div 4096 * 4096) (blk s ?n) 0 = Some ?bi"
    using scan_first_free [OF b, of "b div 4096"] bm_block_same [OF b(1)] by simp
  then have "balloc_loop 1 (b div 4096 * 4096 # bs) s = Inr (of_nat b, w)"
    using t w(1) bm_block_same [OF b(1)] kept_fs(2) [OF t(2)] unfolding set_bm_def by simp
  moreover have "blk w = alloc_blk (sb s) b (blk s)" using w(4) t(8) by (simp add: alloc_blk_def)
  ultimately show ?thesis using w adv_trans [OF t(7) w(3)] by (simp add: numeral_2_eq_2)
qed

lemma balloc_loop_ok:
  fixes s :: "'a fs_st_scheme"
  assumes "txv p st h s" "bitmap_ok st s" "held_apart h s" "int (card (dom h)) + lh_count s < 28"
    and "b < nblocks s" "\<not> used s b" "\<forall>c < b. used s c" "i \<le> b div BPB" "b div BPB < N"
  shows "\<exists>t. balloc_loop 1 (map (\<lambda>i. i * BPB) [i..<N]) s = Inr (of_nat b, t) \<and> txv p st h t \<and> adv 2 s t \<and> blk t = alloc_blk (sb s) b (blk s)"
  using assms
proof (induction "b div BPB - i" arbitrary: i s)
  case 0
  then have "i = b div 4096" "[i..<N] = i # [Suc i..<N]" by (auto simp: upt_conv_Cons)
  then show ?case using balloc_found [OF "0.prems"(1-7), of "map (\<lambda>i. i * 4096) [Suc i..<N]"] by simp
next
  case (Suc k)
  then have i: "i < b div 4096" "i * 4096 \<le> b" "[i..<N] = i # [Suc i..<N]"
    by (auto simp: upt_conv_Cons less_eq_div_iff_mult_less_eq [symmetric])
  then have ib: "i * 4096 < nblocks s" using Suc.prems(5) by simp
  let ?n = "bm_block s (i * 4096)"
  have n: "?n < disksize s" "?n \<notin> ran h" using bitmap_okD(1) [OF Suc.prems(2) ib] Suc.prems(3) ib by (auto simp: held_apart_def)
  obtain j t u where t: "bread 1 ?n s = Inr (j, t)" "kept s t" "b_data (bufs t j) = blk s ?n" "brelse j t = Inr u" "txv p st h u" "same_view s u"
    using tx_read [OF Suc.prems(1) n] Suc.prems(4) by fastforce
  note S = same_viewD [OF t(6)] and A = same_adv [OF t(6)]
  note F = adv_fs [OF A]
  have scan: "balloc_scan 4096 (nblocks s) (i * 4096) (blk s ?n) 0 = None"
    using scan_first_free [OF Suc.prems(5-7) i(2)] i(1) by simp
  have "balloc_loop 1 (map (\<lambda>i. i * 4096) [i..<N]) s = balloc_loop 1 (map (\<lambda>i. i * 4096) [Suc i..<N]) u"
    using t scan kept_fs(2) [OF t(2)] unfolding i(3) by simp
  moreover have "\<exists>v. balloc_loop 1 (map (\<lambda>i. i * 4096) [Suc i..<N]) u = Inr (of_nat b, v) \<and> txv p st h v \<and> adv 2 u v \<and>
      blk v = alloc_blk (sb u) b (blk u)"
    using Suc.hyps(2) Suc.prems t(5) i(1) A used_cong [OF S(2) F(2)] bitmap_ok_cong [OF S(2) F(2,3)] held_apart_cong [OF S(2) F(2)] F(2)
    by (intro Suc.hyps(1)) (auto simp: adv_def)
  ultimately show ?case using adv_trans [OF A] S(2) F(2) by fastforce
qed

lemma balloc_ok:
  fixes s :: "'a fs_st_scheme"
  assumes "txv p st h s" "bitmap_ok st s" "held_apart h s" "int (card (dom h)) + lh_count s < 28"
    and b: "b < nblocks s" "\<not> used s b" "\<forall>c < b. used s c"
  shows "\<exists>t. balloc 1 s = Inr (of_nat b, t) \<and> txv p st h t \<and> adv 2 s t \<and> blk t = alloc_blk (sb s) b (blk s)"
proof -
  have "b div 4096 * 4096 + 4096 \<le> nblocks s + 4095"
    using b(1) div_times_less_eq_dividend [of b 4096] by linarith
  then have "Suc (b div 4096) \<le> (nblocks s + 4095) div 4096" by (simp add: less_eq_div_iff_mult_less_eq)
  then show ?thesis
    using balloc_loop_ok [OF assms, of 0] unfolding balloc_def steps_def by simp
qed

lemma balloc_full:
  fixes s :: "'a fs_st_scheme"
  assumes "txv p st h s" "bitmap_ok st s" "held_apart h s" "int (card (dom h)) + lh_count s < 28" "\<forall>c < nblocks s. used s c"
    and "set is \<subseteq> {i. i * BPB < nblocks s}"
  shows "balloc_loop 1 (map (\<lambda>i. i * BPB) is) s = Inl (Panic ''balloc: out of blocks'')"
  using assms
proof (induction "is" arbitrary: s)
  case (Cons i "is")
  let ?n = "bm_block s (i * 4096)"
  have ib: "i * 4096 < nblocks s" using Cons.prems(6) by simp
  have n: "?n < disksize s" "?n \<notin> ran h" using bitmap_okD(1) [OF Cons.prems(2) ib] Cons.prems(3) ib by (auto simp: held_apart_def)
  obtain j t u where t: "bread 1 ?n s = Inr (j, t)" "kept s t" "b_data (bufs t j) = blk s ?n" "brelse j t = Inr u" "txv p st h u" "same_view s u"
    using tx_read [OF Cons.prems(1) n] Cons.prems(4) by fastforce
  note S = same_viewD [OF t(6)] and A = same_adv [OF t(6)]
  note F = adv_fs [OF A]
  have "bit_set (blk s ?n) j" if "j < 4096" "i * 4096 + j < nblocks s" for j
    using that Cons.prems(5) bm_block_same [OF that(2)] by (fastforce simp: used_def)
  then have "balloc_scan 4096 (nblocks s) (i * 4096) (blk s ?n) 0 = None"
    unfolding balloc_scan_None by simp
  moreover have "balloc_loop 1 (map (\<lambda>i. i * 4096) is) u = Inl (Panic ''balloc: out of blocks'')"
    using Cons.prems t(5) A used_cong [OF S(2) F(2)] bitmap_ok_cong [OF S(2) F(2,3)] held_apart_cong [OF S(2) F(2)] F(2)
    by (intro Cons.IH) (auto simp: adv_def)
  ultimately show ?case using t kept_fs(2) [OF t(2)] by simp
qed simp

lemma bitmap_ok_mono:
  assumes "bitmap_ok st s" "sb t = sb s" "disksize t = disksize s" "\<And>c. c < nblocks s \<Longrightarrow> used s c \<Longrightarrow> used t c"
  shows "bitmap_ok st t"
  using assms by (auto simp: bitmap_ok_def)

section \<open>Freeing\<close>

lemma bfree_ok:
  fixes s :: "'a fs_st_scheme"
  assumes s: "txv p st h s" "bitmap_ok st s" "held_apart h s" and room: "int (card (dom h)) + lh_count s < 29" and b: "b < nblocks s"
  shows "used s b \<Longrightarrow> \<exists>t. bfree 1 (of_nat b) s = Inr t \<and> txv p st h t \<and> adv 1 s t \<and>
      blk t = (blk s)(bm_block s b := clear_bm (b mod BPB) (blk s (bm_block s b))) \<and> (\<forall>c < nblocks s. used t c \<longleftrightarrow> c \<noteq> b \<and> used s c)"
    and "\<not> used s b \<Longrightarrow> bfree 1 (of_nat b) s = Inl (Panic ''freeing free block'')"
proof -
  let ?n = "bm_block s b" and ?bi = "b mod 4096"
  let ?d = "clear_bm ?bi (blk s ?n)"
  note B = bitmap_okD [OF s(2) b]
  have u: "unat (of_nat b :: u32) = b" using b unat_less32 [of "sb_size (sb s)"] by (intro unat_of_nat32) simp
  have h: "?n \<notin> ran h" using s(3) b by (auto simp: held_apart_def)
  have l: "length (blk s ?n) = 512" using s(1) blk_length [of p h s ?n] by (simp add: txv_def)
  then have d: "length ?d = 512" by simp
  obtain i t v w where t: "bread 1 ?n s = Inr (i, t)" "kept s t" "b_data (bufs t i) = blk s ?n" "log_write i (set_data i ?d t) = Inr v"
      "brelse i v = Inr w" "txv p st h w" "adv 1 s w" "blk w = (blk s)(?n := ?d)"
    using tx_update [OF s(1) B(1) h B(2) d room] by blast
  show "\<not> used s b \<Longrightarrow> bfree 1 (of_nat b) s = Inl (Panic ''freeing free block'')"
    using t(1,3) u by (simp add: bfree_def used_def)
  have "used w c \<longleftrightarrow> c \<noteq> b \<and> used s c" if c: "c < nblocks s" for c
  proof (cases "bm_block s c = ?n")
    case True
    then have "c div 4096 = b div 4096" using bm_block_eq [OF c b] by simp
    then have "c mod 4096 = ?bi \<longleftrightarrow> c = b" by (metis mult_div_mod_eq)
    then show ?thesis using True bit_set_bm(2) [of ?bi "blk s ?n"] l t(8) adv_fs(2) [OF t(7)] by (auto simp: used_def)
  next
    case False
    then show ?thesis using t(8) adv_fs(2) [OF t(7)] by (auto simp: used_def)
  qed
  then show "used s b \<Longrightarrow> \<exists>t. bfree 1 (of_nat b) s = Inr t \<and> txv p st h t \<and> adv 1 s t \<and> blk t = (blk s)(?n := ?d) \<and>
      (\<forall>c < nblocks s. used t c \<longleftrightarrow> c \<noteq> b \<and> used s c)"
    using t u by (simp add: bfree_def used_def clear_bm_def)
qed

section \<open>The allocator\<close>

lemma held_none: "held_apart Map.empty s"
  by (simp add: held_apart_def)

lemma alloc_blk_other: "n \<noteq> of_nat b \<Longrightarrow> n \<noteq> BBLOCK (of_nat b) x \<Longrightarrow> alloc_blk x b B n = B n"
  by (simp add: alloc_blk_def)

text \<open>
  C39. The block allocator hands out free blocks. Inside a transaction, on a disk whose bitmap marks itself, the log and the boot block
  as in use: when some block is free, balloc returns one that was free, fills it with zeros, marks it and no
  other block as used, and changes no block outside the bitmap beside it; freeing the block restores the set of used
  blocks, and freeing it twice panics. When no block is free, balloc panics.
\<close>

theorem balloc_hands_out_free_blocks:
  fixes s :: "'a fs_st_scheme"
  assumes s: "txv p st Map.empty s" "bitmap_ok st s" and room: "lh_count s < 26"
  shows "if \<exists>b < nblocks s. \<not> used s b
    then \<exists>b t u. b < nblocks s \<and> \<not> used s b \<and> balloc 1 s = Inr (of_nat b, t) \<and> bitmap_ok st t \<and> (\<forall>c < nblocks s. used t c \<longleftrightarrow> c = b \<or> used s c) \<and>
      blk t (of_nat b) = replicate BSIZE 0 \<and> (\<forall>n. n = of_nat b \<or> n \<in> bm_block s ` {..<nblocks s} \<or> blk t n = blk s n) \<and>
      bfree 1 (of_nat b) t = Inr u \<and> (\<forall>c < nblocks s. used u c \<longleftrightarrow> used s c) \<and> bfree 1 (of_nat b) u = Inl (Panic ''freeing free block'')
    else balloc 1 s = Inl (Panic ''balloc: out of blocks'')"
proof (cases "\<exists>b < nblocks s. \<not> used s b")
  case True
  then obtain b where b: "b < nblocks s" "\<not> used s b" "\<forall>c < b. used s c"
    using exists_least_iff [of "\<lambda>b. b < nblocks s \<and> \<not> used s b"] by (meson less_trans)
  obtain t where t: "balloc 1 s = Inr (of_nat b, t)" "txv p st Map.empty t" "adv 2 s t" "blk t = alloc_blk (sb s) b (blk s)"
    using balloc_ok [OF s held_none _ b] room by auto
  note F = adv_fs [OF t(3)]
  have l: "length (blk s (bm_block s b)) = 512" using s(1) blk_length [of p Map.empty s] by (simp add: txv_def)
  note U = used_alloc [OF s(2) l b(1,2) t(4) F(2)]
  have ok: "bitmap_ok st t" using bitmap_ok_mono [OF s(2) F(2,3)] U by blast
  have bt: "b < nblocks t" "used t b" "lh_count t < 28" using b(1) F(2) U [OF b(1)] t(3) room by (simp_all add: adv_def)
  obtain u where u: "bfree 1 (of_nat b) t = Inr u" "txv p st Map.empty u" "adv 1 t u" "\<forall>c < nblocks t. used u c \<longleftrightarrow> c \<noteq> b \<and> used t c"
    using bfree_ok(1) [OF t(2) ok held_none _ bt(1,2)] bt(3) by auto
  note G = adv_fs [OF u(3)]
  have su: "\<forall>c < nblocks s. used u c \<longleftrightarrow> used s c" using u(4) U b(2) F(2) by auto
  have oku: "bitmap_ok st u" using bitmap_ok_mono [OF s(2), of u] F G su by simp
  have "lh_count u < 29" "b < nblocks u" "\<not> used u b" using bt u(3) b F G su by (simp_all add: adv_def)
  then have "bfree 1 (of_nat b) u = Inl (Panic ''freeing free block'')" using bfree_ok(2) [OF u(2) oku held_none] by simp
  moreover have "n = of_nat b \<or> n \<in> bm_block s ` {..<nblocks s} \<or> blk t n = blk s n" for n
    using alloc_blk_other [of n b "sb s"] b(1) t(4) by auto
  moreover have "blk t (of_nat b) = replicate 512 0" using t(4) by (simp add: alloc_blk_def)
  ultimately show ?thesis unfolding if_P [OF True] using b(1,2) t(1) ok U u(1) su by (intro exI [of _ b] exI [of _ t] exI [of _ u]) simp
next
  case False
  have "i * 4096 < nblocks s" if "i < (nblocks s + 4095) div 4096" for i
    using that less_eq_div_iff_mult_less_eq [of 4096 "Suc i" "nblocks s + 4095"] by simp
  then have N: "set [0..<(nblocks s + 4095) div 4096] \<subseteq> {i. i * 4096 < nblocks s}" by auto
  have "balloc 1 s = Inl (Panic ''balloc: out of blocks'')"
    using balloc_full [OF s held_none _ _ N] room False by (simp add: balloc_def steps_def add.commute)
  then show ?thesis using False by simp
qed

section \<open>A machine inside a transaction\<close>

text \<open>The disk of mkfs: the log at block 2, the inodes at 32, the bitmap at 58, and the blocks before 59 in use.\<close>

definition bm_disk :: "u32 \<Rightarrow> u8 list" where
  "bm_disk = (\<lambda>_. replicate 512 0)(58 := replicate 7 255 @ [7] @ replicate 504 0)"

definition tx_machine :: sys_st where
  "tx_machine = upd_log (\<lambda>l. l\<lparr>lg_outstanding := 1\<rparr>) (machine\<lparr>memdisk := bm_disk\<rparr>)"

lemma bm_disk_length: "length (bm_disk n) = 512"
  by (simp add: bm_disk_def)

lemma tx_machine_parts [simp]:
  "sb tx_machine = sb machine" "disksize tx_machine = 1000" "memdisk tx_machine = bm_disk" "lh_count tx_machine = 0"
  "inodes tx_machine = (\<lambda>_. zero_inode)" "sb machine = \<lparr>sb_size = 1000, sb_nblocks = 941, sb_ninodes = 200, sb_nlog = 30, sb_logstart = 2, sb_inodestart = 32, sb_bmapstart = 58\<rparr>"
  by (simp_all add: tx_machine_def upd_log_def machine_def)

lemma tx_machine_tx: "txv 0 2 Map.empty tx_machine"
proof -
  have log: "log tx_machine = \<lparr>lg_lock = free_lock, lg_start = 2, lg_size = 30, lg_outstanding = 1, lg_committing = 0, lg_dev = 1,
      lg_lh = \<lparr>lh_n = 0, lh_block = replicate 30 0\<rparr>\<rparr>" and ready: "sleep_ready 0 tx_machine"
    by (simp_all add: tx_machine_def machine_def sleep_ready_def running_def cpu_ok_def this_cpu_def upd_log_def)
  have "bio_view 0 Map.empty tx_machine" "pinned tx_machine = {}"
    using disk_machine_view [OF bm_disk_length] by (simp_all add: tx_machine_def)
  moreover have "ld32 (bm_disk 2) 0 = 0" by (simp add: bm_disk_def ld32_def)
  ultimately show ?thesis
    using ready by (simp add: txv_def log log_inv_def log_cfg_def tx_blocks_def log_ready_def)
qed

lemma tx_machine_blk: "blk tx_machine = bm_disk"
  using blk_clean [of 0 Map.empty tx_machine] disk_machine_view [OF bm_disk_length] by (auto simp: tx_machine_def fun_eq_iff)

lemma tx_machine_used:
  assumes "b < 1000"
  shows "used tx_machine b \<longleftrightarrow> b < 59"
proof -
  have "(of_nat b :: u32) div 4096 = 0" using assms by (simp add: of_nat_div32)
  then have "used tx_machine b \<longleftrightarrow> bit (bm_disk 58 ! (b div 8)) (b mod 8)"
    using assms by (simp add: used_def tx_machine_blk BBLOCK_def bit_set_iff)
  also have "\<dots> \<longleftrightarrow> b < 59"
  proof (cases "b div 8 < 7")
    case True
    have "(255 :: u8) = - 1" by simp
    then have "bit (255 :: u8) (b mod 8)" by (simp only: bit_minus_1_iff possible_bit_word) simp
    then show ?thesis using True by (simp add: bm_disk_def nth_append)
  next
    case False
    have "(7 :: u8) = mask 3" by (simp add: mask_eq_exp_minus_1)
    then have "bit (7 :: u8) (b mod 8) \<longleftrightarrow> b mod 8 < 3" by (simp only: bit_mask_iff possible_bit_word) auto
    moreover have "b mod 8 < 3 \<longleftrightarrow> b < 59" if "b div 8 = 7" using that by presburger
    ultimately show ?thesis using False assms by (cases "b div 8 = 7") (auto simp: bm_disk_def nth_append nth_Cons')
  qed
  finally show ?thesis .
qed

lemma tx_machine_bitmap: "bitmap_ok 2 tx_machine"
proof -
  have bm: "bm_block tx_machine b = 58" if "b < 1000" for b using that by (simp add: BBLOCK_def of_nat_div32)
  have "of_nat b \<notin> log_area 2 \<and> (of_nat b :: u32) \<noteq> 58" if "b < 1000" "59 \<le> b" for b
    using that unat_of_nat32 [of b] by (auto simp: log_area_iff [of 2 1000] uint_nat word_unat_eq_iff)
  then show ?thesis
    using bm tx_machine_used log_area_iff [of 2 1000 58] by (auto simp: bitmap_ok_def)
qed

theorem balloc_hands_out_free_blocks_witness:
  "\<exists>b t u. b < 1000 \<and> balloc 1 tx_machine = Inr (of_nat b, t) \<and> \<not> used tx_machine b \<and> used t b \<and> bfree 1 (of_nat b) t = Inr u"
proof -
  have "\<exists>b < nblocks tx_machine. \<not> used tx_machine b" using tx_machine_used [of 100] by (intro exI [of _ 100]) simp
  then show ?thesis
    using balloc_hands_out_free_blocks [OF tx_machine_tx tx_machine_bitmap] by (auto split: if_splits)
qed

end
