(* ===== verification/Fs_Write.thy ===== *)
theory Fs_Write
  imports Fs_Alloc
begin

text \<open>
  Writing files (bmap and writei of fs.c) inside a transaction. \<open>ptr s x q\<close> is the block address in position \<open>q\<close> of an
  inode: the direct slots, the indirect block, then the entries of the indirect block. \<open>inode_ok\<close> says that these
  addresses are distinct blocks in use, apart from the log, the bitmap and the block of the inode itself.
\<close>

section \<open>Changes of one inode\<close>

lemma upd_inode_simps [simp]:
  "ptable (upd_inode i f s) = ptable s" "bcache (upd_inode i f s) = bcache s" "memdisk (upd_inode i f s) = memdisk s"
  "disksize (upd_inode i f s) = disksize s" "disk_trace (upd_inode i f s) = disk_trace s" "log (upd_inode i f s) = log s"
  "cpus (upd_inode i f s) = cpus s" "lapic_id (upd_inode i f s) = lapic_id s" "eflags_if (upd_inode i f s) = eflags_if s"
  "sb (upd_inode i f s) = sb s" "inodes (upd_inode i f s) = (inodes s)(i := f (inodes s i))"
  by (simp_all add: upd_inode_def)

lemma upd_inode_twice [simp]: "upd_inode i f (upd_inode i g s) = upd_inode i (f \<circ> g) s"
  by (simp add: upd_inode_def)

lemma upd_inode_self: "upd_inode i (\<lambda>_. inodes s i) s = s"
  by (simp add: upd_inode_def)

lemma view_upd_inode [simp]:
  "bio_view p h (upd_inode i f s) = bio_view p h s" "blk (upd_inode i f s) = blk s" "pinned (upd_inode i f s) = pinned s"
proof -
  have "same_cpu (upd_inode i f s) s"
    by (simp add: same_cpu_def)
  then have "sleep_ready p (upd_inode i f s) = sleep_ready p s"
    using same_cpu_cpu_ok [of "upd_inode i f s" s] by (auto simp: sleep_ready_def running_def this_cpu_def)
  then show "bio_view p h (upd_inode i f s) = bio_view p h s"
    by (simp add: bio_view_def bio_inv_def)
  show "blk (upd_inode i f s) = blk s" "pinned (upd_inode i f s) = pinned s"
    by (simp_all add: blk_def fun_eq_iff pinned_def split: option.split)
qed

lemma txv_upd_inode [simp]: "txv p st h (upd_inode i f s) = txv p st h s"
proof -
  have "same_cpu (upd_inode i f s) s"
    by (simp add: same_cpu_def)
  then have "sleep_ready p (upd_inode i f s) = sleep_ready p s"
    using same_cpu_cpu_ok [of "upd_inode i f s" s] by (auto simp: sleep_ready_def running_def this_cpu_def)
  then show ?thesis
    by (simp add: txv_def log_inv_def log_cfg_def tx_blocks_def log_ready_def)
qed

lemma upd_inode_bitmap [simp]:
  "used (upd_inode i f s) = used s" "bitmap_ok st (upd_inode i f s) = bitmap_ok st s" "held_apart h (upd_inode i f s) = held_apart h s"
  by (rule used_cong bitmap_ok_cong held_apart_cong; simp)+

text \<open>A step of a transaction that also changes inode \<open>i\<close>.\<close>

definition iadv :: "nat \<Rightarrow> int \<Rightarrow> 'a fs_st_scheme \<Rightarrow> 'a fs_st_scheme \<Rightarrow> bool" where
  "iadv i k s t \<longleftrightarrow> adv k (upd_inode i (\<lambda>_. inodes t i) s) t"

lemma upd_inode_commute:
  "shell (upd_inode i f s) = upd_inode i f (shell s)" "upd_log g (upd_inode i f s) = upd_inode i f (upd_log g s)"
  by (simp_all add: shell_def upd_inode_def upd_log_def)

lemma lkept_upd_inode: "lkept s t \<Longrightarrow> lkept (upd_inode i (\<lambda>_. x) s) (upd_inode i (\<lambda>_. x) t)"
  by (simp add: lkept_def kept_def upd_inode_commute)

lemma iadv_trans:
  assumes "iadv i k s t" "iadv i l t u"
  shows "iadv i (k + l) s u"
proof -
  have "lkept (upd_inode i (\<lambda>_. inodes t i) s) t" using assms(1) by (simp add: iadv_def adv_def)
  from lkept_upd_inode [OF this, of i "inodes u i"]
  have "lkept (upd_inode i (\<lambda>_. inodes u i) s) (upd_inode i (\<lambda>_. inodes u i) t)" by (simp add: comp_def)
  then have "lkept (upd_inode i (\<lambda>_. inodes u i) s) u"
    using assms(2) lkept_trans unfolding iadv_def adv_def by blast
  then show ?thesis using assms by (simp add: iadv_def adv_def)
qed

lemma iadv_adv: "adv k s t \<Longrightarrow> iadv i k s t" for s t :: "'a fs_st_scheme"
  using adv_fs(1) [of k s t] by (simp add: iadv_def upd_inode_self)

lemma iadv_upd_inode [simp]: "iadv i 0 s (upd_inode i f s)"
  by (simp add: iadv_def adv_def upd_inode_def)

lemma iadvD:
  assumes "iadv i k s t"
  shows "sb t = sb s" "disksize t = disksize s" "lh_count t \<le> lh_count s + k" "j \<noteq> i \<Longrightarrow> inodes t j = inodes s j"
proof -
  have a: "adv k (upd_inode i (\<lambda>_. inodes t i) s) t" using assms by (simp add: iadv_def)
  note F = adv_fs [OF a]
  show "sb t = sb s" "disksize t = disksize s" "lh_count t \<le> lh_count s + k" using F(2,3) a by (simp_all add: adv_def)
  show "j \<noteq> i \<Longrightarrow> inodes t j = inodes s j" using arg_cong [OF F(1), of "\<lambda>c. ic_inode c j"] by simp
qed

section \<open>The addresses of an inode\<close>

definition ptr :: "'a fs_st_scheme \<Rightarrow> inode \<Rightarrow> nat \<Rightarrow> u32" where
  "ptr s x q = (if q < 13 then i_addrs x ! q else if i_addrs x ! 12 = 0 then 0 else ld32 (blk s (i_addrs x ! 12)) (4 * (q - 13)))"

text \<open>The position of block \<open>bn\<close> of the file.\<close>

definition pos :: "nat \<Rightarrow> nat" where
  "pos bn = (if bn < NDIRECT then bn else bn + 1)"

abbreviation bm_area :: "'a fs_st_scheme \<Rightarrow> u32 set" where
  "bm_area s \<equiv> bm_block s ` {..<nblocks s}"

definition data_block :: "int \<Rightarrow> 'a fs_st_scheme \<Rightarrow> u32 \<Rightarrow> u32 \<Rightarrow> bool" where
  "data_block st s n a \<longleftrightarrow> unat a < nblocks s \<and> used s (unat a) \<and> a \<notin> log_area st \<and> a \<notin> bm_area s \<and> a \<noteq> n"

definition inode_ok :: "int \<Rightarrow> 'a fs_st_scheme \<Rightarrow> inode \<Rightarrow> bool" where
  "inode_ok st s x \<longleftrightarrow> bitmap_ok st s \<and> i_dev x = 1 \<and> length (i_addrs x) = NDIRECT + 1 \<and>
     (let n = IBLOCK (i_inum x) (sb s)
      in n < disksize s \<and> n \<notin> log_area st \<and> n \<notin> bm_area s \<and> (\<forall>b < nblocks s. \<not> used s b \<longrightarrow> of_nat b \<noteq> n) \<and>
         (\<forall>q < 141. ptr s x q \<noteq> 0 \<longrightarrow> data_block st s n (ptr s x q))) \<and>
     (\<forall>q < 141. \<forall>r < 141. ptr s x q = ptr s x r \<longrightarrow> ptr s x q \<noteq> 0 \<longrightarrow> q = r)"

lemma inode_okD:
  assumes "inode_ok st s x"
  shows "bitmap_ok st s" "i_dev x = 1" "length (i_addrs x) = 13"
    "IBLOCK (i_inum x) (sb s) < disksize s" "IBLOCK (i_inum x) (sb s) \<notin> log_area st" "IBLOCK (i_inum x) (sb s) \<notin> bm_area s"
    "q < 141 \<Longrightarrow> ptr s x q \<noteq> 0 \<Longrightarrow> data_block st s (IBLOCK (i_inum x) (sb s)) (ptr s x q)"
    "q < 141 \<Longrightarrow> r < 141 \<Longrightarrow> ptr s x q = ptr s x r \<Longrightarrow> ptr s x q \<noteq> 0 \<Longrightarrow> q = r"
    "q < 141 \<Longrightarrow> ptr s x q \<noteq> 0 \<Longrightarrow> ptr s x q < disksize s"
proof -
  show bm: "bitmap_ok st s" using assms by (simp add: inode_ok_def)
  show d: "q < 141 \<Longrightarrow> ptr s x q \<noteq> 0 \<Longrightarrow> data_block st s (IBLOCK (i_inum x) (sb s)) (ptr s x q)"
    using assms by (simp add: inode_ok_def Let_def)
  show "q < 141 \<Longrightarrow> ptr s x q \<noteq> 0 \<Longrightarrow> ptr s x q < disksize s"
    using d bm by (auto simp: data_block_def bitmap_ok_def word_less_nat_alt word_le_nat_alt)
qed (use assms in \<open>auto simp: inode_ok_def Let_def\<close>)

lemma inode_block:
  assumes ok: "inode_ok st s x" and bn: "bn < MAXFILE" "ptr s x (pos bn) \<noteq> 0"
  shows "has_block s x bn" "faddr s x bn = ptr s x (pos bn)"
proof -
  have q: "pos bn < 141" using bn(1) by (simp add: pos_def)
  have i: "\<not> bn < 12 \<Longrightarrow> i_addrs x ! 12 \<noteq> 0" using bn(2) by (auto simp: ptr_def pos_def)
  then show f: "faddr s x bn = ptr s x (pos bn)" by (auto simp: faddr_def ptr_def pos_def)
  have "\<not> bn < 12 \<Longrightarrow> i_addrs x ! 12 < disksize s" using inode_okD(9) [OF ok, of 12] i by (simp add: ptr_def)
  then show "has_block s x bn" using f bn(2) inode_okD(9) [OF ok q bn(2)] i by (simp add: has_block_def)
qed

text \<open>A new address in a free position.\<close>

lemma inode_ok_fill:
  assumes ok: "inode_ok st s x" and b: "b < nblocks s" "\<not> used s b"
    and t: "sb t = sb s" "disksize t = disksize s" "\<And>c. c < nblocks s \<Longrightarrow> used t c \<longleftrightarrow> c = b \<or> used s c"
    and y: "i_dev y = i_dev x" "i_inum y = i_inum x" "length (i_addrs y) = 13"
    and p: "\<And>r. r < 141 \<Longrightarrow> ptr t y r = (if r = q then of_nat b else ptr s x r)"
  shows "inode_ok st t y"
proof -
  let ?n = "IBLOCK (i_inum x) (sb s)"
  note O = inode_okD [OF ok] and B = bitmap_okD [OF inode_okD(1) [OF ok] b(1)]
  have u: "unat (of_nat b :: u32) = b" using b(1) unat_less32 [of "sb_size (sb s)"] by (intro unat_of_nat32) simp
  have nb: "of_nat b \<noteq> ?n" using ok b by (simp add: inode_ok_def Let_def)
  have bm: "bitmap_ok st t" using bitmap_ok_mono [OF O(1) t(1,2)] t(3) by blast
  have db: "data_block st t ?n a" if "data_block st s ?n a" for a
    using that t by (auto simp: data_block_def)
  have "data_block st t ?n (of_nat b)"
    using b B(6,7) u t(1,3) nb by (auto simp: data_block_def)
  then have D: "data_block st t ?n (ptr t y r)" if "r < 141" "ptr t y r \<noteq> 0" for r
    using that p O(7) db by auto
  have "of_nat b \<noteq> ptr s x r" "ptr s x r \<noteq> of_nat b" if "r < 141" for r
    using that O(7) [OF that] b(2) u B(5) by (auto simp: data_block_def)
  then have inj: "ptr t y r = ptr t y q' \<Longrightarrow> ptr t y r \<noteq> 0 \<Longrightarrow> r = q'" if "r < 141" "q' < 141" for r q'
    using that p O(8) by (auto split: if_splits)
  have fr: "of_nat c \<noteq> ?n" if "c < nblocks s" "\<not> used t c" for c
    using ok that t(3) by (auto simp: inode_ok_def Let_def)
  show ?thesis
    unfolding inode_ok_def Let_def y(2) t(1) using bm D inj fr O(2,4-6) y t(1,2) by auto
qed

text \<open>New contents of a data block.\<close>

lemma inode_ok_write:
  assumes ok: "inode_ok st s x" and q: "q < 141" "q \<noteq> 12" "ptr s x q \<noteq> 0"
    and t: "sb t = sb s" "disksize t = disksize s" "blk t = (blk s)(ptr s x q := d)"
  shows "inode_ok st t x" "ptr t x r = ptr s x r" "\<And>c. c < nblocks s \<Longrightarrow> used t c = used s c"
proof -
  note O = inode_okD [OF ok]
  have "i_addrs x ! 12 \<noteq> 0 \<Longrightarrow> i_addrs x ! 12 \<noteq> ptr s x q"
    using O(8) [of 12 q] q by (auto simp: ptr_def)
  then show p: "ptr t x r = ptr s x r" for r using t(3) by (auto simp: ptr_def)
  show u: "used t c = used s c" if "c < nblocks s" for c
  proof -
    have "bm_block s c \<in> bm_area s" using that by blast
    then have "bm_block s c \<noteq> ptr s x q" using O(7) [OF q(1,3)] unfolding data_block_def by metis
    then show ?thesis using t by (simp add: used_def)
  qed
  have "bitmap_ok st t" using bitmap_ok_mono [OF O(1) t(1,2)] u by blast
  then show "inode_ok st t x"
    using ok u unfolding inode_ok_def Let_def p t(1,2) data_block_def by auto
qed

section \<open>The block map\<close>

text \<open>Process \<open>p\<close> is inside a transaction and holds no buffer, and inode \<open>ip\<close> is well formed.\<close>

definition wstate :: "nat \<Rightarrow> int \<Rightarrow> nat \<Rightarrow> 'a fs_st_scheme \<Rightarrow> bool" where
  "wstate p st ip s \<longleftrightarrow> txv p st Map.empty s \<and> inode_ok st s (inodes s ip)"

definition nfree :: "'a fs_st_scheme \<Rightarrow> nat" where
  "nfree s = card {b. b < nblocks s \<and> \<not> used s b}"

text \<open>The file keeps its addresses and the contents of its data blocks.\<close>

definition ext :: "nat \<Rightarrow> 'a fs_st_scheme \<Rightarrow> 'a fs_st_scheme \<Rightarrow> bool" where
  "ext ip s t \<longleftrightarrow> (\<exists>as. inodes t ip = (inodes s ip)\<lparr>i_addrs := as\<rparr>) \<and>
     (\<forall>r < 141. ptr s (inodes s ip) r \<noteq> 0 \<longrightarrow> ptr t (inodes t ip) r = ptr s (inodes s ip) r \<and>
       (r \<noteq> 12 \<longrightarrow> blk t (ptr s (inodes s ip) r) = blk s (ptr s (inodes s ip) r)))"

lemma ext_refl [simp]: "ext ip s s"
proof -
  have "inodes s ip = (inodes s ip)\<lparr>i_addrs := i_addrs (inodes s ip)\<rparr>" by simp
  then show ?thesis unfolding ext_def by blast
qed

lemma ext_trans:
  assumes "ext ip s t" "ext ip t u"
  shows "ext ip s u"
proof -
  obtain as bs where "inodes t ip = (inodes s ip)\<lparr>i_addrs := as\<rparr>" "inodes u ip = (inodes t ip)\<lparr>i_addrs := bs\<rparr>"
    using assms unfolding ext_def by blast
  then have "inodes u ip = (inodes s ip)\<lparr>i_addrs := bs\<rparr>" by simp
  moreover have "ptr u (inodes u ip) r = ptr s (inodes s ip) r \<and>
      (r \<noteq> 12 \<longrightarrow> blk u (ptr s (inodes s ip) r) = blk s (ptr s (inodes s ip) r))"
    if "r < 141" "ptr s (inodes s ip) r \<noteq> 0" for r
    using that assms unfolding ext_def by metis
  ultimately show ?thesis unfolding ext_def by blast
qed

lemma nfree_alloc:
  assumes "sb t = sb s" "b < nblocks s" "\<not> used s b" "\<And>c. c < nblocks s \<Longrightarrow> used t c \<longleftrightarrow> c = b \<or> used s c"
  shows "nfree s = nfree t + 1"
proof -
  have "{b. b < nblocks s \<and> \<not> used s b} = insert b {b. b < nblocks t \<and> \<not> used t b}" using assms by auto
  then show ?thesis using assms by (simp add: nfree_def)
qed

lemma nfree_first: "0 < nfree s \<Longrightarrow> \<exists>b < nblocks s. \<not> used s b \<and> (\<forall>c < b. used s c)"
proof -
  assume "0 < nfree s"
  then have "{b. b < nblocks s \<and> \<not> used s b} \<noteq> {}" unfolding nfree_def by (metis card.empty less_numeral_extra(3))
  then have "\<exists>b. b < nblocks s \<and> \<not> used s b" by blast
  then show ?thesis
    using exists_least_iff [of "\<lambda>b. b < nblocks s \<and> \<not> used s b"] by (meson less_trans)
qed

lemma alloc_other:
  assumes ok: "inode_ok st s x" and b: "b < nblocks s" "\<not> used s b" and q: "q < 141" "ptr s x q \<noteq> 0"
  shows "ptr s x q \<noteq> of_nat b" "alloc_blk (sb s) b B (ptr s x q) = B (ptr s x q)"
proof -
  have u: "unat (of_nat b :: u32) = b" using b(1) unat_less32 [of "sb_size (sb s)"] by (intro unat_of_nat32) simp
  note D = inode_okD(7) [OF ok q, unfolded data_block_def]
  show n: "ptr s x q \<noteq> of_nat b" using D u b by auto
  have "bm_block s b \<in> bm_area s" using b(1) by blast
  then have "ptr s x q \<noteq> bm_block s b" using D by metis
  then show "alloc_blk (sb s) b B (ptr s x q) = B (ptr s x q)" using n by (rule alloc_blk_other [rotated])
qed

lemma slot_alloc:
  fixes s :: "'a fs_st_scheme"
  assumes s: "wstate p st ip s" and i: "i < 13" "i_addrs (inodes s ip) ! i = 0" and room: "lh_count s < 28" "0 < nfree s"
  shows "\<exists>t. bmap_slot ip i s = Inr (ptr t (inodes t ip) i, t) \<and> ptr t (inodes t ip) i \<noteq> 0 \<and> wstate p st ip t \<and> iadv ip 2 s t \<and>
    ext ip s t \<and> nfree s = nfree t + 1"
proof -
  let ?x = "inodes s ip"
  have tx: "txv p st Map.empty s" and ok: "inode_ok st s ?x" using s by (simp_all add: wstate_def)
  note O = inode_okD [OF ok]
  obtain b where b: "b < nblocks s" "\<not> used s b" "\<forall>c < b. used s c" using nfree_first [OF room(2)] by blast
  obtain t where t: "balloc 1 s = Inr (of_nat b, t)" "txv p st Map.empty t" "adv 2 s t" "blk t = alloc_blk (sb s) b (blk s)"
    using balloc_ok [OF tx O(1) held_none _ b] room(1) by auto
  note F = adv_fs [OF t(3)]
  let ?y = "?x\<lparr>i_addrs := (i_addrs ?x)[i := of_nat b]\<rparr>" and ?u = "set_addr ip i (of_nat b) t"
  have b0: "of_nat b \<noteq> (0 :: u32)" using bitmap_okD(5) [OF O(1) b(1,2)] .
  have iu: "inodes ?u ip = ?y" using F(1) by (simp add: set_addr_def)
  have U: "sb ?u = sb s" "disksize ?u = disksize s" "blk ?u = alloc_blk (sb s) b (blk s)" using F t(4) by (simp_all add: set_addr_def)
  have zero: "alloc_blk (sb s) b (blk s) (of_nat b) = replicate 512 0" by (simp add: alloc_blk_def)
  have ind: "alloc_blk (sb s) b (blk s) (i_addrs ?x ! 12) = blk s (i_addrs ?x ! 12)" if "i_addrs ?x ! 12 \<noteq> 0"
    using alloc_other(2) [OF ok b(1,2), of 12] that by (simp add: ptr_def)
  have p: "ptr ?u ?y r = (if r = i then of_nat b else ptr s ?x r)" if "r < 141" for r
    using that i O(3) ind zero b0 unfolding ptr_def U(3) by (cases "i = 12") (auto simp: ld32_def)
  have l: "length (blk s (bm_block s b)) = 512" using tx blk_length [of p Map.empty s] by (simp add: txv_def)
  have used: "used ?u c \<longleftrightarrow> c = b \<or> used s c" if "c < nblocks s" for c
    using used_alloc [OF O(1) l b(1,2) U(3,1) that] .
  have "inode_ok st ?u ?y"
    by (rule inode_ok_fill [OF ok b(1,2) U(1,2) used _ _ _ p]) (simp_all add: O(3))
  then have "wstate p st ip ?u" using t(2) iu by (simp add: wstate_def set_addr_def)
  moreover have "iadv ip 2 s ?u"
    using iadv_trans [OF iadv_adv [OF t(3)] iadv_upd_inode] by (simp add: set_addr_def)
  moreover have "ptr s ?x i = 0" using i by (simp add: ptr_def)
  then have "ext ip s ?u"
    unfolding ext_def iu using p alloc_other(2) [OF ok b(1,2)] U(3) by auto
  moreover have "bmap_slot ip i s = Inr (of_nat b, ?u)"
    using i(2) t(1) O(2) by (simp add: bmap_slot_def)
  ultimately show ?thesis
    using p [of i] i(1) b0 nfree_alloc [OF U(1) b(1,2) used] iu by (intro exI [of _ ?u]) simp
qed

lemma slot_ok:
  fixes s :: "'a fs_st_scheme"
  assumes s: "wstate p st ip s" and i: "i < 13" and room: "lh_count s < 28" "0 < nfree s"
  shows "\<exists>t. bmap_slot ip i s = Inr (ptr t (inodes t ip) i, t) \<and> ptr t (inodes t ip) i \<noteq> 0 \<and> wstate p st ip t \<and> iadv ip 2 s t \<and>
    ext ip s t \<and> nfree s \<le> nfree t + 1"
proof (cases "i_addrs (inodes s ip) ! i = 0")
  case True
  then show ?thesis using slot_alloc [OF s i True room] by fastforce
next
  case False
  have "iadv ip 2 s s" by (intro iadv_adv) (simp add: adv_def)
  then show ?thesis using False i s by (intro exI [of _ s]) (simp add: bmap_slot_def ptr_def)
qed

lemma entry_fill:
  fixes s t :: "'a fs_st_scheme"
  assumes ok: "inode_ok st s x" and n: "i_addrs x ! 12 = n" "n \<noteq> 0" and j: "j < 128" "ptr s x (13 + j) = 0"
    and b: "b < nblocks s" "\<not> used s b" and len: "\<And>n. length (blk s n) = 512" and t: "sb t = sb s" "disksize t = disksize s"
    "blk t = (alloc_blk (sb s) b (blk s))(n := st32 (blk s n) (4 * j) (of_nat b))"
  shows "inode_ok st t x" "ptr t x (13 + j) = of_nat b" "\<And>r. r < 141 \<Longrightarrow> ptr s x r \<noteq> 0 \<Longrightarrow> ptr t x r = ptr s x r \<and> (r \<noteq> 12 \<longrightarrow> blk t (ptr s x r) = blk s (ptr s x r))"
    "nfree s = nfree t + 1"
proof -
  note O = inode_okD [OF ok]
  have pn: "ptr s x 12 = n" using n by (simp add: ptr_def)
  have D: "n \<notin> log_area st" "n \<notin> bm_area s" using O(7) [of 12] pn n(2) by (simp_all add: data_block_def)
  have p: "ptr t x r = (if r = 13 + j then of_nat b else ptr s x r)" if "r < 141" for r
  proof (cases "r < 13 \<or> r = 13 + j")
    case True
    then show ?thesis using n j(1) t(3) len [of n] by (auto simp: ptr_def)
  next
    case False
    then have "4 * (r - 13) + 4 \<le> 4 * j \<or> 4 * j + 4 \<le> 4 * (r - 13)" by linarith
    then show ?thesis using False n t(3) ld32_st32_other [of "4 * (r - 13)" "4 * j"] by (simp add: ptr_def)
  qed
  then show "ptr t x (13 + j) = of_nat b" using j(1) by simp
  show "ptr t x r = ptr s x r \<and> (r \<noteq> 12 \<longrightarrow> blk t (ptr s x r) = blk s (ptr s x r))" if r: "r < 141" "ptr s x r \<noteq> 0" for r
  proof -
    have "ptr s x r \<noteq> n" if "r \<noteq> 12" using O(8) [of r 12] r that pn by auto
    then show ?thesis using p [OF r(1)] r j(2) alloc_other(2) [OF ok b r] t(3) by auto
  qed
  have used: "used t c \<longleftrightarrow> c = b \<or> used s c" if c: "c < nblocks s" for c
  proof -
    have "bm_block s c \<in> bm_area s" using c by blast
    then have "bm_block s c \<noteq> n" using D(2) by metis
    then have "used t c \<longleftrightarrow> bit_set (alloc_blk (sb s) b (blk s) (bm_block s c)) (c mod 4096)" using t by (simp add: used_def)
    then show ?thesis using bit_set_alloc [OF O(1) len b c] by simp
  qed
  show "inode_ok st t x"
    by (rule inode_ok_fill [OF ok b t(1,2) used _ _ _ p]) (simp_all add: O(3))
  show "nfree s = nfree t + 1" using nfree_alloc [OF t(1) b used] .
qed

text \<open>A new entry of the indirect block, which the process holds while it allocates.\<close>

lemma entry_alloc:
  fixes s :: "'a fs_st_scheme"
  assumes s: "wstate p st ip s" and n: "i_addrs (inodes s ip) ! 12 = n" "n \<noteq> 0" and j: "j < 128" "ptr s (inodes s ip) (13 + j) = 0"
    and room: "lh_count s < 27" "0 < nfree s"
  shows "\<exists>i s2 a s3 s4 t. bread 1 n s = Inr (i, s2) \<and> inodes s2 = inodes s \<and> b_data (bufs s2 i) = blk s n \<and> balloc 1 s2 = Inr (a, s3) \<and>
    log_write i (set_data i (st32 (b_data (bufs s3 i)) (4 * j) a) s3) = Inr s4 \<and> brelse i s4 = Inr t \<and>
    a = ptr t (inodes t ip) (13 + j) \<and> a \<noteq> 0 \<and> wstate p st ip t \<and> iadv ip 3 s t \<and> ext ip s t \<and> nfree s = nfree t + 1"
proof -
  let ?x = "inodes s ip"
  have tx: "txv p st Map.empty s" and ok: "inode_ok st s ?x" using s by (simp_all add: wstate_def)
  note O = inode_okD [OF ok]
  have pn: "ptr s ?x 12 = n" using n by (simp add: ptr_def)
  have D: "n \<notin> log_area st" "n \<notin> bm_area s" using O(7) [of 12] pn n(2) by (simp_all add: data_block_def)
  have nd: "n < disksize s" using O(9) [of 12] pn n(2) by simp
  obtain i s2 where s2: "bread 1 n s = Inr (i, s2)" "txv p st [i \<mapsto> n] s2" "same_view s s2" "b_data (bufs s2 i) = blk s n"
    using tx_bread [OF tx nd] room(1) by auto
  note S = same_viewD [OF s2(3)] and A2 = same_adv [OF s2(3)]
  note F2 = adv_fs [OF A2]
  note U2 = used_cong [OF S(2) F2(2)]
  obtain b where b: "b < nblocks s" "\<not> used s b" "\<forall>c < b. used s c" using nfree_first [OF room(2)] by blast
  have b0: "of_nat b \<noteq> (0 :: u32)" using bitmap_okD(5) [OF O(1) b(1,2)] .
  have nb: "n \<noteq> of_nat b" "alloc_blk (sb s) b (blk s) n = blk s n" using alloc_other [OF ok b(1,2), of 12] pn n(2) by simp_all
  have nf: "n \<noteq> of_nat c" if "c < nblocks s" "\<not> used s c" for c using alloc_other(1) [OF ok that, of 12] pn n(2) by simp
  have "held_apart [i \<mapsto> n] s2" using D(2) nf U2 F2(2) by (auto simp: held_apart_def)
  moreover have "bitmap_ok st s2" using O(1) bitmap_ok_cong [OF S(2) F2(2,3)] by simp
  moreover have "lh_count s2 < 27" using A2 room(1) by (simp add: adv_def)
  ultimately obtain s3 where s3: "balloc 1 s2 = Inr (of_nat b, s3)" "txv p st [i \<mapsto> n] s3" "adv 2 s2 s3" "blk s3 = alloc_blk (sb s) b (blk s)"
    using balloc_ok [of p st "[i \<mapsto> n]" s2 b] s2(2) b U2 F2(2) S(2) by auto
  have A3: "adv 2 s s3" using adv_trans [OF A2 s3(3)] by simp
  note F3 = adv_fs [OF A3]
  have i: "[i \<mapsto> n] i = Some n" by simp
  have "bio_view p [i \<mapsto> n] s3" using s3(2) by (simp add: txv_def)
  then have d3: "b_data (bufs s3 i) = blk s n" using held_buf(4) [of p "[i \<mapsto> n]" s3 i n] s3(4) nb(2) by simp
  have len: "length (blk s n) = 512" for n using tx blk_length [of p Map.empty s] by (simp add: txv_def)
  then have d: "length (st32 (b_data (bufs s3 i)) (4 * j) (of_nat b)) = 512" using d3 by simp
  have "lh_count s3 < 29" using A3 room(1) by (simp add: adv_def)
  then obtain s4 where s4: "log_write i (set_data i (st32 (b_data (bufs s3 i)) (4 * j) (of_nat b)) s3) = Inr s4" "txv p st [i \<mapsto> n] s4" "adv 1 s3 s4"
      "blk s4 = (blk s3)(n := st32 (b_data (bufs s3 i)) (4 * j) (of_nat b))" "n \<in> pinned s4"
    using tx_log_write [OF s3(2) i D(1) d] by blast
  obtain t where t: "brelse i s4 = Inr t" "txv p st Map.empty t" "same_view s4 t"
    using tx_brelse [OF s4(2) i] s4(5) unfolding single_gone by blast
  have A: "adv 3 s t" using adv_trans [OF A3 adv_trans [OF s4(3) same_adv [OF t(3)]]] by simp
  have B: "blk t = (alloc_blk (sb s) b (blk s))(n := st32 (blk s n) (4 * j) (of_nat b))"
    using same_viewD(2) [OF t(3)] s4(4) s3(4) d3 by simp
  note E = entry_fill [OF ok n j b(1,2) len adv_fs(2,3) [OF A] B] and I = adv_fs(1) [OF A]
  have "ext ip s t" using E(3) I ext_refl [of ip s] unfolding ext_def by simp
  moreover have "wstate p st ip t" using E(1) t(2) I by (simp add: wstate_def)
  ultimately show ?thesis
    using s2(1,4) F2(1) s3(1) s4(1) t(1) E(2,4) b0 iadv_adv [OF A, of ip] I
    by (intro exI [of _ i] exI [of _ s2] exI [of _ "of_nat b"] exI [of _ s3] exI [of _ s4] exI [of _ t]) simp
qed

lemma wstate_same:
  fixes s t :: "'a fs_st_scheme"
  assumes s: "wstate p st ip s" and t: "same_view s t" "txv p st Map.empty t"
  shows "wstate p st ip t" "ext ip s t" "nfree t = nfree s" "ptr t = ptr s"
proof -
  note S = same_viewD [OF t(1)] and F = adv_fs [OF same_adv [OF t(1)]]
  show p: "ptr t = ptr s" using S(2) by (simp add: ptr_def fun_eq_iff)
  have u: "used t = used s" using used_cong [OF S(2) F(2)] .
  then show "nfree t = nfree s" using F(2) by (simp add: nfree_def)
  have "inode_ok st t (inodes s ip)"
    using s bitmap_ok_cong [OF S(2) F(2,3)] unfolding wstate_def inode_ok_def data_block_def p u F(2,3) by simp
  then show "wstate p st ip t" using t(2) F(1) by (simp add: wstate_def)
  show "ext ip s t" using ext_refl [of ip s] unfolding ext_def p F(1) S(2) .
qed

lemma bmap_grow:
  fixes s :: "'a fs_st_scheme"
  assumes s: "wstate p st ip s" and bn: "bn < MAXFILE" and room: "lh_count s < 25" "2 \<le> nfree s"
  shows "\<exists>t. bmap ip (of_nat bn) s = Inr (ptr t (inodes t ip) (pos bn), t) \<and> ptr t (inodes t ip) (pos bn) \<noteq> 0 \<and> wstate p st ip t \<and>
    iadv ip 5 s t \<and> ext ip s t \<and> nfree s \<le> nfree t + 2"
proof -
  have u: "unat (of_nat bn :: u32) = bn" using bn by (intro unat_of_nat32) simp
  have iadv5: "iadv ip 5 a b" if "iadv ip 2 a b" for a b :: "'a fs_st_scheme" using that by (simp add: iadv_def adv_def)
  show ?thesis
  proof (cases "bn < 12")
    case True
    then have "(of_nat bn :: u32) < 12" using u by (simp add: word_less_nat_alt)
    then show ?thesis
      using slot_ok [OF s, of bn] True room u iadv5 by (fastforce simp: bmap_def pos_def)
  next
    case False
    then have w: "\<not> (of_nat bn :: u32) < 12" "unat (of_nat bn - 12 :: u32) = bn - 12"
      using u by (simp_all add: word_less_nat_alt unat_sub_if')
    then have w2: "of_nat bn - 12 < (128 :: u32)" using bn by (simp add: word_less_nat_alt)
    have q: "pos bn = 13 + (bn - 12)" "bn - 12 < 128" using False bn by (simp_all add: pos_def)
    obtain t where t: "bmap_slot ip 12 s = Inr (ptr t (inodes t ip) 12, t)" "ptr t (inodes t ip) 12 \<noteq> 0" "wstate p st ip t" "iadv ip 2 s t"
        "ext ip s t" "nfree s \<le> nfree t + 1"
      using slot_ok [OF s, of 12] room by auto
    let ?x = "inodes t ip" and ?n = "ptr t (inodes t ip) 12"
    have n: "i_addrs ?x ! 12 = ?n" by (simp add: ptr_def)
    have tx: "txv p st Map.empty t" and ok: "inode_ok st t ?x" using t(3) by (simp_all add: wstate_def)
    note O = inode_okD [OF ok]
    have lh: "lh_count t < 27" "0 < nfree t" using iadvD(3) [OF t(4)] t(6) room by simp_all
    have e: "ld32 (blk t ?n) (4 * (bn - 12)) = ptr t ?x (pos bn)" 
      using t(2) [folded n] unfolding n [symmetric] q(1) by (simp add: ptr_def)
    show ?thesis
    proof (cases "ptr t ?x (pos bn) = 0")
      case True
      obtain i s2 a s3 s4 v where v: "bread 1 ?n t = Inr (i, s2)" "inodes s2 = inodes t" "b_data (bufs s2 i) = blk t ?n" "balloc 1 s2 = Inr (a, s3)"
          "log_write i (set_data i (st32 (b_data (bufs s3 i)) (4 * (bn - 12)) a) s3) = Inr s4" "brelse i s4 = Inr v"
          "a = ptr v (inodes v ip) (pos bn)" "a \<noteq> 0" "wstate p st ip v" "iadv ip 3 t v" "ext ip t v" "nfree t = nfree v + 1"
        using entry_alloc [OF t(3) n t(2) q(2) True [unfolded q(1)] lh, folded q(1)] by (elim exE conjE) (rule that)
      have "bmap ip (of_nat bn) s = Inr (a, v)"
        using w w2 t(1) v(1-6) e True O(2) unfolding bmap_def Let_def by simp
      then show ?thesis
        using v(7-12) iadv_trans [OF t(4) v(10)] ext_trans [OF t(5) v(11)] t(6) by (intro exI [of _ v]) simp
    next
      case False
      obtain i s2 v where v: "bread 1 ?n t = Inr (i, s2)" "kept t s2" "b_data (bufs s2 i) = blk t ?n" "brelse i s2 = Inr v" "txv p st Map.empty v" "same_view t v"
        using tx_read [OF tx, of ?n] O(9) [of 12] t(2) lh by (auto elim!: exE conjE intro: that)
      note W = wstate_same [OF t(3) v(6,5)] and F = kept_fs(1) [OF v(2)] kept_fs(1) [OF same_viewD(1) [OF v(6)]]
      have "iadv ip 5 s v" using iadv5 iadv_trans [OF t(4) iadv_adv [OF same_adv [OF v(6)]]] by simp
      moreover have "bmap ip (of_nat bn) s = Inr (ptr t ?x (pos bn), v)"
        using w w2 t(1) v(1,3,4) F(1) e False O(2) unfolding bmap_def Let_def by simp
      ultimately show ?thesis
        using False W F(2) ext_trans [OF t(5) W(2)] t(6) by (intro exI [of _ v]) simp
    qed
  qed
qed

section \<open>Writing\<close>

text \<open>Byte \<open>k\<close> of the file is in a block of its own, and what it is.\<close>

definition has :: "'a fs_st_scheme \<Rightarrow> inode \<Rightarrow> nat \<Rightarrow> bool" where
  "has s x k \<longleftrightarrow> k < MAXFILE * BSIZE \<and> ptr s x (pos (k div BSIZE)) \<noteq> 0"

definition pbyte :: "'a fs_st_scheme \<Rightarrow> inode \<Rightarrow> nat \<Rightarrow> u8" where
  "pbyte s x k = blk s (ptr s x (pos (k div BSIZE))) ! (k mod BSIZE)"

text \<open>The bytes \<open>c\<close> are written at \<open>off\<close>.\<close>

definition written :: "nat \<Rightarrow> nat \<Rightarrow> u8 list \<Rightarrow> 'a fs_st_scheme \<Rightarrow> 'a fs_st_scheme \<Rightarrow> bool" where
  "written ip off c s t \<longleftrightarrow> (\<exists>as. inodes t ip = (inodes s ip)\<lparr>i_addrs := as\<rparr>) \<and>
     (\<forall>k. if off \<le> k \<and> k < off + length c then has t (inodes t ip) k \<and> pbyte t (inodes t ip) k = c ! (k - off)
       else has s (inodes s ip) k \<longrightarrow> has t (inodes t ip) k \<and> pbyte t (inodes t ip) k = pbyte s (inodes s ip) k)"

lemma has_bn: "has s x k \<Longrightarrow> k div 512 < 140"
  using less_mult_imp_div_less [of k 140 512] by (simp add: has_def)

lemma written_none: "written ip off [] s s"
proof -
  have "inodes s ip = (inodes s ip)\<lparr>i_addrs := i_addrs (inodes s ip)\<rparr>" by simp
  then show ?thesis unfolding written_def by (intro conjI) (rule exI, assumption, auto)
qed

lemma written_append:
  assumes "written ip off c s t" "written ip (off + length c) d t u"
  shows "written ip off (c @ d) s u"
proof -
  obtain as bs where "inodes t ip = (inodes s ip)\<lparr>i_addrs := as\<rparr>" "inodes u ip = (inodes t ip)\<lparr>i_addrs := bs\<rparr>"
    using assms unfolding written_def by blast
  then have "inodes u ip = (inodes s ip)\<lparr>i_addrs := bs\<rparr>" by simp
  moreover have "if off \<le> k \<and> k < off + length (c @ d) then has u (inodes u ip) k \<and> pbyte u (inodes u ip) k = (c @ d) ! (k - off)
      else has s (inodes s ip) k \<longrightarrow> has u (inodes u ip) k \<and> pbyte u (inodes u ip) k = pbyte s (inodes s ip) k" for k
  proof -
    consider "k < off" | "off \<le> k" "k < off + length c" | "off + length c \<le> k" by linarith
    then show ?thesis
      using spec [OF conjunct2 [OF assms(1) [unfolded written_def]], of k] spec [OF conjunct2 [OF assms(2) [unfolded written_def]], of k]
      by cases (auto simp: nth_append)
  qed
  ultimately show ?thesis unfolding written_def by blast
qed

lemma pos_inj: "pos a = pos b \<longleftrightarrow> a = b" "pos a \<noteq> 12" "a < MAXFILE \<Longrightarrow> pos a < 141"
  by (auto simp: pos_def)

text \<open>The block after a round of the loop.\<close>

lemma splice_nth:
  assumes "length d = 512" "a + length c \<le> 512" "k < 512"
  shows "(take a d @ c @ drop (a + length c) d) ! k = (if a \<le> k \<and> k < a + length c then c ! (k - a) else d ! k)"
  using assms by (auto simp: nth_append)

lemma same_block:
  fixes off k m :: nat
  assumes m: "off mod 512 + m \<le> 512"
  shows "off \<le> k \<and> k < off + m \<longleftrightarrow> k div 512 = off div 512 \<and> off mod 512 \<le> k mod 512 \<and> k mod 512 < off mod 512 + m"
    "k div 512 = off div 512 \<Longrightarrow> k mod 512 - off mod 512 = k - off"
proof -
  obtain ka kb oa ob where k: "k = 512 * ka + kb" "kb < 512" and o: "off = 512 * oa + ob" "ob < 512"
    by (metis mult_div_mod_eq mod_less_divisor zero_less_numeral)
  have "k div 512 = ka" "k mod 512 = kb" "off div 512 = oa" "off mod 512 = ob" using k o by simp_all
  moreover have "512 * oa + ob \<le> 512 * ka + kb \<and> 512 * ka + kb < 512 * oa + ob + m \<longleftrightarrow> ka = oa \<and> ob \<le> kb \<and> kb < ob + m" if "ob + m \<le> 512"
    using that k(2) by (cases "ka = oa") auto
  ultimately show "off \<le> k \<and> k < off + m \<longleftrightarrow> k div 512 = off div 512 \<and> off mod 512 \<le> k mod 512 \<and> k mod 512 < off mod 512 + m"
      "k div 512 = off div 512 \<Longrightarrow> k mod 512 - off mod 512 = k - off"
    using m k(1) o(1) by simp_all
qed

lemma round_written:
  assumes ok: "inode_ok st t (inodes t ip)" and e: "ext ip s t" and off: "off div BSIZE < MAXFILE" "off mod BSIZE + length c \<le> BSIZE"
  defines "a \<equiv> ptr t (inodes t ip) (pos (off div BSIZE))"
  assumes a: "a \<noteq> 0" "length (blk t a) = BSIZE" and u: "sb u = sb t" "disksize u = disksize t" "inodes u = inodes t"
    "blk u = (blk t)(a := take (off mod BSIZE) (blk t a) @ c @ drop (off mod BSIZE + length c) (blk t a))"
  shows "written ip off c s u" "inode_ok st u (inodes u ip)" "nfree u = nfree t"
proof -
  let ?x = "inodes t ip" and ?q = "pos (off div 512)"
  note q = pos_inj(3) [OF off(1)] pos_inj(2) a(1)
  note W = inode_ok_write [OF ok q(1,2) a(1) [unfolded a_def] u(1,2) u(4) [unfolded a_def]]
  show "inode_ok st u (inodes u ip)" using W(1) u(3) by simp
  show "nfree u = nfree t" using W(3) u(1) unfolding nfree_def by (intro arg_cong [of _ _ card]) auto
  let ?d = "take (off mod 512) (blk t a) @ c @ drop (off mod 512 + length c) (blk t a)"
  have at: "pbyte u ?x k = ?d ! (k mod 512)" "has u ?x k" if k: "k div 512 = off div 512" for k
  proof -
    have "k div 512 < 140" using off(1) unfolding k .
    then have "k < 71680" by simp
    moreover have "ptr u ?x (pos (k div 512)) = a" using W(2) unfolding k a_def .
    ultimately show "pbyte u ?x k = ?d ! (k mod 512)" "has u ?x k" using a(1) u(4) by (simp_all add: has_def pbyte_def)
  qed
  have other: "pbyte u ?x k = pbyte t ?x k" if "k div 512 \<noteq> off div 512" "has t ?x k" for k
  proof -
    note inj = inode_okD(8) [OF ok q(1) pos_inj(3) [OF has_bn [OF that(2)]], folded a_def]
    have "ptr t ?x (pos (k div 512)) \<noteq> a" using inj a(1) that(1) pos_inj(1) by metis
    then show ?thesis using W(2) u(4) by (simp add: pbyte_def)
  qed
  have old: "has t ?x k \<and> pbyte t ?x k = pbyte s (inodes s ip) k" if "has s (inodes s ip) k" for k
    using that pos_inj(3) [OF has_bn [OF that]] e pos_inj(2) unfolding ext_def has_def pbyte_def by metis
  have "if off \<le> k \<and> k < off + length c then has u ?x k \<and> pbyte u ?x k = c ! (k - off)
      else has s (inodes s ip) k \<longrightarrow> has u ?x k \<and> pbyte u ?x k = pbyte s (inodes s ip) k" for k
  proof (cases "k div 512 = off div 512")
    case True
    have "blk t a ! (k mod 512) = pbyte t ?x k" using True by (simp add: pbyte_def a_def)
    then show ?thesis
      using at [OF True] splice_nth [OF a(2) off(2), of "k mod 512"] same_block [OF off(2), of k] True old [of k] by simp
  next
    case False
    then show ?thesis using same_block(1) [OF off(2), of k] old [of k] other [of k] W(2) by (auto simp: has_def)
  qed
  moreover have "\<exists>as. ?x = (inodes s ip)\<lparr>i_addrs := as\<rparr>" using e unfolding ext_def by blast
  ultimately show "written ip off c s u" unfolding written_def u(3) by blast
qed

text \<open>The rounds of the loop of writei.\<close>

definition rounds :: "nat \<Rightarrow> nat \<Rightarrow> nat" where
  "rounds off left = (if left = 0 then 0 else (off + left - 1) div BSIZE - off div BSIZE + 1)"

lemma rounds_step:
  fixes off left :: nat
  assumes "0 < left"
  defines "m \<equiv> min left (BSIZE - off mod BSIZE)"
  shows "0 < m" "m \<le> left" "off mod BSIZE + m \<le> BSIZE" "rounds off left = rounds (off + m) (left - m) + 1"
proof -
  obtain oa ob where o: "off = 512 * oa + ob" "ob < 512"
    by (metis mult_div_mod_eq mod_less_divisor zero_less_numeral)
  then have d: "off div 512 = oa" "off mod 512 = ob" by simp_all
  show "0 < m" "m \<le> left" "off mod 512 + m \<le> 512" using assms by (auto simp: m_def)
  show "rounds off left = rounds (off + m) (left - m) + 1"
  proof (cases "left \<le> 512 - ob")
    case True
    then have "off + left - 1 = 512 * oa + (ob + left - 1)" "ob + left - 1 < 512" using o assms(1) by auto
    then have "(off + left - 1) div 512 = oa" by simp
    then show ?thesis using True d assms(1) by (simp add: rounds_def m_def)
  next
    case False
    then have m: "off + m = 512 * (oa + 1)" "m < left" "off + m + (left - m) = off + left" using o d by (auto simp: m_def)
    then have "oa + 1 \<le> (off + left - 1) div 512" by (simp add: less_eq_div_iff_mult_less_eq)
    moreover have "(off + m) div 512 = oa + 1" using m(1) by simp
    ultimately show ?thesis using m(2,3) d assms(1) unfolding rounds_def by (simp add: Suc_diff_Suc Suc_le_eq)
  qed
qed

lemma write_round:
  fixes s :: "'a fs_st_scheme"
  assumes s: "wstate p st ip s" and off: "off div BSIZE < MAXFILE" "off mod BSIZE + length c \<le> BSIZE" and room: "lh_count s < 24" "2 \<le> nfree s"
  shows "\<exists>a t i v w z. bmap ip (of_nat (off div BSIZE)) s = Inr (a, t) \<and> i_dev (inodes t ip) = 1 \<and> bread 1 a t = Inr (i, v) \<and>
    log_write i (set_data i (take (off mod BSIZE) (b_data (bufs v i)) @ c @ drop (off mod BSIZE + length c) (b_data (bufs v i))) v) = Inr w \<and>
    brelse i w = Inr z \<and> wstate p st ip z \<and> iadv ip 6 s z \<and> nfree s \<le> nfree z + 2 \<and> written ip off c s z"
proof -
  have r: "lh_count s < 25" using room by simp
  obtain t where t: "bmap ip (of_nat (off div 512)) s = Inr (ptr t (inodes t ip) (pos (off div 512)), t)" "ptr t (inodes t ip) (pos (off div 512)) \<noteq> 0"
      "wstate p st ip t" "iadv ip 5 s t" "ext ip s t" "nfree s \<le> nfree t + 2"
    using bmap_grow [OF s off(1) r room(2)] by (elim exE conjE) (rule that)
  let ?x = "inodes t ip" and ?a = "ptr t (inodes t ip) (pos (off div 512))"
  have tx: "txv p st Map.empty t" and ok: "inode_ok st t ?x" using t(3) by (simp_all add: wstate_def)
  note O = inode_okD [OF ok] and q = pos_inj(3) [OF off(1)]
  have len: "length (blk t ?a) = 512" using tx blk_length [of p Map.empty t] by (simp add: txv_def)
  let ?d = "take (off mod 512) (blk t ?a) @ c @ drop (off mod 512 + length c) (blk t ?a)"
  have d: "length ?d = 512" using len off(2) by simp
  have lg: "?a \<notin> log_area st" using O(7) [OF q t(2)] by (simp add: data_block_def)
  have "int (card (dom Map.empty)) + lh_count t < 29" using iadvD(3) [OF t(4)] room by simp
  then obtain i v w z where z: "bread 1 ?a t = Inr (i, v)" "b_data (bufs v i) = blk t ?a" "log_write i (set_data i ?d v) = Inr w"
      "brelse i w = Inr z" "txv p st Map.empty z" "adv 1 t z" "blk z = (blk t)(?a := ?d)"
    using tx_update [OF tx O(9) [OF q t(2)] _ lg d] by (auto elim!: exE conjE intro: that)
  note F = adv_fs [OF z(6)]
  have I: "inodes z = inodes t" using F(1) by simp
  note W = round_written [OF ok t(5) off t(2) len F(2,3) I z(7)]
  have "wstate p st ip z" using z(5) W(2) by (simp add: wstate_def)
  then show ?thesis
    using t(1,6) O(2) z(1-4) W(1,3) iadv_trans [OF t(4) iadv_adv [OF z(6)]]
    by (intro exI [of _ ?a] exI [of _ t] exI [of _ i] exI [of _ v] exI [of _ w] exI [of _ z]) simp
qed

lemma writei_loop_ok:
  fixes s :: "'a fs_st_scheme"
  assumes "wstate p st ip s" "off + left \<le> MAXFILE * BSIZE" "left \<le> length src"
    and "lh_count s + 6 * int (rounds off left) < 30" "2 * rounds off left \<le> nfree s"
  shows "\<exists>t. writei_loop ip src off left s = Inr t \<and> wstate p st ip t \<and> iadv ip (6 * int (rounds off left)) s t \<and> written ip off (take left src) s t"
  using assms
proof (induction left arbitrary: off src s rule: less_induct)
  case (less left)
  show ?case
  proof (cases "left = 0")
    case True
    have "iadv ip 0 s s" by (intro iadv_adv) (simp add: adv_def)
    then show ?thesis using True less.prems(1) written_none [of ip off s] by (simp add: writei_loop.simps rounds_def)
  next
    case False
    define m where "m = min left (512 - off mod 512)"
    note R = rounds_step [of left off, folded m_def]
    have pos: "0 < left" using False by simp
    let ?c = "take m src"
    have c: "length ?c = m" using R(2) [OF pos] less.prems(3) by simp
    have lt: "off div 512 < 140" using less.prems(2) pos less_mult_imp_div_less [of off 140 512] by simp
    have "lh_count s < 24" "2 \<le> nfree s" using R(4) [OF pos] less.prems(4,5) by simp_all
    then obtain a t i v w z where z: "bmap ip (of_nat (off div 512)) s = Inr (a, t)" "i_dev (inodes t ip) = 1" "bread 1 a t = Inr (i, v)"
        "log_write i (set_data i (take (off mod 512) (b_data (bufs v i)) @ ?c @ drop (off mod 512 + m) (b_data (bufs v i))) v) = Inr w"
        "brelse i w = Inr z" "wstate p st ip z" "iadv ip 6 s z" "nfree s \<le> nfree z + 2" "written ip off ?c s z"
      using write_round [OF less.prems(1) lt, of ?c] R(3) [OF pos] unfolding c by (auto elim!: exE conjE intro: that)
    have step: "writei_loop ip src off left s = writei_loop ip (drop m src) (off + m) (left - m) z"
      using False z(1-5) by (simp add: writei_loop.simps [of ip src off] m_def [symmetric] Let_def)
    have "\<exists>u. writei_loop ip (drop m src) (off + m) (left - m) z = Inr u \<and> wstate p st ip u \<and>
        iadv ip (6 * int (rounds (off + m) (left - m))) z u \<and> written ip (off + m) (take (left - m) (drop m src)) z u"
      using less.prems(2-5) R [OF pos] z(6,8) iadvD(3) [OF z(7)] by (intro less.IH) simp_all
    then obtain u where u: "writei_loop ip (drop m src) (off + m) (left - m) z = Inr u" "wstate p st ip u"
        "iadv ip (6 * int (rounds (off + m) (left - m))) z u" "written ip (off + m) (take (left - m) (drop m src)) z u" by blast
    have "written ip off (take left src) s u"
      using written_append [OF z(9), unfolded c, OF u(4)] R(2) [OF pos] by (metis take_add le_add_diff_inverse)
    moreover have "iadv ip (6 * int (rounds off left)) s u" using iadv_trans [OF z(7) u(3)] R(4) [OF pos] by (simp add: algebra_simps)
    ultimately show ?thesis using step u(1,2) by auto
  qed
qed

section \<open>The inode on disk\<close>

lemma dinode_fold:
  assumes "\<And>i. i \<in> set js \<Longrightarrow> b + 4 * i + 3 < length d"
  shows "ld32 (fold (\<lambda>i d. st32 d (b + 4 * i) (v i)) js d) (b + 4 * j) = (if j \<in> set js then v j else ld32 d (b + 4 * j))"
  using assms
proof (induction js arbitrary: d)
  case (Cons i js)
  have "b + 4 * j + 4 \<le> b + 4 * i \<or> b + 4 * i + 4 \<le> b + 4 * j" if "j \<noteq> i" using that by linarith
  then show ?case
    using Cons.IH [of "st32 d (b + 4 * i) (v i)"] Cons.prems ld32_st32_other [of "b + 4 * j" "b + 4 * i" d] by (cases "j = i") simp_all
qed simp

lemma dinode_fold_below:
  "p + 4 \<le> b \<Longrightarrow> ld32 (fold (\<lambda>i d. st32 d (b + 4 * i) (v i)) is d) p = ld32 d p"
  "p + 2 \<le> b \<Longrightarrow> ld16 (fold (\<lambda>i d. st32 d (b + 4 * i) (v i)) is d) p = ld16 d p"
  by (induction "is" arbitrary: d) (simp_all add: ld32_st32_other ld16_st32_other)

lemma dinode_length [simp]: "length (dinode_store x d k) = length d"
  by (simp add: dinode_store_def Let_def add.assoc)

lemma dinode_roundtrip:
  assumes "length (i_addrs x) = NDIRECT + 1" "k + 64 \<le> length d"
  shows "dinode_load (dinode_store x d k) k x = x"
proof -
  define e where "e = st32 (st16 (st16 (st16 (st16 d k (i_type x)) (k + 2) (i_major x)) (k + 4) (i_minor x)) (k + 6) (i_nlink x)) (k + 8) (i_size x)"
  let ?f = "fold (\<lambda>i d. st32 d (k + 12 + 4 * i) (i_addrs x ! i)) [0..<13] e"
  have s: "dinode_store x d k = ?f" by (simp add: dinode_store_def Let_def e_def)
  have "\<And>i. i \<in> set [0..<13] \<Longrightarrow> k + 12 + 4 * i + 3 < length e" using assms(2) by (auto simp: e_def)
  note F = dinode_fold [where js = "[0..<13]" and v = "\<lambda>i. i_addrs x ! i", OF this]
  have B: "ld32 ?f (k + 8) = ld32 e (k + 8)" "p + 2 \<le> k + 12 \<Longrightarrow> ld16 ?f p = ld16 e p" for p by (simp_all add: dinode_fold_below)
  have "map (\<lambda>i. ld32 ?f (k + 12 + 4 * i)) [0..<13] = i_addrs x"
    using F assms(1) by (intro nth_equalityI) simp_all
  moreover have "ld32 ?f (k + 8) = i_size x" unfolding B(1) using assms(2) by (simp add: e_def)
  moreover have "ld16 ?f k = i_type x" "ld16 ?f (k + 2) = i_major x" "ld16 ?f (k + 4) = i_minor x" "ld16 ?f (k + 6) = i_nlink x"
    using B(2) [of k] B(2) [of "k + 2"] B(2) [of "k + 4"] B(2) [of "k + 6"] assms(2)
    by (simp_all add: e_def ld16_st16_other ld16_st32_other)
  ultimately show ?thesis unfolding s dinode_load_def by simp
qed

lemma dinode_off_bound: "dinode_off i + 64 \<le> 512"
proof -
  have "unat i mod 8 < 8" by simp
  then show ?thesis by (simp add: dinode_off_def)
qed

lemma iupdate_ok:
  fixes s :: "'a fs_st_scheme"
  assumes s: "wstate p st ip s" and room: "lh_count s < 29"
  defines "x \<equiv> inodes s ip"
  shows "\<exists>t. iupdate ip s = Inr t \<and> wstate p st ip t \<and> adv 1 s t \<and> dinode_load (blk t (IBLOCK (i_inum x) (sb s))) (dinode_off (i_inum x)) x = x \<and>
    ptr t x = ptr s x \<and> (\<forall>q < 141. ptr s x q \<noteq> 0 \<longrightarrow> blk t (ptr s x q) = blk s (ptr s x q))"
proof -
  let ?n = "IBLOCK (i_inum x) (sb s)" and ?k = "dinode_off (i_inum x)"
  have tx: "txv p st Map.empty s" and ok: "inode_ok st s x" using s by (simp_all add: wstate_def x_def)
  note O = inode_okD [OF ok]
  have l: "length (blk s ?n) = 512" using tx blk_length [of p Map.empty s] by (simp add: txv_def)
  let ?d = "dinode_store x (blk s ?n) ?k"
  have d: "length ?d = 512" using l by simp
  have "int (card (dom Map.empty)) + lh_count s < 29" using room by simp
  then obtain i t u v where v: "bread 1 ?n s = Inr (i, t)" "b_data (bufs t i) = blk s ?n" "log_write i (set_data i ?d t) = Inr u"
      "brelse i u = Inr v" "txv p st Map.empty v" "adv 1 s v" "blk v = (blk s)(?n := ?d)"
    using tx_update [OF tx O(4) _ O(5) d] by (auto elim!: exE conjE intro: that)
  note F = adv_fs [OF v(6)]
  have other: "ptr s x q \<noteq> ?n" if "q < 141" "ptr s x q \<noteq> 0" for q using O(7) [OF that] by (simp add: data_block_def)
  have pt: "ptr v x = ptr s x" using other [of 12] v(7) by (auto simp: ptr_def fun_eq_iff)
  have us: "used v c = used s c" if "c < nblocks s" for c
  proof -
    have "bm_block s c \<in> bm_area s" using that by blast
    then have "bm_block s c \<noteq> ?n" using O(6) by metis
    then show ?thesis using v(7) F(2) by (simp add: used_def)
  qed
  have "bitmap_ok st v" using bitmap_ok_mono [OF O(1) F(2,3)] us by blast
  then have "inode_ok st v x" using ok us unfolding inode_ok_def Let_def pt F(2,3) data_block_def by auto
  then have "wstate p st ip v" using v(5) F(1) by (simp add: wstate_def x_def)
  moreover have "dinode_load (blk v ?n) ?k x = x" using v(7) dinode_roundtrip [of x ?k "blk s ?n"] O(3) l dinode_off_bound [of "i_inum x"] by simp
  moreover have "iupdate ip s = Inr v" using v(1-4) O(2) by (simp add: iupdate_def x_def [symmetric])
  ultimately show ?thesis using v(6,7) pt other by (intro exI [of _ v]) simp
qed

section \<open>writei\<close>

lemma resize_simps:
  "ptr (upd_inode i f s) y = ptr s y" "ptr s (x\<lparr>i_size := m\<rparr>) = ptr s x" "inode_ok st (upd_inode i f s) (x\<lparr>i_size := m\<rparr>) = inode_ok st s x"
proof -
  show p: "ptr (upd_inode i f s) y = ptr s y" "ptr s (x\<lparr>i_size := m\<rparr>) = ptr s x" for y by (simp_all add: ptr_def fun_eq_iff)
  show "inode_ok st (upd_inode i f s) (x\<lparr>i_size := m\<rparr>) = inode_ok st s x"
    unfolding inode_ok_def data_block_def p by simp
qed

text \<open>The new size and the inode on disk.\<close>

lemma resize_ok:
  fixes s :: "'a fs_st_scheme" and m :: u32
  assumes s: "wstate p st ip s" and room: "lh_count s < 29"
  defines "y \<equiv> (inodes s ip)\<lparr>i_size := m\<rparr>"
  shows "\<exists>t. iupdate ip (upd_inode ip (\<lambda>x. x\<lparr>i_size := m\<rparr>) s) = Inr t \<and> wstate p st ip t \<and> iadv ip 1 s t \<and> inodes t ip = y \<and>
    dinode_load (blk t (IBLOCK (i_inum y) (sb s))) (dinode_off (i_inum y)) y = y \<and> has t y = has s (inodes s ip) \<and>
    (\<forall>k. has s (inodes s ip) k \<longrightarrow> pbyte t y k = pbyte s (inodes s ip) k)"
proof -
  let ?s = "upd_inode ip (\<lambda>x. x\<lparr>i_size := m\<rparr>) s"
  have y: "inodes ?s ip = y" by (simp add: y_def)
  have w: "wstate p st ip ?s" using s by (simp add: wstate_def resize_simps)
  have "lh_count ?s < 29" using room by simp
  from iupdate_ok [OF w this, unfolded y] obtain t where t: "iupdate ip ?s = Inr t" "wstate p st ip t" "adv 1 ?s t"
      "dinode_load (blk t (IBLOCK (i_inum y) (sb s))) (dinode_off (i_inum y)) y = y" "ptr t y = ptr ?s y"
      "\<forall>q < 141. ptr ?s y q \<noteq> 0 \<longrightarrow> blk t (ptr ?s y q) = blk ?s (ptr ?s y q)" by auto
  have p: "ptr t y = ptr s (inodes s ip)" and ps: "ptr ?s y = ptr s (inodes s ip)" using t(5) by (simp_all add: resize_simps y_def)
  have h: "has t y = has s (inodes s ip)" by (simp add: has_def p fun_eq_iff)
  have b: "pbyte t y k = pbyte s (inodes s ip) k" if "has s (inodes s ip) k" for k
    using that t(6) pos_inj(3) [OF has_bn [OF that]] unfolding ps by (simp add: pbyte_def p has_def)
  have "inodes t ip = y" using adv_fs(1) [OF t(3)] y by simp
  moreover have "iadv ip 1 s t" using iadv_trans [OF iadv_upd_inode iadv_adv [OF t(3)]] by simp
  ultimately show ?thesis using t(1,2,4) h b by blast
qed

lemma writei_ok:
  fixes s :: "'a cons_st_scheme" and off n :: u32
  assumes s: "wstate p st ip s" and x: "i_type (inodes s ip) \<noteq> T_DEV" and src: "unat n \<le> length src"
    and off: "off \<le> i_size (inodes s ip)" "unat off + unat n \<le> MAXFILE * BSIZE"
    and room: "lh_count s + 6 * int (rounds (unat off) (unat n)) < 29" "2 * rounds (unat off) (unat n) \<le> nfree s"
  defines "grow \<equiv> unat (i_size (inodes s ip)) < unat off + unat n"
  shows "\<exists>t as. writei ip src off n s = Inr (int (unat n), t) \<and> wstate p st ip t \<and>
    inodes t ip = (inodes s ip)\<lparr>i_addrs := as, i_size := if grow then off + n else i_size (inodes s ip)\<rparr> \<and>
    (\<forall>j. j \<noteq> ip \<longrightarrow> inodes t j = inodes s j) \<and> lh_count t < 30 \<and>
    (grow \<longrightarrow> dinode_load (blk t (IBLOCK (i_inum (inodes s ip)) (sb s))) (dinode_off (i_inum (inodes s ip))) (inodes t ip) = inodes t ip) \<and>
    (\<forall>k. if unat off \<le> k \<and> k < unat off + unat n then has t (inodes t ip) k \<and> pbyte t (inodes t ip) k = src ! (k - unat off)
      else has s (inodes s ip) k \<longrightarrow> has t (inodes t ip) k \<and> pbyte t (inodes t ip) k = pbyte s (inodes s ip) k)"
proof -
  let ?x = "inodes s ip"
  have sum: "unat (off + n) = unat off + unat n" using off(2) by (simp add: unat_word_ariths)
  then have c: "\<not> (off > i_size ?x \<or> off + n < off)" "\<not> off + n > 71680" using off by (auto simp: word_less_nat_alt word_le_nat_alt)
  have sn: "sint n = int (unat n)" using off(2) by (intro sint_small_nat) simp_all
  obtain u where u: "writei_loop ip src (unat off) (unat n) s = Inr u" "wstate p st ip u" "iadv ip (6 * int (rounds (unat off) (unat n))) s u"
      "written ip (unat off) (take (unat n) src) s u"
    using writei_loop_ok [OF s off(2) src] room by fastforce
  note D = iadvD [OF u(3)]
  obtain as where as: "inodes u ip = ?x\<lparr>i_addrs := as\<rparr>" using u(4) unfolding written_def by blast
  have W: "if unat off \<le> k \<and> k < unat off + unat n then has u (inodes u ip) k \<and> pbyte u (inodes u ip) k = src ! (k - unat off)
      else has s ?x k \<longrightarrow> has u (inodes u ip) k \<and> pbyte u (inodes u ip) k = pbyte s ?x k" for k
    using spec [OF conjunct2 [OF u(4) [unfolded written_def]], of k] src by (auto simp: min_absorb2 split: if_splits)
  have g: "n > 0 \<and> off + n > i_size (inodes u ip) \<longleftrightarrow> grow"
    using sum as off(1) by (auto simp: grow_def word_less_nat_alt word_le_nat_alt unat_eq_zero)
  show ?thesis
  proof (cases grow)
    case True
    have "lh_count u < 29" using D(3) room(1) by simp
    from resize_ok [OF u(2) this, of "off + n"] obtain t where t: "iupdate ip (upd_inode ip (\<lambda>x. x\<lparr>i_size := off + n\<rparr>) u) = Inr t" "wstate p st ip t"
        "iadv ip 1 u t" "inodes t ip = (inodes u ip)\<lparr>i_size := off + n\<rparr>"
        "dinode_load (blk t (IBLOCK (i_inum ?x) (sb s))) (dinode_off (i_inum ?x)) (inodes t ip) = inodes t ip"
        "has t (inodes t ip) = has u (inodes u ip)" "\<forall>k. has u (inodes u ip) k \<longrightarrow> pbyte t (inodes t ip) k = pbyte u (inodes u ip) k"
      using as D(1) by auto
    have "writei ip src off n s = Inr (int (unat n), t)"
      using x c u(1) t(1) g True sn by (simp add: writei_def Let_def)
    moreover have "if unat off \<le> k \<and> k < unat off + unat n then has t (inodes t ip) k \<and> pbyte t (inodes t ip) k = src ! (k - unat off)
        else has s ?x k \<longrightarrow> has t (inodes t ip) k \<and> pbyte t (inodes t ip) k = pbyte s ?x k" for k
      using W [of k] t(6,7) by (simp split: if_splits)
    moreover have "inodes t j = inodes s j" if "j \<noteq> ip" for j using that iadvD(4) [OF t(3)] D(4) by simp
    moreover have "lh_count t < 30" using iadvD(3) [OF t(3)] D(3) room(1) by simp
    moreover have "inodes t ip = ?x\<lparr>i_addrs := as, i_size := if grow then off + n else i_size ?x\<rparr>" using t(4) as True by simp
    ultimately show ?thesis using t(2,5) by blast
  next
    case False
    have "writei ip src off n s = Inr (int (unat n), u)"
      using x c u(1) g False sn by (auto simp: writei_def Let_def)
    moreover have "inodes u ip = ?x\<lparr>i_addrs := as, i_size := if grow then off + n else i_size ?x\<rparr>" using as False by simp
    moreover have "lh_count u < 30" using D(3) room(1) by simp
    ultimately show ?thesis using False u(2) W D(4) by blast
  qed
qed

section \<open>Writing and reading back\<close>

text \<open>A file: a well-formed inode that has a block for every byte below its size.\<close>

definition file_inv :: "nat \<Rightarrow> int \<Rightarrow> nat \<Rightarrow> 'a fs_st_scheme \<Rightarrow> bool" where
  "file_inv p st ip s \<longleftrightarrow> wstate p st ip s \<and> unat (i_size (inodes s ip)) \<le> MAXFILE * BSIZE \<and>
     (\<forall>k < unat (i_size (inodes s ip)). has s (inodes s ip) k)"

lemma has_fbyte:
  assumes "inode_ok st s x" "has s x k"
  shows "fbyte s x k = pbyte s x k" "has_block s x (k div BSIZE)"
  using inode_block [OF assms(1) has_bn [OF assms(2)]] assms(2) by (simp_all add: fbyte_def pbyte_def has_def)

lemma file_inv_ok:
  assumes "file_inv p st ip s"
  shows "file_ok s (inodes s ip)"
proof -
  have ok: "inode_ok st s (inodes s ip)" using assms by (simp add: file_inv_def wstate_def)
  have "has_block s (inodes s ip) bn" if "bn * 512 < unat (i_size (inodes s ip))" for bn
    using has_fbyte(2) [OF ok, of "bn * 512"] assms that by (simp add: file_inv_def)
  then show ?thesis using assms inode_okD(2,3) [OF ok] by (simp add: file_ok_def file_inv_def)
qed

text \<open>
  C40. What is written to a file is read back. Inside a transaction, for a file whose addresses are distinct blocks in use apart from
  the log, the bitmap and its inode: writei at an offset up to the size returns the count, allocating blocks as it needs
  them, directly or through the indirect block; readi then returns the bytes written; every other byte of
  the file keeps its value; the size is the larger of the old size and the end of the write, and when it
  grew, the inode on disk is the inode in memory; the file stays well formed and no other inode changes. A write that starts behind the
  end or would pass the largest file gives -1 and changes nothing. The room: six blocks of the log and two free blocks
  for each block of the file that the write touches.
\<close>

theorem write_then_read:
  fixes s :: "'a cons_st_scheme" and off n :: u32
  assumes s: "file_inv p st ip s" and x: "i_type (inodes s ip) \<noteq> T_DEV" and src: "unat n \<le> length src"
    and room: "lh_count s + 6 * int (rounds (unat off) (unat n)) < 29" "2 * rounds (unat off) (unat n) \<le> nfree s"
  defines "size0 \<equiv> unat (i_size (inodes s ip))" and "last0 \<equiv> unat off + unat n"
  shows "if size0 < unat off \<or> MAXFILE * BSIZE < last0 then writei ip src off n s = Inr (-1, s)
    else \<exists>t u. writei ip src off n s = Inr (int (unat n), t) \<and> file_inv p st ip t \<and> readi ip off n t = Inr ((int (unat n), take (unat n) src), u) \<and>
      unat (i_size (inodes t ip)) = max size0 last0 \<and> (\<forall>k < size0. unat off \<le> k \<and> k < last0 \<or> fbyte t (inodes t ip) k = fbyte s (inodes s ip) k) \<and>
      (last0 \<le> size0 \<or> dinode_load (blk t (IBLOCK (i_inum (inodes s ip)) (sb s))) (dinode_off (i_inum (inodes s ip))) (inodes t ip) = inodes t ip) \<and>
      (\<forall>j. j = ip \<or> inodes t j = inodes s j)"
proof (cases "size0 < unat off \<or> MAXFILE * BSIZE < last0")
  case True
  then have "off > i_size (inodes s ip) \<or> off + n < off \<or> off + n > 71680"
    using overflow_iff [of off n] unat_word_ariths(1) [of off n] by (auto simp: size0_def last0_def word_less_nat_alt)
  then show ?thesis using True x by (auto simp: writei_def Let_def)
next
  case False
  let ?x = "inodes s ip"
  have w: "wstate p st ip s" and hs: "k < size0 \<Longrightarrow> has s ?x k" for k using s by (simp_all add: file_inv_def size0_def)
  have o: "off \<le> i_size ?x" "unat off + unat n \<le> MAXFILE * BSIZE" using False by (auto simp: size0_def last0_def word_le_nat_alt)
  obtain t as where t: "writei ip src off n s = Inr (int (unat n), t)" "wstate p st ip t"
      "inodes t ip = ?x\<lparr>i_addrs := as, i_size := if size0 < last0 then off + n else i_size ?x\<rparr>" "\<forall>j. j \<noteq> ip \<longrightarrow> inodes t j = inodes s j" "lh_count t < 30"
      "size0 < last0 \<longrightarrow> dinode_load (blk t (IBLOCK (i_inum ?x) (sb s))) (dinode_off (i_inum ?x)) (inodes t ip) = inodes t ip"
    and W: "\<And>k. if unat off \<le> k \<and> k < last0 then has t (inodes t ip) k \<and> pbyte t (inodes t ip) k = src ! (k - unat off)
      else has s ?x k \<longrightarrow> has t (inodes t ip) k \<and> pbyte t (inodes t ip) k = pbyte s ?x k"
    using writei_ok [OF w x src o room, folded last0_def size0_def] by blast
  have "unat (off + n) = last0" using o(2) by (simp add: unat_word_ariths last0_def)
  then have sz: "unat (i_size (inodes t ip)) = max size0 last0" using t(3) by (simp add: size0_def)
  have ht: "has t (inodes t ip) k" if "k < max size0 last0" for k using that W [of k] hs [of k] False by (auto simp: less_max_iff_disj split: if_splits)
  have inv: "file_inv p st ip t"
    using t(2) ht sz s o(2) unfolding file_inv_def by (auto simp: size0_def last0_def)
  have oks: "inode_ok st s ?x" "inode_ok st t (inodes t ip)" using w t(2) by (simp_all add: wstate_def)
  have old: "unat off \<le> k \<and> k < last0 \<or> fbyte t (inodes t ip) k = fbyte s ?x k" if "k < size0" for k
    using W [of k] hs [OF that] has_fbyte(1) [OF oks(1) hs [OF that]] has_fbyte(1) [OF oks(2)] by (auto split: if_splits)
  have new: "map (fbyte t (inodes t ip)) [unat off..<last0] = take (unat n) src"
    using src W ht has_fbyte(1) [OF oks(2)] by (intro nth_equalityI) (auto simp: last0_def)
  have "i_type (inodes t ip) \<noteq> 3" using x t(3) by simp
  moreover have tx: "txv p st Map.empty t" using t(2) by (simp add: wstate_def)
  moreover have "card (pinned t) < 30" using txv_room [OF tx] t(5) by simp
  ultimately obtain u where "readi ip off n t = Inr ((int (unat n), take (unat n) src), u)"
    using readi_ok [of p t ip off n] file_inv_ok [OF inv] sz new o(2) False by (auto simp: txv_def last0_def)
  then show ?thesis
    unfolding if_not_P [OF False] using t(1,4,6) inv sz old by (intro exI [of _ t] exI [of _ u]) (auto simp: not_less)
qed

definition file_machine :: sys_st where
  "file_machine = upd_inode 0 (\<lambda>_. zero_inode\<lparr>i_dev := 1, i_inum := 1, i_type := T_FILE, i_size := 0, i_addrs := replicate 13 0\<rparr>) tx_machine"

lemma file_machine_inv: "file_inv 0 2 0 file_machine" "nfree file_machine = 941" "lh_count file_machine = 0"
proof -
  let ?x = "inodes file_machine 0"
  have x: "?x = zero_inode\<lparr>i_dev := 1, i_inum := 1, i_type := 2, i_size := 0, i_addrs := replicate 13 0\<rparr>" by (simp add: file_machine_def)
  have b: "bitmap_ok 2 file_machine" "txv 0 2 Map.empty file_machine" "used file_machine = used tx_machine" "sb file_machine = sb machine"
      "disksize file_machine = 1000" "lh_count file_machine = 0"
    using tx_machine_bitmap tx_machine_tx by (simp_all add: file_machine_def)
  have p: "ptr file_machine ?x q = 0" if "q < 141" for q using that by (simp add: ptr_def x)
  have i: "IBLOCK (i_inum ?x) (sb file_machine) = 32" using b(4) x by (simp add: IBLOCK_def)
  have bm: "bm_block file_machine c = 58" if "c < 1000" for c using that b(4) by (simp add: BBLOCK_def of_nat_div32)
  have "(of_nat c :: u32) \<noteq> 32" if "c < 1000" "\<not> used file_machine c" for c
    using that b(3) tx_machine_used [OF that(1)] unat_of_nat32 [of c] by (auto simp: word_unat_eq_iff)
  then have "inode_ok 2 file_machine ?x"
    unfolding inode_ok_def Let_def i using b p bm x log_area_iff [of 2 1000 32] by auto
  then show "file_inv 0 2 0 file_machine" using b(2) x by (simp add: file_inv_def wstate_def)
  have "{c. c < nblocks file_machine \<and> \<not> used file_machine c} = {59..<1000}" using b(3,4) tx_machine_used by auto
  then show "nfree file_machine = 941" by (simp add: nfree_def)
  show "lh_count file_machine = 0" using b(6) .
qed

theorem write_then_read_witness:
  "\<exists>t u. writei 0 [104, 101, 108, 108, 111] 0 5 file_machine = Inr (5, t) \<and> readi 0 0 5 t = Inr ((5, [104, 101, 108, 108, 111]), u) \<and>
     i_size (inodes t 0) = 5"
proof -
  have "i_type (inodes file_machine 0) \<noteq> 3" "i_size (inodes file_machine 0) = 0" by (simp_all add: file_machine_def)
  then show ?thesis
    using write_then_read [OF file_machine_inv(1), of 5 "[104, 101, 108, 108, 111]" 0] file_machine_inv(2,3)
    by (auto simp: rounds_def word_unat_eq_iff)
qed

end
