(* ===== verification/Spec2Isabelle.thy ===== *)
theory Spec2Isabelle
  imports Kstring Vm_Props Pipe_Props Log_Props Trap Machine Grep Uprogs Sh_Run Klog_Export Proc_Props Umalloc_Run Ide_Props Fs_Write
begin

text \<open>
  A verification library for the xv6 kernel with the klog flight recorder.

  \<^bold>\<open>The program.\<close> The kernel is C for one address space shared by several CPUs. Its layers, bottom up:
  string routines (string.c), spin locks with the per-CPU interrupt count (spinlock.c), the flight recorder
  (klog.c), the process table with the switch, sleep and wakeup (proc.c), the page allocator (kalloc.c) and page
  tables (vm.c), sleep locks (sleeplock.c), the buffer cache (bio.c) over a disk (memide.c), the redo log (log.c),
  blocks, inodes, directories and paths (fs.c), the console (console.c), pipes (pipe.c), open files (file.c),
  process creation and the scheduler (proc.c), program loading (exec.c), system calls (syscall.c, sysproc.c,
  sysfile.c) and traps (trap.c). Every layer only calls the layers below it.

  \<^bold>\<open>The state.\<close> The globals of the kernel are the fields of one extensible record, which each theory extends by
  the globals of its source file: \<open>kcpu\<close> (Spinlock), \<open>klog_st\<close> (Klog), \<open>ptab_st\<close> (Sched), \<open>kmem_st\<close>
  (Kalloc), \<open>vm_st\<close> (Vm), \<open>bio_st\<close> (Bio), \<open>log_st\<close> (Log), \<open>fs_st\<close> (Inode), \<open>cons_st\<close> (Console),
  \<open>pipe_st\<close> (Pipe), \<open>file_st\<close> (File), \<open>sys_st\<close> (Syscall). An operation is polymorphic in the rest of the
  record, so a lemma on a lower layer holds unchanged in every layer above it.

  \<^bold>\<open>Results.\<close> A routine returns \<open>'s stop + 'r\<close>. The left side says why it does not return here: \<open>Panic\<close> with the
  message of the source, \<open>Switch\<close> with the state in which the process gave up the CPU (sched), \<open>Spin\<close> for a lock
  that is not free or a loop out of fuel, \<open>Fault\<close> for a null dereference. \<open>seq\<close> composes routines. A routine
  that can sleep has, beside its definition, one for the code that runs after the sleep (\<open>..._resume\<close>, \<open>..._loop\<close>).

  \<^bold>\<open>Theories and what they show.\<close>
  \<^item> Prelude: 32-bit words, byte memory, little-endian access, \<open>seq\<close>, loops.
  \<^item> Kstring (string.c): memset, memcmp, memmove with both directions, strncmp, strncpy, safestrcpy, strlen, and that
    they compute what their callers rely on.
  \<^item> Spinlock (spinlock.c, mycpu): the routines on one CPU, and the steps of several CPUs on one lock as an
    inductive relation with mutual exclusion as its invariant.
  \<^item> Klog (klog.c): the ring of events and its refinement to the list of the last 128 events. Klog_Export (klog_getlogs):
    what a user program reads of it, through copyout and the page table.
  \<^item> Sched (proc.c, the switch): process table, sched, yield, sleep, wakeup, kill; the locale \<open>lock_field\<close> that
    collapses a critical section; the sleep/wakeup protocol of several threads and the absence of lost wakeups.
  \<^item> Klock, Sleeplock (sleeplock.c): the locale \<open>kernel_lock\<close> of a lock beside the process table and the locale
    \<open>sleeplock_field\<close> of a sleep lock in a larger object, which the buffer cache and the inodes interpret.
  \<^item> Mmu (mmu.h), Kalloc (kalloc.c): page arithmetic, and the free list threaded through memory: never a page given
    out twice, initialisation terminates.
  \<^item> Vm, Pagetable, Vm_Map, Vm_User, Vm_Grow, Vm_Copy, Vm_Props (vm.c): page tables in byte memory, the abstract
    view of an address space as a map from user pages to frames, and the growing, shrinking and copying routines.
  \<^item> Bio, Bio_List, Bio_Cache, Bio_Ops, Bio_Props (bio.c, memide.c): the buffer cache on its prev/next pointers, its
    invariant, the contract its clients use (\<open>bio_view\<close>), and the refinement to a map of blocks.
  \<^item> Ide, Ide_Props (ide.c): the driver of a real disk, over the port instructions of its controller: the queue of requests, and
    that each is served in its turn and its process woken.
  \<^item> Log, Log_Ops, Log_Crash, Log_Tx, Log_Props (log.c, readsb): the redo log, the disk writes of each routine in order,
    what a crash between two of them leaves, and that a transaction survives crashes whole or not at all.
  \<^item> Inode and Fs (fs.c): blocks, inodes, file contents, directories, paths. Fs_Read: the contents of a file through its block
    map, and that readi returns them. Fs_Tx: a block read or changed inside a transaction.
    Fs_Alloc: the bitmap of free blocks, and that balloc and bfree act on it as on a set.
    Fs_Write: bmap and writei with the blocks they allocate, the inode on disk, and that readi returns what writei wrote.
  \<^item> Console (console.c, uart.c, klog_dump), Ring, Pipe and Pipe_Props (pipe.c), File (file.c): the locale
    \<open>fifo\<close> of a ring buffer and its use for pipes.
  \<^item> Proc (proc.c), Syscall (syscall.c, sysproc.c), Exec (exec.c), Sysfile (sysfile.c), Trap (trap.c).
  \<^item> Syscall_Args: the arguments of system calls are taken safely from any user stack. Proc_Fork: what fork leaves to its child. Proc_Props: process
    creation, a pass of the scheduler against arbitrary processes, and what kill(0) does to the next process.
  \<^item> Digits (printint of console.c and printf.c): the digits printed denote the number.
  \<^item> Ucalls (user.h, printf.c), Ulib (ulib.c), Grep (grep.c), Uprogs (cat.c, wc.c, echo.c, kill.c, ln.c, mkdir.c, rm.c,
    ls.c, zombie.c, init.c, klogs.c, sysdash.c): the user library and programs as functions of a record of system calls
    and a world they act on; exit is \<open>Inl\<close>, a loop that does not end is \<open>None\<close>. The matcher of grep decides
    the meaning of its patterns, and grep, cat and wc compute what their names say on a file of any size.
  \<^item> Umalloc, Umalloc_List, Umalloc_Props, Umalloc_Run (umalloc.c): malloc and free on the circular list threaded through
    byte memory. The loops are partial functions; that they end is part of the theorem. Blocks of the program never overlap and
    keep their contents.
  \<^item> Kbd (kbd.c, kbd.h, uart.c): scan codes to characters, and that the keys type what they say.
  \<^item> Sh, Sh_Parse, Sh_Round, Sh_Run (sh.c): the shell. The parser returns on every line, keeps its words inside the line,
    and reads back every written command; a pipeline gets the right descriptors.
  \<^item> Machine: a concrete kernel state on which the properties are evaluated.

  \<^bold>\<open>Choices.\<close> The disk is the one of memide.c (the kernelmemfs build), whose iderw completes at once; the driver ide.c is modelled beside it
  and shown to serve its queue with the same effect. A list walk in
  the buffer cache has fuel 31, one more than the buffers. A loop over the pages of an address space has fuel
  1048577, one more than the pages of 32 bits. Where a routine starts with no lock held, its lemmas assume the saved interrupt flag
  equal to the flag itself (\<open>cpu_ok\<close>), so that a critical section gives back the very same state; Spinlock shows that pushcli brings any
  CPU there (\<open>saved\<close>). User buffers of read and write
  calls are byte lists; the trap frame is a record.

  \<^bold>\<open>Not modelled.\<close> Boot and context-switch assembly, segment and gate descriptors, and the interrupt controllers,
  serial port and multiprocessor tables are sequences of port and register accesses without a value to
  reason about. The test programs (usertests.c, forktest.c, stressfs.c) only exercise the system calls, and
  mkfs.c runs on the build host.
\<close>

end
